(* ===== verification/Go_Prelude.thy ===== *)
theory Go_Prelude
  imports Main "HOL-Library.Word" "HOL-Library.Multiset" "HOL-Library.Monad_Syntax" "HOL-Library.AList"
begin

unbundle bit_operations_syntax

text \<open>
  Shared ground of the development: the machine integers of Go, the outcomes of Go code that
  may panic, the nondeterminism of map iteration, unstable sorting and random draws, slices
  and big-endian encoding.

  A Go function that may panic (index out of range, \<open>close\<close> of a closed channel, explicit
  \<open>panic\<close>) is modelled with result type \<open>'a option\<close>: \<open>None\<close> is the panic, and the
  \<open>do\<close> notation of \<open>Monad_Syntax\<close> threads it.  A Go function that returns an error is
  modelled with a sum type: \<open>Inl\<close> is the error.
\<close>

section \<open>Machine integers\<close>

type_synonym byte = "8 word"
type_synonym u16 = "16 word"
type_synonym u32 = "32 word"
type_synonym u64 = "64 word"
type_synonym i64 = int

named_theorems go_simps \<open>unfolding of small model definitions\<close>
named_theorems inv_intros \<open>preservation of invariants by operations\<close>
named_theorems bounds \<open>bounds of indices and lengths\<close>

lemma unat_u32_less: "unat (x :: u32) < 4294967296"
  using unsigned_less [of x] by simp

lemma unat_of_nat_u32: "n < 4294967296 \<Longrightarrow> unat (of_nat n :: u32) = n"
  by (simp add: unat_of_nat take_bit_nat_eq_self)

lemma unat_minus_u32: "b \<le> a \<Longrightarrow> unat (a - b :: u32) = unat a - unat b"
  by (simp add: unat_sub)

lemma unat_plus_u32: "unat (a :: u32) + unat b < 4294967296 \<Longrightarrow> unat (a + b) = unat a + unat b"
  by (simp add: unat_word_ariths)

text \<open>Every \<open>u32\<close> loop \<open>for i := 0; i < n; i++\<close> runs over this list.\<close>

definition u32_upto :: "u32 \<Rightarrow> u32 list" where
  "u32_upto n = map of_nat [0..<unat n]"

lemma set_u32_upto [simp]: "set (u32_upto n) = {i. i < n}"
proof (rule set_eqI)
  fix i :: u32
  show "i \<in> set (u32_upto n) \<longleftrightarrow> i \<in> {i. i < n}"
  proof
    assume "i \<in> set (u32_upto n)"
    then obtain k where "k < unat n" and i: "i = of_nat k"
      by (auto simp: u32_upto_def)
    moreover have "unat n < 4294967296" by (rule unat_u32_less)
    ultimately show "i \<in> {i. i < n}"
      by (simp add: word_less_nat_alt unat_of_nat_u32)
  next
    assume "i \<in> {i. i < n}"
    then have "unat i < unat n" by (simp add: word_less_nat_alt)
    moreover have "of_nat (unat i) = i" by simp
    ultimately show "i \<in> set (u32_upto n)"
      unfolding u32_upto_def by (metis atLeast0LessThan image_eqI lessThan_iff set_map set_upt)
  qed
qed

lemma length_u32_upto [simp]: "length (u32_upto n) = unat n"
  by (simp add: u32_upto_def)

section \<open>Choices the runtime makes\<close>

text \<open>
  Iteration over a Go map visits its entries in an unspecified order, \<open>sort.Slice\<close> is not
  stable, and \<open>rand.Intn\<close> draws at random.  The model resolves each with a list of numbers,
  the choices; a definition that takes choices is about every run, since every theorem holds
  for all lists of choices, and \<open>shuffle_complete\<close> shows that every order is reached.
\<close>

type_synonym choices = "nat list"

fun draw :: "choices \<Rightarrow> nat \<Rightarrow> nat \<times> choices" where
  "draw [] n = (0, [])"
| "draw (c # cs) n = (c mod n, cs)"

lemma draw_less [simp]: "0 < n \<Longrightarrow> fst (draw cs n) < n"
  by (cases cs) auto

primrec shuffle :: "choices \<Rightarrow> 'a list \<Rightarrow> 'a list \<times> choices" where
  "shuffle cs [] = ([], cs)"
| "shuffle cs (x # xs) =
     (let (ys, cs1) = shuffle cs xs; (i, cs2) = draw cs1 (Suc (length ys))
      in (take i ys @ x # drop i ys, cs2))"

lemma mset_shuffle [simp]: "mset (fst (shuffle cs xs)) = mset xs"
proof (induction xs)
  case (Cons x xs)
  obtain ys cs1 where s: "shuffle cs xs = (ys, cs1)" by fastforce
  with Cons.IH have "mset ys = mset xs" by simp
  moreover have "mset (take i ys) + mset (drop i ys) = mset ys" for i
    by (metis append_take_drop_id mset_append)
  ultimately show ?case
    by (simp add: s split: prod.splits)
qed simp

lemma set_shuffle [simp]: "set (fst (shuffle cs xs)) = set xs"
  by (metis mset_shuffle set_mset_mset)

lemma length_shuffle [simp]: "length (fst (shuffle cs xs)) = length xs"
  by (metis mset_shuffle size_mset)

lemma distinct_shuffle [simp]: "distinct (fst (shuffle cs xs)) = distinct xs"
  by (metis mset_shuffle mset_eq_imp_distinct_iff)

text \<open>Every permutation of the entries is the result of some choices.\<close>

lemma shuffle_complete_aux:
  "mset ys = mset xs \<Longrightarrow> \<exists>cs. \<forall>r. shuffle (cs @ r) xs = (ys, r)"
proof (induction xs arbitrary: ys)
  case Nil
  then show ?case by (intro exI [of _ "[]"]) simp
next
  case (Cons x xs)
  then have "x \<in> set ys" by (metis list.set_intros(1) mset_eq_setD)
  then obtain us vs where ys: "ys = us @ x # vs" by (meson split_list)
  with Cons.prems have "mset (us @ vs) = mset xs" by simp
  from Cons.IH [OF this] obtain cs where cs: "\<And>r. shuffle (cs @ r) xs = (us @ vs, r)" by blast
  have "shuffle ((cs @ [length us]) @ r) (x # xs) = (ys, r)" for r
    by (simp add: cs ys)
  then show ?case by blast
qed

lemma shuffle_complete: "mset ys = mset xs \<Longrightarrow> \<exists>cs. fst (shuffle cs xs) = ys"
  using shuffle_complete_aux [of ys xs] by (metis append_Nil2 fst_conv)

text \<open>\<open>sort.Slice\<close>: the elements in any order, then sorted by the key.\<close>

definition sort_slice :: "('a \<Rightarrow> 'k::linorder) \<Rightarrow> choices \<Rightarrow> 'a list \<Rightarrow> 'a list \<times> choices" where
  "sort_slice k cs xs = (sort_key k (fst (shuffle cs xs)), snd (shuffle cs xs))"

lemma mset_sort_slice [simp]: "mset (fst (sort_slice k cs xs)) = mset xs"
  by (simp add: sort_slice_def)

lemma set_sort_slice [simp]: "set (fst (sort_slice k cs xs)) = set xs"
  by (simp add: sort_slice_def)

lemma length_sort_slice [simp]: "length (fst (sort_slice k cs xs)) = length xs"
  by (simp add: sort_slice_def)

lemma distinct_sort_slice [simp]: "distinct (fst (sort_slice k cs xs)) = distinct xs"
  by (simp add: sort_slice_def)

lemma sorted_sort_slice [simp]: "sorted (map k (fst (sort_slice k cs xs)))"
  by (simp add: sort_slice_def)

section \<open>Slices\<close>

text \<open>\<open>xs[i]\<close>: out of range is a panic.\<close>

definition slice_get :: "'a list \<Rightarrow> nat \<Rightarrow> 'a option" where
  "slice_get xs i = (if i < length xs then Some (xs ! i) else None)"

lemma slice_get_Some_iff [simp]: "slice_get xs i = Some x \<longleftrightarrow> i < length xs \<and> xs ! i = x"
  by (simp add: slice_get_def)

lemma slice_get_in [simp]: "i < length xs \<Longrightarrow> slice_get xs i = Some (xs ! i)"
  by simp

text \<open>\<open>xs[i] = xs[len(xs)-1]; xs = xs[:len(xs)-1]\<close>\<close>

definition swap_remove :: "nat \<Rightarrow> 'a list \<Rightarrow> 'a list" where
  "swap_remove i xs = butlast (xs[i := last xs])"

lemma mset_swap_remove: "i < length xs \<Longrightarrow> mset (swap_remove i xs) = mset xs - {#xs ! i#}"
proof (cases xs rule: rev_cases)
  case (snoc ys y)
  assume i: "i < length xs"
  show ?thesis
  proof (cases "i = length ys")
    case True
    then show ?thesis by (simp add: snoc swap_remove_def)
  next
    case False
    with i snoc have "i < length ys" by simp
    then show ?thesis
      by (simp add: snoc swap_remove_def list_update_append nth_append mset_update nth_mem_mset)
  qed
qed simp

lemma length_swap_remove [simp]: "length (swap_remove i xs) = length xs - 1"
  by (simp add: swap_remove_def)

lemma set_swap_remove:
  assumes "distinct xs" and "i < length xs"
  shows "set (swap_remove i xs) = set xs - {xs ! i}" and "distinct (swap_remove i xs)"
proof -
  from assms have m: "mset (swap_remove i xs) = mset xs - {#xs ! i#}" by (simp add: mset_swap_remove)
  from assms(1) have c: "\<And>x. count (mset xs) x = (if x \<in> set xs then 1 else 0)"
    by (simp add: distinct_count_atmost_1)
  have "x \<in> set (swap_remove i xs) \<longleftrightarrow> x \<in> set xs - {xs ! i}" for x
  proof -
    have "x \<in> set (swap_remove i xs) \<longleftrightarrow> 0 < count (mset (swap_remove i xs)) x" by simp
    also have "\<dots> \<longleftrightarrow> x \<in> set xs - {xs ! i}"
      unfolding m using c [of x] by auto
    finally show ?thesis .
  qed
  then show "set (swap_remove i xs) = set xs - {xs ! i}" by blast
  show "distinct (swap_remove i xs)"
    using assms(1) m by (metis distinct_remove1 mset_eq_imp_distinct_iff mset_remove1)
qed

text \<open>The position of the first entry equal to \<open>x\<close>, the search loop of the slice sets.\<close>

fun index_of :: "'a \<Rightarrow> 'a list \<Rightarrow> nat option" where
  "index_of x [] = None"
| "index_of x (y # ys) = (if y = x then Some 0 else map_option Suc (index_of x ys))"

lemma index_of_None [simp]: "index_of x xs = None \<longleftrightarrow> x \<notin> set xs"
  by (induction xs) auto

lemma index_of_SomeD: "index_of x xs = Some i \<Longrightarrow> i < length xs \<and> xs ! i = x"
  by (induction xs arbitrary: i) (auto split: if_splits)

section \<open>Big-endian encoding\<close>

definition put_u32 :: "u32 \<Rightarrow> byte list" where
  "put_u32 x = [ucast (drop_bit 24 x), ucast (drop_bit 16 x), ucast (drop_bit 8 x), ucast x]"

definition put_u16 :: "u16 \<Rightarrow> byte list" where
  "put_u16 x = [ucast (drop_bit 8 x), ucast x]"

definition get_u32 :: "byte \<Rightarrow> byte \<Rightarrow> byte \<Rightarrow> byte \<Rightarrow> u32" where
  "get_u32 a b c d =
     push_bit 24 (ucast a) OR push_bit 16 (ucast b) OR push_bit 8 (ucast c) OR ucast d"

definition get_u16 :: "byte \<Rightarrow> byte \<Rightarrow> u16" where
  "get_u16 a b = push_bit 8 (ucast a) OR ucast b"

lemma length_put_u32 [simp]: "length (put_u32 x) = 4"
  by (simp add: put_u32_def)

lemma length_put_u16 [simp]: "length (put_u16 x) = 2"
  by (simp add: put_u16_def)

lemma get_put_u32 [simp]:
  "get_u32 (ucast (drop_bit 24 x)) (ucast (drop_bit 16 x)) (ucast (drop_bit 8 x)) (ucast x) = x"
proof (rule bit_word_eqI)
  fix n assume "n < LENGTH(32)"
  then show "bit (get_u32 (ucast (drop_bit 24 x)) (ucast (drop_bit 16 x)) (ucast (drop_bit 8 x)) (ucast x)) n
      = bit x n"
    by (cases "n < 8"; cases "n < 16"; cases "n < 24") (auto simp: get_u32_def bit_simps)
qed

lemma get_put_u16 [simp]: "get_u16 (ucast (drop_bit 8 x)) (ucast x) = x"
proof (rule bit_word_eqI)
  fix n assume "n < LENGTH(16)"
  then show "bit (get_u16 (ucast (drop_bit 8 x)) (ucast x)) n = bit x n"
    by (auto simp: get_u16_def bit_simps)
qed

text \<open>The same on the front of a byte list.\<close>

definition be32 :: "byte list \<Rightarrow> u32" where
  "be32 b = get_u32 (b ! 0) (b ! 1) (b ! 2) (b ! 3)"

definition be16 :: "byte list \<Rightarrow> u16" where
  "be16 b = get_u16 (b ! 0) (b ! 1)"

lemma be32_put [simp]: "be32 (put_u32 x @ r) = x" "be32 (put_u32 x) = x"
  unfolding be32_def put_u32_def by (simp_all add: nth_Cons')

lemma be16_put [simp]: "be16 (put_u16 x @ r) = x" "be16 (put_u16 x) = x"
  unfolding be16_def put_u16_def by (simp_all add: nth_Cons')

section \<open>Blocks of 16 KiB\<close>

text \<open>Block \<open>i\<close> of a buffer of length \<open>L\<close>; the last one may be shorter.\<close>

definition blk :: "nat \<Rightarrow> nat \<Rightarrow> 'a list \<Rightarrow> 'a list" where
  "blk L i buf = take (min 16384 (L - 16384 * i)) (drop (16384 * i) buf)"

lemma slice_overwrite:
  assumes "b + length data \<le> length buf" and "s + n \<le> b \<or> b + length data \<le> s"
  shows "take n (drop s (take b buf @ data @ drop (b + length data) buf)) = take n (drop s buf)"
proof -
  define X where "X = take b buf @ data @ drop (b + length data) buf"
  have len: "length X = length buf" using assms(1) by (simp add: X_def)
  have "X ! k = buf ! k" if "k < length buf" "k < b \<or> b + length data \<le> k" for k
    using that assms(1) by (auto simp: X_def nth_append)
  then have "take n (drop s X) = take n (drop s buf)"
    using len assms(2) by (intro nth_equalityI) auto
  then show ?thesis by (simp only: X_def)
qed

lemma blk_overwrite:
  assumes "length data = min 16384 (L - 16384 * i)" and "16384 * i + length data \<le> length buf"
  shows "blk L j (take (16384 * i) buf @ data @ drop (16384 * i + length data) buf) = (if j = i then data else blk L j buf)"
proof (cases "j = i")
  case True
  then show ?thesis using assms by (simp add: blk_def)
next
  case False
  then have "j < i \<or> i < j" by auto
  then have "16384 * j + min 16384 (L - 16384 * j) \<le> 16384 * i \<or> 16384 * i + length data \<le> 16384 * j"
    using assms(1) by auto
  from slice_overwrite [OF assms(2) this] False show ?thesis by (simp add: blk_def)
qed

lemma concat_blk: "length buf = L \<Longrightarrow> concat (map (\<lambda>i. blk L i buf) [0..<k]) = take (16384 * k) buf"
proof (induction k)
  case (Suc k)
  have "blk L k buf = take 16384 (drop (16384 * k) buf)"
    using Suc.prems by (simp add: blk_def min_def)
  moreover have "take (16384 * Suc k) buf = take (16384 * k) buf @ take 16384 (drop (16384 * k) buf)"
    using take_add [of "16384 * k" 16384 buf] by (simp add: add.commute)
  ultimately show ?case using Suc by simp
qed simp

end
