(* ===== verification/Bitfield.thy ===== *)
theory Bitfield
  imports Go_Prelude
begin

unbundle bit_operations_syntax

text \<open>
  \<open>internal/bitfield/bitfield.go\<close>: a set of piece indices packed into bytes, the first index
  in the most significant bit of the first byte.  The record is the Go struct; \<open>bit_at\<close> reads
  the packed bits and \<open>bf_set\<close> is the abstract set a bitfield stands for.  The operations are
  shown to implement the set operations on it; \<open>bf_ok\<close> is the invariant (the slice has exactly
  \<open>NumBytes(length)\<close> bytes and the unused bits of the last byte are zero), on which \<open>Count\<close> and
  \<open>All\<close> rely.
\<close>

section \<open>Model\<close>

record bitfield =
  bytes :: "byte list"
  bf_length :: u32

definition NumBytes :: "u32 \<Rightarrow> nat" where
  "NumBytes n = unat ((ucast n + 7 :: u64) div 8)"

definition divMod32 :: "u32 \<Rightarrow> u32 \<times> u32" where
  "divMod32 a = (a div 8, a mod 8)"

definition New :: "u32 \<Rightarrow> bitfield" where
  "New n = \<lparr>bytes = replicate (NumBytes n) 0, bf_length = n\<rparr>"

datatype bitfield_error = InvalidLength

definition NewBytes :: "byte list \<Rightarrow> u32 \<Rightarrow> bitfield_error + bitfield" where
  "NewBytes b len =
     (let (dv, md) = divMod32 len;
          lastByteIncomplete = (md \<noteq> 0);
          requiredBytes = (if lastByteIncomplete then dv + 1 else dv)
      in if (of_nat (length b) :: u32) \<noteq> requiredBytes then Inl InvalidLength
         else let b' = (if lastByteIncomplete
                        then b[length b - 1 := b ! (length b - 1) AND NOT (drop_bit (unat md) 255)]
                        else b)
              in Inr \<lparr>bytes = take (unat requiredBytes) b', bf_length = len\<rparr>)"

definition Copy :: "bitfield \<Rightarrow> bitfield" where
  "Copy b = \<lparr>bytes = bytes b, bf_length = bf_length b\<rparr>"

definition Len :: "bitfield \<Rightarrow> u32" where
  "Len b = bf_length b"

definition checkIndex :: "bitfield \<Rightarrow> u32 \<Rightarrow> unit option" where
  "checkIndex b i = (if i \<ge> Len b then None else Some ())"

definition bf_Set :: "bitfield \<Rightarrow> u32 \<Rightarrow> bitfield option" where
  "bf_Set b i = do {
     checkIndex b i;
     let (dv, md) = divMod32 i;
     v \<leftarrow> slice_get (bytes b) (unat dv);
     Some (b\<lparr>bytes := (bytes b)[unat dv := v OR push_bit (unat (7 - md)) 1]\<rparr>)
   }"

definition Clear :: "bitfield \<Rightarrow> u32 \<Rightarrow> bitfield option" where
  "Clear b i = do {
     checkIndex b i;
     let (dv, md) = divMod32 i;
     v \<leftarrow> slice_get (bytes b) (unat dv);
     Some (b\<lparr>bytes := (bytes b)[unat dv := v AND NOT (push_bit (unat (7 - md)) 1)]\<rparr>)
   }"

definition Test :: "bitfield \<Rightarrow> u32 \<Rightarrow> bool option" where
  "Test b i = do {
     checkIndex b i;
     let (dv, md) = divMod32 i;
     v \<leftarrow> slice_get (bytes b) (unat dv);
     Some ((v AND push_bit (unat (7 - md)) 1) > 0)
   }"

definition countCache :: "nat list" where
  "countCache = [
    0, 1, 1, 2, 1, 2, 2, 3, 1, 2, 2, 3, 2, 3, 3, 4,
    1, 2, 2, 3, 2, 3, 3, 4, 2, 3, 3, 4, 3, 4, 4, 5,
    1, 2, 2, 3, 2, 3, 3, 4, 2, 3, 3, 4, 3, 4, 4, 5,
    2, 3, 3, 4, 3, 4, 4, 5, 3, 4, 4, 5, 4, 5, 5, 6,
    1, 2, 2, 3, 2, 3, 3, 4, 2, 3, 3, 4, 3, 4, 4, 5,
    2, 3, 3, 4, 3, 4, 4, 5, 3, 4, 4, 5, 4, 5, 5, 6,
    2, 3, 3, 4, 3, 4, 4, 5, 3, 4, 4, 5, 4, 5, 5, 6,
    3, 4, 4, 5, 4, 5, 5, 6, 4, 5, 5, 6, 5, 6, 6, 7,
    1, 2, 2, 3, 2, 3, 3, 4, 2, 3, 3, 4, 3, 4, 4, 5,
    2, 3, 3, 4, 3, 4, 4, 5, 3, 4, 4, 5, 4, 5, 5, 6,
    2, 3, 3, 4, 3, 4, 4, 5, 3, 4, 4, 5, 4, 5, 5, 6,
    3, 4, 4, 5, 4, 5, 5, 6, 4, 5, 5, 6, 5, 6, 6, 7,
    2, 3, 3, 4, 3, 4, 4, 5, 3, 4, 4, 5, 4, 5, 5, 6,
    3, 4, 4, 5, 4, 5, 5, 6, 4, 5, 5, 6, 5, 6, 6, 7,
    3, 4, 4, 5, 4, 5, 5, 6, 4, 5, 5, 6, 5, 6, 6, 7,
    4, 5, 5, 6, 5, 6, 6, 7, 5, 6, 6, 7, 6, 7, 7, 8]"

definition Count :: "bitfield \<Rightarrow> u32" where
  "Count b = fold (\<lambda>v total. total + of_nat (countCache ! unat v)) (bytes b) 0"

definition All :: "bitfield \<Rightarrow> bool" where
  "All b \<longleftrightarrow> Count b = bf_length b"

section \<open>Abstraction and invariant\<close>

definition bit_at :: "byte list \<Rightarrow> nat \<Rightarrow> bool" where
  "bit_at bs i = bit (bs ! (i div 8)) (7 - i mod 8)"

definition bf_set :: "bitfield \<Rightarrow> nat set" where
  "bf_set b = {i. i < unat (bf_length b) \<and> bit_at (bytes b) i}"

definition bf_ok :: "bitfield \<Rightarrow> bool" where
  "bf_ok b \<longleftrightarrow> length (bytes b) = NumBytes (bf_length b) \<and>
     (\<forall>i. unat (bf_length b) \<le> i \<longrightarrow> i < 8 * NumBytes (bf_length b) \<longrightarrow> \<not> bit_at (bytes b) i)"

lemma NumBytes_eq: "NumBytes n = (unat n + 7) div 8"
proof -
  have u: "unat (ucast n :: u64) = unat n" by (simp add: unsigned_ucast_eq take_bit_nat_eq_self [OF less_trans [OF unat_u32_less]])
  have "unat n + 7 < 2 ^ 64" using unat_u32_less [of n] by simp
  then have "unat (ucast n + 7 :: u64) = unat n + 7"
    by (simp add: unat_word_ariths u)
  then show ?thesis by (simp add: NumBytes_def unat_div)
qed

lemma index_in_bytes [bounds]:
  "length (bytes b) = NumBytes (bf_length b) \<Longrightarrow> i < bf_length b \<Longrightarrow> unat (i div 8) < length (bytes b)"
  by (simp add: NumBytes_eq unat_div word_less_nat_alt)

lemma unat_mod8: "unat (7 - i mod 8 :: u32) = 7 - unat i mod 8"
proof -
  have "i mod 8 \<le> 7" by (simp add: word_le_nat_alt unat_mod)
  then show ?thesis by (simp add: unat_minus_u32 unat_mod)
qed

lemma bit_at_update:
  assumes "i div 8 < length bs"
  shows "bit_at (bs[i div 8 := v]) j = (if j div 8 = i div 8 then bit v (7 - j mod 8) else bit_at bs j)"
  using assms by (simp add: bit_at_def)


lemma div_mod_eq8: "j div 8 = i div 8 \<Longrightarrow> (7 - j mod 8 = 7 - i mod 8) = (j = (i::nat))"
proof -
  assume d: "j div 8 = i div 8"
  have "j mod 8 < 8" and "i mod 8 < 8" by simp_all
  then have "(7 - j mod 8 = 7 - i mod 8) = (j mod 8 = i mod 8)" by arith
  also have "\<dots> = (j = i)" using d by (metis div_mult_mod_eq)
  finally show ?thesis .
qed

lemma and_bit_pos: "(v AND push_bit k 1) > (0 :: byte) \<longleftrightarrow> bit v k"
  by (simp add: word_gt_0 bit_iff_and_push_bit_not_eq_0)

lemma and_bit_pos_pow: "(v AND 2 ^ k) > (0 :: byte) \<longleftrightarrow> bit v k"
  using and_bit_pos [of v k] by simp

section \<open>The operations on the abstract set\<close>

lemma Test_eq:
  assumes "bf_ok b" and "i < Len b"
  shows "Test b i = Some (unat i \<in> bf_set b)"
proof -
  from assms have k: "unat i div 8 < length (bytes b)"
    using index_in_bytes [of b i] by (auto simp: bf_ok_def Len_def unat_div)
  have "unat i < unat (bf_length b)" using assms(2) by (simp add: Len_def word_less_nat_alt)
  with assms(2) k show ?thesis
    by (simp add: Test_def checkIndex_def divMod32_def unat_mod8 bf_set_def bit_at_def unat_div
        and_bit_pos_pow not_le del: word_gt_0)
qed

lemma Test_panic: "Len b \<le> i \<Longrightarrow> Test b i = None"
  by (simp add: Test_def checkIndex_def)

lemma bf_Set_eq:
  assumes "bf_ok b" and "i < Len b"
  shows "\<exists>b'. bf_Set b i = Some b' \<and> bf_ok b' \<and> Len b' = Len b \<and> bf_set b' = insert (unat i) (bf_set b)"
proof -
  let ?k = "unat i div 8"
  define v where "v = bytes b ! ?k OR push_bit (7 - unat i mod 8) 1"
  let ?b = "b\<lparr>bytes := (bytes b)[?k := v]\<rparr>"
  from assms have k: "?k < length (bytes b)"
    using index_in_bytes [of b i] by (auto simp: bf_ok_def Len_def unat_div)
  have i: "unat i < unat (bf_length b)" using assms(2) by (simp add: Len_def word_less_nat_alt)
  have set: "bf_Set b i = Some ?b"
    using assms(2) k by (simp add: bf_Set_def checkIndex_def divMod32_def unat_mod8 unat_div v_def)
  have bit: "bit_at ((bytes b)[?k := v]) j = (j = unat i \<or> bit_at (bytes b) j)" for j
  proof (cases "j div 8 = ?k")
    case True
    then show ?thesis
      using k by (auto simp: bit_at_def bit_simps div_mod_eq8 [OF True] v_def)
  next
    case False
    then show ?thesis using k by (auto simp: bit_at_def)
  qed
  have "bf_ok ?b" using assms(1) i by (auto simp: bf_ok_def bit)
  moreover have "bf_set ?b = insert (unat i) (bf_set b)"
    using i by (auto simp: bf_set_def bit)
  ultimately show ?thesis using set by (simp add: Len_def)
qed

lemma Clear_eq:
  assumes "bf_ok b" and "i < Len b"
  shows "\<exists>b'. Clear b i = Some b' \<and> bf_ok b' \<and> Len b' = Len b \<and> bf_set b' = bf_set b - {unat i}"
proof -
  let ?k = "unat i div 8"
  define v where "v = bytes b ! ?k AND NOT (push_bit (7 - unat i mod 8) 1)"
  let ?b = "b\<lparr>bytes := (bytes b)[?k := v]\<rparr>"
  from assms have k: "?k < length (bytes b)"
    using index_in_bytes [of b i] by (auto simp: bf_ok_def Len_def unat_div)
  have clr: "Clear b i = Some ?b"
    using assms(2) k by (simp add: Clear_def checkIndex_def divMod32_def unat_mod8 unat_div v_def)
  have bit: "bit_at ((bytes b)[?k := v]) j = (j \<noteq> unat i \<and> bit_at (bytes b) j)" for j
  proof (cases "j div 8 = ?k")
    case True
    then show ?thesis
      using k by (auto simp: bit_at_def bit_simps div_mod_eq8 [OF True] v_def)
  next
    case False
    then show ?thesis using k by (auto simp: bit_at_def)
  qed
  have "bf_ok ?b" using assms(1) by (auto simp: bf_ok_def bit)
  moreover have "bf_set ?b = bf_set b - {unat i}" by (auto simp: bf_set_def bit)
  ultimately show ?thesis using clr by (simp add: Len_def)
qed

lemma bf_ok_New [inv_intros]: "bf_ok (New n)"
  by (auto simp: bf_ok_def New_def bit_at_def)

lemma Len_New [simp]: "Len (New n) = n"
  by (simp add: Len_def New_def)

lemma bf_set_New [simp]: "bf_set (New n) = {}"
proof -
  have "i div 8 < NumBytes n" if "i < unat n" for i
    using that by (simp add: NumBytes_eq)
  then show ?thesis by (auto simp: bf_set_def New_def bit_at_def)
qed


section \<open>Counting\<close>

definition popcount :: "byte \<Rightarrow> nat" where
  "popcount v = card {i. i < 8 \<and> bit v i}"

lemma popcount_sum: "popcount v = (\<Sum>i<8. unat v div 2 ^ i mod 2)"
proof -
  have bit: "bit v i \<longleftrightarrow> unat v div 2 ^ i mod 2 = 1" if "i < 8" for i
  proof -
    have "bit v i \<longleftrightarrow> bit (unat v) i" using that by (simp add: bit_unsigned_iff)
    also have "\<dots> \<longleftrightarrow> unat v div 2 ^ i mod 2 = 1"
      by (simp only: bit_iff_odd odd_iff_mod_2_eq_one)
    finally show ?thesis .
  qed
  have "popcount v = (\<Sum>i | i < 8 \<and> bit v i. 1)" by (simp add: popcount_def)
  also have "\<dots> = (\<Sum>i<8. unat v div 2 ^ i mod 2)"
    by (rule sum.mono_neutral_cong_left) (auto simp: bit)
  finally show ?thesis .
qed

definition popcount_nat :: "nat \<Rightarrow> nat" where
  "popcount_nat n = n mod 2 + n div 2 mod 2 + n div 4 mod 2 + n div 8 mod 2 +
     n div 16 mod 2 + n div 32 mod 2 + n div 64 mod 2 + n div 128 mod 2"

lemma countCache_table: "map popcount_nat [0..<256] = countCache"
  by (simp add: upt_rec [of 0] upt_rec [of "Suc 0"] upt_rec_numeral numeral_2_eq_2 [symmetric]
      countCache_def popcount_nat_def)

lemma countCache_popcount: "countCache ! unat v = popcount v"
proof -
  have "unat v < 256" using unsigned_less [of v] by simp
  then have "map popcount_nat [0..<256] ! unat v = popcount_nat (unat v)"
    by (subst nth_map_upt) simp_all
  then have "countCache ! unat v = popcount_nat (unat v)"
    by (simp only: countCache_table)
  also have "\<dots> = popcount v"
    by (simp add: popcount_sum popcount_nat_def lessThan_nat_numeral)
  finally show ?thesis .
qed

lemma card_bits_snoc:
  "card {i. i < 8 * Suc (length bs) \<and> bit_at (bs @ [v]) i} =
   card {i. i < 8 * length bs \<and> bit_at bs i} + popcount v"
proof -
  let ?A = "{i. i < 8 * length bs \<and> bit_at bs i}"
  let ?B = "(\<lambda>j. 8 * length bs + (7 - j)) ` {j. j < 8 \<and> bit v j}"
  have "{i. i < 8 * Suc (length bs) \<and> bit_at (bs @ [v]) i} = ?A \<union> ?B"
  proof (rule set_eqI)
    fix i
    show "i \<in> {i. i < 8 * Suc (length bs) \<and> bit_at (bs @ [v]) i} \<longleftrightarrow> i \<in> ?A \<union> ?B"
    proof (cases "i < 8 * length bs")
      case True
      then have "i div 8 < length bs" by arith
      with True show ?thesis by (auto simp: bit_at_def nth_append)
    next
      case False
      then obtain j where i: "i = 8 * length bs + j" by (metis le_Suc_ex not_less)
      have "i \<in> ?B \<longleftrightarrow> j < 8 \<and> bit v (7 - j)"
      proof
        assume "i \<in> ?B"
        then obtain x where x: "x < 8" "bit v x" and "8 * length bs + j = 8 * length bs + (7 - x)"
          unfolding i by blast
        then have "j = 7 - x" by arith
        with x show "j < 8 \<and> bit v (7 - j)" by simp
      next
        assume "j < 8 \<and> bit v (7 - j)"
        then show "i \<in> ?B" unfolding i by (intro image_eqI [where x = "7 - j"]) auto
      qed
      with i show ?thesis by (auto simp: bit_at_def nth_append)
    qed
  qed
  moreover have "?A \<inter> ?B = {}" by auto
  moreover have "card ?B = popcount v"
    unfolding popcount_def by (rule card_image) (auto simp: inj_on_def)
  ultimately show ?thesis by (simp add: card_Un_disjoint)
qed

lemma card_bits: "card {i. i < 8 * length bs \<and> bit_at bs i} = (\<Sum>v\<leftarrow>bs. popcount v)"
proof (induction bs rule: rev_induct)
  case (snoc v bs)
  then show ?case using card_bits_snoc [of bs v] by simp
qed simp

lemma Count_sum: "Count b = of_nat (\<Sum>v\<leftarrow>bytes b. popcount v)"
proof -
  have "fold (\<lambda>v total. total + of_nat (countCache ! unat v)) vs (acc :: u32) =
      acc + of_nat (\<Sum>v\<leftarrow>vs. popcount v)" for vs acc
    by (induction vs arbitrary: acc) (simp_all add: countCache_popcount add.assoc)
  then show ?thesis by (simp add: Count_def)
qed

lemma finite_bf_set [simp]: "finite (bf_set b)"
  by (rule finite_subset [of _ "{..<unat (bf_length b)}"]) (auto simp: bf_set_def)

lemma card_bf_set_le [bounds]: "card (bf_set b) \<le> unat (bf_length b)"
proof -
  have "card (bf_set b) \<le> card {..<unat (bf_length b)}"
    by (rule card_mono) (auto simp: bf_set_def)
  then show ?thesis by simp
qed

lemma bf_set_bytes: "bf_ok b \<Longrightarrow> bf_set b = {i. i < 8 * length (bytes b) \<and> bit_at (bytes b) i}"
  by (auto simp: bf_ok_def bf_set_def NumBytes_eq not_less intro: ccontr)

lemma Count_eq: "bf_ok b \<Longrightarrow> unat (Count b) = card (bf_set b)"
proof -
  assume ok: "bf_ok b"
  have "card (bf_set b) < 4294967296"
    using card_bf_set_le [of b] unat_u32_less [of "bf_length b"] by linarith
  moreover have "Count b = of_nat (card (bf_set b))"
    by (simp add: Count_sum bf_set_bytes [OF ok] card_bits)
  ultimately show ?thesis by (simp add: unat_of_nat_u32)
qed

lemma bf_set_full_iff: "bf_set b = {..<unat (Len b)} \<longleftrightarrow> card (bf_set b) = unat (Len b)"
proof
  assume "card (bf_set b) = unat (Len b)"
  moreover have "bf_set b \<subseteq> {..<unat (Len b)}" by (auto simp: bf_set_def Len_def)
  ultimately show "bf_set b = {..<unat (Len b)}"
    by (intro card_subset_eq) simp_all
qed simp

lemma All_eq: "bf_ok b \<Longrightarrow> All b \<longleftrightarrow> bf_set b = {..<unat (Len b)}"
proof -
  assume ok: "bf_ok b"
  have "All b \<longleftrightarrow> unat (Count b) = unat (Len b)"
    unfolding All_def Len_def by (rule word_unat_eq_iff)
  with Count_eq [OF ok] show ?thesis by (simp add: bf_set_full_iff)
qed

section \<open>Reading a received bitfield\<close>

lemma unat_of_nat_len:
  "n < 4294967296 \<Longrightarrow> (of_nat n :: u32) = m \<longleftrightarrow> n = unat m"
  by (auto simp: unat_of_nat_u32)

lemma required_bytes:
  fixes n :: u32
  shows "unat (if n mod 8 \<noteq> 0 then n div 8 + 1 else n div 8) = NumBytes n"
proof -
  have "unat n < 4294967296" by (rule unat_u32_less)
  then have "unat (n div 8) + unat (1 :: u32) < 4294967296" by (simp add: unat_div)
  then have s: "unat (n div 8 + 1) = unat n div 8 + 1" by (simp add: unat_plus_u32 unat_div)
  have m: "n mod 8 = 0 \<longleftrightarrow> unat n mod 8 = 0"
    by (simp add: word_unat_eq_iff unat_mod)
  have c: "(k + 7) div 8 = (if k mod 8 = 0 then k div 8 else k div 8 + 1)" for k :: nat
  proof -
    have "k + 7 = 8 * (k div 8) + (k mod 8 + 7)" by simp
    then have "(k + 7) div 8 = k div 8 + (k mod 8 + 7) div 8"
      by (metis div_mult_self4 zero_neq_numeral)
    moreover have "k mod 8 < 8" by simp
    ultimately show ?thesis by (auto simp: div_if)
  qed
  show ?thesis unfolding NumBytes_eq c using s m by (simp add: unat_div)
qed

text \<open>A received payload is accepted exactly when its length fits the number of pieces.\<close>

lemma NewBytes_Inl_iff:
  "length b < 4294967296 \<Longrightarrow> NewBytes b n = Inl InvalidLength \<longleftrightarrow> length b \<noteq> NumBytes n"
  using required_bytes [of n] unat_of_nat_len [of "length b"]
  by (auto simp: NewBytes_def divMod32_def Let_def)

lemma bit_mask_byte:
  assumes "k < 8" and "m < 8"
  shows "bit (drop_bit m 255 :: byte) (7 - k) \<longleftrightarrow> m \<le> k"
proof -
  have "(255 :: byte) = mask 8" by (simp add: mask_eq_exp_minus_1)
  then have "bit (drop_bit m 255 :: byte) (7 - k) \<longleftrightarrow> bit (mask 8 :: byte) (m + (7 - k))"
    by (simp only: bit_drop_bit_eq o_apply)
  also have "\<dots> \<longleftrightarrow> m \<le> k" using assms by (simp only: bit_mask_iff) auto
  finally show ?thesis .
qed

lemma bit_at_mask:
  assumes "bs \<noteq> []" and "m < 8" and "i < 8 * length bs"
  shows "bit_at (bs[length bs - 1 := bs ! (length bs - 1) AND NOT (drop_bit m 255)]) i \<longleftrightarrow>
    bit_at bs i \<and> \<not> (length bs - 1 = i div 8 \<and> m \<le> i mod 8)"
proof (cases "length bs - 1 = i div 8")
  case True
  have c: "bit (drop_bit m 255 :: byte) (7 - i mod 8) \<longleftrightarrow> m \<le> i mod 8"
    using assms(2) by (simp only: bit_mask_byte mod_less_divisor zero_less_numeral)
  have "bit_at (bs[i div 8 := bs ! (i div 8) AND NOT c]) i \<longleftrightarrow> bit_at bs i \<and> \<not> bit c (7 - i mod 8)" for c
  proof -
    have "7 - i mod 8 < 8" by arith
    with assms show ?thesis by (simp add: bit_at_def bit_and_iff bit_not_iff)
  qed
  from this [of "drop_bit m 255"] c True show ?thesis by simp
next
  case False
  with assms show ?thesis by (auto simp: bit_at_def)
qed

lemma last_byte_index:
  fixes i n :: nat
  assumes "i < 8 * ((n + 7) div 8)" and "n mod 8 \<noteq> 0"
  shows "\<not> ((n + 7) div 8 - 1 = i div 8 \<and> n mod 8 \<le> i mod 8) \<longleftrightarrow> i < n"
proof -
  define q m a c where "q = n div 8" and "m = n mod 8" and "a = i div 8" and "c = i mod 8"
  have n: "n = 8 * q + m" "0 < m" "m < 8" using assms(2) by (simp_all add: q_def m_def)
  have i: "i = 8 * a + c" "c < 8" by (simp_all add: a_def c_def)
  have d: "(n + 7) div 8 = q + 1" using n by simp
  with assms(1) i have "a \<le> q" by simp
  with n i have "\<not> (q = a \<and> m \<le> c) \<longleftrightarrow> i < n" by auto
  with d show ?thesis by (simp add: m_def a_def c_def)
qed

lemma NewBytes_Inr:
  assumes "length b < 4294967296" and "length b = NumBytes n"
  shows "NewBytes b n = Inr \<lparr>bytes = (if n mod 8 \<noteq> 0
      then b[length b - 1 := b ! (length b - 1) AND NOT (drop_bit (unat n mod 8) 255)] else b),
    bf_length = n\<rparr>"
proof -
  let ?r = "if n mod 8 \<noteq> 0 then n div 8 + 1 else n div 8"
  have r: "unat ?r = length b" by (simp only: required_bytes assms(2))
  then have "(of_nat (length b) :: u32) = ?r"
    unfolding unat_of_nat_len [OF assms(1)] by (rule sym)
  with r show ?thesis unfolding NewBytes_def divMod32_def Let_def
    by (simp add: unat_mod)
qed

lemma NewBytes_eq:
  assumes "length b < 4294967296" and "length b = NumBytes n"
  shows "\<exists>f. NewBytes b n = Inr f \<and> bf_ok f \<and> Len f = n \<and>
    bf_set f = {i. i < unat n \<and> bit_at b i}"
proof -
  let ?m = "unat n mod 8"
  define b' where "b' = (if n mod 8 \<noteq> 0
    then b[length b - 1 := b ! (length b - 1) AND NOT (drop_bit ?m 255)] else b)"
  have len: "length b' = NumBytes n" using assms by (simp add: b'_def)
  have nb: "NewBytes b n = Inr \<lparr>bytes = b', bf_length = n\<rparr>"
    unfolding b'_def by (rule NewBytes_Inr [OF assms])
  have bits: "bit_at b' i \<longleftrightarrow> bit_at b i \<and> i < unat n" if i: "i < 8 * NumBytes n" for i
  proof (cases "?m = 0")
    case True
    then have "n mod 8 = 0" by (simp add: word_unat_eq_iff unat_mod)
    moreover have "8 * ((unat n + 7) div 8) = unat n" using True by auto
    ultimately show ?thesis using i by (simp add: b'_def NumBytes_eq)
  next
    case False
    then have n8: "n mod 8 \<noteq> 0" by (auto simp: word_unat_eq_iff unat_mod)
    have ne: "b \<noteq> []" using assms(2) False by (auto simp: NumBytes_eq)
    have "\<not> (length b - 1 = i div 8 \<and> ?m \<le> i mod 8) \<longleftrightarrow> i < unat n"
      using last_byte_index [of i "unat n"] i False assms(2) by (simp add: NumBytes_eq)
    moreover have "bit_at b' i \<longleftrightarrow> bit_at b i \<and> \<not> (length b - 1 = i div 8 \<and> ?m \<le> i mod 8)"
    proof -
      have "b' = b[length b - 1 := b ! (length b - 1) AND NOT (drop_bit ?m 255)]"
        using n8 by (simp only: b'_def if_True not_False_eq_True)
      then show ?thesis using bit_at_mask [OF ne _ i [folded assms(2)], of ?m] by simp
    qed
    ultimately show ?thesis by blast
  qed
  have "bf_ok \<lparr>bytes = b', bf_length = n\<rparr>" using len bits by (auto simp: bf_ok_def)
  moreover have "bf_set \<lparr>bytes = b', bf_length = n\<rparr> = {i. i < unat n \<and> bit_at b i}"
    using bits by (auto simp: bf_set_def NumBytes_eq)
  ultimately show ?thesis using nb by (simp add: Len_def)
qed

section \<open>The interface the torrent uses\<close>

locale bitmap =
  fixes mk :: "u32 \<Rightarrow> 'b"
    and len :: "'b \<Rightarrow> u32"
    and put :: "'b \<Rightarrow> u32 \<Rightarrow> 'b option"
    and test :: "'b \<Rightarrow> u32 \<Rightarrow> bool option"
    and full :: "'b \<Rightarrow> bool"
    and ok :: "'b \<Rightarrow> bool"
    and abs :: "'b \<Rightarrow> nat set"
  assumes ok_mk: "ok (mk n)"
    and len_mk: "len (mk n) = n"
    and abs_mk: "abs (mk n) = {}"
    and put_spec: "ok b \<Longrightarrow> i < len b \<Longrightarrow>
      \<exists>b'. put b i = Some b' \<and> ok b' \<and> len b' = len b \<and> abs b' = insert (unat i) (abs b)"
    and test_spec: "ok b \<Longrightarrow> i < len b \<Longrightarrow> test b i = Some (unat i \<in> abs b)"
    and full_spec: "ok b \<Longrightarrow> full b \<longleftrightarrow> abs b = {..<unat (len b)}"
begin

text \<open>\<open>for _, i := range is { b.Set(i) }\<close>\<close>

primrec put_list :: "u32 list \<Rightarrow> 'b \<Rightarrow> 'b option" where
  "put_list [] b = Some b"
| "put_list (i # is) b = Option.bind (put b i) (put_list is)"

lemma put_list_spec:
  "ok b \<Longrightarrow> \<forall>i\<in>set is. i < len b \<Longrightarrow>
    \<exists>b'. put_list is b = Some b' \<and> ok b' \<and> len b' = len b \<and> abs b' = abs b \<union> unat ` set is"
proof (induction "is" arbitrary: b)
  case (Cons i "is")
  then obtain b1 where "put b i = Some b1" "ok b1" "len b1 = len b" "abs b1 = insert (unat i) (abs b)"
    using put_spec [of b i] by auto
  with Cons.IH [of b1] Cons.prems show ?case by auto
qed simp

lemma put_all_full: "\<exists>b. put_list (u32_upto n) (mk n) = Some b \<and> ok b \<and> len b = n \<and> full b"
proof -
  obtain b where b: "put_list (u32_upto n) (mk n) = Some b" "ok b" "len b = n"
    "abs b = unat ` {i. i < n}"
    using put_list_spec [of "mk n" "u32_upto n"] by (auto simp: ok_mk len_mk abs_mk)
  have "unat ` {i. i < n} = {..<unat n}"
  proof
    show "{..<unat n} \<subseteq> unat ` {i. i < n}"
    proof
      fix k assume "k \<in> {..<unat n}"
      then have "unat (of_nat k :: u32) = k" and "k < unat n"
        using unat_u32_less [of n] by (auto intro: unat_of_nat_u32)
      then show "k \<in> unat ` {i. i < n}"
        by (intro image_eqI [of _ _ "of_nat k"]) (auto simp: word_less_nat_alt)
    qed
  qed (auto simp: word_less_nat_alt)
  with b show ?thesis by (simp add: full_spec)
qed

lemma full_test: "ok b \<Longrightarrow> full b \<Longrightarrow> i < len b \<Longrightarrow> test b i = Some True"
  by (simp add: test_spec full_spec word_less_nat_alt)

end

interpretation bf: bitmap New Len bf_Set Test All bf_ok bf_set
proof
  show "bf_ok b \<Longrightarrow> i < Len b \<Longrightarrow>
      \<exists>b'. bf_Set b i = Some b' \<and> bf_ok b' \<and> Len b' = Len b \<and> bf_set b' = insert (unat i) (bf_set b)"
    for b i by (rule bf_Set_eq)
qed (simp_all add: bf_ok_New Test_eq All_eq)

section \<open>Properties\<close>

text \<open>
  C21: A bitfield is a set of indices.  On a well-formed bitfield and an index in range,
  \<open>Set\<close> adds the index, \<open>Clear\<close> removes it, both keep the length and the well-formedness (the
  spare bits of the last byte stay zero), \<open>Test\<close> answers membership, \<open>Count\<close> is the cardinality
  (no \<open>u32\<close> overflow) and \<open>All\<close> says that the set is full.
\<close>

theorem bitfield_is_a_set:
  assumes "bf_ok b" and "i < Len b"
  shows "(\<exists>b'. bf_Set b i = Some b' \<and> bf_ok b' \<and> Len b' = Len b \<and> bf_set b' = insert (unat i) (bf_set b)) \<and>
    (\<exists>b'. Clear b i = Some b' \<and> bf_ok b' \<and> Len b' = Len b \<and> bf_set b' = bf_set b - {unat i}) \<and>
    Test b i = Some (unat i \<in> bf_set b) \<and>
    unat (Count b) = card (bf_set b) \<and>
    (All b \<longleftrightarrow> bf_set b = {..<unat (Len b)})"
  using bf_Set_eq [OF assms] Clear_eq [OF assms] Test_eq [OF assms] Count_eq [OF assms(1)] All_eq [OF assms(1)]
  by blast

theorem bitfield_is_a_set_witness:
  "(\<exists>b'. bf_Set (New 10) 9 = Some b' \<and> bf_set b' = {9}) \<and> Test (New 10) 9 = Some False"
proof -
  have "9 < Len (New 10)" by simp
  from bitfield_is_a_set [OF bf_ok_New this] show ?thesis by auto
qed

text \<open>
  C22: Reading a bitfield received from a peer.  \<open>NewBytes\<close> accepts exactly the byte strings of
  the length the piece count needs; the result is well-formed, holds bit \<open>i\<close> of the input for
  every index below the piece count, and the spare bits of the last byte are cleared.  Any other length is an error: the
  comment on \<open>NewBytes\<close>, that it panics when the bytes are not enough, does not describe the code, which returns \<open>invalid length\<close> for
  too few and for too many.
\<close>

theorem received_bitfield:
  assumes "length bs < 2 ^ 32"
  shows "if length bs = (unat n + 7) div 8
    then \<exists>b. NewBytes bs n = Inr b \<and> bf_ok b \<and> Len b = n \<and> bf_set b = {i. i < unat n \<and> bit_at bs i}
    else NewBytes bs n = Inl InvalidLength"
  using NewBytes_Inl_iff [of bs n] NewBytes_eq [of bs n] assms by (simp add: NumBytes_eq)

theorem received_bitfield_witness:
  "(\<exists>b. NewBytes [255, 255] 10 = Inr b \<and> bf_set b = {i. i < 10 \<and> bit_at [255, 255] i}) \<and>
   NewBytes [255] 10 = Inl InvalidLength"
  using received_bitfield [of "[255, 255]" 10] received_bitfield [of "[255]" 10] by auto

end
