(* ===== verification/Metainfo.thy ===== *)
theory Metainfo
  imports Go_Prelude
begin

unbundle bit_operations_syntax

text \<open>
  \<open>internal/metainfo/info.go\<close>: the info dictionary of a torrent.  \<open>NewInfo\<close> validates the decoded
  dictionary, \<open>cleanName\<close> and its helpers sanitise file names, \<open>calculatePieceLength\<close> chooses the
  piece size and \<open>hash_files\<close> is the hashing loop of \<open>NewInfoBytes\<close>.

  Parameters: \<open>decode\<close> is the bencode decoder (zeebo/bencode, third party) and \<open>sha1\<close> the digest
  of \<open>crypto/sha1\<close>.  Go strings are byte strings: \<open>string\<close> with one \<open>char\<close> a byte.
\<close>

section \<open>UTF-8 validity, as the \<open>unicode/utf8\<close> package decides it\<close>

definition is_cont :: "char \<Rightarrow> bool" where
  "is_cont c \<longleftrightarrow> 128 \<le> (of_char c :: nat) \<and> (of_char c :: nat) < 192"

definition in_range :: "nat \<Rightarrow> nat \<Rightarrow> char \<Rightarrow> bool" where
  "in_range lo hi c \<longleftrightarrow> lo \<le> (of_char c :: nat) \<and> (of_char c :: nat) \<le> hi"

text \<open>The length of the valid encoding at the front of a non-empty string, 0 if there is none.\<close>

definition rune_len :: "string \<Rightarrow> nat" where
  "rune_len s = (case s of
     [] \<Rightarrow> 0
   | a # r \<Rightarrow>
      (let n = (of_char a :: nat) in
       if n < 128 then 1
       else if in_range 194 223 a then (case r of b # _ \<Rightarrow> if is_cont b then 2 else 0 | _ \<Rightarrow> 0)
       else if in_range 224 239 a then
         (case r of b # c # _ \<Rightarrow>
            if (if n = 224 then in_range 160 191 b else if n = 237 then in_range 128 159 b else is_cont b)
               \<and> is_cont c then 3 else 0
          | _ \<Rightarrow> 0)
       else if in_range 240 244 a then
         (case r of b # c # d # _ \<Rightarrow>
            if (if n = 240 then in_range 144 191 b else if n = 244 then in_range 128 143 b else is_cont b)
               \<and> is_cont c \<and> is_cont d then 4 else 0
          | _ \<Rightarrow> 0)
       else 0))"

text \<open>\<open>strings.ToValidUTF8\<close>: each run of invalid bytes becomes one replacement.\<close>

function to_valid_utf8_from :: "bool \<Rightarrow> string \<Rightarrow> string \<Rightarrow> string" where
  "to_valid_utf8_from invalid rep s =
     (if s = [] then []
      else if rune_len s = 0
      then (if invalid then [] else rep) @ to_valid_utf8_from True rep (tl s)
      else take (rune_len s) s @ to_valid_utf8_from False rep (drop (rune_len s) s))"
  by pat_completeness auto
termination by (relation "measure (\<lambda>(_, _, s). length s)") auto

declare to_valid_utf8_from.simps [simp del]

definition ToValidUTF8 :: "string \<Rightarrow> string \<Rightarrow> string" where
  "ToValidUTF8 s rep = to_valid_utf8_from False rep s"

text \<open>The encoding of \<open>unicode.ReplacementChar\<close>.\<close>

definition replacement_char :: string where
  "replacement_char = [char_of (239 :: nat), char_of (191 :: nat), char_of (189 :: nat)]"

section \<open>File names\<close>

text \<open>\<open>path.Ext\<close>: the suffix from the last dot of the last slash-separated element.\<close>

fun ext_rev :: "string \<Rightarrow> string \<Rightarrow> string" where
  "ext_rev [] acc = []"
| "ext_rev (c # cs) acc =
     (if c = CHR ''/'' then [] else if c = CHR ''.'' then c # acc else ext_rev cs (c # acc))"

definition path_Ext :: "string \<Rightarrow> string" where
  "path_Ext s = ext_rev (rev s) []"

definition trimName :: "string \<Rightarrow> nat \<Rightarrow> string" where
  "trimName s mx =
     (if length s \<le> mx then s
      else let ext = path_Ext s in
        if length ext > mx then take mx s
        else take (mx - length ext) s @ ext)"

definition replaceSeparator :: "string \<Rightarrow> string" where
  "replaceSeparator s = map (\<lambda>r. if r = CHR ''/'' then CHR ''_'' else r) s"

definition cleanNameN :: "string \<Rightarrow> nat \<Rightarrow> string" where
  "cleanNameN s mx =
     (let s = ToValidUTF8 s replacement_char;
          s = trimName s mx;
          s = ToValidUTF8 s []
      in replaceSeparator s)"

definition cleanName :: "string \<Rightarrow> string" where
  "cleanName s = cleanNameN s 255"

text \<open>
  \<open>filepath.Join\<close> on elements without a separator, which is what \<open>cleanName\<close> returns: empty
  elements are ignored, \<open>.\<close> is dropped and \<open>..\<close> removes the element before it (\<open>Clean\<close>).
\<close>

fun clean_push :: "string list \<Rightarrow> string \<Rightarrow> string list" where
  "clean_push st e =
     (if e = ''.'' then st
      else if e = ''..'' then
        (case st of [] \<Rightarrow> [e] | x # st' \<Rightarrow> if x = ''..'' then e # st else st')
      else e # st)"

definition clean_elems :: "string list \<Rightarrow> string list" where
  "clean_elems es = rev (foldl clean_push [] (filter (\<lambda>e. e \<noteq> []) es))"

fun join_slash :: "string list \<Rightarrow> string" where
  "join_slash [] = []"
| "join_slash [e] = e"
| "join_slash (e # es) = e @ CHR ''/'' # join_slash es"

definition filepath_Join :: "string list \<Rightarrow> string" where
  "filepath_Join es =
     (if filter (\<lambda>e. e \<noteq> []) es = [] then []
      else let c = clean_elems es in if c = [] then ''.'' else join_slash c)"

text \<open>
  \<open>strings.TrimSpace\<close>: the white space of \<open>unicode.IsSpace\<close>, by its encodings of one, two and
  three bytes.
\<close>

definition space1 :: "nat \<Rightarrow> bool" where
  "space1 a \<longleftrightarrow> a = 32 \<or> (9 \<le> a \<and> a \<le> 13)"

definition space2 :: "nat \<Rightarrow> nat \<Rightarrow> bool" where
  "space2 a b \<longleftrightarrow> a = 194 \<and> (b = 133 \<or> b = 160)"

definition space3 :: "nat \<Rightarrow> nat \<Rightarrow> nat \<Rightarrow> bool" where
  "space3 a b c \<longleftrightarrow>
     (a = 225 \<and> b = 154 \<and> c = 128) \<or>
     (a = 226 \<and> b = 128 \<and> ((128 \<le> c \<and> c \<le> 138) \<or> c = 168 \<or> c = 169 \<or> c = 175)) \<or>
     (a = 226 \<and> b = 129 \<and> c = 159) \<or>
     (a = 227 \<and> b = 128 \<and> c = 128)"

fun trim_left :: "string \<Rightarrow> string" where
  "trim_left (a # b # c # s) =
     (if space1 (of_char a) then trim_left (b # c # s)
      else if space2 (of_char a) (of_char b) then trim_left (c # s)
      else if space3 (of_char a) (of_char b) (of_char c) then trim_left s
      else a # b # c # s)"
| "trim_left [a, b] =
     (if space1 (of_char a) then trim_left [b]
      else if space2 (of_char a) (of_char b) then [] else [a, b])"
| "trim_left [a] = (if space1 (of_char a) then [] else [a])"
| "trim_left [] = []"

fun trim_right_rev :: "string \<Rightarrow> string" where
  "trim_right_rev (c # b # a # s) =
     (if space1 (of_char c) then trim_right_rev (b # a # s)
      else if space2 (of_char b) (of_char c) then trim_right_rev (a # s)
      else if space3 (of_char a) (of_char b) (of_char c) then trim_right_rev s
      else c # b # a # s)"
| "trim_right_rev [b, a] =
     (if space1 (of_char b) then trim_right_rev [a]
      else if space2 (of_char a) (of_char b) then [] else [b, a])"
| "trim_right_rev [a] = (if space1 (of_char a) then [] else [a])"
| "trim_right_rev [] = []"

definition TrimSpace :: "string \<Rightarrow> string" where
  "TrimSpace s = rev (trim_right_rev (rev (trim_left s)))"

section \<open>The info dictionary\<close>

record info_file =
  f_Length :: int
  f_Path :: "string list"

text \<open>\<open>struct ib\<close>, what the decoder fills in; \<open>private\<close> is a raw bencoded value.\<close>

datatype private_value = PrivAbsent | PrivInt int | PrivString string | PrivOther

record info_dict =
  ib_PieceLength :: u32
  ib_Pieces :: "byte list"
  ib_Name :: string
  ib_Private :: private_value
  ib_Length :: int
  ib_Files :: "info_file list"

record File =
  Length :: int
  Path :: string

record Info =
  PieceLength :: u32
  Name :: string
  Hash :: "byte list"
  info_Length :: int
  NumPieces :: u32
  Bytes :: "byte list"
  Private :: bool
  Files :: "File list"
  pieces :: "byte list"

datatype info_error = ErrDecode | ErrZeroPieceLength | ErrInvalidPieceData | ErrZeroPieces
  | ErrInvalidFileName | ErrTooManyPieces

definition parsePrivateField :: "private_value \<Rightarrow> bool" where
  "parsePrivateField p =
     (case p of PrivAbsent \<Rightarrow> False
      | PrivInt i \<Rightarrow> i \<noteq> 0
      | PrivString s \<Rightarrow> \<not> (s = [] \<or> s = ''0'')
      | PrivOther \<Rightarrow> True)"

text \<open>\<open>int64\<close> arithmetic wraps around.\<close>

definition wrap64 :: "int \<Rightarrow> int" where
  "wrap64 x = (x + 2 ^ 63) mod 2 ^ 64 - 2 ^ 63"

definition hex_digit :: "nat \<Rightarrow> char" where
  "hex_digit n = ''0123456789abcdef'' ! n"

definition EncodeToString :: "byte list \<Rightarrow> string" where
  "EncodeToString bs = concat (map (\<lambda>b. [hex_digit (unat b div 16), hex_digit (unat b mod 16)]) bs)"

definition file_path :: "string \<Rightarrow> string list \<Rightarrow> string" where
  "file_path name path = filepath_Join (cleanName name # map cleanName path)"

definition NewInfo ::
  "(byte list \<Rightarrow> info_dict option) \<Rightarrow> (byte list \<Rightarrow> byte list) \<Rightarrow> byte list \<Rightarrow> info_error + Info" where
  "NewInfo decode sha1 b =
     (case decode b of None \<Rightarrow> Inl ErrDecode
      | Some ib \<Rightarrow>
        if ib_PieceLength ib = 0 then Inl ErrZeroPieceLength
        else if length (ib_Pieces ib) mod 20 \<noteq> 0 then Inl ErrInvalidPieceData
        else let numPieces = length (ib_Pieces ib) div 20 in
        if numPieces = 0 then Inl ErrZeroPieces
        else if (\<exists>f \<in> set (ib_Files ib). \<exists>p \<in> set (f_Path f). TrimSpace p = ''..'')
        then Inl ErrInvalidFileName
        else let
          multiFile = (ib_Files ib \<noteq> []);
          len = (if multiFile then foldl (\<lambda>acc f. wrap64 (acc + f_Length f)) 0 (ib_Files ib) else ib_Length ib);
          np = (of_nat numPieces :: u32);
          totalPieceDataLength = wrap64 (int (unat (ib_PieceLength ib)) * int (unat np));
          delta = wrap64 (totalPieceDataLength - len)
        in if delta \<ge> int (unat (ib_PieceLength ib)) \<or> delta < 0 then Inl ErrInvalidPieceData
        else let
          h = sha1 b;
          name = (if ib_Name ib \<noteq> [] then ib_Name ib else EncodeToString h);
          files = (if multiFile
                   then map (\<lambda>f. \<lparr>Length = f_Length f, Path = file_path name (f_Path f)\<rparr>) (ib_Files ib)
                   else [\<lparr>Length = len, Path = cleanName name\<rparr>])
        in Inr \<lparr>PieceLength = ib_PieceLength ib, Name = name, Hash = h, info_Length = len,
                NumPieces = np, Bytes = b, Private = parsePrivateField (ib_Private ib),
                Files = files, pieces = ib_Pieces ib\<rparr>)"

text \<open>\<open>i.pieces[begin:end]\<close> with \<open>u32\<close> arithmetic; a slice out of range panics.\<close>

definition PieceHash :: "Info \<Rightarrow> u32 \<Rightarrow> byte list option" where
  "PieceHash i index =
     (let b = index * 20; e = b + 20 in
      if unat b \<le> unat e \<and> unat e \<le> length (pieces i)
      then Some (take (unat e - unat b) (drop (unat b) (pieces i))) else None)"

text \<open>\<open>Session.parseInfo\<close> (filechain/session_load.go) adds the configured bound.\<close>

definition parseInfo ::
  "(byte list \<Rightarrow> info_dict option) \<Rightarrow> (byte list \<Rightarrow> byte list) \<Rightarrow> u32 \<Rightarrow> byte list \<Rightarrow> info_error + Info" where
  "parseInfo decode sha1 maxPieces b =
     (case NewInfo decode sha1 b of Inl e \<Rightarrow> Inl e
      | Inr i \<Rightarrow> if NumPieces i > maxPieces then Inl ErrTooManyPieces else Inr i)"

section \<open>Creating a torrent\<close>

definition round_pow2 :: "u32 \<Rightarrow> u32" where
  "round_pow2 v0 =
     (let v = v0 - 1;
          v = v OR drop_bit 1 v;
          v = v OR drop_bit 2 v;
          v = v OR drop_bit 4 v;
          v = v OR drop_bit 8 v;
          v = v OR drop_bit 16 v
      in v + 1)"

text \<open>\<open>totalLength\<close> is a sum of file sizes, so not negative: \<open>div\<close> is Go's division.\<close>

definition calculatePieceLength :: "int \<Rightarrow> u32" where
  "calculatePieceLength totalLength =
     (let pieceLength = totalLength div 2000 in
      if pieceLength < 32768 then 32768
      else if pieceLength > 16777216 then 16777216
      else round_pow2 (of_int pieceLength))"

text \<open>
  The hashing loop of \<open>NewInfoBytes\<close>: \<open>buf\<close> collects the bytes of the files one after the other
  and is hashed whenever it is full.  \<open>io.ReadFull\<close> into the rest of the buffer either fills it
  or ends the file; an empty read at the end of a file is \<open>EOF\<close>.  The buffer is never full
  between reads, so the case of an empty rest does not arise.
\<close>

function read_file :: "(byte list \<Rightarrow> byte list) \<Rightarrow> nat \<Rightarrow> byte list \<Rightarrow> byte list \<Rightarrow> byte list \<Rightarrow> byte list \<times> byte list" where
  "read_file sha1 pl content buf pcs =
     (let want = pl - length buf in
      if length content < want \<or> want = 0 then (buf @ content, pcs)
      else read_file sha1 pl (drop want content) [] (pcs @ sha1 (buf @ take want content)))"
  by pat_completeness auto
termination
  by (relation "measure (\<lambda>(_, pl, content, _). length content)") auto

declare read_file.simps [simp del]

fun hash_files :: "(byte list \<Rightarrow> byte list) \<Rightarrow> nat \<Rightarrow> byte list list \<Rightarrow> byte list \<Rightarrow> byte list \<Rightarrow> byte list" where
  "hash_files sha1 pl [] buf pcs = (if buf \<noteq> [] then pcs @ sha1 buf else pcs)"
| "hash_files sha1 pl (f # fs) buf pcs =
     (let (buf', pcs') = read_file sha1 pl f buf pcs in hash_files sha1 pl fs buf' pcs')"

text \<open>
  \<open>NewInfoBytes\<close>.  A path argument stands for what the file system has under it: its base name,
  whether it is a directory, and the regular files \<open>filepath.Walk\<close> visits, in order, each with
  its elements relative to the root and its content.  Failing I/O is left out.  The result is
  the dictionary that \<open>bencode.EncodeBytes\<close> then serialises.
\<close>

record path_arg =
  pa_Base :: string
  pa_IsDir :: bool
  pa_files :: "(string list \<times> byte list) list"

record created_dict =
  cd_Name :: string
  cd_Private :: bool
  cd_PieceLength :: u32
  cd_Pieces :: "byte list"
  cd_Length :: int
  cd_Files :: "info_file list"

datatype create_error = ErrNoPath | ErrNoRoot | ErrNoName | ErrNoFiles | ErrPieceLength

definition findTotalLength :: "path_arg list \<Rightarrow> int" where
  "findTotalLength paths =
     foldl (\<lambda>n p. foldl (\<lambda>n f. wrap64 (n + int (length (snd f)))) n (pa_files p)) 0 paths"

definition NewInfoBytes ::
  "(byte list \<Rightarrow> byte list) \<Rightarrow> string \<Rightarrow> path_arg list \<Rightarrow> bool \<Rightarrow> u32 \<Rightarrow> string \<Rightarrow> create_error + created_dict"
where
  "NewInfoBytes sha1 root paths private pieceLength name =
     (case (case paths of
              [] \<Rightarrow> Inl ErrNoPath
            | [p] \<Rightarrow> Inr (if name = [] then pa_Base p else name, \<not> pa_IsDir p)
            | _ \<Rightarrow> if root = [] then Inl ErrNoRoot else if name = [] then Inl ErrNoName
                   else Inr (name, False)) of
        Inl e \<Rightarrow> Inl e
      | Inr (name', singleFileTorrent) \<Rightarrow>
        let totalLength = findTotalLength paths in
        if totalLength = 0 then Inl ErrNoFiles
        else if pieceLength \<noteq> 0 \<and> pieceLength mod (16 * 1024) \<noteq> 0 then Inl ErrPieceLength
        else let
          pl = (if pieceLength = 0 then calculatePieceLength totalLength else pieceLength);
          visited = concat (map pa_files paths);
          files = map (\<lambda>f. \<lparr>f_Length = int (length (snd f)), f_Path = fst f\<rparr>) visited;
          pcs = hash_files sha1 (unat pl) (map snd visited) [] []
        in Inr \<lparr>cd_Name = name', cd_Private = private, cd_PieceLength = pl, cd_Pieces = pcs,
                cd_Length = (if singleFileTorrent then totalLength else 0),
                cd_Files = (if singleFileTorrent then [] else files)\<rparr>)"

section \<open>Properties of the piece length\<close>

lemma smear_step:
  fixes y :: "'a::len word"
  assumes "\<And>i. bit y i \<longleftrightarrow> (\<exists>d<n. bit x (i + d))"
  shows "bit (y OR drop_bit n y) i \<longleftrightarrow> (\<exists>d<2 * n. bit x (i + d))"
proof -
  have "(\<exists>d<2 * n. bit x (i + d)) \<longleftrightarrow> (\<exists>d<n. bit x (i + d)) \<or> (\<exists>d<n. bit x (n + i + d))"
  proof
    assume "\<exists>d<2 * n. bit x (i + d)"
    then obtain d where d: "d < 2 * n" "bit x (i + d)" by blast
    show "(\<exists>d<n. bit x (i + d)) \<or> (\<exists>d<n. bit x (n + i + d))"
    proof (cases "d < n")
      case False
      then have "n + i + (d - n) = i + d" and "d - n < n" using d(1) by auto
      with d(2) show ?thesis by metis
    qed (use d in blast)
  next
    assume "(\<exists>d<n. bit x (i + d)) \<or> (\<exists>d<n. bit x (n + i + d))"
    then show "\<exists>d<2 * n. bit x (i + d)"
    proof
      assume "\<exists>d<n. bit x (n + i + d)"
      then obtain d where "d < n" "bit x (i + (n + d))" by (auto simp: ac_simps)
      then show ?thesis by (intro exI [of _ "n + d"]) auto
    qed force
  qed
  then show ?thesis by (simp add: bit_or_iff bit_drop_bit_eq assms)
qed

text \<open>The five shifts fill every bit below the highest one, so adding one gives a power of two.\<close>

lemma smear_all:
  fixes x :: u32
  defines "v1 \<equiv> x OR drop_bit 1 x"
  defines "v2 \<equiv> v1 OR drop_bit 2 v1"
  defines "v4 \<equiv> v2 OR drop_bit 4 v2"
  defines "v8 \<equiv> v4 OR drop_bit 8 v4"
  defines "v16 \<equiv> v8 OR drop_bit 16 v8"
  shows "bit v16 i \<longleftrightarrow> (\<exists>j\<ge>i. bit x j)"
proof -
  have 0: "bit x i \<longleftrightarrow> (\<exists>d<1. bit x (i + d))" for i by simp
  have 1: "bit v1 i \<longleftrightarrow> (\<exists>d<2. bit x (i + d))" for i
    using smear_step [of x 1 x i, OF 0] by (simp add: v1_def)
  have 2: "bit v2 i \<longleftrightarrow> (\<exists>d<4. bit x (i + d))" for i
    using smear_step [of v1 2 x i, OF 1] by (simp add: v2_def)
  have 4: "bit v4 i \<longleftrightarrow> (\<exists>d<8. bit x (i + d))" for i
    using smear_step [of v2 4 x i, OF 2] by (simp add: v4_def)
  have 8: "bit v8 i \<longleftrightarrow> (\<exists>d<16. bit x (i + d))" for i
    using smear_step [of v4 8 x i, OF 4] by (simp add: v8_def)
  have "bit v16 i \<longleftrightarrow> (\<exists>d<32. bit x (i + d))"
    using smear_step [of v8 16 x i, OF 8] by (simp add: v16_def)
  also have "\<dots> \<longleftrightarrow> (\<exists>j\<ge>i. bit x j)"
  proof
    assume "\<exists>j\<ge>i. bit x j"
    then obtain j where j: "i \<le> j" "bit x j" by blast
    then have "j < 32" using bit_imp_le_length [of x j] by simp
    with j show "\<exists>d<32. bit x (i + d)" by (intro exI [of _ "j - i"]) auto
  next
    assume "\<exists>d<32. bit x (i + d)"
    then show "\<exists>j\<ge>i. bit x j" by (metis le_add1)
  qed
  finally show ?thesis .
qed

lemma round_pow2_eq:
  assumes "2 ^ k < unat v" and "unat v \<le> 2 ^ Suc k" and "k < 31"
  shows "round_pow2 v = 2 ^ Suc k"
proof -
  let ?x = "v - 1"
  have v: "1 \<le> v" using assms(1) by (simp add: word_le_nat_alt) 
  then have x: "unat ?x = unat v - 1" by (simp add: unat_minus_u32)
  have hi: "\<not> bit ?x j" if "k < j" for j
  proof -
    have "unat ?x < 2 ^ Suc k" using x assms by simp
    also have "\<dots> \<le> 2 ^ j" using that by (intro power_increasing) simp_all
    finally have "\<not> bit (unat ?x) j" by (simp add: bit_iff_odd)
    then show ?thesis using bit_imp_le_length [of ?x j] by (auto simp: bit_unsigned_iff)
  qed
  have "bit (unat ?x) k"
  proof -
    have "unat ?x div 2 ^ k = 1"
      using x assms(1,2) by (intro div_nat_eqI) simp_all
    then show ?thesis by (simp add: bit_iff_odd)
  qed
  then have lo: "bit ?x k" by (simp add: bit_unsigned_iff)
  have "(\<exists>j\<ge>i. bit ?x j) \<longleftrightarrow> i < Suc k" for i
    using lo hi by (metis less_Suc_eq_le not_less order_trans)
  then have "round_pow2 v = mask (Suc k) + 1"
  proof -
    assume *: "\<And>i. (\<exists>j\<ge>i. bit ?x j) \<longleftrightarrow> i < Suc k"
    have "w = mask (Suc k)" if "\<And>i. bit w i \<longleftrightarrow> (\<exists>j\<ge>i. bit ?x j)" for w :: u32
      using that assms(3) by (intro bit_word_eqI) (simp only: * bit_mask_iff, auto)
    from this [OF smear_all [of ?x]] show ?thesis by (simp only: round_pow2_def Let_def)
  qed
  also have "\<dots> = 2 ^ Suc k" by (simp add: mask_eq_exp_minus_1)
  finally show ?thesis .
qed

lemma calculatePieceLength_cases:
  assumes "0 \<le> n"
  obtains k where "15 \<le> k" "k \<le> 24" "calculatePieceLength n = 2 ^ k"
    "k < 24 \<Longrightarrow> n div 2000 \<le> 2 ^ k" "15 < k \<Longrightarrow> 2 ^ (k - 1) < n div 2000"
proof -
  let ?p = "n div 2000"
  have p0: "0 \<le> ?p" using assms by simp
  consider "?p \<le> 32768" | "32768 < ?p" "?p \<le> 16777216" | "16777216 < ?p" by linarith
  then show ?thesis
  proof cases
    case 1
    have "calculatePieceLength n = 2 ^ 15"
    proof (cases "?p = 32768")
      case True
      have "round_pow2 32768 = 2 ^ Suc 14" by (rule round_pow2_eq) simp_all
      with True show ?thesis by (simp add: calculatePieceLength_def)
    next
      case False
      with 1 show ?thesis by (simp add: calculatePieceLength_def)
    qed
    with 1 show ?thesis by (intro that [of 15]) simp_all
  next
    case 2
    define m where "m = nat ?p"
    have m: "2 ^ 15 < m" "m \<le> 2 ^ 24" and mp: "int m = ?p" using 2 by (simp_all add: m_def)
    define k where "k = (LEAST k. m \<le> 2 ^ k)"
    have k: "m \<le> 2 ^ k" unfolding k_def by (rule LeastI [of _ 24]) (use m in simp)
    have min: "2 ^ j < m" if "j < k" for j
      using not_less_Least [of j "\<lambda>k. m \<le> 2 ^ k"] that by (simp add: k_def)
    have k24: "k \<le> 24" unfolding k_def by (rule Least_le) (use m in simp)
    have k15: "15 < k"
    proof (rule ccontr)
      assume "\<not> 15 < k"
      then have "(2::nat) ^ k \<le> 2 ^ 15" by (intro power_increasing) simp_all
      with k m show False by simp
    qed
    then obtain j where j: "k = Suc j" by (cases k) auto
    have um: "unat (of_int ?p :: u32) = m"
    proof -
      have "m < 4294967296" using m by simp
      moreover have "(of_int ?p :: u32) = of_nat m" by (simp flip: mp)
      ultimately show ?thesis by (simp add: unat_of_nat_u32)
    qed
    have "round_pow2 (of_int ?p) = 2 ^ Suc j"
      by (rule round_pow2_eq) (use um k min [of j] j k24 in auto)
    then have "calculatePieceLength n = 2 ^ k" using 2 j by (simp add: calculatePieceLength_def)
    moreover have "?p \<le> 2 ^ k" using k mp by (metis of_nat_le_iff of_nat_numeral of_nat_power)
    moreover have "2 ^ (k - 1) < ?p" using min [of "k - 1"] k15 mp
      by (metis diff_less of_nat_less_iff of_nat_numeral of_nat_power less_numeral_extra(1) gr0I not_less_zero)
    ultimately show ?thesis using k15 k24 by (intro that [of k]) simp_all
  next
    case 3
    then have "calculatePieceLength n = 2 ^ 24" by (simp add: calculatePieceLength_def)
    with 3 show ?thesis by (intro that [of 24]) simp_all
  qed
qed

section \<open>Properties of the hashing loop\<close>

function chunks :: "nat \<Rightarrow> 'a list \<Rightarrow> 'a list list" where
  "chunks n xs = (if xs = [] \<or> n = 0 then [] else take n xs # chunks n (drop n xs))"
  by pat_completeness auto
termination by (relation "measure (\<lambda>(n, xs). length xs)") auto

declare chunks.simps [simp del]

lemma chunks_Nil [simp]: "chunks n [] = []"
  by (simp add: chunks.simps)

lemma chunks_full: "0 < n \<Longrightarrow> length xs = n \<Longrightarrow> chunks n (xs @ ys) = xs # chunks n ys"
  by (subst chunks.simps) auto

lemma chunks_short: "xs \<noteq> [] \<Longrightarrow> length xs < n \<Longrightarrow> chunks n xs = [xs]"
  by (subst chunks.simps) simp

lemma concat_chunks: "0 < n \<Longrightarrow> concat (chunks n xs) = xs"
  by (induction n xs rule: chunks.induct) (subst chunks.simps, auto)

lemma read_file_spec:
  assumes "0 < pl" and "length buf < pl"
  shows "length (fst (read_file sha1 pl content buf pcs)) < pl \<and>
    (\<forall>rest. snd (read_file sha1 pl content buf pcs) @
        concat (map sha1 (chunks pl (fst (read_file sha1 pl content buf pcs) @ rest))) =
      pcs @ concat (map sha1 (chunks pl (buf @ content @ rest))))"
  using assms
proof (induction sha1 pl content buf pcs rule: read_file.induct)
  case (1 sha1 pl content buf pcs)
  let ?w = "pl - length buf"
  show ?case
  proof (cases "length content < ?w")
    case True
    then have "read_file sha1 pl content buf pcs = (buf @ content, pcs)"
      by (simp add: read_file.simps [of sha1 pl content buf pcs])
    with True show ?thesis by simp
  next
    case False
    with "1.prems" have step: "read_file sha1 pl content buf pcs =
        read_file sha1 pl (drop ?w content) [] (pcs @ sha1 (buf @ take ?w content))"
      by (simp add: read_file.simps [of sha1 pl content buf pcs] Let_def)
    have "\<not> (length content < ?w \<or> ?w = 0)" using False "1.prems" by simp
    from "1.IH" [OF refl this] "1.prems"
    have IH: "length (fst (read_file sha1 pl content buf pcs)) < pl"
      "\<And>rest. snd (read_file sha1 pl content buf pcs) @
          concat (map sha1 (chunks pl (fst (read_file sha1 pl content buf pcs) @ rest))) =
        (pcs @ sha1 (buf @ take ?w content)) @ concat (map sha1 (chunks pl (drop ?w content @ rest)))"
      by (simp_all add: step)
    have "chunks pl (buf @ content @ rest) = (buf @ take ?w content) # chunks pl (drop ?w content @ rest)" for rest
    proof -
      have eq: "(buf @ take ?w content) @ drop ?w content @ rest = buf @ content @ rest"
        by (metis append_assoc append_take_drop_id)
      have "chunks pl ((buf @ take ?w content) @ drop ?w content @ rest) =
          (buf @ take ?w content) # chunks pl (drop ?w content @ rest)"
        by (rule chunks_full) (use False "1.prems" in auto)
      then show ?thesis by (simp only: eq)
    qed
    with IH show ?thesis by simp
  qed
qed

lemma hash_files_spec:
  assumes "0 < pl" and "length buf < pl"
  shows "hash_files sha1 pl fs buf pcs = pcs @ concat (map sha1 (chunks pl (buf @ concat fs)))"
  using assms(2)
proof (induction fs arbitrary: buf pcs)
  case Nil
  then show ?case by (cases "buf = []") (simp_all add: chunks_short)
next
  case (Cons f fs)
  obtain buf' pcs' where r: "read_file sha1 pl f buf pcs = (buf', pcs')" by fastforce
  with read_file_spec [OF assms(1) Cons.prems, of sha1 f pcs] have
    "length buf' < pl"
    "\<And>rest. pcs' @ concat (map sha1 (chunks pl (buf' @ rest))) = pcs @ concat (map sha1 (chunks pl (buf @ f @ rest)))"
    by simp_all
  with Cons.IH [of buf' pcs'] show ?case by (simp add: r)
qed

section \<open>Properties of cleaned names\<close>

lemma length_to_valid_utf8_aux: "rep = [] \<Longrightarrow> length (to_valid_utf8_from bad rep s) \<le> length s"
proof (induction bad rep s rule: to_valid_utf8_from.induct)
  case (1 bad rep s)
  consider "s = []" | "s \<noteq> []" "rune_len s = 0" | "s \<noteq> []" "rune_len s \<noteq> 0" by blast
  then show ?case
  proof cases
    case 2
    with "1.IH"(1) "1.prems" have "length (to_valid_utf8_from True [] (tl s)) \<le> length (tl s)" by simp
    with 2 "1.prems" show ?thesis by (subst to_valid_utf8_from.simps) simp
  next
    case 3
    with "1.IH"(2) "1.prems" have
      "length (to_valid_utf8_from False [] (drop (rune_len s) s)) \<le> length s - rune_len s" by simp
    with 3 "1.prems" show ?thesis by (subst to_valid_utf8_from.simps) simp
  qed (simp add: to_valid_utf8_from.simps)
qed

lemmas length_to_valid_utf8 = length_to_valid_utf8_aux [OF refl]

lemma length_trimName: "length (trimName s mx) \<le> mx"
  by (simp add: trimName_def Let_def)

lemma length_cleanNameN: "length (cleanNameN s mx) \<le> mx"
  unfolding cleanNameN_def Let_def replaceSeparator_def ToValidUTF8_def
  by (simp add: order_trans [OF length_to_valid_utf8 length_trimName])

lemma cleanNameN_no_separator: "CHR ''/'' \<notin> set (cleanNameN s mx)"
  by (auto simp: cleanNameN_def Let_def replaceSeparator_def split: if_splits)

section \<open>Properties of accepted dictionaries\<close>

lemma wrap64_id: "- (2 ^ 63) \<le> x \<Longrightarrow> x < 2 ^ 63 \<Longrightarrow> wrap64 x = x"
  by (simp add: wrap64_def)

lemma NewInfo_InrE:
  assumes "NewInfo decode sha1 b = Inr i"
  obtains ib where "decode b = Some ib" "PieceLength i = ib_PieceLength ib" "PieceLength i \<noteq> 0"
    "pieces i = ib_Pieces ib" "length (pieces i) mod 20 = 0" "length (pieces i) div 20 \<noteq> 0"
    "NumPieces i = of_nat (length (pieces i) div 20)" "Hash i = sha1 b" "Bytes i = b"
    "0 \<le> wrap64 (wrap64 (int (unat (PieceLength i)) * int (unat (NumPieces i))) - info_Length i)"
    "wrap64 (wrap64 (int (unat (PieceLength i)) * int (unat (NumPieces i))) - info_Length i)
       < int (unat (PieceLength i))"
    "Files i \<noteq> []"
  using assms that by (auto simp: NewInfo_def Let_def split: option.splits if_splits)

lemma PieceHash_chunk:
  assumes "length (pieces i) = 20 * n" and "20 * n < 4294967296" and "unat k < n"
  shows "PieceHash i k = Some (take 20 (drop (20 * unat k) (pieces i)))"
proof -
  have "20 * unat k + 20 \<le> 20 * n" using assms(3) by simp
  moreover have b: "unat (k * 20) = 20 * unat k"
    using calculation assms(2) by (simp add: unat_word_ariths)
  moreover have "unat (k * 20 + 20) = 20 * unat k + 20"
    using calculation assms(2) by (simp add: unat_word_ariths b)
  ultimately show ?thesis using assms(1) by (simp add: PieceHash_def Let_def)
qed

text \<open>
  The total length is the sum of the file lengths, as long as no length is negative and the sum
  fits in an \<open>int64\<close>; the decoder does not rule a negative length out.
\<close>

lemma foldl_wrap64:
  "0 \<le> acc \<Longrightarrow> \<forall>f\<in>set fs. 0 \<le> f_Length f \<Longrightarrow> acc + sum_list (map f_Length fs) < 2 ^ 63 \<Longrightarrow>
    foldl (\<lambda>acc f. wrap64 (acc + f_Length f)) acc fs = acc + sum_list (map f_Length fs)"
proof (induction fs arbitrary: acc)
  case (Cons f fs)
  have "0 \<le> sum_list (map f_Length fs)" using Cons.prems(2) by (intro sum_list_nonneg) auto
  then have "wrap64 (acc + f_Length f) = acc + f_Length f"
    using Cons.prems by (intro wrap64_id) auto
  then show ?case using Cons by (simp add: add.assoc)
qed simp

definition sizes_ok :: "Info \<Rightarrow> bool" where
  "sizes_ok i \<longleftrightarrow> (\<forall>f\<in>set (Files i). 0 \<le> Length f) \<and> sum_list (map Length (Files i)) < 2 ^ 63 \<and>
     length (pieces i) < 4294967296"

lemma int_pred_mult: "(x - 1) * y = y * x - (y :: int)"
  by (simp add: algebra_simps)

lemma NewInfo_sizes:
  assumes n: "NewInfo decode sha1 b = Inr i" and ok: "sizes_ok i"
  shows "info_Length i = sum_list (map Length (Files i))"
    and "int (unat (NumPieces i) - 1) * int (unat (PieceLength i)) < info_Length i"
    and "info_Length i \<le> int (unat (NumPieces i)) * int (unat (PieceLength i))"
    and "length (pieces i) = 20 * unat (NumPieces i)"
proof -
  let ?N = "unat (NumPieces i)" and ?PL = "unat (PieceLength i)"
  obtain ib where "decode b = Some ib" "PieceLength i \<noteq> 0" "length (pieces i) mod 20 = 0"
    "length (pieces i) div 20 \<noteq> 0" "NumPieces i = of_nat (length (pieces i) div 20)"
    and d: "0 \<le> wrap64 (wrap64 (int ?PL * int ?N) - info_Length i)"
      "wrap64 (wrap64 (int ?PL * int ?N) - info_Length i) < int ?PL"
    using n by (rule NewInfo_InrE)
  have "length (pieces i) div 20 < 4294967296"
    using ok by (auto simp: sizes_ok_def intro: le_less_trans [OF div_le_dividend])
  then have N: "?N = length (pieces i) div 20"
    using \<open>NumPieces i = _\<close> by (simp add: unat_of_nat_u32)
  then show len: "length (pieces i) = 20 * ?N"
    using \<open>length (pieces i) mod 20 = 0\<close> by (simp add: minus_mod_eq_mult_div [symmetric])
  have nonneg: "0 \<le> sum_list (map Length (Files i))"
    using ok by (intro sum_list_nonneg) (auto simp: sizes_ok_def)
  show L: "info_Length i = sum_list (map Length (Files i))"
  proof (cases "ib_Files ib = []")
    case True
    then show ?thesis using n \<open>decode b = Some ib\<close>
      by (auto simp: NewInfo_def Let_def split: if_splits)
  next
    case False
    then have F: "map Length (Files i) = map f_Length (ib_Files ib)" and
      l: "info_Length i = foldl (\<lambda>acc f. wrap64 (acc + f_Length f)) 0 (ib_Files ib)"
      using n \<open>decode b = Some ib\<close> by (auto simp: NewInfo_def Let_def split: if_splits)
    have "\<forall>x\<in>set (map Length (Files i)). 0 \<le> x" using ok by (auto simp: sizes_ok_def)
    then have "\<forall>f\<in>set (ib_Files ib). 0 \<le> f_Length f" unfolding F by auto
    moreover have "sum_list (map f_Length (ib_Files ib)) < 2 ^ 63" using ok F by (simp add: sizes_ok_def)
    ultimately show ?thesis unfolding l F using foldl_wrap64 [of 0 "ib_Files ib"] by simp
  qed
  have N1: "1 \<le> ?N" using N \<open>length (pieces i) div 20 \<noteq> 0\<close> by simp
  have "?PL * ?N < 4294967296 * 214748365"
    using unat_u32_less [of "PieceLength i"] ok len by (intro mult_strict_mono') (auto simp: sizes_ok_def)
  then have "?PL * ?N < 2 ^ 63" by simp
  then have "int ?PL * int ?N < 2 ^ 63" by (simp only: of_nat_less_numeral_power_cancel_iff flip: of_nat_mult)
  moreover define P where "P = int ?PL * int ?N"
  ultimately have P: "P < 2 ^ 63" "0 \<le> P" by (simp_all only: P_def of_nat_0_le_iff zero_le_mult_iff simp_thms)
  have w: "wrap64 P = P" using P by (intro wrap64_id) linarith+
  have "info_Length i < 2 ^ 63" using ok unfolding L by (simp add: sizes_ok_def)
  then have "wrap64 (P - info_Length i) = P - info_Length i"
    using P nonneg L by (intro wrap64_id) linarith+
  then have e: "0 \<le> P - info_Length i" "P - info_Length i < int ?PL"
    using d w unfolding P_def [symmetric] by simp_all
  have "int (?N - 1) * int ?PL = P - int ?PL"
    using N1 unfolding P_def by (simp only: of_nat_diff of_nat_1) (rule int_pred_mult)
  then show "int (?N - 1) * int ?PL < info_Length i" using e by linarith
  show "info_Length i \<le> int ?N * int ?PL" using e unfolding P_def by (simp only: mult.commute)
qed

section \<open>A created torrent is accepted\<close>

text \<open>What the decoder gives back for the created dictionary; a bool is encoded as an integer.\<close>

definition dict_of :: "created_dict \<Rightarrow> info_dict" where
  "dict_of cd = \<lparr>ib_PieceLength = cd_PieceLength cd, ib_Pieces = cd_Pieces cd, ib_Name = cd_Name cd,
     ib_Private = PrivInt (if cd_Private cd then 1 else 0), ib_Length = cd_Length cd, ib_Files = cd_Files cd\<rparr>"

lemma sel_dict_of:
  "ib_PieceLength (dict_of cd) = cd_PieceLength cd" "ib_Pieces (dict_of cd) = cd_Pieces cd"
  "ib_Private (dict_of cd) = PrivInt (if cd_Private cd then 1 else 0)" "ib_Length (dict_of cd) = cd_Length cd"
  "ib_Files (dict_of cd) = cd_Files cd"
  by (simp_all add: dict_of_def)

definition created_content :: "path_arg list \<Rightarrow> byte list" where
  "created_content paths = concat (map snd (concat (map pa_files paths)))"

lemma findTotalLength_eq:
  assumes "int (length (created_content paths)) < 2 ^ 63"
  shows "findTotalLength paths = int (length (created_content paths))"
proof -
  have w: "wrap64 (n + int m) = n + int m" if "0 \<le> n" "n + int m < 2 ^ 63" for n m
    using that by (intro wrap64_id) auto
  have inner: "foldl (\<lambda>n f. wrap64 (n + int (length (snd f)))) n fs = n + int (length (concat (map snd fs)))"
    if "0 \<le> n" "n + int (length (concat (map snd fs))) < 2 ^ 63" for n and fs :: "(string list \<times> byte list) list"
    using that
  proof (induction fs arbitrary: n)
    case (Cons f fs)
    then have "wrap64 (n + int (length (snd f))) = n + int (length (snd f))" by (intro w) auto
    then show ?case using Cons by simp
  qed simp
  have "foldl (\<lambda>n p. foldl (\<lambda>n f. wrap64 (n + int (length (snd f)))) n (pa_files p)) n ps =
      n + int (length (created_content ps))"
    if "0 \<le> n" "n + int (length (created_content ps)) < 2 ^ 63" for n ps
    using that
  proof (induction ps arbitrary: n)
    case (Cons p ps)
    then have "foldl (\<lambda>n f. wrap64 (n + int (length (snd f)))) n (pa_files p) =
        n + int (length (concat (map snd (pa_files p))))"
      by (intro inner) (simp_all add: created_content_def)
    then show ?case using Cons by (simp add: created_content_def)
  qed (simp add: created_content_def)
  from this [of 0 paths] show ?thesis using assms by (simp add: findTotalLength_def)
qed

lemma length_chunks:
  assumes "0 < n"
  shows "length xs \<le> n * length (chunks n xs)" and "xs \<noteq> [] \<Longrightarrow> n * (length (chunks n xs) - 1) < length xs"
    and "chunks n xs = [] \<longleftrightarrow> xs = []"
proof -
  have "length xs \<le> n * length (chunks n xs) \<and> (xs \<noteq> [] \<longrightarrow> n * (length (chunks n xs) - 1) < length xs) \<and>
      (chunks n xs = [] \<longleftrightarrow> xs = [])"
    using assms
  proof (induction n xs rule: chunks.induct)
    case (1 n xs)
    show ?case
    proof (cases "xs = []")
      case False
      then have c: "chunks n xs = take n xs # chunks n (drop n xs)" using 1(2) by (subst chunks.simps) simp
      have "n * length (chunks n (drop n xs)) < length xs"
      proof (cases "drop n xs = []")
        case False
        with 1 \<open>xs \<noteq> []\<close> have "n * (length (chunks n (drop n xs)) - 1) < length xs - n"
          and "0 < length (chunks n (drop n xs))" by auto
        then show ?thesis by (simp add: diff_mult_distrib2)
      qed (use False in simp)
      then show ?thesis using 1 False by (auto simp: c)
    qed simp
  qed
  then show "length xs \<le> n * length (chunks n xs)" "xs \<noteq> [] \<Longrightarrow> n * (length (chunks n xs) - 1) < length xs"
    "chunks n xs = [] \<longleftrightarrow> xs = []" by auto
qed

lemma int_length_concat: "int (length (concat (map g fs))) = sum_list (map (\<lambda>f. int (length (g f))) fs)"
  by (induction fs) simp_all

lemma length_concat_map_const: "\<forall>x. length (f x) = (k :: nat) \<Longrightarrow> length (concat (map f xs)) = k * length xs"
  by (induction xs) auto

lemma NewInfoBytes_InrE:
  assumes "NewInfoBytes sha1 root paths private pl name = Inr cd"
    and "int (length (created_content paths)) < 2 ^ 63"
  obtains single where "created_content paths \<noteq> []" "0 < cd_PieceLength cd" "cd_Private cd = private"
    "cd_Pieces cd = concat (map sha1 (chunks (unat (cd_PieceLength cd)) (created_content paths)))"
    "cd_Length cd = (if single then int (length (created_content paths)) else 0)"
    "cd_Files cd = (if single then []
       else map (\<lambda>f. \<lparr>f_Length = int (length (snd f)), f_Path = fst f\<rparr>) (concat (map pa_files paths)))"
    "pl \<noteq> 0 \<Longrightarrow> cd_PieceLength cd = pl" "single \<Longrightarrow> \<exists>p. paths = [p] \<and> \<not> pa_IsDir p"
proof -
  let ?T = "findTotalLength paths"
  have T: "?T = int (length (created_content paths))" by (rule findTotalLength_eq [OF assms(2)])
  obtain nm single where h: "(case paths of [] \<Rightarrow> Inl ErrNoPath
      | [p] \<Rightarrow> Inr (if name = [] then pa_Base p else name, \<not> pa_IsDir p)
      | _ \<Rightarrow> if root = [] then Inl ErrNoRoot else if name = [] then Inl ErrNoName else Inr (name, False)) =
      Inr (nm, single)"
    using assms(1) by (auto simp: NewInfoBytes_def split: sum.splits)
  have ne: "?T \<noteq> 0" and cd: "cd = \<lparr>cd_Name = nm, cd_Private = private,
      cd_PieceLength = (if pl = 0 then calculatePieceLength ?T else pl),
      cd_Pieces = hash_files sha1 (unat (if pl = 0 then calculatePieceLength ?T else pl))
        (map snd (concat (map pa_files paths))) [] [],
      cd_Length = (if single then ?T else 0),
      cd_Files = (if single then []
        else map (\<lambda>f. \<lparr>f_Length = int (length (snd f)), f_Path = fst f\<rparr>) (concat (map pa_files paths)))\<rparr>"
    using assms(1) unfolding NewInfoBytes_def h by (simp_all add: Let_def split: if_splits)
  obtain k where "15 \<le> k" "k \<le> 24" "calculatePieceLength ?T = 2 ^ k"
    using calculatePieceLength_cases [of ?T] T by auto
  then have pos: "0 < cd_PieceLength cd" unfolding cd by (simp add: word_gt_0)
  then have "0 < unat (cd_PieceLength cd)" by (simp add: unat_gt_0 word_gt_0)
  from hash_files_spec [OF this, of "[]" sha1 "map snd (concat (map pa_files paths))" "[]"] this
  have "cd_Pieces cd = concat (map sha1 (chunks (unat (cd_PieceLength cd)) (created_content paths)))"
    by (simp add: cd created_content_def)
  moreover have "\<exists>p. paths = [p] \<and> \<not> pa_IsDir p" if single
    using h that by (auto split: list.splits if_splits)
  ultimately show thesis using that [of single] pos T ne by (simp add: cd)
qed

lemma NewInfo_accepts:
  assumes d: "decode b = Some ib" and pl: "0 < ib_PieceLength ib"
    and n: "length (ib_Pieces ib) = 20 * n" "0 < n" "20 * n < 4294967296"
    and dots: "\<forall>f\<in>set (ib_Files ib). \<forall>p\<in>set (f_Path f). TrimSpace p \<noteq> ''..''"
    and L: "L = (if ib_Files ib = [] then ib_Length ib else sum_list (map f_Length (ib_Files ib)))"
    and nn: "\<forall>f\<in>set (ib_Files ib). 0 \<le> f_Length f" and L63: "L < 2 ^ 63"
    and lo: "int (n - 1) * int (unat (ib_PieceLength ib)) < L" and hi: "L \<le> int n * int (unat (ib_PieceLength ib))"
  shows "\<exists>i. NewInfo decode sha1 b = Inr i \<and> Hash i = sha1 b \<and> info_Length i = L \<and>
    Private i = parsePrivateField (ib_Private ib) \<and> pieces i = ib_Pieces ib \<and>
    PieceLength i = ib_PieceLength ib \<and> NumPieces i = of_nat n \<and>
    map Length (Files i) = (if ib_Files ib = [] then [L] else map f_Length (ib_Files ib))"
proof -
  let ?P = "int (unat (ib_PieceLength ib))"
  have un: "unat (of_nat n :: u32) = n" using n by (simp add: unat_of_nat_u32)
  have "n * unat (ib_PieceLength ib) < 214748365 * 4294967296"
    using n unat_u32_less [of "ib_PieceLength ib"] by (intro mult_strict_mono') auto
  then have "int n * ?P < int (214748365 * 4294967296)"
    by (simp only: of_nat_less_iff flip: of_nat_mult)
  then have P63: "int n * ?P < 2 ^ 63" by simp
  have P0: "0 \<le> int n * ?P" by simp
  have d0: "0 \<le> int n * ?P - L" using hi by simp
  have "int n * ?P = int (n - 1) * ?P + ?P" using n(2) by (cases n) (simp_all add: algebra_simps)
  then have d1: "int n * ?P - L < ?P" using lo by linarith
  have L0: "0 \<le> L" using lo by (meson le_less_trans less_imp_le mult_nonneg_nonneg of_nat_0_le_iff)
  have w1: "wrap64 (?P * int n) = int n * ?P"
    using P63 P0 by (simp only: mult.commute [of ?P]) (intro wrap64_id; linarith)
  have w2: "wrap64 (int n * ?P - L) = int n * ?P - L" using d0 P63 L0 by (intro wrap64_id) linarith+
  have len: "(if ib_Files ib \<noteq> [] then foldl (\<lambda>acc f. wrap64 (acc + f_Length f)) 0 (ib_Files ib)
      else ib_Length ib) = L"
    using foldl_wrap64 [of 0 "ib_Files ib"] nn L L63 by (cases "ib_Files ib = []") simp_all
  have "length (ib_Pieces ib) div 20 = n" "length (ib_Pieces ib) mod 20 = 0" using n(1) by simp_all
  moreover have "\<not> (\<exists>f\<in>set (ib_Files ib). \<exists>p\<in>set (f_Path f). TrimSpace p = ''..'')" using dots by blast
  moreover have "\<not> (?P \<le> int n * ?P - L \<or> int n * ?P - L < 0)" using d0 d1 by linarith
  ultimately show ?thesis
    unfolding NewInfo_def using d pl n(2)
    by (simp only: option.case Let_def len un w1 w2 if_False if_True refl sum.inject word_gt_0)
      (simp add: comp_def)
qed

section \<open>A sample torrent\<close>

text \<open>Two files of 3 and 4 bytes in pieces of 4, on which the hypotheses below are met.\<close>

definition sample_dict :: info_dict where
  "sample_dict = \<lparr>ib_PieceLength = 4, ib_Pieces = replicate 40 7, ib_Name = ''d'', ib_Private = PrivAbsent,
     ib_Length = 0, ib_Files = [\<lparr>f_Length = 3, f_Path = [''a'']\<rparr>, \<lparr>f_Length = 4, f_Path = [''b'']\<rparr>]\<rparr>"

definition sample_info :: Info where
  "sample_info = \<lparr>PieceLength = 4, Name = ''d'', Hash = [], info_Length = 7, NumPieces = 2, Bytes = [],
     Private = False, Files = [\<lparr>Length = 3, Path = file_path ''d'' [''a'']\<rparr>,
     \<lparr>Length = 4, Path = file_path ''d'' [''b'']\<rparr>], pieces = replicate 40 7\<rparr>"

lemma TrimSpace_sample: "TrimSpace ''a'' = ''a''" "TrimSpace ''b'' = ''b''"
  by (simp_all add: TrimSpace_def space1_def)

lemma NewInfo_sample: "NewInfo (\<lambda>_. Some sample_dict) (\<lambda>_. []) [] = Inr sample_info"
  by (simp add: NewInfo_def sample_dict_def sample_info_def wrap64_def Let_def parsePrivateField_def
      TrimSpace_sample)

lemma sizes_ok_sample: "sizes_ok sample_info"
  by (simp add: sizes_ok_def sample_info_def)

section \<open>Properties\<close>

text \<open>
  The piece length chosen for a new torrent is a power of two between 32 KiB and 16 MiB, at
  least a 2000th of the total unless it is capped, and less than twice that unless it is the minimum.
\<close>

lemma piece_length_bounds:
  assumes "0 \<le> n"
  shows "\<exists>k. 15 \<le> k \<and> k \<le> 24 \<and> calculatePieceLength n = 2 ^ k \<and>
    (k < 24 \<longrightarrow> n div 2000 \<le> 2 ^ k) \<and> (15 < k \<longrightarrow> 2 ^ (k - 1) < n div 2000)"
  by (rule calculatePieceLength_cases [OF assms]) blast

theorem piece_length_bounds_witness:
  "\<exists>k. 15 \<le> k \<and> k \<le> 24 \<and> calculatePieceLength 100000000 = 2 ^ k"
  using piece_length_bounds [of 100000000] by auto

text \<open>The dictionary that \<open>NewInfoBytes\<close> returns passes every check of \<open>NewInfo\<close>.\<close>

lemma created_info:
  assumes "NewInfoBytes sha1 root paths private pl name = Inr cd"
    and "decode eb = Some (dict_of cd)" and "\<forall>b. length (sha1 b) = 20"
    and "int (length (created_content paths)) < 2 ^ 63" and "length (cd_Pieces cd) < 2 ^ 32"
    and "\<forall>f\<in>set (concat (map pa_files paths)). \<forall>p\<in>set (fst f). TrimSpace p \<noteq> ''..''"
  shows "\<exists>i. NewInfo decode sha1 eb = Inr i \<and> Private i = private \<and>
    info_Length i = int (length (created_content paths)) \<and>
    pieces i = concat (map sha1 (chunks (unat (PieceLength i)) (created_content paths))) \<and>
    concat (chunks (unat (PieceLength i)) (created_content paths)) = created_content paths \<and>
    (if cd_Files cd = [] then map Length (Files i) = [int (length (created_content paths))]
     else map Length (Files i) = map (\<lambda>f. int (length (snd f))) (concat (map pa_files paths)))"
proof -
  let ?C = "created_content paths" and ?pl = "unat (cd_PieceLength cd)"
  let ?n = "length (chunks ?pl ?C)"
  obtain single where c: "?C \<noteq> []" "0 < cd_PieceLength cd" "cd_Private cd = private"
    "cd_Pieces cd = concat (map sha1 (chunks ?pl ?C))"
    "cd_Length cd = (if single then int (length ?C) else 0)"
    "cd_Files cd = (if single then []
       else map (\<lambda>f. \<lparr>f_Length = int (length (snd f)), f_Path = fst f\<rparr>) (concat (map pa_files paths)))"
    by (rule NewInfoBytes_InrE [OF assms(1,4)]) (erule that)
  have pl0: "0 < ?pl" using c(2) by (simp add: unat_gt_0 word_gt_0)
  note k = length_chunks [OF pl0, of ?C]
  have len: "length (cd_Pieces cd) = 20 * ?n" unfolding c(4) by (rule length_concat_map_const [OF assms(3)])
  have visited: "concat (map pa_files paths) \<noteq> []" using c(1) unfolding created_content_def by force
  let ?fs = "concat (map pa_files paths)"
  have L: "int (length ?C) = (if cd_Files cd = [] then cd_Length cd else sum_list (map f_Length (cd_Files cd)))"
    using visited unfolding c(5,6) created_content_def int_length_concat
    by (simp only: map_is_Nil_conv map_map comp_def info_file.simps if_False if_True refl split: if_splits) simp
  have fs: "\<forall>f\<in>set (cd_Files cd). \<forall>p\<in>set (f_Path f). TrimSpace p \<noteq> ''..''"
    "\<forall>f\<in>set (cd_Files cd). 0 \<le> f_Length f"
    using assms(6) unfolding c(6) by (simp_all del: set_concat)
  have lo: "int (?n - 1) * int ?pl < int (length ?C)"
    using k(2) [OF c(1)] by (simp only: of_nat_less_iff mult.commute flip: of_nat_mult)
  have hi: "int (length ?C) \<le> int ?n * int ?pl"
    using k(1) by (simp only: of_nat_le_iff mult.commute flip: of_nat_mult)
  have n: "0 < ?n" "20 * ?n < 4294967296" using k(3) c(1) assms(5) len by simp_all
  obtain i where i: "NewInfo decode sha1 eb = Inr i"
    "info_Length i = int (length ?C)" "Private i = parsePrivateField (PrivInt (if cd_Private cd then 1 else 0))"
    "pieces i = cd_Pieces cd" "PieceLength i = cd_PieceLength cd"
    "map Length (Files i) = (if cd_Files cd = [] then [int (length ?C)] else map f_Length (cd_Files cd))"
    using NewInfo_accepts [of decode eb "dict_of cd" ?n "int (length ?C)" sha1, unfolded sel_dict_of,
      OF assms(2) c(2) len n fs(1) L fs(2) assms(4) lo hi] by blast
  have "map f_Length (map (\<lambda>f. \<lparr>f_Length = int (length (snd f)), f_Path = fst f\<rparr>) ?fs) =
      map (\<lambda>f. int (length (snd f))) ?fs" by (simp only: map_map comp_def info_file.simps)
  then have "if cd_Files cd = [] then map Length (Files i) = [int (length ?C)]
      else map Length (Files i) = map (\<lambda>f. int (length (snd f))) ?fs"
    unfolding i(6) c(6) by (simp split: if_splits)
  moreover have "Private i = private" using i(3) c(3) by (simp add: parsePrivateField_def)
  moreover note i(1,2) concat_chunks [OF pl0, of ?C, folded i(5)]
  moreover have "pieces i = concat (map sha1 (chunks (unat (PieceLength i)) ?C))" unfolding i(4,5) by (rule c(4))
  ultimately show ?thesis by (intro exI [of _ i] conjI)
qed

text \<open>
  A created torrent is accepted.  Given that the decoder inverts the encoder on the created
  dictionary and the digest has 20 bytes, \<open>NewInfo\<close> accepts what \<open>NewInfoBytes\<close> makes of files
  whose names have no \<open>..\<close>: same private flag, total length and file lengths, and as piece hashes
  the digests of the consecutive chunks of the concatenated contents, however the files split them.
\<close>

lemma created_torrent_accepted:
  assumes "NewInfoBytes sha1 root paths private pl name = Inr cd"
    and "decode (encode cd) = Some (dict_of cd)" and "\<forall>b. length (sha1 b) = 20"
    and "int (length (created_content paths)) < 2 ^ 63" and "length (cd_Pieces cd) < 2 ^ 32"
    and "\<forall>f\<in>set (concat (map pa_files paths)). \<forall>p\<in>set (fst f). TrimSpace p \<noteq> ''..''"
  shows "\<exists>i. NewInfo decode sha1 (encode cd) = Inr i \<and> Private i = private \<and>
    info_Length i = int (length (created_content paths)) \<and>
    pieces i = concat (map sha1 (chunks (unat (PieceLength i)) (created_content paths))) \<and>
    concat (chunks (unat (PieceLength i)) (created_content paths)) = created_content paths \<and>
    (if cd_Files cd = [] then map Length (Files i) = [int (length (created_content paths))]
     else map Length (Files i) = map (\<lambda>f. int (length (snd f))) (concat (map pa_files paths)))"
  by (rule created_info [where decode = decode and eb = "encode cd", OF assms])

theorem created_torrent_accepted_witness:
  "\<exists>i. NewInfo (\<lambda>_. Some (dict_of \<lparr>cd_Name = ''d'', cd_Private = True, cd_PieceLength = 32768,
       cd_Pieces = replicate 20 7, cd_Length = 3, cd_Files = []\<rparr>)) (\<lambda>_. replicate 20 7) [] = Inr i \<and>
     Private i \<and> info_Length i = 3"
proof -
  let ?p = "[\<lparr>pa_Base = ''d'', pa_IsDir = False, pa_files = [([''.''], [1, 2, 3])]\<rparr>]"
  let ?cd = "\<lparr>cd_Name = ''d'', cd_Private = True, cd_PieceLength = 32768,
     cd_Pieces = replicate 20 7, cd_Length = 3, cd_Files = []\<rparr>"
  have w3: "wrap64 3 = 3" by (simp add: wrap64_def)
  have "NewInfoBytes (\<lambda>_. replicate 20 7) [] ?p True 0 [] = Inr ?cd"
    by (simp add: NewInfoBytes_def findTotalLength_def w3 calculatePieceLength_def Let_def read_file.simps)
  moreover have "TrimSpace ''.'' \<noteq> ''..''" by (simp add: TrimSpace_def space1_def)
  ultimately show ?thesis
    using created_torrent_accepted [of "\<lambda>_. replicate 20 7" "[]" ?p True 0 "[]" ?cd "\<lambda>_. Some (dict_of ?cd)" "\<lambda>_. []"]
    by (auto simp: created_content_def)
qed

text \<open>
  A cleaned file name has at most 255 bytes and no path separator.
\<close>

lemma cleanName_safe: "length (cleanName s) \<le> 255 \<and> CHR ''/'' \<notin> set (cleanName s)"
  by (simp add: cleanName_def length_cleanNameN cleanNameN_no_separator)

end
