(* ===== verification/Piece.thy ===== *)
theory Piece
  imports Metainfo
begin

text \<open>
  \<open>internal/filesection/section.go\<close> and \<open>internal/piece/piece.go\<close>: a piece is a list of file
  sections; \<open>ReadAt\<close> and \<open>Write\<close> move its bytes from and to the files, \<open>NewPieces\<close> cuts the files of
  a torrent into pieces, and a piece is cut into blocks of 16 KB.  \<open>locs\<close> lists the places
  (file, offset) of a list of sections byte by byte; it is the specification level: \<open>NewPieces\<close>
  tiles the files, and \<open>ReadAt\<close> and \<open>Write\<close> read and write the bytes at these places in order.

  A disk maps a file handle to its bytes.  A slice has no spare capacity in the model.
\<close>

section \<open>File sections\<close>

record FileSection =
  sec_File :: nat
  sec_Offset :: int
  sec_Length :: int
  sec_Name :: string

type_synonym disk = "nat \<Rightarrow> byte list"

text \<open>What \<open>io.NewSectionReader(file, off, n)\<close> yields until its end.\<close>

definition section_reader :: "disk \<Rightarrow> nat \<Rightarrow> int \<Rightarrow> int \<Rightarrow> byte list" where
  "section_reader d f off n = take (nat n) (drop (nat off) (d f))"

datatype io_error = EOF | ErrUnexpectedEOF | WriteError

text \<open>\<open>for ; i < len(p); i++ { pos += p[i].Length; if pos >= off { break } }\<close>\<close>

fun skip_sections :: "FileSection list \<Rightarrow> int \<Rightarrow> int \<Rightarrow> FileSection list \<times> int" where
  "skip_sections [] off pos = ([], pos)"
| "skip_sections (s # ss) off pos =
     (let pos' = pos + sec_Length s in
      if pos' \<ge> off then (s # ss, pos') else skip_sections ss off pos')"

fun remaining_sections :: "disk \<Rightarrow> FileSection list \<Rightarrow> int \<Rightarrow> int \<Rightarrow> byte list" where
  "remaining_sections d [] lim pos = []"
| "remaining_sections d (s # ss) lim pos =
     (let pos' = pos + sec_Length s in
      section_reader d (sec_File s) (sec_Offset s) (sec_Length s) @
      (if pos' \<ge> lim then [] else remaining_sections d ss lim pos'))"

text \<open>\<open>io.ReadFull\<close> of the concatenated readers into a buffer of \<open>n\<close> bytes.\<close>

definition ReadFull :: "byte list \<Rightarrow> nat \<Rightarrow> byte list \<times> io_error option" where
  "ReadFull avail n =
     (if n \<le> length avail then (take n avail, None)
      else if avail = [] then ([], Some EOF) else (avail, Some ErrUnexpectedEOF))"

definition ReadAt :: "disk \<Rightarrow> FileSection list \<Rightarrow> nat \<Rightarrow> int \<Rightarrow> (byte list \<times> io_error option) option" where
  "ReadAt d p n off =
     (case skip_sections p off 0 of
        ([], _) \<Rightarrow> None
      | (s # ss, pos) \<Rightarrow>
          let advance = sec_Length s - (pos - off);
              half = section_reader d (sec_File s) (sec_Offset s + advance) (sec_Length s - advance);
              rest = remaining_sections d ss (off + int n) pos
          in Some (ReadFull (half @ rest) n))"

text \<open>\<open>WriteAt\<close> of an open file: bytes before the offset that do not exist yet are zero.\<close>

definition WriteAt :: "byte list \<Rightarrow> byte list \<Rightarrow> nat \<Rightarrow> byte list" where
  "WriteAt old b off =
     (let old' = old @ replicate (off - length old) 0
      in take off old' @ b @ drop (off + length b) old')"

text \<open>\<open>ok\<close> says which files take a write; a failed write of the model writes nothing.\<close>

fun Write :: "(nat \<Rightarrow> bool) \<Rightarrow> disk \<Rightarrow> FileSection list \<Rightarrow> byte list \<Rightarrow> nat \<Rightarrow> (disk \<times> nat \<times> io_error option) option" where
  "Write ok d [] b n = Some (d, n, None)"
| "Write ok d (s # ss) b n =
     (if nat (sec_Length s) > length b \<or> sec_Length s < 0 then None
      else if \<not> ok (sec_File s) then Some (d, n, Some WriteError)
      else let m = nat (sec_Length s);
               d' = d(sec_File s := WriteAt (d (sec_File s)) (take m b) (nat (sec_Offset s)))
           in Write ok d' ss (drop m b) (n + m))"

section \<open>Pieces and blocks\<close>

definition BlockSize :: u32 where
  "BlockSize = 16 * 1024"

record Piece =
  Index :: u32
  p_Length :: u32
  Data :: "FileSection list"
  p_Hash :: "byte list"
  Writing :: bool
  Done :: bool

record Block =
  b_Index :: nat
  Begin :: u32
  b_Length :: u32

definition NumBlocks :: "Piece \<Rightarrow> nat" where
  "NumBlocks p =
     (let dv = p_Length p div BlockSize; md = p_Length p mod BlockSize;
          numBlocks = (if md \<noteq> 0 then dv + 1 else dv)
      in unat numBlocks)"

definition GetBlock :: "Piece \<Rightarrow> nat \<Rightarrow> Block option" where
  "GetBlock p i =
     (let dv = p_Length p div BlockSize; md = p_Length p mod BlockSize;
          numBlocks = (if md \<noteq> 0 then unat dv + 1 else unat dv)
      in if i \<ge> numBlocks then None
         else let blen = (if md \<noteq> 0 \<and> i = numBlocks - 1 then md else BlockSize)
              in Some \<lparr>b_Index = i, Begin = of_nat i * BlockSize, b_Length = blen\<rparr>)"

definition FindBlock :: "Piece \<Rightarrow> u32 \<Rightarrow> u32 \<Rightarrow> Block option" where
  "FindBlock p bgn len =
     (let idx = bgn div BlockSize; md = bgn mod BlockSize in
      if md \<noteq> 0 then None
      else case GetBlock p (unat idx) of
        None \<Rightarrow> None
      | Some b \<Rightarrow> if b_Length b \<noteq> len then None else Some b)"

definition VerifyHash :: "(byte list \<Rightarrow> byte list) \<Rightarrow> Piece \<Rightarrow> byte list \<Rightarrow> bool" where
  "VerifyHash sha1 p buf =
     (if (of_nat (length buf) :: u32) \<noteq> p_Length p then False else sha1 buf = p_Hash p)"

section \<open>Mapping files to pieces\<close>

record alloc_file =
  Storage :: nat
  af_Name :: string

record np_state =
  fileIndex :: int
  fileLength :: int
  fileEnd :: int
  fileOffset :: int
  total :: int

definition nextFile :: "Info \<Rightarrow> np_state \<Rightarrow> np_state option" where
  "nextFile info st =
     (let i = fileIndex st + 1 in
      if 0 \<le> i \<and> nat i < length (Files info)
      then let l = Length (Files info ! nat i)
           in Some (st\<lparr>fileIndex := i, fileLength := l, fileEnd := fileEnd st + l, fileOffset := 0\<rparr>)
      else None)"

definition fileLeft :: "np_state \<Rightarrow> int" where
  "fileLeft st = fileLength st - fileOffset st"

partial_function (option) piece_loop ::
  "Info \<Rightarrow> alloc_file list \<Rightarrow> np_state \<Rightarrow> u32 \<Rightarrow> u32 \<Rightarrow> FileSection list \<Rightarrow> (np_state \<times> u32 \<times> FileSection list) option"
where
  "piece_loop info files st left plen secs =
     (if \<not> left > 0 then Some (st, plen, secs)
      else let n = (of_int (min (int (unat left)) (fileLeft st)) :: u32) in
        Option.bind (if 0 \<le> fileIndex st then slice_get files (nat (fileIndex st)) else None) (\<lambda>f.
        let secs' = secs @ [\<lparr>sec_File = Storage f, sec_Offset = fileOffset st,
                             sec_Length = int (unat n), sec_Name = af_Name f\<rparr>];
            left' = left - n;
            plen' = plen + n;
            st' = st\<lparr>fileOffset := fileOffset st + int (unat n), total := total st + int (unat n)\<rparr>
        in if total st' = info_Length info then Some (st', plen', secs')
           else if fileLeft st' = 0
           then Option.bind (nextFile info st') (\<lambda>st''. piece_loop info files st'' left' plen' secs')
           else piece_loop info files st' left' plen' secs'))"

fun pieces_loop :: "Info \<Rightarrow> alloc_file list \<Rightarrow> u32 list \<Rightarrow> np_state \<Rightarrow> Piece list option" where
  "pieces_loop info files [] st = Some []"
| "pieces_loop info files (i # is) st = do {
     h \<leftarrow> PieceHash info i;
     (st', plen, secs) \<leftarrow> piece_loop info files st (PieceLength info) 0 [];
     ps \<leftarrow> pieces_loop info files is st';
     Some (\<lparr>Index = i, p_Length = plen, Data = secs, p_Hash = h, Writing = False, Done = False\<rparr> # ps)
   }"

definition NewPieces :: "Info \<Rightarrow> alloc_file list \<Rightarrow> Piece list option" where
  "NewPieces info files = do {
     st \<leftarrow> nextFile info \<lparr>fileIndex = - 1, fileLength = 0, fileEnd = 0, fileOffset = 0, total = 0\<rparr>;
     pieces_loop info files (u32_upto (NumPieces info)) st
   }"

section \<open>Blocks tile the piece\<close>

lemma unat_BlockSize [simp]: "unat BlockSize = 16384"
  by (simp add: BlockSize_def)

lemma div_mod_Block: "unat (x div BlockSize) = unat x div 16384" "unat (x mod BlockSize) = unat x mod 16384"
  by (simp_all add: unat_div unat_mod)

lemma mod_Block_zero: "x mod BlockSize = 0 \<longleftrightarrow> unat x mod 16384 = 0"
  by (metis div_mod_Block(2) unat_0 word_unat_eq_iff)

lemma ceil_div: "0 < b \<Longrightarrow> (if a mod b \<noteq> 0 then a div b + 1 else a div b) = (a + (b - 1)) div (b :: nat)"
proof -
  assume b: "0 < b"
  have "a + (b - 1) = b * (a div b) + (a mod b + (b - 1))" by simp
  then have "(a + (b - 1)) div b = a div b + (a mod b + (b - 1)) div b"
    using b by (metis div_mult_self4 less_numeral_extra(3))
  moreover have "(a mod b + (b - 1)) div b = (if a mod b \<noteq> 0 then 1 else 0)"
  proof (cases "a mod b = 0")
    case False
    with b have "b \<le> a mod b + (b - 1)" and "a mod b + (b - 1) < 2 * b"
      using mod_less_divisor [OF b, of a] by linarith+
    then show ?thesis using False by (simp add: div_nat_eqI)
  qed (use b in simp)
  ultimately show ?thesis by simp
qed

lemma NumBlocks_eq: "NumBlocks p = (unat (p_Length p) + 16383) div 16384"
proof -
  have "unat (p_Length p) < 4294967296" by (rule unat_u32_less)
  then have "unat (p_Length p div BlockSize) + unat (1 :: u32) < 4294967296" by (simp add: div_mod_Block)
  then have "unat (p_Length p div BlockSize + 1) = unat (p_Length p) div 16384 + 1"
    by (simp add: unat_plus_u32 div_mod_Block)
  then show ?thesis
    using ceil_div [of 16384 "unat (p_Length p)"]
    by (auto simp: NumBlocks_def Let_def div_mod_Block mod_Block_zero split: if_splits)
qed

lemma GetBlock_None [simp]: "GetBlock p i = None \<longleftrightarrow> NumBlocks p \<le> i"
  using ceil_div [of 16384 "unat (p_Length p)"]
  by (auto simp: GetBlock_def NumBlocks_eq Let_def div_mod_Block mod_Block_zero)

lemma GetBlock_SomeD:
  assumes "GetBlock p i = Some b"
  shows "i < NumBlocks p" and "b_Index b = i" and "unat (Begin b) = 16384 * i"
    and "unat (b_Length b) = min 16384 (unat (p_Length p) - 16384 * i)" and "0 < unat (b_Length b)"
proof -
  let ?L = "unat (p_Length p)"
  show i: "i < NumBlocks p"
    by (rule ccontr) (use assms in \<open>simp add: not_less del: GetBlock_None add: GetBlock_None [symmetric]\<close>)
  show ix: "b_Index b = i" using assms by (auto simp: GetBlock_def Let_def split: if_splits)
  have L: "16384 * i < ?L" using i by (simp add: NumBlocks_eq)
  then have lt: "16384 * i < 4294967296" using unat_u32_less [of "p_Length p"] by linarith
  have "Begin b = of_nat i * BlockSize" using assms by (auto simp: GetBlock_def Let_def split: if_splits)
  moreover have "of_nat i * BlockSize = (of_nat (16384 * i) :: u32)" by (simp add: BlockSize_def)
  ultimately show "unat (Begin b) = 16384 * i" using lt by (simp add: unat_of_nat_u32 del: of_nat_mult)
  have bl: "b_Length b = (if p_Length p mod BlockSize \<noteq> 0 \<and> i = NumBlocks p - 1
      then p_Length p mod BlockSize else BlockSize)"
    using assms ceil_div [of 16384 ?L]
    by (auto simp: GetBlock_def Let_def NumBlocks_eq div_mod_Block mod_Block_zero split: if_splits)
  define q m where "q = ?L div 16384" and "m = ?L mod 16384"
  have Lq: "?L = 16384 * q + m" "m < 16384" by (simp_all add: q_def m_def)
  have nb: "NumBlocks p = (if m \<noteq> 0 then q + 1 else q)"
    using ceil_div [of 16384 ?L] by (auto simp: NumBlocks_eq q_def m_def split: if_splits)
  have "unat (b_Length b) = (if m \<noteq> 0 \<and> i = NumBlocks p - 1 then m else 16384)"
    by (simp add: bl mod_Block_zero div_mod_Block m_def)
  also have "\<dots> = min 16384 (?L - 16384 * i)"
    using i Lq nb by (auto split: if_splits)
  finally show l: "unat (b_Length b) = min 16384 (?L - 16384 * i)" .
  show "0 < unat (b_Length b)" using L by (simp add: l)
qed

lemma GetBlock_in: "i < NumBlocks p \<Longrightarrow> \<exists>b. GetBlock p i = Some b"
  by (metis GetBlock_None not_le option.exhaust)

lemma FindBlock_iff:
  "FindBlock p bgn len = Some b \<longleftrightarrow> GetBlock p (b_Index b) = Some b \<and> Begin b = bgn \<and> b_Length b = len"
proof
  assume f: "FindBlock p bgn len = Some b"
  then have m: "unat bgn mod 16384 = 0" and g: "GetBlock p (unat (bgn div BlockSize)) = Some b"
    and l: "b_Length b = len"
    by (auto simp: FindBlock_def Let_def mod_Block_zero split: if_splits option.splits)
  note bD = GetBlock_SomeD [OF g]
  have "16384 * (unat bgn div 16384) = unat bgn" using m by auto
  with bD(3) have "unat (Begin b) = unat bgn" by (simp add: div_mod_Block)
  then show "GetBlock p (b_Index b) = Some b \<and> Begin b = bgn \<and> b_Length b = len"
    using g l bD(2) by (simp add: word_unat_eq_iff)
next
  assume a: "GetBlock p (b_Index b) = Some b \<and> Begin b = bgn \<and> b_Length b = len"
  then have B: "unat bgn = 16384 * b_Index b" using GetBlock_SomeD(3) by blast
  then have "bgn mod BlockSize = 0" by (simp add: mod_Block_zero)
  moreover have "unat (bgn div BlockSize) = b_Index b" using B by (simp add: div_mod_Block)
  ultimately show "FindBlock p bgn len = Some b" using a by (simp add: FindBlock_def Let_def)
qed

lemma sum_blocks:
  "(\<Sum>i<NumBlocks p. unat (b_Length (the (GetBlock p i)))) = unat (p_Length p)"
proof -
  let ?L = "unat (p_Length p)"
  have "(\<Sum>i<k. min 16384 (?L - 16384 * i)) = min ?L (16384 * k)" for k
    by (induction k) auto
  moreover have "(\<Sum>i<NumBlocks p. unat (b_Length (the (GetBlock p i)))) =
      (\<Sum>i<NumBlocks p. min 16384 (?L - 16384 * i))"
  proof (rule sum.cong)
    fix i assume "i \<in> {..<NumBlocks p}"
    then obtain b where "GetBlock p i = Some b" using GetBlock_in by blast
    then show "unat (b_Length (the (GetBlock p i))) = min 16384 (?L - 16384 * i)"
      using GetBlock_SomeD(4) by simp
  qed simp
  moreover have "?L \<le> 16384 * NumBlocks p" by (simp add: NumBlocks_eq)
  ultimately show ?thesis by simp
qed

section \<open>Reading and writing the places of a section list\<close>

type_synonym loc = "nat \<times> nat"

definition sec_locs :: "FileSection \<Rightarrow> loc list" where
  "sec_locs s = map (Pair (sec_File s)) [nat (sec_Offset s)..<nat (sec_Offset s) + nat (sec_Length s)]"

definition locs :: "FileSection list \<Rightarrow> loc list" where
  "locs ss = concat (map sec_locs ss)"

definition loc_byte :: "disk \<Rightarrow> loc \<Rightarrow> byte" where
  "loc_byte d l = d (fst l) ! snd l"

text \<open>A section within its file.\<close>

definition sec_ok :: "disk \<Rightarrow> FileSection \<Rightarrow> bool" where
  "sec_ok d s \<longleftrightarrow> 0 \<le> sec_Offset s \<and> 0 \<le> sec_Length s \<and>
     nat (sec_Offset s) + nat (sec_Length s) \<le> length (d (sec_File s))"

lemma locs_simps [simp]:
  "locs [] = []" "locs (s # ss) = sec_locs s @ locs ss" "locs (ss @ ts) = locs ss @ locs ts"
  by (simp_all add: locs_def)

lemma length_sec_locs [simp]: "length (sec_locs s) = nat (sec_Length s)"
  by (simp add: sec_locs_def)

lemma take_drop_nth: "m + n \<le> length xs \<Longrightarrow> take n (drop m xs) = map ((!) xs) [m..<m + n]"
  by (rule nth_equalityI) simp_all

lemma section_reader_locs:
  assumes "sec_ok d s" and "0 \<le> a" and "a \<le> sec_Length s"
  shows "section_reader d (sec_File s) (sec_Offset s + a) (sec_Length s - a) =
    map (loc_byte d) (drop (nat a) (sec_locs s))"
proof -
  have n: "nat (sec_Offset s + a) = nat (sec_Offset s) + nat a"
    "nat (sec_Length s - a) = nat (sec_Length s) - nat a" "nat a \<le> nat (sec_Length s)"
    using assms by (simp_all add: sec_ok_def nat_add_distrib nat_diff_distrib)
  then have "section_reader d (sec_File s) (sec_Offset s + a) (sec_Length s - a) =
      map ((!) (d (sec_File s))) [nat (sec_Offset s) + nat a..<nat (sec_Offset s) + nat (sec_Length s)]"
    using assms(1) unfolding section_reader_def sec_ok_def n by (subst take_drop_nth) simp_all
  then show ?thesis by (simp add: sec_locs_def drop_map drop_upt loc_byte_def)
qed

lemma section_reader_all: "sec_ok d s \<Longrightarrow>
    section_reader d (sec_File s) (sec_Offset s) (sec_Length s) = map (loc_byte d) (sec_locs s)"
  using section_reader_locs [of d s 0] by (simp add: sec_ok_def)

lemma skip_sections_spec:
  assumes "\<forall>s\<in>set ss. sec_ok d s" and "ss \<noteq> []" and "0 \<le> off"
    and "off \<le> pos + int (length (locs ss))" and "pos \<le> off"
  shows "\<exists>pre s post. ss = pre @ s # post \<and>
    skip_sections ss off pos = (s # post, pos + int (length (locs pre)) + sec_Length s) \<and>
    pos + int (length (locs pre)) \<le> off \<and> off \<le> pos + int (length (locs pre)) + sec_Length s"
  using assms
proof (induction ss arbitrary: pos)
  case (Cons s ss)
  have sl: "int (nat (sec_Length s)) = sec_Length s" using Cons.prems(1) by (simp add: sec_ok_def)
  show ?case
  proof (cases "off \<le> pos + sec_Length s")
    case True
    then show ?thesis using Cons.prems
      by (intro exI [of _ "[]"] exI [of _ s] exI [of _ ss]) (simp add: Let_def)
  next
    case False
    with Cons.prems sl have "ss \<noteq> []" by auto
    with Cons.IH [of "pos + sec_Length s"] Cons.prems False sl
    obtain pre t post where "ss = pre @ t # post"
      "skip_sections ss off (pos + sec_Length s) =
        (t # post, pos + sec_Length s + int (length (locs pre)) + sec_Length t)"
      "pos + sec_Length s + int (length (locs pre)) \<le> off"
      "off \<le> pos + sec_Length s + int (length (locs pre)) + sec_Length t"
      by auto
    with False sl show ?thesis
      by (intro exI [of _ "s # pre"] exI [of _ t] exI [of _ post]) (simp add: Let_def)
  qed
qed simp

lemma remaining_sections_spec:
  assumes "\<forall>s\<in>set ss. sec_ok d s"
  shows "\<exists>k. remaining_sections d ss lim pos = take k (map (loc_byte d) (locs ss)) \<and>
    (k \<ge> length (locs ss) \<or> lim \<le> pos + int k)"
  using assms
proof (induction ss arbitrary: pos)
  case (Cons s ss)
  have sl: "int (nat (sec_Length s)) = sec_Length s" using Cons.prems(1) by (simp add: sec_ok_def)
  have r: "section_reader d (sec_File s) (sec_Offset s) (sec_Length s) = map (loc_byte d) (sec_locs s)"
    using Cons.prems by (simp add: section_reader_all)
  show ?case
  proof (cases "lim \<le> pos + sec_Length s")
    case True
    then show ?thesis using sl r
      by (intro exI [of _ "nat (sec_Length s)"]) (simp add: Let_def)
  next
    case False
    obtain k where "remaining_sections d ss lim (pos + sec_Length s) = take k (map (loc_byte d) (locs ss))"
      "k \<ge> length (locs ss) \<or> lim \<le> pos + sec_Length s + int k"
      using Cons.IH [of "pos + sec_Length s"] Cons.prems by auto
    with False sl r show ?thesis
      by (intro exI [of _ "nat (sec_Length s) + k"]) (auto simp add: Let_def)
  qed
qed (simp add: exI [of _ 0])

lemma ReadAt_locs:
  assumes ok: "\<forall>s\<in>set ss. sec_ok d s" and ne: "ss \<noteq> []"
    and "0 \<le> off" and fit: "nat off + n \<le> length (locs ss)"
  shows "ReadAt d ss n off = Some (map (loc_byte d) (take n (drop (nat off) (locs ss))), None)"
proof -
  have "off \<le> 0 + int (length (locs ss))" using fit by linarith
  then obtain pre s post where ss: "ss = pre @ s # post"
    and sk: "skip_sections ss off 0 = (s # post, int (length (locs pre)) + sec_Length s)"
    and lo: "int (length (locs pre)) \<le> off" and hi: "off \<le> int (length (locs pre)) + sec_Length s"
    using skip_sections_spec [OF ok ne assms(3), of 0] assms(3) by auto
  let ?a = "off - int (length (locs pre))"
  have s: "sec_ok d s" and post: "\<forall>t\<in>set post. sec_ok d t" using ok ss by auto
  have half: "section_reader d (sec_File s) (sec_Offset s + ?a) (sec_Length s - ?a) =
      map (loc_byte d) (drop (nat ?a) (sec_locs s))"
    using lo hi by (intro section_reader_locs [OF s]) simp_all
  obtain k where rem: "remaining_sections d post (off + int n) (int (length (locs pre)) + sec_Length s) =
      take k (map (loc_byte d) (locs post))"
    and k: "k \<ge> length (locs post) \<or> off + int n \<le> int (length (locs pre)) + sec_Length s + int k"
    using remaining_sections_spec [OF post] by blast
  let ?av = "map (loc_byte d) (drop (nat ?a) (sec_locs s)) @ take k (map (loc_byte d) (locs post))"
  have na: "nat off = length (locs pre) + nat ?a" "nat ?a \<le> nat (sec_Length s)" using lo hi by auto
  have "n \<le> (nat (sec_Length s) - nat ?a) + min k (length (locs post))"
  proof -
    have "int (nat off) = off" "int (nat (sec_Length s)) = sec_Length s"
      using assms(3) lo hi by simp_all
    moreover have "nat off + n \<le> length (locs pre) + nat (sec_Length s) + length (locs post)"
      using fit by (simp add: ss)
    ultimately show ?thesis using k na by linarith
  qed
  then have len: "n \<le> length ?av" by (simp add: min.commute)
  have "take n ?av = map (loc_byte d) (take n (drop (nat off) (locs ss)))"
  proof -
    have "drop (nat off) (locs ss) = drop (nat ?a) (sec_locs s) @ locs post"
      using na by (simp add: ss)
    moreover have "take n ?av = take n (map (loc_byte d) (drop (nat ?a) (sec_locs s) @ locs post))"
    proof -
      have "n - (nat (sec_Length s) - nat ?a) \<le> k" using len by (simp add: min_def split: if_splits)
      then show ?thesis by (simp add: min_absorb1)
    qed
    ultimately show ?thesis by (simp add: take_map)
  qed
  with len sk half rem show ?thesis
    by (simp add: ReadAt_def ReadFull_def Let_def algebra_simps)
qed

lemma WriteAt_inside:
  assumes "off + length b \<le> length old"
  shows "WriteAt old b off = take off old @ b @ drop (off + length b) old"
  using assms by (simp add: WriteAt_def)

lemma sec_locs_iff: "(f, i) \<in> set (sec_locs s) \<longleftrightarrow>
    f = sec_File s \<and> nat (sec_Offset s) \<le> i \<and> i < nat (sec_Offset s) + nat (sec_Length s)"
  by (auto simp: sec_locs_def)

lemma Write_locs:
  assumes "\<forall>s\<in>set ss. sec_ok d s" and "distinct (locs ss)" and "length b = length (locs ss)"
    and "\<forall>s\<in>set ss. w (sec_File s)"
  shows "\<exists>d'. Write w d ss b n = Some (d', n + length b, None) \<and>
    map (loc_byte d') (locs ss) = b \<and>
    (\<forall>f. length (d' f) = length (d f)) \<and>
    (\<forall>f i. (f, i) \<notin> set (locs ss) \<longrightarrow> i < length (d f) \<longrightarrow> d' f ! i = d f ! i)"
  using assms
proof (induction ss arbitrary: d b n)
  case (Cons s ss)
  let ?m = "nat (sec_Length s)" and ?o = "nat (sec_Offset s)" and ?f = "sec_File s"
  define d1 where "d1 = d(?f := WriteAt (d ?f) (take ?m b) ?o)"
  have m: "?m \<le> length b" using Cons.prems(3) by simp
  have inside: "?o + ?m \<le> length (d ?f)" and pos: "0 \<le> sec_Length s"
    using Cons.prems(1) by (auto simp: sec_ok_def)
  have d1f: "d1 ?f = take ?o (d ?f) @ take ?m b @ drop (?o + ?m) (d ?f)"
    using inside m by (simp add: d1_def WriteAt_inside min_def)
  have len1: "length (d1 f) = length (d f)" for f
    using inside m by (cases "f = ?f") (simp_all add: d1f, simp add: d1_def)
  have in1: "map (loc_byte d1) (sec_locs s) = take ?m b"
    using inside m by (intro nth_equalityI) (simp_all add: sec_locs_def loc_byte_def d1f nth_append)
  have out1: "d1 f ! i = d f ! i" if "(f, i) \<notin> set (sec_locs s)" "i < length (d f)" for f i
  proof (cases "f = ?f")
    case True
    with that consider "i < ?o" | "?o + ?m \<le> i" by (auto simp: sec_locs_iff)
    then show ?thesis
      using True that inside m by cases (auto simp: d1f nth_append min_def)
  qed (simp add: d1_def)
  have ok1: "\<forall>t\<in>set ss. sec_ok d1 t" using Cons.prems(1) by (simp add: sec_ok_def len1)
  have "\<exists>d'. Write w d1 ss (drop ?m b) (n + ?m) = Some (d', n + ?m + length (drop ?m b), None) \<and>
      map (loc_byte d') (locs ss) = drop ?m b \<and> (\<forall>f. length (d' f) = length (d1 f)) \<and>
      (\<forall>f i. (f, i) \<notin> set (locs ss) \<longrightarrow> i < length (d1 f) \<longrightarrow> d' f ! i = d1 f ! i)"
    by (rule Cons.IH [OF ok1]) (use Cons.prems in auto)
  then obtain d' where W: "Write w d1 ss (drop ?m b) (n + ?m) = Some (d', n + length b, None)"
    and in': "map (loc_byte d') (locs ss) = drop ?m b"
    and len': "\<And>f. length (d' f) = length (d1 f)"
    and out': "\<And>f i. (f, i) \<notin> set (locs ss) \<Longrightarrow> i < length (d1 f) \<Longrightarrow> d' f ! i = d1 f ! i"
    using m by auto
  have "Write w d (s # ss) b n = Some (d', n + length b, None)"
    using W m pos Cons.prems(4) by (simp add: d1_def Let_def)
  moreover have "map (loc_byte d') (sec_locs s) = map (loc_byte d1) (sec_locs s)"
  proof (intro map_cong refl)
    fix l assume l: "l \<in> set (sec_locs s)"
    obtain f i where fi: "l = (f, i)" by fastforce
    with l inside have "i < length (d1 f)" by (auto simp: sec_locs_iff len1)
    moreover have "(f, i) \<notin> set (locs ss)" using Cons.prems(2) l fi by auto
    ultimately show "loc_byte d' l = loc_byte d1 l" by (simp add: fi loc_byte_def out')
  qed
  then have "map (loc_byte d') (locs (s # ss)) = b" using in1 in' by simp
  ultimately show ?case using len' len1 out' out1 by auto
qed simp

section \<open>The pieces tile the files\<close>

definition file_locs :: "Info \<Rightarrow> alloc_file list \<Rightarrow> nat \<Rightarrow> loc list" where
  "file_locs info files k = map (Pair (Storage (files ! k))) [0..<nat (Length (Files info ! k))]"

definition all_locs :: "Info \<Rightarrow> alloc_file list \<Rightarrow> loc list" where
  "all_locs info files = concat (map (file_locs info files) [0..<length (Files info)])"

text \<open>The places not yet assigned to a piece.\<close>

definition np_rem :: "Info \<Rightarrow> alloc_file list \<Rightarrow> np_state \<Rightarrow> loc list" where
  "np_rem info files st =
     map (Pair (Storage (files ! nat (fileIndex st)))) [nat (fileOffset st)..<nat (fileLength st)] @
     concat (map (file_locs info files) [Suc (nat (fileIndex st))..<length (Files info)])"

definition np_inv :: "Info \<Rightarrow> alloc_file list \<Rightarrow> np_state \<Rightarrow> bool" where
  "np_inv info files st \<longleftrightarrow>
     0 \<le> fileIndex st \<and> nat (fileIndex st) < length (Files info) \<and>
     fileLength st = Length (Files info ! nat (fileIndex st)) \<and>
     0 \<le> fileOffset st \<and> fileOffset st \<le> fileLength st \<and>
     total st + int (length (np_rem info files st)) = info_Length info"

text \<open>What a valid \<open>Info\<close> with an allocation of its files satisfies.\<close>

definition layout_ok :: "Info \<Rightarrow> alloc_file list \<Rightarrow> bool" where
  "layout_ok info files \<longleftrightarrow>
     length files = length (Files info) \<and> Files info \<noteq> [] \<and>
     (\<forall>f\<in>set (Files info). 0 \<le> Length f) \<and>
     info_Length info = sum_list (map Length (Files info)) \<and>
     PieceLength info \<noteq> 0 \<and>
     int (unat (NumPieces info) - 1) * int (unat (PieceLength info)) < info_Length info \<and>
     info_Length info \<le> int (unat (NumPieces info)) * int (unat (PieceLength info)) \<and>
     length (pieces info) = 20 * unat (NumPieces info) \<and>
     20 * unat (NumPieces info) < 4294967296"

lemma length_all_locs:
  assumes "\<forall>f\<in>set (Files info). 0 \<le> Length f"
  shows "int (length (all_locs info files)) = sum_list (map Length (Files info))"
proof -
  have "length (all_locs info files) = sum_list (map (\<lambda>k. nat (Length (Files info ! k))) [0..<length (Files info)])"
    by (simp add: all_locs_def length_concat file_locs_def comp_def)
  also have "map (\<lambda>k. nat (Length (Files info ! k))) [0..<length (Files info)] = map (\<lambda>f. nat (Length f)) (Files info)"
    by (rule nth_equalityI) simp_all
  also have "int (sum_list (map (\<lambda>f. nat (Length f)) fs)) = sum_list (map Length fs)"
    if "\<forall>f\<in>set fs. 0 \<le> Length f" for fs :: "File list"
    using that by (induction fs) simp_all
  finally show ?thesis using assms by simp
qed

lemma nextFile_rem:
  assumes "layout_ok info files" and "np_inv info files st" and "fileLeft st = 0"
    and "total st < info_Length info"
  shows "\<exists>st'. nextFile info st = Some st' \<and> np_inv info files st' \<and> total st' = total st \<and>
    fileIndex st' = fileIndex st + 1 \<and> np_rem info files st' = np_rem info files st"
proof -
  let ?k = "nat (fileIndex st)"
  have inv: "0 \<le> fileIndex st" "?k < length (Files info)" "0 \<le> fileOffset st"
    "total st + int (length (np_rem info files st)) = info_Length info"
    using assms(2) by (simp_all add: np_inv_def)
  have r: "np_rem info files st = concat (map (file_locs info files) [Suc ?k..<length (Files info)])"
    using assms(3) by (simp add: np_rem_def fileLeft_def)
  have "np_rem info files st \<noteq> []" using inv(4) assms(4) by auto
  then have k: "Suc ?k < length (Files info)" unfolding r by (auto intro: ccontr)
  have nk: "nat (fileIndex st + 1) = Suc ?k" using inv(1) by simp
  let ?st = "st\<lparr>fileIndex := fileIndex st + 1, fileLength := Length (Files info ! Suc ?k),
    fileEnd := fileEnd st + Length (Files info ! Suc ?k), fileOffset := 0\<rparr>"
  have "nextFile info st = Some ?st" using k inv(1) nk by (simp add: nextFile_def Let_def)
  moreover have "np_rem info files ?st = np_rem info files st"
    using k nk unfolding r by (simp add: np_rem_def file_locs_def upt_conv_Cons)
  moreover have "0 \<le> Length (Files info ! Suc ?k)" using assms(1) k by (simp add: layout_ok_def)
  ultimately show ?thesis using inv k nk by (auto simp: np_inv_def)
qed

lemma take_section_rem:
  fixes nm :: string
  assumes "np_inv info files st" and "0 \<le> n" and "n \<le> fileLeft st"
  defines "s \<equiv> \<lparr>sec_File = Storage (files ! nat (fileIndex st)), sec_Offset = fileOffset st,
    sec_Length = n, sec_Name = nm\<rparr>"
  defines "st' \<equiv> st\<lparr>fileOffset := fileOffset st + n, total := total st + n\<rparr>"
  shows "sec_locs s @ np_rem info files st' = np_rem info files st" and "np_inv info files st'"
proof -
  have o: "0 \<le> fileOffset st" "fileOffset st + n \<le> fileLength st"
    using assms(1,3) by (auto simp: np_inv_def fileLeft_def)
  then have a: "nat (fileOffset st + n) = nat (fileOffset st) + nat n"
    "nat (fileOffset st) + nat n \<le> nat (fileLength st)"
    using assms(2) by (auto simp: nat_add_distrib)
  have u: "[i..<i + m] @ [i + m..<j] = [i..<j]" if "i + m \<le> j" for i m j :: nat
    using upt_add_eq_append [of i "i + m" "j - (i + m)"] that by simp
  show r: "sec_locs s @ np_rem info files st' = np_rem info files st"
    unfolding np_rem_def s_def st'_def sec_locs_def
    by (simp add: a u [OF a(2)] flip: map_append append_assoc)
  have "int (length (np_rem info files st)) = n + int (length (np_rem info files st'))"
    using assms(2) unfolding r [symmetric] by (simp add: s_def)
  then show "np_inv info files st'"
    using assms(1) o assms(2) by (simp add: np_inv_def st'_def)
qed

lemma unat_section_length:
  assumes "0 \<le> l"
  shows "unat (of_int (min (int (unat (left :: u32))) l) :: u32) = nat (min (int (unat left)) l)"
proof -
  have "nat (min (int (unat left)) l) < 4294967296"
    using unat_u32_less [of left] assms
    by (metis min.cobounded1 nat_int nat_mono order_le_less_trans)
  moreover have "(of_int (min (int (unat left)) l) :: u32) = of_nat (nat (min (int (unat left)) l))"
    using assms by (simp add: of_nat_nat)
  ultimately show ?thesis by (simp add: unat_of_nat_u32)
qed

definition secs_pos :: "Info \<Rightarrow> alloc_file list \<Rightarrow> FileSection list \<Rightarrow> bool" where
  "secs_pos info files ss \<longleftrightarrow> (\<forall>s\<in>set ss. 0 \<le> sec_Offset s \<and> 0 \<le> sec_Length s \<and>
     (\<exists>k<length (Files info). sec_File s = Storage (files ! k) \<and>
        sec_Offset s + sec_Length s \<le> Length (Files info ! k)))"

text \<open>
  One piece: the loop returns, and the sections it adds are the next \<open>left\<close> places, or all that
  remain when fewer do.
\<close>

lemma piece_loop_spec:
  assumes ok: "layout_ok info files"
  shows "np_inv info files st \<Longrightarrow> total st < info_Length info \<Longrightarrow> 0 < left \<Longrightarrow> secs_pos info files secs \<Longrightarrow>
    \<exists>st' S. piece_loop info files st left plen secs = Some (st', plen + of_nat (length (locs S)), secs @ S) \<and>
      secs_pos info files (secs @ S) \<and> np_inv info files st' \<and> locs S @ np_rem info files st' = np_rem info files st \<and>
      length (locs S) = min (unat left) (length (np_rem info files st)) \<and> S \<noteq> []"
proof (induction "unat left + (length (Files info) - nat (fileIndex st))"
    arbitrary: st left plen secs rule: less_induct)
  case less
  let ?n = "min (int (unat left)) (fileLeft st)"
  define n where "n = (of_int ?n :: u32)"
  let ?f = "files ! nat (fileIndex st)"
  define s where "s = \<lparr>sec_File = Storage ?f, sec_Offset = fileOffset st, sec_Length = int (unat n), sec_Name = af_Name ?f\<rparr>"
  define st1 where "st1 = st\<lparr>fileOffset := fileOffset st + int (unat n), total := total st + int (unat n)\<rparr>"
  have inv: "np_inv info files st" by (rule less.prems)
  then have idx: "0 \<le> fileIndex st" "nat (fileIndex st) < length files" "0 \<le> fileLeft st"
    and tot: "total st + int (length (np_rem info files st)) = info_Length info"
    using ok by (auto simp: np_inv_def fileLeft_def layout_ok_def)
  have un: "int (unat n) = ?n" using unat_section_length [OF idx(3), of left] idx(3) by (simp add: n_def)
  have nle: "unat n \<le> unat left" "int (unat n) \<le> fileLeft st" using un by linarith+
  have rem: "sec_locs s @ np_rem info files st1 = np_rem info files st" and inv1: "np_inv info files st1"
    using take_section_rem(1) [OF inv _ nle(2), where nm = "af_Name ?f"] take_section_rem(2) [OF inv _ nle(2)]
    by (simp_all add: s_def st1_def)
  have lens: "length (sec_locs s) = unat n" "nat (sec_Length s) = unat n" by (simp_all add: s_def)
  have tot1: "total st1 + int (length (np_rem info files st1)) = info_Length info"
    using inv1 by (simp add: np_inv_def)
  have pos: "secs_pos info files (secs @ [s])"
    using less.prems(4) inv nle(2) by (auto simp: secs_pos_def s_def np_inv_def fileLeft_def)
  have left1: "unat (left - n) = unat left - unat n"
    using nle(1) by (simp add: unat_minus_u32 word_le_nat_alt)
  have unf: "piece_loop info files st left plen secs =
     (if total st1 = info_Length info then Some (st1, plen + n, secs @ [s])
      else if fileLeft st1 = 0
      then Option.bind (nextFile info st1) (\<lambda>st''. piece_loop info files st'' (left - n) (plen + n) (secs @ [s]))
      else piece_loop info files st1 (left - n) (plen + n) (secs @ [s]))"
    using less.prems(3) idx by (subst piece_loop.simps) (simp add: Let_def n_def s_def st1_def)
  show ?case
  proof (cases "total st1 = info_Length info")
    case True
    then have "np_rem info files st1 = []" using tot1 by simp
    then have "length (np_rem info files st) = unat n" using rem lens by (metis append_Nil2)
    with True unf pos inv1 rem lens nle(1) show ?thesis
      by (intro exI [of _ st1] exI [of _ "[s]"]) simp
  next
    case False
    have "0 \<le> int (length (np_rem info files st1))" by simp
    with False tot1 have t1: "total st1 < info_Length info" by linarith
    obtain st2 where st2: "np_inv info files st2" "total st2 = total st1"
      "np_rem info files st2 = np_rem info files st1"
      and unf2: "piece_loop info files st left plen secs =
        piece_loop info files st2 (left - n) (plen + n) (secs @ [s])"
      and mea: "unat (left - n) = 0 \<or>
        unat (left - n) + (length (Files info) - nat (fileIndex st2)) <
        unat left + (length (Files info) - nat (fileIndex st))"
    proof (cases "fileLeft st1 = 0")
      case True
      obtain st' where st': "nextFile info st1 = Some st'" "np_inv info files st'" "total st' = total st1"
        "fileIndex st' = fileIndex st1 + 1" "np_rem info files st' = np_rem info files st1"
        using nextFile_rem [OF ok inv1 True t1] by blast
      have "nat (fileIndex st') = Suc (nat (fileIndex st))" using st'(4) idx(1) by (simp add: st1_def)
      moreover have "nat (fileIndex st) < length (Files info)" using inv by (simp add: np_inv_def)
      ultimately show thesis using st' True unf \<open>total st1 \<noteq> info_Length info\<close> left1
        by (intro that [of st']) auto
    next
      case fl: False
      have "?n = int (unat left)"
      proof (rule ccontr)
        assume "?n \<noteq> int (unat left)"
        then have "?n = fileLeft st" by (simp add: min_def split: if_splits)
        with un have "fileLeft st1 = 0" by (simp add: st1_def fileLeft_def)
        with fl show False by simp
      qed
      then have "unat n = unat left" using un by (metis of_nat_eq_iff)
      then have "unat (left - n) = 0" using left1 by simp
      then show thesis using fl unf False inv1 by (intro that [of st1]) auto
    qed
    show ?thesis
    proof (cases "unat (left - n) = 0")
      case True
      then have l0: "left - n = 0" by (simp add: unat_eq_0)
      then have "piece_loop info files st left plen secs = Some (st2, plen + n, secs @ [s])"
        unfolding unf2 by (subst piece_loop.simps) simp
      moreover have "unat left = unat n" using True left1 nle(1) by simp
      moreover have "length (np_rem info files st) = unat n + length (np_rem info files st1)"
        unfolding rem [symmetric] by (simp add: lens)
      ultimately show ?thesis using pos st2 rem lens
        by (intro exI [of _ st2] exI [of _ "[s]"]) simp
    next
      case lpos: False
      then have "0 < left - n" by (simp add: word_gt_0 unat_eq_0)
      then obtain st' S where IH: "piece_loop info files st2 (left - n) (plen + n) (secs @ [s]) =
          Some (st', plen + n + of_nat (length (locs S)), (secs @ [s]) @ S)"
        "secs_pos info files ((secs @ [s]) @ S)" "np_inv info files st'"
        "locs S @ np_rem info files st' = np_rem info files st2"
        "length (locs S) = min (unat (left - n)) (length (np_rem info files st2))"
        using less.hyps [of "left - n" st2 "secs @ [s]" "plen + n"] mea lpos st2 t1 pos by auto
      have "length (np_rem info files st) = unat n + length (np_rem info files st1)"
        unfolding rem [symmetric] by (simp add: lens)
      then have "length (locs (s # S)) = min (unat left) (length (np_rem info files st))"
        using IH(5) left1 nle(1) lens st2(3) by (auto simp: min_def)
      moreover have "plen + n + of_nat (length (locs S)) = plen + of_nat (length (locs (s # S)))"
        by (simp add: lens add.assoc)
      ultimately show ?thesis using IH unf2 rem st2(3)
        by (intro exI [of _ st'] exI [of _ "s # S"]) simp
    qed
  qed
qed

text \<open>What \<open>NewPieces\<close> promises of piece \<open>k\<close>.\<close>

definition piece_ok :: "Info \<Rightarrow> alloc_file list \<Rightarrow> nat \<Rightarrow> Piece \<Rightarrow> bool" where
  "piece_ok info files k p \<longleftrightarrow>
     Index p = of_nat k \<and> \<not> Writing p \<and> \<not> Done p \<and>
     p_Hash p = take 20 (drop (20 * k) (pieces info)) \<and>
     unat (p_Length p) = length (locs (Data p)) \<and> Data p \<noteq> [] \<and> secs_pos info files (Data p) \<and>
     (if Suc k < unat (NumPieces info) then p_Length p = PieceLength info
      else int (unat (p_Length p)) = info_Length info - int k * int (unat (PieceLength info)))"

lemma pieces_loop_spec:
  assumes ok: "layout_ok info files"
  shows "np_inv info files st \<Longrightarrow> i \<le> unat (NumPieces info) \<Longrightarrow>
    total st = min (info_Length info) (int i * int (unat (PieceLength info))) \<Longrightarrow>
    \<exists>ps. pieces_loop info files (map of_nat [i..<unat (NumPieces info)]) st = Some ps \<and>
      length ps = unat (NumPieces info) - i \<and> concat (map (locs \<circ> Data) ps) = np_rem info files st \<and>
      (\<forall>k<length ps. piece_ok info files (i + k) (ps ! k))"
proof (induction "unat (NumPieces info) - i" arbitrary: i st)
  case 0
  let ?N = "unat (NumPieces info)"
  have "i = ?N" using 0 by simp
  moreover have "np_rem info files st = []"
  proof -
    have "total st = info_Length info" using 0 \<open>i = ?N\<close> ok by (simp add: layout_ok_def)
    then show ?thesis using 0 by (simp add: np_inv_def)
  qed
  ultimately show ?case by simp
next
  case (Suc m)
  let ?N = "unat (NumPieces info)" and ?PL = "unat (PieceLength info)"
  have i: "i < ?N" using Suc by simp
  have pl: "0 < PieceLength info" "0 < ?PL" and
    last: "int (?N - 1) * int ?PL < info_Length info" "info_Length info \<le> int ?N * int ?PL" and
    hl: "length (pieces info) = 20 * ?N" "20 * ?N < 4294967296"
    using ok by (simp_all add: layout_ok_def word_gt_0 unat_gt_0)
  have ile: "int i * int ?PL \<le> int (?N - 1) * int ?PL" using i
    by (intro mult_right_mono) (simp_all only: of_nat_le_iff of_nat_0_le_iff)
  then have tot: "total st = int i * int ?PL" "total st < info_Length info" using Suc last by auto
  have ui: "unat (of_nat i :: u32) = i" using i hl by (simp add: unat_of_nat_u32)
  have h: "PieceHash info (of_nat i) = Some (take 20 (drop (20 * i) (pieces info)))"
    by (rule PieceHash_chunk [OF hl, of "of_nat i", unfolded ui, OF i])
  obtain st' S where S: "piece_loop info files st (PieceLength info) 0 [] = Some (st', of_nat (length (locs S)), S)"
    "secs_pos info files S" "np_inv info files st'" "locs S @ np_rem info files st' = np_rem info files st"
    "length (locs S) = min ?PL (length (np_rem info files st))" "S \<noteq> []"
    using piece_loop_spec [OF ok Suc(3) tot(2) pl(1), of "[]" 0] by (auto simp: secs_pos_def)
  have len: "int (length (np_rem info files st)) = info_Length info - int i * int ?PL"
    using Suc(3) tot(1) by (simp add: np_inv_def)
  have tot': "total st' = total st + int (length (locs S))"
    using Suc(3) S(3) arg_cong [OF S(4), of length] by (simp add: np_inv_def)
  have uS: "unat (of_nat (length (locs S)) :: u32) = length (locs S)"
    using S(5) unat_u32_less [of "PieceLength info"] by (simp add: unat_of_nat_u32)
  have lS: "int (length (locs S)) = min (int ?PL) (info_Length info - int i * int ?PL)"
    unfolding S(5) len [symmetric] by (rule of_nat_min)
  have sucm: "int (Suc j) * int ?PL = int j * int ?PL + int ?PL" for j
    by (simp add: algebra_simps)
  have "total st' = min (info_Length info) (int (Suc i) * int ?PL)"
    unfolding tot' tot(1) lS sucm by linarith
  moreover have "m = ?N - Suc i" "Suc i \<le> ?N" using Suc(2) i by auto
  ultimately obtain ps where ps: "pieces_loop info files (map of_nat [Suc i..<?N]) st' = Some ps"
    "length ps = ?N - Suc i" "concat (map (locs \<circ> Data) ps) = np_rem info files st'"
    "\<forall>k<length ps. piece_ok info files (Suc i + k) (ps ! k)"
    using Suc(1) [of "Suc i" st'] S(3) by blast
  let ?p = "\<lparr>Index = of_nat i, p_Length = of_nat (length (locs S)), Data = S,
    p_Hash = take 20 (drop (20 * i) (pieces info)), Writing = False, Done = False\<rparr> :: Piece"
  have "length (locs S) = ?PL" if "Suc i < ?N"
  proof -
    have "int (Suc i) * int ?PL \<le> int (?N - 1) * int ?PL" using that
      by (intro mult_right_mono) (simp_all only: of_nat_le_iff of_nat_0_le_iff)
    then have "int (length (locs S)) = int ?PL" unfolding lS sucm using last(1) by linarith
    then show ?thesis by (rule of_nat_eq_iff [THEN iffD1])
  qed
  moreover have "int (length (locs S)) = info_Length info - int i * int ?PL" if "\<not> Suc i < ?N"
  proof -
    have "?N = Suc i" using that i by simp
    then show ?thesis unfolding lS using last(2) sucm [of i] by simp
  qed
  ultimately have pok: "piece_ok info files i ?p" using S(2,6) uS by (simp add: piece_ok_def)
  have "[i..<?N] = i # [Suc i..<?N]" using i by (rule upt_conv_Cons)
  then have "pieces_loop info files (map of_nat [i..<?N]) st = Some (?p # ps)"
    using h S(1) ps(1) by simp
  moreover have "\<forall>k<length (?p # ps). piece_ok info files (i + k) ((?p # ps) ! k)"
    using pok ps(4) by (auto simp: nth_Cons less_Suc_eq_0_disj)
  ultimately show ?case using ps S(4) i by (intro exI [of _ "?p # ps"]) simp
qed

theorem NewPieces_spec:
  assumes ok: "layout_ok info files"
  shows "\<exists>ps. NewPieces info files = Some ps \<and> length ps = unat (NumPieces info) \<and>
    concat (map (locs \<circ> Data) ps) = all_locs info files \<and> (\<forall>k<length ps. piece_ok info files k (ps ! k))"
proof -
  have ne: "0 < length (Files info)" using ok by (simp add: layout_ok_def)
  let ?st = "\<lparr>fileIndex = 0, fileLength = Length (Files info ! 0), fileEnd = Length (Files info ! 0),
    fileOffset = 0, total = 0\<rparr>"
  have nf: "nextFile info \<lparr>fileIndex = - 1, fileLength = 0, fileEnd = 0, fileOffset = 0, total = 0\<rparr> = Some ?st"
    using ne by (simp add: nextFile_def Let_def)
  have rem: "np_rem info files ?st = all_locs info files"
    using ne by (simp add: np_rem_def all_locs_def file_locs_def upt_conv_Cons)
  have len: "int (length (all_locs info files)) = info_Length info"
    using length_all_locs [of info files] ok by (simp add: layout_ok_def)
  have "np_inv info files ?st" using ne ok rem len by (simp add: np_inv_def layout_ok_def)
  moreover have "0 \<le> info_Length info" using len by linarith
  ultimately obtain ps where "pieces_loop info files (map of_nat [0..<unat (NumPieces info)]) ?st = Some ps"
    "length ps = unat (NumPieces info)" "concat (map (locs \<circ> Data) ps) = np_rem info files ?st"
    "\<forall>k<length ps. piece_ok info files (0 + k) (ps ! k)"
    using pieces_loop_spec [OF ok, of ?st 0] by auto
  then show ?thesis using nf rem by (simp add: NewPieces_def u32_upto_def)
qed

section \<open>Properties\<close>

lemma layout_of_NewInfo:
  assumes "NewInfo decode sha1 b = Inr info" and "sizes_ok info" and "length files = length (Files info)"
  shows "layout_ok info files"
proof -
  have "Files info \<noteq> []" "PieceLength info \<noteq> 0" by (rule NewInfo_InrE [OF assms(1)], assumption)+
  then show ?thesis
    using NewInfo_sizes [OF assms(1,2)] assms(2,3)
    unfolding layout_ok_def sizes_ok_def by metis
qed

lemma piece_locs_disjoint:
  assumes "distinct (concat (map f xs))" and "i < length xs" and "j < length xs" and "i \<noteq> j"
  shows "set (f (xs ! i)) \<inter> set (f (xs ! j)) = {}"
  using assms
proof (induction xs arbitrary: i j)
  case (Cons x xs)
  have "set (f x) \<inter> set (f (xs ! k)) = {}" if "k < length xs" for k
    using Cons.prems(1) that nth_mem by fastforce
  then show ?case using Cons by (cases i; cases j) auto
qed simp

lemma distinct_all_locs:
  assumes "distinct (map Storage files)" and "length files = length (Files info)"
  shows "distinct (all_locs info files)"
proof -
  have "distinct (concat (map (file_locs info files) ks))" if "distinct ks" "\<forall>k\<in>set ks. k < length files" for ks
    using that
  proof (induction ks)
    case (Cons k ks)
    have "set (file_locs info files k) \<inter> set (file_locs info files j) = {}" if "j \<in> set ks" for j
    proof -
      have "Storage (files ! k) \<noteq> Storage (files ! j)"
        using nth_eq_iff_index_eq [OF assms(1), of k j] Cons.prems that by auto
      then show ?thesis by (auto simp: file_locs_def)
    qed
    moreover have "distinct (file_locs info files k)" by (auto simp: file_locs_def distinct_map inj_on_def)
    ultimately show ?case using Cons by auto
  qed simp
  then show ?thesis using assms(2) by (simp add: all_locs_def)
qed

text \<open>Files that exist with the length the torrent gives them, as the allocator leaves them.\<close>

definition allocated :: "Info \<Rightarrow> alloc_file list \<Rightarrow> disk \<Rightarrow> bool" where
  "allocated info files d \<longleftrightarrow>
     (\<forall>k<length (Files info). int (length (d (Storage (files ! k)))) = Length (Files info ! k))"

lemma secs_pos_ok: "allocated info files d \<Longrightarrow> secs_pos info files ss \<Longrightarrow> \<forall>s\<in>set ss. sec_ok d s"
  unfolding allocated_def secs_pos_def sec_ok_def by (metis nat_add_distrib nat_int nat_mono)

lemma allocated_same: "allocated info files d \<Longrightarrow> \<forall>f. length (d' f) = length (d f) \<Longrightarrow> allocated info files d'"
  by (simp add: allocated_def)

lemma loc_byte_other:
  assumes "\<forall>f i. (f, i) \<notin> L \<longrightarrow> i < length (d f) \<longrightarrow> d' f ! i = d f ! i"
    and "\<forall>s\<in>set ss. sec_ok d s" and "set (locs ss) \<inter> L = {}"
  shows "map (loc_byte d') (locs ss) = map (loc_byte d) (locs ss)"
proof (rule map_cong [OF refl])
  fix l assume l: "l \<in> set (locs ss)"
  obtain f i where fi: "l = (f, i)" by fastforce
  have "i < length (d f)" using l fi assms(2) by (auto simp: locs_def sec_locs_iff sec_ok_def)
  moreover have "(f, i) \<notin> L" using l fi assms(3) by auto
  ultimately show "loc_byte d' l = loc_byte d l" using assms(1) by (simp add: fi loc_byte_def)
qed

lemma piece_write_read:
  assumes ok: "layout_ok info files" and np: "NewPieces info files = Some ps"
    and dist: "distinct (map Storage files)" and al: "allocated info files d"
    and i: "i < length ps" and buf: "length buf = unat (p_Length (ps ! i))"
  shows "\<exists>d'. Write (\<lambda>_. True) d (Data (ps ! i)) buf 0 = Some (d', length buf, None) \<and>
    allocated info files d' \<and>
    (\<forall>off n. off + n \<le> length buf \<longrightarrow>
       ReadAt d' (Data (ps ! i)) n (int off) = Some (take n (drop off buf), None)) \<and>
    (\<forall>j<length ps. \<forall>off n. j \<noteq> i \<longrightarrow> off + n \<le> unat (p_Length (ps ! j)) \<longrightarrow>
       ReadAt d' (Data (ps ! j)) n (int off) = ReadAt d (Data (ps ! j)) n (int off))"
proof -
  have ps: "concat (map (locs \<circ> Data) ps) = all_locs info files" "\<forall>k<length ps. piece_ok info files k (ps ! k)"
    using NewPieces_spec [OF ok] np by auto
  have dl: "distinct (concat (map (locs \<circ> Data) ps))"
    using distinct_all_locs [OF dist] ok ps(1) by (simp add: layout_ok_def)
  then have di: "distinct (locs (Data (ps ! i)))" using i by (auto simp: distinct_concat_iff)
  have sok: "\<forall>s\<in>set (Data (ps ! k)). sec_ok d' s" if "k < length ps" "allocated info files d'" for k d'
    using that ps(2) by (intro secs_pos_ok [OF that(2)]) (simp add: piece_ok_def)
  have len: "unat (p_Length (ps ! k)) = length (locs (Data (ps ! k)))" "Data (ps ! k) \<noteq> []"
    if "k < length ps" for k using ps(2) that by (simp_all add: piece_ok_def)
  obtain d' where d': "Write (\<lambda>_. True) d (Data (ps ! i)) buf 0 = Some (d', 0 + length buf, None)"
    "map (loc_byte d') (locs (Data (ps ! i))) = buf" "\<forall>f. length (d' f) = length (d f)"
    "\<forall>f j. (f, j) \<notin> set (locs (Data (ps ! i))) \<longrightarrow> j < length (d f) \<longrightarrow> d' f ! j = d f ! j"
    using Write_locs [of "Data (ps ! i)" d buf "\<lambda>_. True" 0] sok [OF i al] di buf len [OF i] by auto
  have al': "allocated info files d'" by (rule allocated_same [OF al d'(3)])
  have rd: "ReadAt d1 (Data (ps ! k)) n (int off) = Some (take n (drop off (map (loc_byte d1) (locs (Data (ps ! k))))), None)"
    if "k < length ps" "allocated info files d1" "off + n \<le> unat (p_Length (ps ! k))" for k d1 off n
    using ReadAt_locs [OF sok [OF that(1,2)] len(2) [OF that(1)], of "int off" n] that(3) len(1) [OF that(1)]
    by (simp add: take_map drop_map)
  have "ReadAt d' (Data (ps ! j)) n (int off) = ReadAt d (Data (ps ! j)) n (int off)"
    if "j < length ps" "j \<noteq> i" "off + n \<le> unat (p_Length (ps ! j))" for j off n
  proof -
    have "set (locs (Data (ps ! j))) \<inter> set (locs (Data (ps ! i))) = {}"
      using piece_locs_disjoint [OF dl that(1) i that(2)] by simp
    from loc_byte_other [OF d'(4) sok [OF that(1) al] this] show ?thesis
      unfolding rd [OF that(1) al that(3)] rd [OF that(1) al' that(3)] by (simp only:)
  qed
  moreover have "ReadAt d' (Data (ps ! i)) n (int off) = Some (take n (drop off buf), None)"
    if "off + n \<le> length buf" for off n
    using rd [OF i al', of off n] that buf d'(2) by simp
  ultimately show ?thesis using d'(1) al' by auto
qed

text \<open>
  C23: For an accepted torrent without negative lengths, with one allocated file for each of its
  files, \<open>NewPieces\<close> returns: it never indexes out of range.  The sections of the pieces, in order,
  are exactly the bytes of the files, in order.  Piece \<open>k\<close> has index \<open>k\<close>, the \<open>k\<close>th hash, the
  piece length (the last one what is left) and sections inside the files.
\<close>

theorem NewPieces_tiles_files:
  assumes "NewInfo decode sha1 b = Inr info" and "sizes_ok info" and "length files = length (Files info)"
  shows "\<exists>ps. NewPieces info files = Some ps \<and> length ps = unat (NumPieces info) \<and>
    concat (map (locs \<circ> Data) ps) = all_locs info files \<and> (\<forall>k<length ps. piece_ok info files k (ps ! k))"
  by (rule NewPieces_spec [OF layout_of_NewInfo [OF assms]])

theorem NewPieces_tiles_files_witness:
  "\<exists>ps. NewPieces sample_info [\<lparr>Storage = 1, af_Name = ''a''\<rparr>, \<lparr>Storage = 2, af_Name = ''b''\<rparr>] = Some ps \<and>
     concat (map (locs \<circ> Data) ps) = [(1, 0), (1, 1), (1, 2), (2, 0), (2, 1), (2, 2), (2, 3)]"
  using NewPieces_tiles_files [OF NewInfo_sample sizes_ok_sample,
      of "[\<lparr>Storage = 1, af_Name = ''a''\<rparr>, \<lparr>Storage = 2, af_Name = ''b''\<rparr>]"]
  by (auto simp: sample_info_def all_locs_def file_locs_def upt_rec)

text \<open>
  C24: The blocks of a piece tile it.  Block \<open>i\<close> begins at \<open>16384 * i\<close>, is 16 KiB long or what is
  left, and never empty; there are as many as the length needs; \<open>FindBlock\<close> answers exactly the
  blocks that \<open>GetBlock\<close> hands out.
\<close>

theorem blocks_tile_piece:
  "(\<forall>i. case GetBlock p i of
      None \<Rightarrow> (unat (p_Length p) + 16383) div 16384 \<le> i
    | Some b \<Rightarrow> b_Index b = i \<and> unat (Begin b) = 16384 * i \<and> 0 < unat (b_Length b) \<and>
        unat (b_Length b) = min 16384 (unat (p_Length p) - 16384 * i) \<and>
        FindBlock p (Begin b) (b_Length b) = Some b) \<and>
   (\<forall>bgn len b. FindBlock p bgn len = Some b \<longrightarrow> GetBlock p (b_Index b) = Some b \<and> Begin b = bgn \<and> b_Length b = len) \<and>
   (\<Sum>i<NumBlocks p. unat (b_Length (the (GetBlock p i)))) = unat (p_Length p)"
  using GetBlock_SomeD [of p] FindBlock_iff [of p] sum_blocks [of p] GetBlock_None [of p]
  by (auto simp: NumBlocks_eq split: option.splits)

theorem blocks_tile_piece_witness:
  "GetBlock \<lparr>Index = 0, p_Length = 20000, Data = [], p_Hash = [], Writing = False, Done = False\<rparr> 1 =
     Some \<lparr>b_Index = 1, Begin = 16384, b_Length = 3616\<rparr>"
  using blocks_tile_piece [of "\<lparr>Index = 0, p_Length = 20000, Data = [], p_Hash = [], Writing = False, Done = False\<rparr>",
      THEN conjunct2, THEN conjunct1, rule_format, of 16384 3616 "\<lparr>b_Index = 1, Begin = 16384, b_Length = 3616\<rparr>"]
  by (simp add: FindBlock_def GetBlock_def BlockSize_def Let_def)

text \<open>
  C26: Storage round trip.  When the files exist with their lengths, writing a buffer of the
  piece's length to the sections of one piece succeeds and keeps the file lengths; any range of
  that piece then reads back as the same range of the buffer, and every read of another piece
  returns what it returned before.
\<close>

theorem piece_storage_roundtrip:
  assumes "layout_ok info files" and "NewPieces info files = Some ps" and "distinct (map Storage files)"
    and "allocated info files d" and "i < length ps" and "length buf = unat (p_Length (ps ! i))"
  shows "\<exists>d'. Write (\<lambda>_. True) d (Data (ps ! i)) buf 0 = Some (d', length buf, None) \<and>
    allocated info files d' \<and>
    (\<forall>off n. off + n \<le> length buf \<longrightarrow>
       ReadAt d' (Data (ps ! i)) n (int off) = Some (take n (drop off buf), None)) \<and>
    (\<forall>j<length ps. \<forall>off n. j \<noteq> i \<longrightarrow> off + n \<le> unat (p_Length (ps ! j)) \<longrightarrow>
       ReadAt d' (Data (ps ! j)) n (int off) = ReadAt d (Data (ps ! j)) n (int off))"
  by (rule piece_write_read [OF assms])

definition sample_files :: "alloc_file list" where
  "sample_files = [\<lparr>Storage = 1, af_Name = ''a''\<rparr>, \<lparr>Storage = 2, af_Name = ''b''\<rparr>]"

lemma layout_sample: "layout_ok sample_info sample_files"
  by (rule layout_of_NewInfo [OF NewInfo_sample sizes_ok_sample]) (simp add: sample_files_def sample_info_def)

definition sample_pieces :: "Piece list" where
  "sample_pieces =
    [\<lparr>Index = 0, p_Length = 4, Data = [\<lparr>sec_File = 1, sec_Offset = 0, sec_Length = 3, sec_Name = ''a''\<rparr>,
        \<lparr>sec_File = 2, sec_Offset = 0, sec_Length = 1, sec_Name = ''b''\<rparr>],
      p_Hash = replicate 20 7, Writing = False, Done = False\<rparr>,
     \<lparr>Index = 1, p_Length = 3, Data = [\<lparr>sec_File = 2, sec_Offset = 1, sec_Length = 3, sec_Name = ''b''\<rparr>],
      p_Hash = replicate 20 7, Writing = False, Done = False\<rparr>]"

lemma NewPieces_sample: "NewPieces sample_info sample_files = Some sample_pieces"
  by (simp add: NewPieces_def sample_info_def sample_files_def sample_pieces_def u32_upto_def nextFile_def
      PieceHash_def Let_def fileLeft_def piece_loop.simps slice_get_def upt_rec)

theorem piece_storage_roundtrip_witness:
  "\<exists>d'. Write (\<lambda>_. True) ((\<lambda>_. [])(1 := replicate 3 0, 2 := replicate 4 0)) (Data (sample_pieces ! 0)) [1, 2, 3, 4] 0 =
      Some (d', 4, None) \<and> ReadAt d' (Data (sample_pieces ! 0)) 2 (int 2) = Some ([3, 4], None)"
proof -
  have "allocated sample_info sample_files ((\<lambda>_. [])(1 := replicate 3 0, 2 := replicate 4 0))"
    by (simp add: allocated_def sample_info_def sample_files_def less_Suc_eq numeral_2_eq_2)
  moreover have "distinct (map Storage sample_files)" "0 < length sample_pieces"
    "length [1, 2, 3, 4 :: byte] = unat (p_Length (sample_pieces ! 0))"
    by (simp_all add: sample_files_def sample_pieces_def)
  ultimately obtain d' where
    "Write (\<lambda>_. True) ((\<lambda>_. [])(1 := replicate 3 0, 2 := replicate 4 0)) (Data (sample_pieces ! 0)) [1, 2, 3, 4] 0 =
      Some (d', length [1, 2, 3, 4 :: byte], None)"
    "\<forall>off n. off + n \<le> length [1, 2, 3, 4 :: byte] \<longrightarrow>
       ReadAt d' (Data (sample_pieces ! 0)) n (int off) = Some (take n (drop off [1, 2, 3, 4]), None)"
    using piece_storage_roundtrip [OF layout_sample NewPieces_sample] by metis
  then show ?thesis by (intro exI [of _ d']) (auto dest: spec [of _ 2])
qed

end
