(* ===== verification/PeerProtocol.thy ===== *)
theory PeerProtocol
  imports Piece
begin

unbundle bit_operations_syntax

text \<open>
  The wire protocol between peers: the messages of \<open>external/peerprotocol\<close>, the parsing loop of
  \<open>peerreader\<close> and the queue and serialisation of \<open>peerwriter\<close> (\<open>external/peerconn\<close>).

  Parameters: the bencode codec (\<open>ext_codec\<close>), and the source of a piece's bytes for uploads.
  A connection is its list of bytes; deadlines, the rate limiting bucket and the log are left out.
\<close>

section \<open>Messages\<close>

record request =
  r_Index :: u32
  r_Begin :: u32
  r_Length :: u32

record ext_handshake =
  hs_M :: "(string \<times> byte) list"
  hs_V :: string
  hs_YourIP :: string
  MetadataSize :: int
  RequestQueue :: int

record ext_metadata =
  md_Type :: int
  md_Piece :: u32
  md_TotalSize :: int
  md_Data :: "byte list"

record ext_pex =
  Added :: string
  Dropped :: string

datatype ext_payload =
    ExtHandshake ext_handshake
  | ExtMetadata ext_metadata
  | ExtPEX ext_pex

text \<open>
  \<open>Extension id p\<close> is the \<open>ExtensionMessage\<close> a peer sends; the reader hands on only the payload,
  \<open>Ext p\<close>.  \<open>PieceMsg\<close> is the reader's \<open>Piece\<close>: the header with the received block.
\<close>

datatype message =
    Choke | Unchoke | Interested | NotInterested
  | Have u32
  | BitfieldMsg "byte list"
  | Request request
  | PieceMsg u32 u32 "byte list"
  | Cancel request
  | Port u16
  | HaveAll | HaveNone
  | Reject request
  | AllowedFast u32
  | Extension byte ext_payload
  | Ext ext_payload

text \<open>
  The methods \<open>ID\<close>.  \<open>AllowedFastMessage\<close> embeds \<open>HaveMessage\<close> and has no \<open>ID\<close> of its own, so Go promotes the
  one of \<open>HaveMessage\<close>: its id is that of \<open>Have\<close>, not the constant \<open>AllowedFast = 17\<close> the reader looks for.
\<close>

fun message_id :: "message \<Rightarrow> byte" where
  "message_id Choke = 0"
| "message_id Unchoke = 1"
| "message_id Interested = 2"
| "message_id NotInterested = 3"
| "message_id (Have _) = 4"
| "message_id (BitfieldMsg _) = 5"
| "message_id (Request _) = 6"
| "message_id (PieceMsg _ _ _) = 7"
| "message_id (Cancel _) = 8"
| "message_id (Port _) = 9"
| "message_id HaveAll = 14"
| "message_id HaveNone = 15"
| "message_id (Reject _) = 16"
| "message_id (AllowedFast _) = 4"
| "message_id (Extension _ _) = 20"
| "message_id (Ext _) = 20"

text \<open>
  The codec of zeebo/bencode, as the code uses it: what it writes for a payload (without the raw
  data of a metadata message) and what it reads back; \<open>BytesParsed\<close> comes with a metadata header.
\<close>

record ext_codec =
  enc_payload :: "ext_payload \<Rightarrow> byte list"
  dec_handshake :: "byte list \<Rightarrow> ext_handshake option"
  dec_metadata :: "byte list \<Rightarrow> (ext_metadata \<times> nat) option"
  dec_pex :: "byte list \<Rightarrow> ext_pex option"

definition ext_WriteTo :: "ext_codec \<Rightarrow> byte \<Rightarrow> ext_payload \<Rightarrow> byte list" where
  "ext_WriteTo c i p = [i] @ enc_payload c p @ (case p of ExtMetadata m \<Rightarrow> md_Data m | _ \<Rightarrow> [])"

definition request_bytes :: "request \<Rightarrow> byte list" where
  "request_bytes r = put_u32 (r_Index r) @ put_u32 (r_Begin r) @ put_u32 (r_Length r)"

fun message_Read :: "ext_codec \<Rightarrow> message \<Rightarrow> byte list" where
  "message_Read c (Have i) = put_u32 i"
| "message_Read c (AllowedFast i) = put_u32 i"
| "message_Read c (BitfieldMsg d) = d"
| "message_Read c (Request r) = request_bytes r"
| "message_Read c (Cancel r) = request_bytes r"
| "message_Read c (Reject r) = request_bytes r"
| "message_Read c (PieceMsg i b d) = put_u32 i @ put_u32 b @ d"
| "message_Read c (Port p) = put_u16 p"
| "message_Read c (Extension i p) = ext_WriteTo c i p"
| "message_Read c _ = []"

text \<open>\<open>ExtensionMessage.UnmarshalBinary\<close>: the clamps of the handshake act on a copy made too early.\<close>

datatype read_error = R_EOF | R_UnexpectedEOF | BlockSizeError byte u32 | ExtError

definition UnmarshalBinary :: "ext_codec \<Rightarrow> byte list \<Rightarrow> read_error + byte \<times> ext_payload" where
  "UnmarshalBinary c data =
     (case data of
        [] \<Rightarrow> Inl R_EOF
      | extID # payload \<Rightarrow>
        if extID = 0 then
          (case dec_handshake c payload of None \<Rightarrow> Inl ExtError
           | Some extMsg \<Rightarrow>
             let Payload = ExtHandshake extMsg;
                 extMsg = (if MetadataSize extMsg < 0 then extMsg\<lparr>MetadataSize := 0\<rparr> else extMsg);
                 extMsg = (if RequestQueue extMsg < 0 then extMsg\<lparr>RequestQueue := 0\<rparr> else extMsg)
             in Inr (extID, Payload))
        else if extID = 1 then
          (case dec_metadata c payload of None \<Rightarrow> Inl ExtError
           | Some (m, parsed) \<Rightarrow> Inr (extID, ExtMetadata (m\<lparr>md_Data := drop parsed payload\<rparr>)))
        else if extID = 2 then
          (case dec_pex c payload of None \<Rightarrow> Inl ExtError | Some m \<Rightarrow> Inr (extID, ExtPEX m))
        else Inl ExtError)"

section \<open>Reading\<close>

text \<open>\<open>io.ReadFull\<close> of \<open>n\<close> bytes, which \<open>binary.Read\<close> uses as well.\<close>

definition read_n :: "nat \<Rightarrow> byte list \<Rightarrow> read_error + byte list \<times> byte list" where
  "read_n n s =
     (if n \<le> length s then Inr (take n s, drop n s)
      else if s = [] then Inl R_EOF else Inl R_UnexpectedEOF)"

definition MaxBlockSize :: u32 where
  "MaxBlockSize = 16 * 1024"

text \<open>One round of the loop of \<open>Run\<close>; \<open>RSkip\<close> is a \<open>continue\<close>.\<close>

datatype read_result =
    RMsg message "byte list"
  | RSkip "byte list"
  | RStop read_error

definition parse_request :: "byte list \<Rightarrow> request" where
  "parse_request b = \<lparr>r_Index = be32 b, r_Begin = be32 (drop 4 b),
     r_Length = be32 (drop 8 b)\<rparr>"

definition read_fixed :: "nat \<Rightarrow> byte list \<Rightarrow> (byte list \<Rightarrow> byte list \<Rightarrow> read_result) \<Rightarrow> read_result" where
  "read_fixed n s k = (case read_n n s of Inl e \<Rightarrow> RStop e | Inr (b, rest) \<Rightarrow> k b rest)"

definition read_body :: "ext_codec \<Rightarrow> byte \<Rightarrow> u32 \<Rightarrow> byte list \<Rightarrow> read_result" where
  "read_body c i len s =
     (if i = 0 then RMsg Choke s
      else if i = 1 then RMsg Unchoke s
      else if i = 2 then RMsg Interested s
      else if i = 3 then RMsg NotInterested s
      else if i = 4 then read_fixed 4 s (\<lambda>b. RMsg (Have (be32 b)))
      else if i = 5 then read_fixed (unat len) s (\<lambda>b. RMsg (BitfieldMsg b))
      else if i = 6 then read_fixed 12 s (\<lambda>b rest.
        let rm = parse_request b in
        if r_Length rm > MaxBlockSize then RStop (BlockSizeError i (r_Length rm)) else RMsg (Request rm) rest)
      else if i = 16 then read_fixed 12 s (\<lambda>b. RMsg (Reject (parse_request b)))
      else if i = 8 then read_fixed 12 s (\<lambda>b. RMsg (Cancel (parse_request b)))
      else if i = 7 then read_fixed 8 s (\<lambda>b rest.
        let len = len - 8 in
        if len > BlockSize then RStop (BlockSizeError i len)
        else read_fixed (unat len) rest (\<lambda>d. RMsg (PieceMsg (be32 b) (be32 (drop 4 b)) d)))
      else if i = 14 then RMsg HaveAll s
      else if i = 15 then RMsg HaveNone s
      else if i = 17 then read_fixed 4 s (\<lambda>b. RMsg (AllowedFast (be32 b)))
      else if i = 9 then read_fixed 2 s (\<lambda>b. RMsg (Port (be16 b)))
      else if i = 20 then read_fixed (unat len) s (\<lambda>b rest.
        case UnmarshalBinary c b of Inl e \<Rightarrow> RStop e | Inr (_, p) \<Rightarrow> RMsg (Ext p) rest)
      else if unat len \<le> length s then RSkip (drop (unat len) s) else RStop R_EOF)"

definition read_message :: "ext_codec \<Rightarrow> byte list \<Rightarrow> read_result" where
  "read_message c s =
     (case read_n 4 s of Inl e \<Rightarrow> RStop e
      | Inr (b, s) \<Rightarrow>
        let len = be32 b in
        if len = 0 then RSkip s
        else (case read_n 1 s of Inl e \<Rightarrow> RStop e
              | Inr (i, s) \<Rightarrow> read_body c (hd i) (len - 1) s))"

lemma read_n_Inr: "read_n n s = Inr (b, r) \<longleftrightarrow> n \<le> length s \<and> b = take n s \<and> r = drop n s"
  by (auto simp: read_n_def)

lemma read_body_length:
  "read_body c i len s = RMsg m r \<Longrightarrow> length r \<le> length s"
  "read_body c i len s = RSkip r \<Longrightarrow> length r \<le> length s"
  by (auto simp: read_body_def read_fixed_def read_n_def Let_def split: if_splits sum.splits)

lemma read_message_length:
  "read_message c s = RMsg m r \<Longrightarrow> length r < length s"
  "read_message c s = RSkip r \<Longrightarrow> length r < length s"
  by (auto simp: read_message_def read_n_def Let_def split: if_splits dest!: read_body_length)

text \<open>The loop of \<open>Run\<close> on a connection that delivers \<open>s\<close> and then ends.\<close>

function Run :: "ext_codec \<Rightarrow> byte list \<Rightarrow> message list \<times> read_error" where
  "Run c s =
     (case read_message c s of
        RStop e \<Rightarrow> ([], e)
      | RSkip r \<Rightarrow> Run c r
      | RMsg m r \<Rightarrow> (let (ms, e) = Run c r in (m # ms, e)))"
  by pat_completeness auto
termination by (relation "measure (\<lambda>(_, s). length s)") (auto dest!: read_message_length)

declare Run.simps [simp del]

section \<open>Writing\<close>

text \<open>
  The queue holds messages and \<open>Piece\<close>s, requests with the source \<open>'d\<close> of their data.
\<close>

datatype 'd queued = QMsg message | QPiece request 'd

record 'd PeerWriter =
  writeQueue :: "'d queued list"
  maxQueuedRequests :: int
  fastEnabled :: bool
  currentQueuedRequests :: int
  servedRequests :: "request set"

definition newPeerWriter :: "int \<Rightarrow> bool \<Rightarrow> 'd PeerWriter" where
  "newPeerWriter mx fast = \<lparr>writeQueue = [], maxQueuedRequests = mx, fastEnabled = fast,
     currentQueuedRequests = 0, servedRequests = {}\<rparr>"

fun is_piece :: "'d queued \<Rightarrow> bool" where
  "is_piece (QPiece _ _) = True"
| "is_piece (QMsg _) = False"

definition cancelQueuedPieceMessages :: "'d PeerWriter \<Rightarrow> 'd PeerWriter" where
  "cancelQueuedPieceMessages p =
     p\<lparr>writeQueue := filter (\<lambda>q. \<not> is_piece q) (writeQueue p),
       currentQueuedRequests := currentQueuedRequests p - int (length (filter is_piece (writeQueue p)))\<rparr>"

definition PushBack :: "'d queued \<Rightarrow> 'd PeerWriter \<Rightarrow> 'd PeerWriter" where
  "PushBack q p = p\<lparr>writeQueue := writeQueue p @ [q]\<rparr>"

definition queueMessage :: "'d queued \<Rightarrow> 'd PeerWriter \<Rightarrow> 'd PeerWriter" where
  "queueMessage msg p =
     (case msg of
        QMsg Choke \<Rightarrow> PushBack msg (cancelQueuedPieceMessages p)
      | QPiece r d \<Rightarrow>
        if currentQueuedRequests p \<ge> maxQueuedRequests p
        then (if fastEnabled p then PushBack (QMsg (Reject r)) p else p)
        else PushBack msg (p\<lparr>currentQueuedRequests := currentQueuedRequests p + 1\<rparr>)
      | _ \<Rightarrow> PushBack msg p)"

fun remove_request :: "request \<Rightarrow> 'd queued list \<Rightarrow> 'd queued list option" where
  "remove_request r [] = None"
| "remove_request r (QPiece r' d # qs) =
     (if r' = r then Some qs else map_option ((#) (QPiece r' d)) (remove_request r qs))"
| "remove_request r (QMsg m # qs) = map_option ((#) (QMsg m)) (remove_request r qs)"

definition cancelRequest :: "request \<Rightarrow> 'd PeerWriter \<Rightarrow> 'd PeerWriter" where
  "cancelRequest r p =
     (case remove_request r (writeQueue p) of None \<Rightarrow> p
      | Some q \<Rightarrow> p\<lparr>writeQueue := q, currentQueuedRequests := currentQueuedRequests p - 1\<rparr>)"

text \<open>
  The front of the queue goes to \<open>messageWriter\<close>, which rejects a request it has served before.
\<close>

definition writeFront :: "'d PeerWriter \<Rightarrow> ('d queued \<times> 'd PeerWriter) option" where
  "writeFront p =
     (case writeQueue p of [] \<Rightarrow> None
      | msg # q \<Rightarrow>
        let p = p\<lparr>writeQueue := q\<rparr>;
            p = (if is_piece msg then p\<lparr>currentQueuedRequests := currentQueuedRequests p - 1\<rparr> else p)
        in Some (case msg of
             QPiece r d \<Rightarrow>
               if r \<in> servedRequests p then (QMsg (Reject r), p)
               else (msg, p\<lparr>servedRequests := insert r (servedRequests p)\<rparr>)
           | QMsg m \<Rightarrow> (msg, p)))"

text \<open>
  The bytes \<open>messageWriter\<close> puts on the wire.  \<open>readat\<close> gives the data of a piece or fails; a
  failing read ends the writer (\<open>None\<close>).
\<close>

definition frame :: "byte \<Rightarrow> byte list \<Rightarrow> byte list" where
  "frame i body = put_u32 (of_nat (1 + length body)) @ [i] @ body"



text \<open>\<open>countUploadBytes\<close> reports what a piece message of \<open>n\<close> written bytes uploaded.\<close>

definition countUploadBytes :: "int \<Rightarrow> u32 option" where
  "countUploadBytes n =
     (let n = n - 13; n = (if n < 0 then 0 else n); uploaded = (of_int n :: u32)
      in if uploaded > 0 then Some uploaded else None)"

text \<open>The events of the writer's \<open>select\<close>; \<open>written\<close> is what has gone to the wire.\<close>

datatype 'd writer_event = EvQueue "'d queued" | EvCancel request | EvWrite

fun writer_step :: "'d PeerWriter \<times> 'd queued list \<Rightarrow> 'd writer_event \<Rightarrow> 'd PeerWriter \<times> 'd queued list" where
  "writer_step (p, written) (EvQueue q) = (queueMessage q p, written)"
| "writer_step (p, written) (EvCancel r) = (cancelRequest r p, written)"
| "writer_step (p, written) EvWrite =
     (case writeFront p of None \<Rightarrow> (p, written) | Some (q, p') \<Rightarrow> (p', written @ [q]))"

definition run_writer :: "int \<Rightarrow> bool \<Rightarrow> 'd writer_event list \<Rightarrow> 'd PeerWriter \<times> 'd queued list" where
  "run_writer mx fast evs = foldl writer_step (newPeerWriter mx fast, []) evs"

section \<open>The writer's invariant\<close>

definition piece_requests :: "'d queued list \<Rightarrow> request list" where
  "piece_requests qs = concat (map (\<lambda>q. case q of QPiece r _ \<Rightarrow> [r] | QMsg _ \<Rightarrow> []) qs)"

definition writer_inv :: "'d PeerWriter \<times> 'd queued list \<Rightarrow> bool" where
  "writer_inv s \<longleftrightarrow> (case s of (p, written) \<Rightarrow>
     currentQueuedRequests p = int (length (filter is_piece (writeQueue p))) \<and>
     currentQueuedRequests p \<le> max 0 (maxQueuedRequests p) \<and>
     set (piece_requests written) = servedRequests p \<and> distinct (piece_requests written))"

lemma piece_requests_simps [simp]:
  "piece_requests [] = []" "piece_requests (xs @ ys) = piece_requests xs @ piece_requests ys"
  "piece_requests (QPiece r d # qs) = r # piece_requests qs" "piece_requests (QMsg m # qs) = piece_requests qs"
  by (simp_all add: piece_requests_def)

lemma remove_request_pieces:
  "remove_request r q = Some q' \<Longrightarrow> length (filter is_piece q) = Suc (length (filter is_piece q'))"
  by (induction r q arbitrary: q' rule: remove_request.induct) (auto split: if_splits)

lemma writer_inv_step: "writer_inv s \<Longrightarrow> writer_inv (writer_step s ev)"
proof (cases s; cases ev)
  fix p written q
  assume "writer_inv s" "s = (p, written)" "ev = EvQueue q"
  then show ?thesis
    by (cases q; simp split: message.splits)
      (auto simp: writer_inv_def queueMessage_def PushBack_def cancelQueuedPieceMessages_def comp_def split: message.splits)
next
  fix p written r
  assume "writer_inv s" "s = (p, written)" "ev = EvCancel r"
  then show ?thesis
    by (auto simp: writer_inv_def cancelRequest_def dest!: remove_request_pieces split: option.splits)
next
  fix p written
  assume "writer_inv s" "s = (p, written)" "ev = EvWrite"
  then show ?thesis
    by (auto simp: writer_inv_def writeFront_def Let_def split: option.splits list.splits queued.splits)
qed

lemma writer_inv_run: "writer_inv (run_writer mx fast evs)"
proof -
  have "writer_inv (foldl writer_step s evs)" if "writer_inv s" for s :: "'a PeerWriter \<times> 'a queued list"
    using that
  proof (induction evs arbitrary: s)
    case (Cons ev evs)
    then show ?case using writer_inv_step [of s ev] by simp
  qed simp
  then show ?thesis by (simp add: run_writer_def writer_inv_def newPeerWriter_def)
qed

lemma maxQueuedRequests_run: "maxQueuedRequests (fst (run_writer mx fast evs)) = mx"
proof -
  have st: "maxQueuedRequests (fst (writer_step s ev)) = maxQueuedRequests (fst s)"
    for s :: "'a PeerWriter \<times> 'a queued list" and ev
    by (cases s; cases ev)
      (auto simp: queueMessage_def PushBack_def cancelQueuedPieceMessages_def cancelRequest_def writeFront_def Let_def
        split: queued.splits message.splits option.splits list.splits)
  have "maxQueuedRequests (fst (foldl writer_step s evs)) = maxQueuedRequests (fst s)"
    for s :: "'a PeerWriter \<times> 'a queued list"
    by (induction evs arbitrary: s) (simp_all add: st)
  then show ?thesis by (simp add: run_writer_def newPeerWriter_def)
qed

section \<open>Reading what was written\<close>

definition codec_ok :: "ext_codec \<Rightarrow> bool" where
  "codec_ok c \<longleftrightarrow>
     (\<forall>h. dec_handshake c (enc_payload c (ExtHandshake h)) = Some h) \<and>
     (\<forall>m rest. dec_metadata c (enc_payload c (ExtMetadata m) @ rest) =
        Some (m\<lparr>md_Data := []\<rparr>, length (enc_payload c (ExtMetadata m)))) \<and>
     (\<forall>x. dec_pex c (enc_payload c (ExtPEX x)) = Some x)"

fun ext_id :: "ext_payload \<Rightarrow> byte" where
  "ext_id (ExtHandshake _) = 0"
| "ext_id (ExtMetadata _) = 1"
| "ext_id (ExtPEX _) = 2"

text \<open>What the other side is handed: the payload of an extension, and a \<open>Have\<close> for an \<open>AllowedFast\<close>, whose id it bears.\<close>

fun received :: "message \<Rightarrow> message" where
  "received (Extension i p) = Ext p"
| "received (AllowedFast i) = Have i"
| "received m = m"

text \<open>What a message needs for the other side to take it: sizes in bounds and the reader's own ids.\<close>

definition sendable :: "ext_codec \<Rightarrow> message \<Rightarrow> bool" where
  "sendable c m \<longleftrightarrow> length (message_Read c m) < 2 ^ 32 - 1 \<and>
     (case m of Request r \<Rightarrow> r_Length r \<le> MaxBlockSize
      | PieceMsg _ _ d \<Rightarrow> length d \<le> 16384
      | Extension i p \<Rightarrow> codec_ok c \<and> i = ext_id p
      | Ext _ \<Rightarrow> False
      | _ \<Rightarrow> True)"

lemma UnmarshalBinary_WriteTo:
  "codec_ok c \<Longrightarrow> UnmarshalBinary c (ext_WriteTo c (ext_id p) p) = Inr (ext_id p, p)"
  by (cases p) (simp_all add: codec_ok_def UnmarshalBinary_def ext_WriteTo_def Let_def)

lemma read_n_append [simp]: "length b = n \<Longrightarrow> read_n n (b @ r) = Inr (b, r)"
  by (auto simp: read_n_def)

lemma read_message_frame:
  assumes "length body < 2 ^ 32 - 1"
  shows "read_message c (frame i body @ rest) = read_body c i (of_nat (length body)) (body @ rest)"
proof -
  have "unat (of_nat (1 + length body) :: u32) = 1 + length body"
    using assms by (subst unat_of_nat_u32) simp_all
  then have "(of_nat (1 + length body) :: u32) \<noteq> 0" by (metis add_eq_0_iff_both_eq_0 one_neq_zero unat_0)
  moreover have "read_n 1 (i # body @ rest) = Inr ([i], body @ rest)" by (simp add: read_n_def)
  ultimately show ?thesis by (simp add: read_message_def frame_def Let_def del: of_nat_Suc of_nat_add)  simp
qed

lemma parse_request_bytes: "parse_request (request_bytes r) = r"
  by (simp add: parse_request_def request_bytes_def drop_append)

lemma length_request_bytes [simp]: "length (request_bytes r) = 12"
  by (simp add: request_bytes_def)

lemma read_fixed_append [simp]: "length b = n \<Longrightarrow> read_fixed n (b @ r) k = k b r"
  by (simp add: read_fixed_def)

lemma read_piece_body:
  assumes "length d \<le> 16384"
  shows "read_body c 7 (of_nat (8 + length d)) ((put_u32 i @ put_u32 b @ d) @ rest) = RMsg (PieceMsg i b d) rest"
proof -
  have u: "unat (of_nat (length d) :: u32) = length d" using assms by (simp add: unat_of_nat_u32)
  have l: "(of_nat (8 + length d) :: u32) - 8 = of_nat (length d)" by simp
  have "\<not> BlockSize < (of_nat (length d) :: u32)" using assms u by (simp add: word_less_nat_alt)
  moreover have "read_fixed 8 ((put_u32 i @ put_u32 b @ d) @ rest) k = k (put_u32 i @ put_u32 b) (d @ rest)" for k
    using read_fixed_append [of "put_u32 i @ put_u32 b" 8 "d @ rest" k] by simp
  ultimately show ?thesis
    unfolding read_body_def l Let_def by (simp add: u drop_append)
qed

lemma read_message_roundtrip:
  assumes "sendable c m"
  shows "read_message c (frame (message_id m) (message_Read c m) @ rest) = RMsg (received m) rest"
proof -
  have len: "length (message_Read c m) < 2 ^ 32 - 1" using assms by (simp add: sendable_def)
  have u: "unat (of_nat (length (message_Read c m)) :: u32) = length (message_Read c m)"
    using len by (subst unat_of_nat_u32) simp_all
  show ?thesis unfolding read_message_frame [OF len]
  proof (cases m)
    case (PieceMsg i b d)
    then show "read_body c (message_id m) (of_nat (length (message_Read c m))) (message_Read c m @ rest) =
        RMsg (received m) rest"
      using assms read_piece_body [of d c i b rest] by (simp add: sendable_def)
  next
    case (Extension i p)
    then show "read_body c (message_id m) (of_nat (length (message_Read c m))) (message_Read c m @ rest) =
        RMsg (received m) rest"
      using assms u UnmarshalBinary_WriteTo [of c p] by (simp add: sendable_def read_body_def)
  qed (use assms u in \<open>simp_all add: sendable_def read_body_def parse_request_bytes not_less [symmetric]\<close>)
qed

lemma Run_frames:
  "\<forall>m\<in>set ms. sendable c m \<Longrightarrow>
    Run c (concat (map (\<lambda>m. frame (message_id m) (message_Read c m)) ms)) = (map received ms, R_EOF)"
proof (induction ms)
  case Nil
  show ?case by (simp add: Run.simps read_message_def read_n_def)
next
  case (Cons m ms)
  then show ?case
    by (subst Run.simps) (simp add: read_message_roundtrip)
qed

section \<open>Properties\<close>




text \<open>A codec that decodes nothing, for the examples.\<close>

definition no_codec :: ext_codec where
  "no_codec = \<lparr>enc_payload = \<lambda>_. [], dec_handshake = \<lambda>_. None, dec_metadata = \<lambda>_. None, dec_pex = \<lambda>_. None\<rparr>"



text \<open>
  C29: Whatever bytes a peer sends, every request handed on asks for at most 16 KiB and every block
  handed on has at most 16 KiB.
\<close>

theorem received_sizes:
  "m \<in> set (fst (Run c s)) \<Longrightarrow>
    (case m of Request r \<Rightarrow> unat (r_Length r) \<le> 16384 | PieceMsg _ _ d \<Rightarrow> length d \<le> 16384 | _ \<Rightarrow> True)"
proof (induction c s rule: Run.induct)
  case (1 c s)
  have one: "case m of Request r \<Rightarrow> unat (r_Length r) \<le> 16384 | PieceMsg _ _ d \<Rightarrow> length d \<le> 16384 | _ \<Rightarrow> True"
    if "read_message c s = RMsg m r" for m r
    using that
    by (auto simp: read_message_def read_body_def read_fixed_def read_n_def Let_def not_less MaxBlockSize_def
        word_le_nat_alt min_def split: if_splits sum.splits)
  show ?case
  proof (cases "read_message c s")
    case (RMsg m' r)
    then have "m = m' \<or> m \<in> set (fst (Run c r))" using "1.prems" by (subst (asm) Run.simps) (auto split: prod.splits)
    then show ?thesis using one [OF RMsg] "1.IH"(1) [OF RMsg] by auto
  next
    case (RSkip r)
    then show ?thesis using "1.prems" "1.IH"(2) [OF RSkip] by (subst (asm) Run.simps) simp
  next
    case (RStop e)
    then show ?thesis using "1.prems" by (subst (asm) Run.simps) simp
  qed
qed

theorem received_sizes_witness:
  "case Request \<lparr>r_Index = 1, r_Begin = 0, r_Length = 16384\<rparr> of
     Request r \<Rightarrow> unat (r_Length r) \<le> 16384 | PieceMsg _ _ d \<Rightarrow> length d \<le> 16384 | _ \<Rightarrow> True"
proof (rule received_sizes)
  let ?c = no_codec
  let ?r = "\<lparr>r_Index = 1, r_Begin = 0, r_Length = 16384\<rparr>"
  have "\<forall>m\<in>set [Request ?r]. sendable ?c m" by (simp add: sendable_def MaxBlockSize_def)
  from Run_frames [OF this] show "Request ?r \<in> set (fst (Run ?c (frame 6 (message_Read ?c (Request ?r)))))"
    by simp
qed

text \<open>
  The upload queue.  After any sequence of queueing, cancelling and writing, the counter is the
  number of piece messages in the queue and stays within the limit, and no request has been
  served twice on the connection.
\<close>

lemma upload_queue_bounded:
  assumes "run_writer mx fast evs = (p, written)"
  shows "currentQueuedRequests p = int (length (filter is_piece (writeQueue p))) \<and>
    currentQueuedRequests p \<le> max 0 mx \<and> distinct (piece_requests written)"
  using writer_inv_run [of mx fast evs] maxQueuedRequests_run [of mx fast evs] assms
  by (simp add: writer_inv_def)

theorem upload_queue_bounded_witness:
  "distinct (piece_requests (snd (run_writer 1 True
     [EvQueue (QPiece \<lparr>r_Index = 1, r_Begin = 0, r_Length = 2\<rparr> ()), EvWrite,
      EvQueue (QPiece \<lparr>r_Index = 1, r_Begin = 0, r_Length = 2\<rparr> ()), EvWrite])))"
  using upload_queue_bounded [OF prod.collapse [symmetric]] by blast

text \<open>
  The length field of a message of fixed size is not compared with that size: what a \<open>have\<close>
  frame carries beyond its four bytes is read as the next frame.
\<close>

lemma frame_length_ignored:
  assumes "4 \<le> length body" and "length body < 2 ^ 32 - 1"
  shows "read_message c (frame 4 body @ rest) = RMsg (Have (be32 body)) (drop 4 body @ rest)"
  unfolding read_message_frame [OF assms(2)] using assms(1)
  by (simp add: read_body_def read_fixed_def read_n_def be32_def)

lemma frame_length_ignored_witness:
  "read_message no_codec (frame 4 [0, 0, 0, 1, 0, 0, 0, 1, 2]) = RMsg (Have (be32 [0, 0, 0, 1, 0, 0, 0, 1, 2])) [0, 0, 0, 1, 2]"
  using frame_length_ignored [of "[0, 0, 0, 1, 0, 0, 0, 1, 2]" no_codec "[]"] by simp

text \<open>
  The clamps of \<open>UnmarshalBinary\<close> have no effect: the handshake is handed on as decoded, with a
  negative metadata size or queue length if the peer sent one.
\<close>

lemma handshake_clamp_lost:
  assumes "dec_handshake c payload = Some h"
  shows "UnmarshalBinary c (0 # payload) = Inr (0, ExtHandshake h)"
  using assms by (simp add: UnmarshalBinary_def Let_def)

lemma handshake_clamp_lost_witness:
  "UnmarshalBinary \<lparr>enc_payload = \<lambda>_. [], dec_handshake = \<lambda>_. Some \<lparr>hs_M = [], hs_V = [], hs_YourIP = [],
     MetadataSize = - 1, RequestQueue = 0\<rparr>, dec_metadata = \<lambda>_. None, dec_pex = \<lambda>_. None\<rparr> [0] =
   Inr (0, ExtHandshake \<lparr>hs_M = [], hs_V = [], hs_YourIP = [], MetadataSize = - 1, RequestQueue = 0\<rparr>)"
  by (rule handshake_clamp_lost) simp

end
