(* ===== verification/SliceSet.thy ===== *)
theory SliceSet
  imports Go_Prelude
begin

text \<open>
  Sets kept as slices: \<open>PeerSet\<close> (\<open>external/peerset\<close>) and \<open>PieceSet\<close> (\<open>internal/pieceset\<close>).  Both
  search linearly and compare pointers; a pointer is a number here.  The locale \<open>slice_set\<close> is
  the interface their clients rely on: a set of elements without duplicates.
\<close>

type_synonym ptr = nat

section \<open>Peer sets\<close>

record PeerSet =
  Peers :: "ptr list"

definition Add :: "PeerSet \<Rightarrow> ptr \<Rightarrow> PeerSet \<times> bool" where
  "Add l pe =
     (case index_of pe (Peers l) of Some _ \<Rightarrow> (l, False)
      | None \<Rightarrow> (l\<lparr>Peers := Peers l @ [pe]\<rparr>, True))"

definition Remove :: "PeerSet \<Rightarrow> ptr \<Rightarrow> PeerSet \<times> bool" where
  "Remove l pe =
     (case index_of pe (Peers l) of Some i \<Rightarrow> (l\<lparr>Peers := swap_remove i (Peers l)\<rparr>, True)
      | None \<Rightarrow> (l, False))"

definition Has :: "PeerSet \<Rightarrow> ptr \<Rightarrow> bool" where
  "Has l pe \<longleftrightarrow> index_of pe (Peers l) \<noteq> None"

definition LenP :: "PeerSet \<Rightarrow> int" where
  "LenP l = int (length (Peers l))"

definition emptyPeerSet :: PeerSet where
  "emptyPeerSet = \<lparr>Peers = []\<rparr>"

section \<open>Piece sets\<close>

record PieceSet =
  Pieces :: "ptr list"

definition AddPiece :: "PieceSet \<Rightarrow> ptr \<Rightarrow> PieceSet \<times> bool" where
  "AddPiece l pi =
     (case index_of pi (Pieces l) of Some _ \<Rightarrow> (l, False)
      | None \<Rightarrow> (l\<lparr>Pieces := Pieces l @ [pi]\<rparr>, True))"

definition RemovePiece :: "PieceSet \<Rightarrow> ptr \<Rightarrow> PieceSet \<times> bool" where
  "RemovePiece l pi =
     (case index_of pi (Pieces l) of Some i \<Rightarrow> (l\<lparr>Pieces := swap_remove i (Pieces l)\<rparr>, True)
      | None \<Rightarrow> (l, False))"

definition HasPiece :: "PieceSet \<Rightarrow> ptr \<Rightarrow> bool" where
  "HasPiece l pi \<longleftrightarrow> index_of pi (Pieces l) \<noteq> None"

definition LenPieces :: "PieceSet \<Rightarrow> int" where
  "LenPieces l = int (length (Pieces l))"

definition emptyPieceSet :: PieceSet where
  "emptyPieceSet = \<lparr>Pieces = []\<rparr>"

section \<open>The interface\<close>

locale slice_set =
  fixes empty :: 's and add :: "'s \<Rightarrow> 'a \<Rightarrow> 's \<times> bool" and remove :: "'s \<Rightarrow> 'a \<Rightarrow> 's \<times> bool"
    and has :: "'s \<Rightarrow> 'a \<Rightarrow> bool" and size_of :: "'s \<Rightarrow> int" and elems :: "'s \<Rightarrow> 'a set" and ok :: "'s \<Rightarrow> bool"
  assumes empty_ok: "ok empty" "elems empty = {}"
    and add_ok: "ok s \<Longrightarrow> ok (fst (add s x))"
    and add_elems: "elems (fst (add s x)) = insert x (elems s)"
    and add_new: "snd (add s x) \<longleftrightarrow> x \<notin> elems s"
    and remove_ok: "ok s \<Longrightarrow> ok (fst (remove s x))"
    and remove_elems: "ok s \<Longrightarrow> elems (fst (remove s x)) = elems s - {x}"
    and remove_old: "snd (remove s x) \<longleftrightarrow> x \<in> elems s"
    and has_iff: "has s x \<longleftrightarrow> x \<in> elems s"
    and size_card: "ok s \<Longrightarrow> size_of s = int (card (elems s))"
    and finite_elems: "finite (elems s)"
begin

definition add_list :: "'a list \<Rightarrow> 's \<Rightarrow> 's" where
  "add_list xs s = foldl (\<lambda>s x. fst (add s x)) s xs"

lemma size_add: "ok s \<Longrightarrow> size_of (fst (add s x)) = size_of s + (if has s x then 0 else 1)"
  by (simp add: size_card add_ok add_elems has_iff finite_elems insert_absorb)

lemma size_remove: "ok s \<Longrightarrow> size_of (fst (remove s x)) = size_of s - (if has s x then 1 else 0)"
proof -
  assume ok: "ok s"
  have "int (card (elems s - {x})) = int (card (elems s)) - 1" if "x \<in> elems s"
    using card_Suc_Diff1 [OF finite_elems that] by linarith
  then show ?thesis using ok by (simp add: size_card remove_ok remove_elems has_iff)
qed

lemma size_zero: "ok s \<Longrightarrow> size_of s = 0 \<longleftrightarrow> elems s = {}"
  by (simp add: size_card finite_elems)

lemma add_list_spec:
  "ok s \<Longrightarrow> ok (add_list xs s) \<and> elems (add_list xs s) = elems s \<union> set xs"
  unfolding add_list_def by (induction xs arbitrary: s) (auto simp: add_ok add_elems)

lemma remove_add: "ok s \<Longrightarrow> x \<notin> elems s \<Longrightarrow> elems (fst (remove (fst (add s x)) x)) = elems s"
  by (simp add: remove_elems add_ok add_elems)

end

section \<open>Both implementations provide it\<close>

definition peers_in :: "PeerSet \<Rightarrow> ptr set" where
  "peers_in l = set (Peers l)"

definition peers_ok :: "PeerSet \<Rightarrow> bool" where
  "peers_ok l \<longleftrightarrow> distinct (Peers l)"

definition pieces_in :: "PieceSet \<Rightarrow> ptr set" where
  "pieces_in l = set (Pieces l)"

definition pieces_ok :: "PieceSet \<Rightarrow> bool" where
  "pieces_ok l \<longleftrightarrow> distinct (Pieces l)"

lemma swap_remove_index:
  assumes "index_of x xs = Some i"
  shows "distinct xs \<Longrightarrow> set (swap_remove i xs) = set xs - {x}" and "distinct xs \<Longrightarrow> distinct (swap_remove i xs)"
    and "x \<in> set xs"
  using index_of_SomeD [OF assms] set_swap_remove [of xs i] by auto

interpretation ps: slice_set emptyPeerSet Add Remove Has LenP peers_in peers_ok
proof
  show "peers_ok (fst (Add s x))" if "peers_ok s" for s x
    using that by (auto simp: Add_def peers_ok_def split: option.splits)
  show "peers_in (fst (Add s x)) = insert x (peers_in s)" "snd (Add s x) \<longleftrightarrow> x \<notin> peers_in s" for s x
    by (auto simp: Add_def peers_in_def split: option.splits dest: swap_remove_index(3))
  show "peers_ok (fst (Remove s x))" "peers_in (fst (Remove s x)) = peers_in s - {x}" if "peers_ok s" for s x
    using that swap_remove_index [of x "Peers s"]
    by (auto simp: Remove_def peers_ok_def peers_in_def split: option.splits)
  show "snd (Remove s x) \<longleftrightarrow> x \<in> peers_in s" for s x
    by (auto simp: Remove_def peers_in_def split: option.splits dest: swap_remove_index(3))
  show "LenP s = int (card (peers_in s))" if "peers_ok s" for s
    using that by (simp add: LenP_def peers_in_def peers_ok_def distinct_card)
qed (auto simp: emptyPeerSet_def peers_ok_def peers_in_def Has_def)

interpretation pcs: slice_set emptyPieceSet AddPiece RemovePiece HasPiece LenPieces pieces_in pieces_ok
proof
  show "pieces_ok (fst (AddPiece s x))" if "pieces_ok s" for s x
    using that by (auto simp: AddPiece_def pieces_ok_def split: option.splits)
  show "pieces_in (fst (AddPiece s x)) = insert x (pieces_in s)" "snd (AddPiece s x) \<longleftrightarrow> x \<notin> pieces_in s" for s x
    by (auto simp: AddPiece_def pieces_in_def split: option.splits dest: swap_remove_index(3))
  show "pieces_ok (fst (RemovePiece s x))" "pieces_in (fst (RemovePiece s x)) = pieces_in s - {x}"
    if "pieces_ok s" for s x
    using that swap_remove_index [of x "Pieces s"]
    by (auto simp: RemovePiece_def pieces_ok_def pieces_in_def split: option.splits)
  show "snd (RemovePiece s x) \<longleftrightarrow> x \<in> pieces_in s" for s x
    by (auto simp: RemovePiece_def pieces_in_def split: option.splits dest: swap_remove_index(3))
  show "LenPieces s = int (card (pieces_in s))" if "pieces_ok s" for s
    using that by (simp add: LenPieces_def pieces_in_def pieces_ok_def distinct_card)
qed (auto simp: emptyPieceSet_def pieces_ok_def pieces_in_def HasPiece_def)

section \<open>Properties\<close>

text \<open>
  \<open>PeerSet\<close> and \<open>PieceSet\<close> are sets.  On a slice without duplicates, \<open>Add\<close> and \<open>Remove\<close> insert
  and delete and keep it free of duplicates, report whether they changed it, and \<open>Len\<close> is the
  number of elements.
\<close>

lemma slice_sets_are_sets:
  "(\<forall>l x. peers_ok l \<longrightarrow>
      peers_ok (fst (Add l x)) \<and> peers_in (fst (Add l x)) = insert x (peers_in l) \<and>
      peers_ok (fst (Remove l x)) \<and> peers_in (fst (Remove l x)) = peers_in l - {x} \<and>
      (snd (Add l x) \<longleftrightarrow> \<not> Has l x) \<and> (snd (Remove l x) \<longleftrightarrow> Has l x) \<and>
      LenP (fst (Remove l x)) = LenP l - (if Has l x then 1 else 0)) \<and>
   (\<forall>l x. pieces_ok l \<longrightarrow>
      pieces_ok (fst (AddPiece l x)) \<and> pieces_in (fst (AddPiece l x)) = insert x (pieces_in l) \<and>
      pieces_ok (fst (RemovePiece l x)) \<and> pieces_in (fst (RemovePiece l x)) = pieces_in l - {x} \<and>
      (snd (AddPiece l x) \<longleftrightarrow> \<not> HasPiece l x) \<and> (snd (RemovePiece l x) \<longleftrightarrow> HasPiece l x) \<and>
      LenPieces (fst (RemovePiece l x)) = LenPieces l - (if HasPiece l x then 1 else 0))"
  by (simp add: ps.add_ok ps.add_elems ps.remove_ok ps.remove_elems ps.add_new ps.remove_old ps.has_iff
      ps.size_remove pcs.add_ok pcs.add_elems pcs.remove_ok pcs.remove_elems pcs.add_new pcs.remove_old
      pcs.has_iff pcs.size_remove)

theorem slice_sets_are_sets_witness:
  "peers_in (fst (Remove \<lparr>Peers = [4, 5, 6]\<rparr> 4)) = {5, 6}"
  using slice_sets_are_sets [THEN conjunct1, rule_format, of "\<lparr>Peers = [4, 5, 6]\<rparr>" 4]
  by (auto simp: peers_ok_def peers_in_def)

end
