(* ===== verification/PeerState.thy ===== *)
theory PeerState
  imports Bitfield PeerProtocol SliceSet
begin

text \<open>
  \<open>external/peer/peer.go\<close>: a connected peer of a torrent.  Peers are shared by pointer between the
  torrent, the piece picker, the downloaders and the unchoker, so the model keeps them in a heap,
  a map from pointers to records.  What a peer is sent is appended to its \<open>outbox\<close>, in order.

  Left out: the speed meters and the run loop's goroutine; the snub timer is a flag.
\<close>

text \<open>A piece pointer is the piece's index.  \<open>Bitfield\<close> is a nil pointer until it is received.\<close>

datatype out = SendMessage message | SendPiece request ptr | CancelRequest request

datatype source = Tracker | DHT | PEX | Incoming | Manual

record Peer =
  Source :: source
  pe_ID :: string
  pe_Bitfield :: "bitfield option"
  ReceivedAllowedFast :: PieceSet
  SentAllowedFast :: PieceSet
  ExtensionsEnabled :: bool
  FastEnabled :: bool
  ClientInterested :: bool
  ClientChoking :: bool
  PeerInterested :: bool
  PeerChoking :: bool
  OptimisticUnchoked :: bool
  Snubbed :: bool
  Downloading :: bool
  Messages :: "message list"
  ExtensionHandshake :: "ext_handshake option"
  snubTimer :: bool
  closed :: bool
  outbox :: "out list"

type_synonym heap = "ptr \<Rightarrow> Peer"

definition newPeer :: "source \<Rightarrow> string \<Rightarrow> Peer" where
  "newPeer src i = \<lparr>Source = src, pe_ID = i, pe_Bitfield = None,
     ReceivedAllowedFast = emptyPieceSet, SentAllowedFast = emptyPieceSet,
     ExtensionsEnabled = True, FastEnabled = True, ClientInterested = False, ClientChoking = False,
     PeerInterested = False, PeerChoking = False, OptimisticUnchoked = False, Snubbed = False,
     Downloading = False, Messages = [], ExtensionHandshake = None, snubTimer = False, closed = False,
     outbox = []\<rparr>"

text \<open>A closed connection takes no message: \<open>SendMessage\<close> returns when the writer is done.\<close>

definition send :: "out \<Rightarrow> Peer \<Rightarrow> Peer" where
  "send x p = (if closed p then p else p\<lparr>outbox := outbox p @ [x]\<rparr>)"

definition Close :: "Peer \<Rightarrow> Peer option" where
  "Close p = (if closed p then None else Some (p\<lparr>snubTimer := False, closed := True\<rparr>))"

definition ResetSnubTimer :: "Peer \<Rightarrow> Peer" where
  "ResetSnubTimer p = p\<lparr>snubTimer := True\<rparr>"

definition StopSnubTimer :: "Peer \<Rightarrow> Peer" where
  "StopSnubTimer p = p\<lparr>snubTimer := False\<rparr>"

definition ChokePeer :: "Peer \<Rightarrow> Peer" where
  "ChokePeer p = send (SendMessage Choke) (p\<lparr>ClientChoking := True\<rparr>)"

definition UnchokePeer :: "Peer \<Rightarrow> Peer" where
  "UnchokePeer p = send (SendMessage Unchoke) (p\<lparr>ClientChoking := False\<rparr>)"

definition SetOptimistic :: "bool \<Rightarrow> Peer \<Rightarrow> Peer" where
  "SetOptimistic v p = p\<lparr>OptimisticUnchoked := v\<rparr>"

text \<open>\<open>uint32(p.ExtensionHandshake.MetadataSize)\<close>: a nil handshake panics, the conversion wraps.\<close>

definition pe_MetadataSize :: "Peer \<Rightarrow> u32 option" where
  "pe_MetadataSize p = map_option (\<lambda>h. of_int (MetadataSize h)) (ExtensionHandshake p)"

definition ext_key :: "ext_handshake \<Rightarrow> string \<Rightarrow> byte" where
  "ext_key h k = (case map_of (hs_M h) k of Some i \<Rightarrow> i | None \<Rightarrow> 0)"

definition RequestMetadataPiece :: "u32 \<Rightarrow> Peer \<Rightarrow> Peer option" where
  "RequestMetadataPiece index p =
     map_option (\<lambda>h. send (SendMessage (Extension (ext_key h ''ut_metadata'')
       (ExtMetadata \<lparr>md_Type = 0, md_Piece = index, md_TotalSize = 0, md_Data = []\<rparr>))) p)
     (ExtensionHandshake p)"

definition RequestPiece :: "u32 \<Rightarrow> u32 \<Rightarrow> u32 \<Rightarrow> Peer \<Rightarrow> Peer" where
  "RequestPiece index bgn len p =
     send (SendMessage (Request \<lparr>r_Index = index, r_Begin = bgn, r_Length = len\<rparr>)) p"

definition CancelPiece :: "u32 \<Rightarrow> u32 \<Rightarrow> u32 \<Rightarrow> Peer \<Rightarrow> Peer" where
  "CancelPiece index bgn len p =
     send (SendMessage (Cancel \<lparr>r_Index = index, r_Begin = bgn, r_Length = len\<rparr>)) p"

lemma send_simps [simp]:
  "Downloading (send x p) = Downloading p" "PeerChoking (send x p) = PeerChoking p"
  "pe_Bitfield (send x p) = pe_Bitfield p" "ReceivedAllowedFast (send x p) = ReceivedAllowedFast p"
  "closed (send x p) = closed p" "ClientChoking (send x p) = ClientChoking p"
  "OptimisticUnchoked (send x p) = OptimisticUnchoked p" "PeerInterested (send x p) = PeerInterested p"
  "ClientInterested (send x p) = ClientInterested p" "FastEnabled (send x p) = FastEnabled p"
  "Snubbed (send x p) = Snubbed p" "Messages (send x p) = Messages p"
  "ExtensionHandshake (send x p) = ExtensionHandshake p" "snubTimer (send x p) = snubTimer p"
  by (simp_all add: send_def)

end
