(* ===== verification/PiecePicker.thy ===== *)
theory PiecePicker
  imports PeerState
begin

text \<open>
  \<open>external/piecepicker/piecepicker.go\<close>: which piece to download next from which peer.  The picker
  keeps, for each piece, the peers that have it, that it is requested from, and those of them
  that are snubbed or choked; it reads the pieces' \<open>Done\<close> and \<open>Writing\<close> flags and the peers' flags
  from the shared state.  Web seed sources are not used by the torrent (\<open>webseedSources\<close> is nil),
  so \<open>RequestedWebseed\<close> is left out here; \<open>Webseed\<close> adds it.
\<close>

record myPiece =
  Having :: PeerSet
  Requested :: PeerSet
  mp_Snubbed :: PeerSet
  Choked :: PeerSet

record PiecePicker =
  pp_pieces :: "myPiece list"
  piecesByAvailability :: "nat list"
  piecesByStalled :: "nat list"
  maxDuplicateDownload :: int
  available :: u32
  endgame :: bool

definition emptyMyPiece :: myPiece where
  "emptyMyPiece = \<lparr>Having = emptyPeerSet, Requested = emptyPeerSet, mp_Snubbed = emptyPeerSet, Choked = emptyPeerSet\<rparr>"

definition StalledDownloads :: "myPiece \<Rightarrow> int" where
  "StalledDownloads mp = LenP (mp_Snubbed mp) + LenP (Choked mp)"

definition RunningDownloads :: "myPiece \<Rightarrow> int" where
  "RunningDownloads mp = LenP (Requested mp) - StalledDownloads mp"

definition NewPicker :: "Piece list \<Rightarrow> int \<Rightarrow> PiecePicker" where
  "NewPicker tps mx = \<lparr>pp_pieces = map (\<lambda>_. emptyMyPiece) tps,
     piecesByAvailability = [0..<length tps], piecesByStalled = [0..<length tps],
     maxDuplicateDownload = mx, available = 0, endgame = False\<rparr>"

text \<open>\<open>p.pieces[i]\<close>, to be read and changed in place.\<close>

definition at_piece :: "PiecePicker \<Rightarrow> nat \<Rightarrow> (myPiece \<Rightarrow> myPiece) \<Rightarrow> PiecePicker option" where
  "at_piece p i f =
     (if i < length (pp_pieces p) then Some (p\<lparr>pp_pieces := (pp_pieces p)[i := f (pp_pieces p ! i)]\<rparr>) else None)"

definition RequestedPeers :: "PiecePicker \<Rightarrow> u32 \<Rightarrow> ptr list option" where
  "RequestedPeers p i = map_option (\<lambda>mp. Peers (Requested mp)) (slice_get (pp_pieces p) (unat i))"

definition addHavingPeer :: "PiecePicker \<Rightarrow> u32 \<Rightarrow> ptr \<Rightarrow> PiecePicker option" where
  "addHavingPeer p i pe = do {
     mp \<leftarrow> slice_get (pp_pieces p) (unat i);
     let (h, ok) = Add (Having mp) pe;
     p \<leftarrow> at_piece p (unat i) (Having_update (\<lambda>_. h));
     Some (if ok \<and> LenP h = 1 then p\<lparr>available := available p + 1\<rparr> else p)
   }"

definition removeHavingPeer :: "PiecePicker \<Rightarrow> nat \<Rightarrow> ptr \<Rightarrow> PiecePicker option" where
  "removeHavingPeer p i pe = do {
     mp \<leftarrow> slice_get (pp_pieces p) i;
     let (h, ok) = Remove (Having mp) pe;
     p \<leftarrow> at_piece p i (Having_update (\<lambda>_. h));
     Some (if ok \<and> LenP h = 0 then p\<lparr>available := available p - 1\<rparr> else p)
   }"

text \<open>\<open>pe.Bitfield.Set(i)\<close> panics on a nil bitfield and out of its range.\<close>

definition HandleHave :: "PiecePicker \<Rightarrow> heap \<Rightarrow> ptr \<Rightarrow> u32 \<Rightarrow> (PiecePicker \<times> heap) option" where
  "HandleHave p h pe i = do {
     b \<leftarrow> pe_Bitfield (h pe);
     b' \<leftarrow> bf_Set b i;
     p \<leftarrow> addHavingPeer p i pe;
     Some (p, h(pe := (h pe)\<lparr>pe_Bitfield := Some b'\<rparr>))
   }"

definition HandleAllowedFast :: "PiecePicker \<Rightarrow> heap \<Rightarrow> ptr \<Rightarrow> u32 \<Rightarrow> heap option" where
  "HandleAllowedFast p h pe i = do {
     _ \<leftarrow> slice_get (pp_pieces p) (unat i);
     Some (h(pe := (h pe)\<lparr>ReceivedAllowedFast := fst (AddPiece (ReceivedAllowedFast (h pe)) (unat i))\<rparr>))
   }"

definition HandleSnubbed :: "PiecePicker \<Rightarrow> ptr \<Rightarrow> u32 \<Rightarrow> PiecePicker option" where
  "HandleSnubbed p pe i = do {
     mp \<leftarrow> slice_get (pp_pieces p) (unat i);
     if Has (Choked mp) pe then None
     else at_piece p (unat i) (mp_Snubbed_update (\<lambda>s. fst (Add s pe)))
   }"

definition HandleChoke :: "PiecePicker \<Rightarrow> ptr \<Rightarrow> u32 \<Rightarrow> PiecePicker option" where
  "HandleChoke p pe i =
     at_piece p (unat i) (\<lambda>mp. mp\<lparr>mp_Snubbed := fst (Remove (mp_Snubbed mp) pe), Choked := fst (Add (Choked mp) pe)\<rparr>)"

definition HandleUnchoke :: "PiecePicker \<Rightarrow> ptr \<Rightarrow> u32 \<Rightarrow> PiecePicker option" where
  "HandleUnchoke p pe i = at_piece p (unat i) (\<lambda>mp. mp\<lparr>Choked := fst (Remove (Choked mp) pe)\<rparr>)"

definition HandleCancelDownload :: "PiecePicker \<Rightarrow> ptr \<Rightarrow> u32 \<Rightarrow> PiecePicker option" where
  "HandleCancelDownload p pe i =
     at_piece p (unat i) (\<lambda>mp. mp\<lparr>Requested := fst (Remove (Requested mp) pe),
       mp_Snubbed := fst (Remove (mp_Snubbed mp) pe)\<rparr>)"

fun disconnect_from :: "ptr \<Rightarrow> nat list \<Rightarrow> PiecePicker \<Rightarrow> PiecePicker option" where
  "disconnect_from pe [] p = Some p"
| "disconnect_from pe (i # is) p = do {
     p \<leftarrow> HandleCancelDownload p pe (of_nat i);
     p \<leftarrow> removeHavingPeer p i pe;
     disconnect_from pe is p
   }"

definition HandleDisconnect :: "PiecePicker \<Rightarrow> ptr \<Rightarrow> PiecePicker option" where
  "HandleDisconnect p pe = disconnect_from pe [0..<length (pp_pieces p)] p"

section \<open>Picking\<close>

text \<open>The pieces are the torrent's; \<open>idle\<close> says that a piece is neither done nor being written.\<close>

definition idle :: "Piece list \<Rightarrow> nat \<Rightarrow> bool" where
  "idle tps i \<longleftrightarrow> \<not> Done (tps ! i) \<and> \<not> Writing (tps ! i)"

definition pickAllowedFast :: "Piece list \<Rightarrow> PiecePicker \<Rightarrow> heap \<Rightarrow> ptr \<Rightarrow> nat option" where
  "pickAllowedFast tps p h pe =
     List.find (\<lambda>i. idle tps i \<and> LenP (Requested (pp_pieces p ! i)) = 0 \<and> Has (Having (pp_pieces p ! i)) pe)
       (Pieces (ReceivedAllowedFast (h pe)))"

text \<open>The loop of \<open>pickRarest\<close>: the picked piece, and whether a skipped one was unrequested.\<close>

fun rarest_loop :: "Piece list \<Rightarrow> PiecePicker \<Rightarrow> ptr \<Rightarrow> nat list \<Rightarrow> bool \<Rightarrow> nat option \<times> bool" where
  "rarest_loop tps p pe [] hasUnrequested = (None, hasUnrequested)"
| "rarest_loop tps p pe (i # is) hasUnrequested =
     (let mp = pp_pieces p ! i in
      if \<not> idle tps i then rarest_loop tps p pe is hasUnrequested
      else if LenP (Requested mp) = 0 \<and> Has (Having mp) pe then (Some i, hasUnrequested)
      else rarest_loop tps p pe is (hasUnrequested \<or> LenP (Requested mp) = 0))"

definition pickRarest ::
  "choices \<Rightarrow> Piece list \<Rightarrow> PiecePicker \<Rightarrow> ptr \<Rightarrow> nat option \<times> PiecePicker \<times> choices" where
  "pickRarest cs tps p pe =
     (let (order, cs) = sort_slice (\<lambda>i. length (Peers (Having (pp_pieces p ! i)))) cs (piecesByAvailability p);
          p = p\<lparr>piecesByAvailability := order\<rparr>;
          (picked, hasUnrequested) = rarest_loop tps p pe order False;
          p = (if picked = None \<and> \<not> hasUnrequested then p\<lparr>endgame := True\<rparr> else p)
      in (picked, p, cs))"

definition pickEndgame ::
  "choices \<Rightarrow> Piece list \<Rightarrow> PiecePicker \<Rightarrow> ptr \<Rightarrow> nat option \<times> PiecePicker \<times> choices" where
  "pickEndgame cs tps p pe =
     (let (order, cs) = sort_slice (\<lambda>i. RunningDownloads (pp_pieces p ! i)) cs (piecesByAvailability p);
          p = p\<lparr>piecesByAvailability := order\<rparr>
      in (List.find (\<lambda>i. idle tps i \<and> LenP (Requested (pp_pieces p ! i)) < maxDuplicateDownload p \<and>
            Has (Having (pp_pieces p ! i)) pe) order, p, cs))"

definition pickStalled ::
  "choices \<Rightarrow> Piece list \<Rightarrow> PiecePicker \<Rightarrow> ptr \<Rightarrow> nat option \<times> PiecePicker \<times> choices" where
  "pickStalled cs tps p pe =
     (let (order, cs) = sort_slice (\<lambda>i. StalledDownloads (pp_pieces p ! i)) cs (piecesByStalled p);
          p = p\<lparr>piecesByStalled := order\<rparr>
      in (List.find (\<lambda>i. idle tps i \<and> \<not> RunningDownloads (pp_pieces p ! i) > 0 \<and>
            LenP (Requested (pp_pieces p ! i)) < maxDuplicateDownload p \<and>
            Has (Having (pp_pieces p ! i)) pe) order, p, cs))"

definition findPiece ::
  "choices \<Rightarrow> Piece list \<Rightarrow> PiecePicker \<Rightarrow> heap \<Rightarrow> ptr \<Rightarrow> nat option \<times> bool \<times> PiecePicker \<times> choices" where
  "findPiece cs tps p h pe =
     (if Downloading (h pe) then (None, False, p, cs)
      else case pickAllowedFast tps p h pe of
        Some i \<Rightarrow> (Some i, True, p, cs)
      | None \<Rightarrow>
        if PeerChoking (h pe) then (None, False, p, cs)
        else if endgame p then (let (r, p, cs) = pickEndgame cs tps p pe in (r, False, p, cs))
        else let (r, p, cs) = pickRarest cs tps p pe in
          case r of Some i \<Rightarrow> (Some i, False, p, cs)
          | None \<Rightarrow>
            if endgame p then (let (r, p, cs) = pickEndgame cs tps p pe in (r, False, p, cs))
            else let (r, p, cs) = pickStalled cs tps p pe in (r, False, p, cs))"

definition PickFor ::
  "choices \<Rightarrow> Piece list \<Rightarrow> PiecePicker \<Rightarrow> heap \<Rightarrow> ptr \<Rightarrow>
    (nat option \<times> bool \<times> PiecePicker \<times> heap \<times> choices) option" where
  "PickFor cs tps p h pe =
     (let (pi, allowedFast, p, cs) = findPiece cs tps p h pe in
      case pi of
        None \<Rightarrow> Some (None, False, p, h, cs)
      | Some i \<Rightarrow> do {
          p \<leftarrow> at_piece p i (Requested_update (\<lambda>r. fst (Add r pe)));
          Some (Some i, allowedFast, p, h(pe := (h pe)\<lparr>Snubbed := False\<rparr>), cs)
        })"

section \<open>The picker's invariant\<close>

definition mp_ok :: "myPiece \<Rightarrow> bool" where
  "mp_ok mp \<longleftrightarrow> peers_ok (Having mp) \<and> peers_ok (Requested mp) \<and> peers_ok (mp_Snubbed mp) \<and>
     peers_ok (Choked mp) \<and> peers_in (mp_Snubbed mp) \<inter> peers_in (Choked mp) = {}"

definition pp_inv :: "nat \<Rightarrow> PiecePicker \<Rightarrow> bool" where
  "pp_inv n p \<longleftrightarrow> length (pp_pieces p) = n \<and> n < 2 ^ 32 \<and>
     mset (piecesByAvailability p) = mset [0..<n] \<and> mset (piecesByStalled p) = mset [0..<n] \<and>
     (\<forall>mp\<in>set (pp_pieces p). mp_ok mp) \<and>
     unat (available p) = card {i. i < n \<and> peers_in (Having (pp_pieces p ! i)) \<noteq> {}}"

lemmas peer_set_simps =
  ps.add_ok ps.add_elems ps.remove_ok ps.remove_elems ps.add_new ps.remove_old ps.has_iff ps.empty_ok

lemma mp_ok_empty: "mp_ok emptyMyPiece" "peers_in (Having emptyMyPiece) = {}"
  by (simp_all add: mp_ok_def emptyMyPiece_def ps.empty_ok)

lemma pp_inv_New: "length tps < 2 ^ 32 \<Longrightarrow> pp_inv (length tps) (NewPicker tps mx)"
  by (simp add: pp_inv_def NewPicker_def mp_ok_empty cong: conj_cong)

lemma at_piece_inv:
  assumes "pp_inv n p" and "at_piece p i f = Some p'"
    and "mp_ok (pp_pieces p ! i) \<Longrightarrow> mp_ok (f (pp_pieces p ! i))"
    and "Having (f (pp_pieces p ! i)) = Having (pp_pieces p ! i)"
  shows "pp_inv n p'"
proof -
  have i: "i < length (pp_pieces p)" and p': "p' = p\<lparr>pp_pieces := (pp_pieces p)[i := f (pp_pieces p ! i)]\<rparr>"
    using assms(2) by (simp_all add: at_piece_def split: if_splits)
  have "mp_ok (f (pp_pieces p ! i))" using assms(1,3) i by (simp add: pp_inv_def)
  moreover have "peers_in (Having ((pp_pieces p)[i := f (pp_pieces p ! i)] ! j)) = peers_in (Having (pp_pieces p ! j))"
    if "j < length (pp_pieces p)" for j
    using that assms(4) by (cases "j = i") simp_all
  then have "{j. j < n \<and> peers_in (Having ((pp_pieces p)[i := f (pp_pieces p ! i)] ! j)) \<noteq> {}} =
      {j. j < n \<and> peers_in (Having (pp_pieces p ! j)) \<noteq> {}}"
    using assms(1) by (auto simp: pp_inv_def)
  ultimately show ?thesis
    using assms(1) unfolding p' pp_inv_def by (auto dest!: set_update_subset_insert [THEN subsetD])
qed

lemma LenP_zero: "peers_ok l \<Longrightarrow> LenP l = 0 \<longleftrightarrow> peers_in l = {}"
  by (rule ps.size_zero)

lemma card_update_available:
  fixes i n :: nat
  assumes "i < n"
  shows "card {j. j < n \<and> (if j = i then True else P j)} = card {j. j < n \<and> P j} + (if P i then 0 else 1)"
proof -
  have "{j. j < n \<and> (if j = i then True else P j)} = insert i {j. j < n \<and> P j}" using assms by auto
  moreover have "finite {j. j < n \<and> P j}" by (rule finite_subset [of _ "{..<n}"]) auto
  ultimately show ?thesis using assms by (simp add: card_insert_if insert_absorb del: finite_Collect_conjI)
qed

lemma addHavingPeer_inv:
  assumes "pp_inv n p" and "addHavingPeer p i pe = Some p'"
  shows "pp_inv n p'"
proof -
  let ?i = "unat i" and ?H = "\<lambda>j. peers_in (Having (pp_pieces p ! j))"
  let ?h = "fst (Add (Having (pp_pieces p ! ?i)) pe)"
  let ?ps = "(pp_pieces p)[?i := (pp_pieces p ! ?i)\<lparr>Having := ?h\<rparr>]"
  have i: "?i < length (pp_pieces p)" using assms(2) by (auto simp: addHavingPeer_def split: Option.bind_splits)
  have n: "length (pp_pieces p) = n" "n < 2 ^ 32" and ok: "mp_ok (pp_pieces p ! ?i)"
    and av: "unat (available p) = card {j. j < n \<and> ?H j \<noteq> {}}"
    using assms(1) i by (simp_all add: pp_inv_def)
  have hok: "peers_ok (Having (pp_pieces p ! ?i))" using ok by (simp add: mp_ok_def)
  have p': "p' = p\<lparr>pp_pieces := ?ps,
      available := (if pe \<notin> ?H ?i \<and> LenP ?h = 1 then available p + 1 else available p)\<rparr>"
    using assms(2) i ps.add_new [of "Having (pp_pieces p ! ?i)" pe]
    by (auto simp: addHavingPeer_def at_piece_def split: prod.splits if_splits)
  have new: "pe \<notin> ?H ?i \<and> LenP ?h = 1 \<longleftrightarrow> ?H ?i = {}"
  proof -
    have "LenP ?h = LenP (Having (pp_pieces p ! ?i)) + (if pe \<in> ?H ?i then 0 else 1)"
      using ps.size_add [OF hok, of pe] by (simp add: ps.has_iff)
    then show ?thesis using LenP_zero [OF hok] by auto
  qed
  have "{j. j < n \<and> peers_in (Having (?ps ! j)) \<noteq> {}} = {j. j < n \<and> (if j = ?i then True else ?H j \<noteq> {})}"
    using n i by (auto simp: nth_list_update ps.add_elems)
  then have card: "card {j. j < n \<and> peers_in (Having (?ps ! j)) \<noteq> {}} =
      card {j. j < n \<and> ?H j \<noteq> {}} + (if ?H ?i \<noteq> {} then 0 else 1)"
    using card_update_available [of ?i n "\<lambda>j. ?H j \<noteq> {}"] i n by simp
  have "card {j. j < n \<and> peers_in (Having (?ps ! j)) \<noteq> {}} \<le> card {..<n}" by (rule card_mono) auto
  then have "card {j. j < n \<and> peers_in (Having (?ps ! j)) \<noteq> {}} \<le> n" by simp
  then have "unat (available p') = card {j. j < n \<and> peers_in (Having (?ps ! j)) \<noteq> {}}"
    using n(2) unfolding p' new card av [symmetric] by (auto simp: unat_plus_u32)
  moreover have "mp_ok ((pp_pieces p ! ?i)\<lparr>Having := ?h\<rparr>)" using ok hok by (simp add: mp_ok_def ps.add_ok)
  ultimately show ?thesis using assms(1) unfolding pp_inv_def p'
    by (auto dest!: set_update_subset_insert [THEN subsetD])
qed

lemma removeHavingPeer_inv:
  assumes "pp_inv n p" and "removeHavingPeer p i pe = Some p'"
  shows "pp_inv n p'"
proof -
  let ?H = "\<lambda>j. peers_in (Having (pp_pieces p ! j))"
  let ?h = "fst (Remove (Having (pp_pieces p ! i)) pe)"
  let ?ps = "(pp_pieces p)[i := (pp_pieces p ! i)\<lparr>Having := ?h\<rparr>]"
  have i: "i < length (pp_pieces p)" using assms(2) by (auto simp: removeHavingPeer_def split: Option.bind_splits)
  have n: "length (pp_pieces p) = n" "n < 2 ^ 32" and ok: "mp_ok (pp_pieces p ! i)"
    and av: "unat (available p) = card {j. j < n \<and> ?H j \<noteq> {}}"
    using assms(1) i by (simp_all add: pp_inv_def)
  have hok: "peers_ok (Having (pp_pieces p ! i))" using ok by (simp add: mp_ok_def)
  have p': "p' = p\<lparr>pp_pieces := ?ps,
      available := (if pe \<in> ?H i \<and> LenP ?h = 0 then available p - 1 else available p)\<rparr>"
    using assms(2) i ps.remove_old [of "Having (pp_pieces p ! i)" pe]
    by (auto simp: removeHavingPeer_def at_piece_def split: prod.splits if_splits)
  have zero: "LenP ?h = 0 \<longleftrightarrow> ?H i - {pe} = {}"
    using LenP_zero [OF ps.remove_ok [OF hok]] by (simp add: ps.remove_elems [OF hok])
  have eq: "{j. j < n \<and> ?H j \<noteq> {}} = {j. j < n \<and> (if j = i then True else peers_in (Having (?ps ! j)) \<noteq> {})}"
    if "?H i \<noteq> {}" using n i that by (auto simp: nth_list_update)
  have same: "{j. j < n \<and> peers_in (Having (?ps ! j)) \<noteq> {}} = {j. j < n \<and> ?H j \<noteq> {}}" if "?H i = {}"
    using n i that by (auto simp: nth_list_update ps.remove_elems [OF hok])
  have "unat (available p') = card {j. j < n \<and> peers_in (Having (?ps ! j)) \<noteq> {}}"
  proof (cases "?H i = {}")
    case True
    then show ?thesis using same av by (simp add: p')
  next
    case False
    have "card {j. j < n \<and> ?H j \<noteq> {}} = card {j. j < n \<and> peers_in (Having (?ps ! j)) \<noteq> {}} +
        (if ?H i - {pe} \<noteq> {} then 0 else 1)"
      unfolding eq [OF False]
      using card_update_available [of i n "\<lambda>j. peers_in (Having (?ps ! j)) \<noteq> {}"] i n
      by (simp add: ps.remove_elems [OF hok])
    then show ?thesis using av False zero unfolding p'
      by (auto simp: unat_minus_u32 word_le_nat_alt split: if_splits)
  qed
  moreover have "mp_ok ((pp_pieces p ! i)\<lparr>Having := ?h\<rparr>)" using ok hok by (simp add: mp_ok_def ps.remove_ok)
  ultimately show ?thesis using assms(1) unfolding pp_inv_def p'
    by (auto dest!: set_update_subset_insert [THEN subsetD])
qed

lemma disconnect_inv: "pp_inv n p \<Longrightarrow> disconnect_from pe is p = Some p' \<Longrightarrow> pp_inv n p'"
proof (induction "is" arbitrary: p)
  case (Cons i "is")
  then obtain p1 p2 where "HandleCancelDownload p pe (of_nat i) = Some p1" "removeHavingPeer p1 i pe = Some p2"
    "disconnect_from pe is p2 = Some p'"
    by (auto split: Option.bind_splits)
  moreover have "pp_inv n p1"
    using at_piece_inv [OF Cons.prems(1) calculation(1) [unfolded HandleCancelDownload_def]]
    by (auto simp: mp_ok_def ps.remove_ok ps.remove_elems)
  ultimately show ?case using Cons.IH removeHavingPeer_inv by blast
qed simp

definition same_pieces :: "PiecePicker \<Rightarrow> PiecePicker \<Rightarrow> bool" where
  "same_pieces p p' \<longleftrightarrow> pp_pieces p' = pp_pieces p \<and> available p' = available p \<and>
     maxDuplicateDownload p' = maxDuplicateDownload p \<and>
     mset (piecesByAvailability p') = mset (piecesByAvailability p) \<and>
     mset (piecesByStalled p') = mset (piecesByStalled p)"

lemma same_pieces_inv: "same_pieces p p' \<Longrightarrow> pp_inv n p \<Longrightarrow> pp_inv n p'"
  by (simp add: same_pieces_def pp_inv_def)

lemma same_pieces_trans: "same_pieces p q \<Longrightarrow> same_pieces q r \<Longrightarrow> same_pieces p r"
  by (simp add: same_pieces_def)

lemma pick_same:
  "pickRarest cs tps p pe = (r, p', cs') \<Longrightarrow> same_pieces p p'"
  "pickEndgame cs tps p pe = (r, p', cs') \<Longrightarrow> same_pieces p p'"
  "pickStalled cs tps p pe = (r, p', cs') \<Longrightarrow> same_pieces p p'"
  by (auto simp: pickRarest_def pickEndgame_def pickStalled_def sort_slice_def same_pieces_def Let_def
      split: prod.splits if_splits)

lemma findPiece_same: "findPiece cs tps p h pe = (r, af, p', cs') \<Longrightarrow> same_pieces p p'"
proof -
  have "same_pieces p p" by (simp add: same_pieces_def)
  then show "findPiece cs tps p h pe = (r, af, p', cs') \<Longrightarrow> same_pieces p p'"
    by (auto simp: findPiece_def Let_def split: if_splits option.splits prod.splits
        dest: pick_same intro: same_pieces_trans)
qed

lemma PickFor_inv:
  assumes "pp_inv n p" and "PickFor cs tps p h pe = Some (r, af, p', h', cs')"
  shows "pp_inv n p'"
proof -
  obtain r1 af1 p1 cs1 where f: "findPiece cs tps p h pe = (r1, af1, p1, cs1)" by (metis prod_cases4)
  have inv: "pp_inv n p1" by (rule same_pieces_inv [OF findPiece_same [OF f] assms(1)])
  show ?thesis
  proof (cases r1)
    case None
    then show ?thesis using assms(2) f inv by (simp add: PickFor_def)
  next
    case (Some i)
    then obtain p2 where p2: "at_piece p1 i (Requested_update (\<lambda>r. fst (Add r pe))) = Some p2"
      and "p' = p2" using assms(2) f by (auto simp: PickFor_def split: Option.bind_splits)
    then show ?thesis using at_piece_inv [OF inv p2] by (simp add: mp_ok_def ps.add_ok)
  qed
qed

text \<open>One call of the picker's interface.\<close>

inductive picker_step :: "PiecePicker \<Rightarrow> PiecePicker \<Rightarrow> bool" where
  step_have: "HandleHave p h pe i = Some (p', h') \<Longrightarrow> picker_step p p'"
| step_snubbed: "HandleSnubbed p pe i = Some p' \<Longrightarrow> picker_step p p'"
| step_choke: "HandleChoke p pe i = Some p' \<Longrightarrow> picker_step p p'"
| step_unchoke: "HandleUnchoke p pe i = Some p' \<Longrightarrow> picker_step p p'"
| step_cancel: "HandleCancelDownload p pe i = Some p' \<Longrightarrow> picker_step p p'"
| step_disconnect: "HandleDisconnect p pe = Some p' \<Longrightarrow> picker_step p p'"
| step_pick: "PickFor cs tps p h pe = Some (r, af, p', h', cs') \<Longrightarrow> picker_step p p'"

lemma picker_step_inv: "picker_step p p' \<Longrightarrow> pp_inv n p \<Longrightarrow> pp_inv n p'"
proof (induction rule: picker_step.induct)
  case (step_have p h pe i p' h')
  then show ?case by (auto simp: HandleHave_def intro: addHavingPeer_inv split: Option.bind_splits)
next
  case (step_snubbed p pe i p')
  then obtain "at_piece p (unat i) (mp_Snubbed_update (\<lambda>s. fst (Add s pe))) = Some p'"
    and "\<not> Has (Choked (pp_pieces p ! unat i)) pe"
    by (auto simp: HandleSnubbed_def split: Option.bind_splits if_splits)
  then show ?case using at_piece_inv [OF step_snubbed(2), of "unat i" "mp_Snubbed_update (\<lambda>s. fst (Add s pe))" p']
    by (auto simp: mp_ok_def ps.add_ok ps.add_elems ps.has_iff)
next
  case (step_choke p pe i p')
  show ?case by (rule at_piece_inv [OF step_choke(2) step_choke(1) [unfolded HandleChoke_def]])
      (auto simp: mp_ok_def ps.add_ok ps.add_elems ps.remove_ok ps.remove_elems)
next
  case (step_unchoke p pe i p')
  show ?case by (rule at_piece_inv [OF step_unchoke(2) step_unchoke(1) [unfolded HandleUnchoke_def]])
      (auto simp: mp_ok_def ps.remove_ok ps.remove_elems)
next
  case (step_cancel p pe i p')
  show ?case by (rule at_piece_inv [OF step_cancel(2) step_cancel(1) [unfolded HandleCancelDownload_def]])
      (auto simp: mp_ok_def ps.remove_ok ps.remove_elems)
next
  case (step_disconnect p pe p')
  then show ?case by (auto simp: HandleDisconnect_def intro: disconnect_inv)
next
  case (step_pick cs tps p h pe r af p' h' cs')
  then show ?case by (auto intro: PickFor_inv)
qed

section \<open>What is picked\<close>

definition candidate :: "Piece list \<Rightarrow> PiecePicker \<Rightarrow> ptr \<Rightarrow> nat \<Rightarrow> bool" where
  "candidate tps p pe i \<longleftrightarrow> idle tps i \<and> peers_in (Requested (pp_pieces p ! i)) = {} \<and>
     pe \<in> peers_in (Having (pp_pieces p ! i))"

lemma pp_inv_LenP:
  assumes "pp_inv n p" and "i < n"
  shows "LenP (Requested (pp_pieces p ! i)) = 0 \<longleftrightarrow> peers_in (Requested (pp_pieces p ! i)) = {}"
  using assms by (intro LenP_zero) (simp add: pp_inv_def mp_ok_def)

lemma rarest_loop_spec:
  assumes "pp_inv n p" and "set order \<subseteq> {..<n}"
  shows "rarest_loop tps p pe order b = (r, b') \<Longrightarrow>
    (case r of
       Some i \<Rightarrow> \<exists>pre post. order = pre @ i # post \<and> candidate tps p pe i \<and> (\<forall>j\<in>set pre. \<not> candidate tps p pe j)
     | None \<Rightarrow> (\<forall>j\<in>set order. \<not> candidate tps p pe j) \<and>
         (b' \<longleftrightarrow> b \<or> (\<exists>j\<in>set order. idle tps j \<and> peers_in (Requested (pp_pieces p ! j)) = {})))"
  using assms(2)
proof (induction order arbitrary: b)
  case (Cons i order)
  have "i < n" using Cons.prems(2) by simp
  then have z: "LenP (Requested (pp_pieces p ! i)) = 0 \<longleftrightarrow> peers_in (Requested (pp_pieces p ! i)) = {}"
    by (rule pp_inv_LenP [OF assms(1)])
  show ?case
  proof (cases "candidate tps p pe i")
    case True
    then have "r = Some i" using Cons.prems(1) z by (simp add: candidate_def Let_def ps.has_iff)
    then show ?thesis using True by (auto intro: exI [of _ "[]"])
  next
    case False
    then obtain c where c: "rarest_loop tps p pe order c = (r, b')"
      and cb: "c \<longleftrightarrow> b \<or> (idle tps i \<and> peers_in (Requested (pp_pieces p ! i)) = {})"
      using Cons.prems(1) z by (auto simp: candidate_def Let_def ps.has_iff split: if_splits)
    have IH: "case r of Some i \<Rightarrow> \<exists>pre post. order = pre @ i # post \<and> candidate tps p pe i \<and>
        (\<forall>j\<in>set pre. \<not> candidate tps p pe j)
      | None \<Rightarrow> (\<forall>j\<in>set order. \<not> candidate tps p pe j) \<and>
          (b' \<longleftrightarrow> c \<or> (\<exists>j\<in>set order. idle tps j \<and> peers_in (Requested (pp_pieces p ! j)) = {}))"
      using Cons.IH [OF c] Cons.prems(2) by simp
    show ?thesis
    proof (cases r)
      case None
      then show ?thesis using IH False cb by auto
    next
      case (Some k)
      then obtain pre post where "order = pre @ k # post" "candidate tps p pe k" "\<forall>j\<in>set pre. \<not> candidate tps p pe j"
        using IH by auto
      then show ?thesis using Some False
        by (simp, intro exI [of _ "i # pre"]) auto
    qed
  qed
qed simp

lemma set_order: "pp_inv n p \<Longrightarrow> set (piecesByAvailability p) = {..<n} \<and> set (piecesByStalled p) = {..<n}"
  unfolding pp_inv_def by (metis atLeast_upt set_mset_mset)

lemma pickRarest_spec:
  assumes inv: "pp_inv n p" and r: "pickRarest cs tps p pe = (r, p', cs')"
  shows "case r of
      Some i \<Rightarrow> i < n \<and> candidate tps p pe i \<and> (\<forall>j<n. candidate tps p pe j \<longrightarrow>
        card (peers_in (Having (pp_pieces p ! i))) \<le> card (peers_in (Having (pp_pieces p ! j))))
    | None \<Rightarrow> (\<forall>j<n. \<not> candidate tps p pe j) \<and>
        (endgame p' \<longleftrightarrow> endgame p \<or> (\<forall>j<n. idle tps j \<longrightarrow> peers_in (Requested (pp_pieces p ! j)) \<noteq> {}))"
proof -
  let ?k = "\<lambda>i. length (Peers (Having (pp_pieces p ! i)))"
  obtain order cs1 where o: "sort_slice ?k cs (piecesByAvailability p) = (order, cs1)" by fastforce
  then have so: "set order = {..<n}" "sorted (map ?k order)"
    using set_order [OF inv] set_sort_slice [of ?k cs "piecesByAvailability p"]
      sorted_sort_slice [of ?k cs "piecesByAvailability p"] by simp_all
  let ?q = "p\<lparr>piecesByAvailability := order\<rparr>"
  have q: "pp_inv n ?q" using inv o mset_sort_slice [of ?k cs "piecesByAvailability p"] by (simp add: pp_inv_def)
  obtain b' where l: "rarest_loop tps ?q pe order False = (r, b')" and
    p': "p' = (if r = None \<and> \<not> b' then ?q\<lparr>endgame := True\<rparr> else ?q)"
    using r o by (auto simp: pickRarest_def Let_def split: prod.splits)
  have cand: "candidate tps ?q pe j = candidate tps p pe j" for j by (simp add: candidate_def)
  have card: "card (peers_in (Having (pp_pieces p ! i))) = ?k i" if "i < n" for i
  proof -
    have "mp_ok (pp_pieces p ! i)" using inv that by (simp add: pp_inv_def)
    then show ?thesis by (simp add: mp_ok_def peers_ok_def peers_in_def distinct_card)
  qed
  show ?thesis
  proof (cases r)
    case None
    then show ?thesis using rarest_loop_spec [OF q _ l] so(1) p' by (auto simp: cand)
  next
    case (Some i)
    then obtain pre post where "order = pre @ i # post" "candidate tps p pe i" "\<forall>j\<in>set pre. \<not> candidate tps p pe j"
      using rarest_loop_spec [OF q _ l] so(1) by (auto simp: cand)
    moreover have "?k i \<le> ?k j" if "j \<in> set post" for j
      using so(2) that calculation(1) by (auto simp: sorted_append)
    ultimately show ?thesis using Some so(1) card
      by (auto dest: equalityD1 [THEN subsetD] simp: set_eq_iff) (metis in_set_conv_decomp le_refl)
  qed
qed

lemma find_SomeD: "List.find P xs = Some x \<Longrightarrow> P x \<and> x \<in> set xs"
  by (induction xs) (auto split: if_splits)

definition allowed_ok :: "nat \<Rightarrow> heap \<Rightarrow> ptr \<Rightarrow> bool" where
  "allowed_ok n h pe \<longleftrightarrow> pieces_in (ReceivedAllowedFast (h pe)) \<subseteq> {..<n}"

definition may_request :: "Piece list \<Rightarrow> PiecePicker \<Rightarrow> ptr \<Rightarrow> nat \<Rightarrow> bool" where
  "may_request tps p pe i \<longleftrightarrow> idle tps i \<and> pe \<in> peers_in (Having (pp_pieces p ! i)) \<and>
     (peers_in (Requested (pp_pieces p ! i)) = {} \<or>
      int (card (peers_in (Requested (pp_pieces p ! i)))) < maxDuplicateDownload p)"

lemma pick_other_spec:
  assumes "pp_inv n p"
  shows "pickEndgame cs tps p pe = (Some i, p', cs') \<Longrightarrow> i < n \<and> may_request tps p pe i"
    and "pickStalled cs tps p pe = (Some i, p', cs') \<Longrightarrow> i < n \<and> may_request tps p pe i"
proof -
  have len: "LenP (Requested (pp_pieces p ! i)) = int (card (peers_in (Requested (pp_pieces p ! i))))" if "i < n" for i
    using assms that by (intro ps.size_card) (simp add: pp_inv_def mp_ok_def)
  show "i < n \<and> may_request tps p pe i" if "pickEndgame cs tps p pe = (Some i, p', cs')"
  proof -
    let ?o = "fst (sort_slice (\<lambda>i. RunningDownloads (pp_pieces p ! i)) cs (piecesByAvailability p))"
    have "List.find (\<lambda>i. idle tps i \<and> LenP (Requested (pp_pieces p ! i)) < maxDuplicateDownload p \<and>
        Has (Having (pp_pieces p ! i)) pe) ?o = Some i"
      using that by (simp add: pickEndgame_def Let_def split_beta)
    note d = find_SomeD [OF this]
    have "i < n" using d set_order [OF assms] by simp
    then show ?thesis using d len [of i] by (simp add: may_request_def ps.has_iff)
  qed
  show "i < n \<and> may_request tps p pe i" if "pickStalled cs tps p pe = (Some i, p', cs')"
  proof -
    let ?o = "fst (sort_slice (\<lambda>i. StalledDownloads (pp_pieces p ! i)) cs (piecesByStalled p))"
    have "List.find (\<lambda>i. idle tps i \<and> \<not> RunningDownloads (pp_pieces p ! i) > 0 \<and>
        LenP (Requested (pp_pieces p ! i)) < maxDuplicateDownload p \<and>
        Has (Having (pp_pieces p ! i)) pe) ?o = Some i"
      using that by (simp add: pickStalled_def Let_def split_beta)
    note d = find_SomeD [OF this]
    have "i < n" using d set_order [OF assms] by simp
    then show ?thesis using d len [of i] by (simp add: may_request_def ps.has_iff)
  qed
qed

lemma may_request_same: "same_pieces p p' \<Longrightarrow> may_request tps p' pe i = may_request tps p pe i"
  by (simp add: same_pieces_def may_request_def)

lemma candidate_may_request: "candidate tps p pe i \<Longrightarrow> may_request tps p pe i"
  by (simp add: candidate_def may_request_def)

lemma pickAllowedFast_spec:
  assumes "pp_inv n p" and "allowed_ok n h pe"
  shows "case pickAllowedFast tps p h pe of
      Some i \<Rightarrow> i < n \<and> i \<in> pieces_in (ReceivedAllowedFast (h pe)) \<and> candidate tps p pe i
    | None \<Rightarrow> \<forall>i\<in>pieces_in (ReceivedAllowedFast (h pe)). \<not> candidate tps p pe i"
proof -
  have z: "LenP (Requested (pp_pieces p ! i)) = 0 \<longleftrightarrow> peers_in (Requested (pp_pieces p ! i)) = {}"
    if "i \<in> set (Pieces (ReceivedAllowedFast (h pe)))" for i
    using that assms by (intro pp_inv_LenP [OF assms(1)]) (auto simp: allowed_ok_def pieces_in_def)
  show ?thesis
  proof (cases "pickAllowedFast tps p h pe")
    case None
    then have "\<not> (\<exists>i. i \<in> set (Pieces (ReceivedAllowedFast (h pe))) \<and> idle tps i \<and>
        LenP (Requested (pp_pieces p ! i)) = 0 \<and> Has (Having (pp_pieces p ! i)) pe)"
      unfolding pickAllowedFast_def find_None_iff .
    then show ?thesis unfolding None using z by (auto simp: candidate_def ps.has_iff pieces_in_def)
  next
    case (Some i)
    then show ?thesis using z assms(2)
      by (auto simp: pickAllowedFast_def candidate_def ps.has_iff pieces_in_def allowed_ok_def dest!: find_SomeD)
  qed
qed

lemma findPiece_sound:
  assumes inv: "pp_inv n p" and al: "allowed_ok n h pe" and f: "findPiece cs tps p h pe = (Some i, af, p', cs')"
  shows "i < n \<and> may_request tps p pe i \<and> \<not> Downloading (h pe) \<and>
    (if af then i \<in> pieces_in (ReceivedAllowedFast (h pe)) else \<not> PeerChoking (h pe))"
proof (cases "pickAllowedFast tps p h pe")
  case (Some j)
  then show ?thesis using f pickAllowedFast_spec [OF inv al, of tps]
    by (auto simp: findPiece_def candidate_may_request split: if_splits)
next
  case None
  then have nd: "\<not> Downloading (h pe)" "\<not> PeerChoking (h pe)" "\<not> af"
    using f by (auto simp: findPiece_def Let_def split: if_splits option.splits prod.splits)
  have "i < n \<and> may_request tps p pe i"
  proof (cases "endgame p")
    case True
    then have "\<exists>q cs. pickEndgame cs tps p pe = (Some i, q, cs')"
      using f None nd by (auto simp: findPiece_def Let_def split: prod.splits)
    then show ?thesis using pick_other_spec [OF inv] by blast
  next
    case False
    obtain r q cs1 where q: "pickRarest cs tps p pe = (r, q, cs1)" by (metis prod_cases3)
    have sq: "same_pieces p q" and iq: "pp_inv n q" using pick_same(1) [OF q] same_pieces_inv inv by blast+
    show ?thesis
    proof (cases r)
      case None
      then have "(\<exists>q'. pickEndgame cs1 tps q pe = (Some i, q', cs')) \<or> (\<exists>q'. pickStalled cs1 tps q pe = (Some i, q', cs'))"
        using f \<open>pickAllowedFast tps p h pe = None\<close> nd False q
        by (auto simp: findPiece_def Let_def split: prod.splits if_splits)
      then show ?thesis using pick_other_spec [OF iq] may_request_same [OF sq] by blast
    next
      case (Some k)
      then have "k = i" using f \<open>pickAllowedFast tps p h pe = None\<close> nd False q
        by (auto simp: findPiece_def Let_def split: prod.splits)
      then show ?thesis using pickRarest_spec [OF inv q] Some candidate_may_request by auto
    qed
  qed
  then show ?thesis using nd by simp
qed

section \<open>Disconnecting\<close>

definition forget :: "ptr \<Rightarrow> myPiece \<Rightarrow> myPiece" where
  "forget pe mp = mp\<lparr>Requested := fst (Remove (Requested mp) pe),
     mp_Snubbed := fst (Remove (mp_Snubbed mp) pe), Having := fst (Remove (Having mp) pe)\<rparr>"

lemma disconnect_one:
  assumes "i < length (pp_pieces p)" and "i < 2 ^ 32"
  shows "\<exists>a. Option.bind (HandleCancelDownload p pe (of_nat i)) (\<lambda>p. removeHavingPeer p i pe) =
    Some (p\<lparr>pp_pieces := (pp_pieces p)[i := forget pe (pp_pieces p ! i)], available := a\<rparr>)"
  using assms
  by (cases p) (auto simp: HandleCancelDownload_def removeHavingPeer_def at_piece_def unat_of_nat_u32 forget_def split_beta)

lemma disconnect_from_spec:
  "set is \<subseteq> {..<length (pp_pieces p)} \<Longrightarrow> length (pp_pieces p) \<le> 2 ^ 32 \<Longrightarrow> distinct is \<Longrightarrow>
    \<exists>p'. disconnect_from pe is p = Some p' \<and> length (pp_pieces p') = length (pp_pieces p) \<and>
      (\<forall>j<length (pp_pieces p). pp_pieces p' ! j = (if j \<in> set is then forget pe (pp_pieces p ! j) else pp_pieces p ! j))"
proof (induction "is" arbitrary: p)
  case (Cons i "is")
  have "i < length (pp_pieces p)" "i < 2 ^ 32" using Cons.prems by auto
  from disconnect_one [OF this, of pe] obtain a where
    a: "Option.bind (HandleCancelDownload p pe (of_nat i)) (\<lambda>p. removeHavingPeer p i pe) =
      Some (p\<lparr>pp_pieces := (pp_pieces p)[i := forget pe (pp_pieces p ! i)], available := a\<rparr>)" by blast
  let ?q = "p\<lparr>pp_pieces := (pp_pieces p)[i := forget pe (pp_pieces p ! i)], available := a\<rparr>"
  have "disconnect_from pe (i # is) p = disconnect_from pe is ?q"
    using a by (auto split: Option.bind_splits)
  moreover obtain p' where "disconnect_from pe is ?q = Some p'" "length (pp_pieces p') = length (pp_pieces p)"
    "\<forall>j<length (pp_pieces p). pp_pieces p' ! j = (if j \<in> set is then forget pe (pp_pieces ?q ! j) else pp_pieces ?q ! j)"
    using Cons.IH [of ?q] Cons.prems by auto
  ultimately show ?case using Cons.prems by (intro exI [of _ p']) (auto simp: nth_list_update)
qed simp

section \<open>Properties\<close>


text \<open>
  C31: The picker's invariant holds after any sequence of calls of its interface: its two orders are
  permutations of the pieces, the peer sets have no duplicates, no peer is snubbed and choked at a
  piece, and \<open>available\<close> is the number of pieces that some peer has.
\<close>

theorem picker_invariant:
  assumes "length tps < 2 ^ 32" and "picker_step\<^sup>*\<^sup>* (NewPicker tps mx) p"
  shows "length (pp_pieces p) = length tps \<and>
    mset (piecesByAvailability p) = mset [0..<length tps] \<and> mset (piecesByStalled p) = mset [0..<length tps] \<and>
    (\<forall>mp\<in>set (pp_pieces p). mp_ok mp) \<and>
    unat (available p) = card {i. i < length tps \<and> peers_in (Having (pp_pieces p ! i)) \<noteq> {}}"
proof -
  have "pp_inv (length tps) p" using assms(2)
    by (induction rule: rtranclp_induct) (auto intro: picker_step_inv pp_inv_New [OF assms(1)])
  then show ?thesis by (simp add: pp_inv_def)
qed

definition sample_heap :: heap where
  "sample_heap = (\<lambda>_. (newPeer Manual ''x'')\<lparr>pe_Bitfield := Some (New 2)\<rparr>)"

definition sample_picker :: PiecePicker where
  "sample_picker = \<lparr>pp_pieces = [emptyMyPiece, emptyMyPiece\<lparr>Having := \<lparr>Peers = [5]\<rparr>\<rparr>],
     piecesByAvailability = [0, 1], piecesByStalled = [0, 1], maxDuplicateDownload = 1, available = 1,
     endgame = False\<rparr>"

lemma sample_step: "picker_step (NewPicker sample_pieces 1) sample_picker"
proof (rule step_have)
  show "HandleHave (NewPicker sample_pieces 1) sample_heap 5 1 =
    Some (sample_picker, sample_heap(5 := (sample_heap 5)\<lparr>pe_Bitfield := Some \<lparr>bytes = [64], bf_length = 2\<rparr>\<rparr>))"
    by (simp add: HandleHave_def sample_heap_def bf_Set_def checkIndex_def New_def NumBytes_def divMod32_def Len_def
        addHavingPeer_def NewPicker_def sample_pieces_def at_piece_def Add_def LenP_def emptyMyPiece_def
        emptyPeerSet_def sample_picker_def Let_def upt_rec newPeer_def word_le_nat_alt)
qed

lemma sample_inv: "pp_inv 2 sample_picker"
proof -
  have "length sample_pieces = 2" by (simp add: sample_pieces_def)
  then show ?thesis using picker_step_inv [OF sample_step pp_inv_New] by simp
qed

theorem picker_invariant_witness:
  "unat (available sample_picker) = card {i. i < length sample_pieces \<and> peers_in (Having (pp_pieces sample_picker ! i)) \<noteq> {}}"
  using picker_invariant [of sample_pieces 1 sample_picker] sample_step by (simp add: sample_pieces_def r_into_rtranclp)

text \<open>
  C32: Whatever is picked may be requested.  When \<open>PickFor\<close> picks piece \<open>i\<close> for a peer, the peer has it
  and is not downloading another piece, the piece is neither done nor being written, it is
  requested from no peer or from fewer than the duplicate limit, and the peer either allowed it
  fast or is not choking us; the peer is added to the piece's requested peers.
\<close>

theorem picked_piece_may_be_requested:
  assumes "pp_inv n p" and "allowed_ok n h pe" and "PickFor cs tps p h pe = Some (Some i, af, p', h', cs')"
  shows "i < n \<and> may_request tps p pe i \<and> \<not> Downloading (h pe) \<and>
    (if af then i \<in> pieces_in (ReceivedAllowedFast (h pe)) else \<not> PeerChoking (h pe)) \<and>
    (\<forall>j<n. peers_in (Requested (pp_pieces p' ! j)) =
      peers_in (Requested (pp_pieces p ! j)) \<union> (if j = i then {pe} else {})) \<and>
    h' = h(pe := (h pe)\<lparr>Snubbed := False\<rparr>)"
proof -
  obtain r q cs1 where f: "findPiece cs tps p h pe = (r, af, q, cs1)"
    and r: "r = Some i" and h': "h' = h(pe := (h pe)\<lparr>Snubbed := False\<rparr>)"
    and p': "at_piece q i (Requested_update (\<lambda>r. fst (Add r pe))) = Some p'"
    using assms(3) by (auto simp: PickFor_def split: prod.splits option.splits Option.bind_splits)
  have "pp_pieces q = pp_pieces p" using findPiece_same [OF f] by (simp add: same_pieces_def)
  then have "\<forall>j<n. peers_in (Requested (pp_pieces p' ! j)) =
      peers_in (Requested (pp_pieces p ! j)) \<union> (if j = i then {pe} else {})"
    using p' assms(1) by (auto simp: at_piece_def pp_inv_def nth_list_update ps.add_elems split: if_splits)
  then show ?thesis using findPiece_sound [OF assms(1,2) f [unfolded r]] h' by simp
qed

lemma sample_pick: "PickFor [] sample_pieces sample_picker sample_heap 5 =
  Some (Some 1, False, sample_picker\<lparr>pp_pieces := [emptyMyPiece, emptyMyPiece\<lparr>Having := \<lparr>Peers = [5]\<rparr>,
    Requested := \<lparr>Peers = [5]\<rparr>\<rparr>]\<rparr>, sample_heap(5 := sample_heap 5), [])"
  by (simp add: PickFor_def findPiece_def pickAllowedFast_def pickRarest_def sample_heap_def newPeer_def
      emptyPieceSet_def sample_picker_def sort_slice_def sample_pieces_def emptyMyPiece_def emptyPeerSet_def
      idle_def LenP_def Has_def Add_def at_piece_def Let_def)

theorem picked_piece_may_be_requested_witness:
  "may_request sample_pieces sample_picker 5 1"
  using picked_piece_may_be_requested [OF sample_inv _ sample_pick]
  by (simp add: allowed_ok_def sample_heap_def newPeer_def emptyPieceSet_def pieces_in_def)

text \<open>
  C33: Rarest first.  Outside of the endgame, for a peer that is idle, does not choke us and has allowed
  nothing fast, a piece that the peer has and that is not done, not being written and not requested
  is picked whenever there is one, and no such piece is had by fewer peers; this for every order
  the unstable sort leaves equally rare pieces in.
\<close>

theorem rarest_piece_first:
  assumes "pp_inv n p" and "\<not> Downloading (h pe)" and "\<not> PeerChoking (h pe)" and "\<not> endgame p"
    and "pieces_in (ReceivedAllowedFast (h pe)) = {}" and "k < n" and "candidate tps p pe k"
  shows "\<exists>i p' h' cs'. PickFor cs tps p h pe = Some (Some i, False, p', h', cs') \<and> i < n \<and> candidate tps p pe i \<and>
    (\<forall>j<n. candidate tps p pe j \<longrightarrow>
      card (peers_in (Having (pp_pieces p ! i))) \<le> card (peers_in (Having (pp_pieces p ! j))))"
proof -
  have "pickAllowedFast tps p h pe = None" using assms(5) by (simp add: pickAllowedFast_def pieces_in_def)
  moreover obtain r q cs1 where q: "pickRarest cs tps p pe = (r, q, cs1)" by (metis prod_cases3)
  moreover obtain i where r: "r = Some i" using pickRarest_spec [OF assms(1) q] assms(6,7) by (cases r) auto
  ultimately have f: "findPiece cs tps p h pe = (Some i, False, q, cs1)"
    using assms(2-4) by (simp add: findPiece_def)
  have i: "i < n \<and> candidate tps p pe i \<and> (\<forall>j<n. candidate tps p pe j \<longrightarrow>
      card (peers_in (Having (pp_pieces p ! i))) \<le> card (peers_in (Having (pp_pieces p ! j))))"
    using pickRarest_spec [OF assms(1) q] r by simp
  have "pp_inv n q" using pick_same(1) [OF q] assms(1) by (rule same_pieces_inv)
  then have "\<exists>p'. at_piece q i (Requested_update (\<lambda>r. fst (Add r pe))) = Some p'"
    using i by (simp add: at_piece_def pp_inv_def)
  then show ?thesis using f i by (auto simp: PickFor_def)
qed

theorem rarest_piece_first_witness:
  "\<exists>i p' h' cs'. PickFor [] sample_pieces sample_picker sample_heap 5 = Some (Some i, False, p', h', cs') \<and>
     candidate sample_pieces sample_picker 5 i"
proof -
  have "candidate sample_pieces sample_picker 5 1"
    by (simp add: candidate_def idle_def sample_pieces_def sample_picker_def emptyMyPiece_def emptyPeerSet_def peers_in_def)
  then show ?thesis
    using rarest_piece_first [OF sample_inv, of sample_heap 5 1 sample_pieces "[]"]
    by (auto simp: sample_heap_def newPeer_def emptyPieceSet_def pieces_in_def sample_picker_def)
qed

text \<open>
  A disconnected peer stays choked.  \<open>HandleDisconnect\<close> returns and removes the peer from the
  \<open>Having\<close>, \<open>Requested\<close> and \<open>Snubbed\<close> sets of every piece, but from no \<open>Choked\<close> set: a peer that choked
  us in the middle of a download goes on counting as a stalled download of the piece.
\<close>

lemma disconnected_peer_stays_choked:
  assumes "pp_inv n p"
  shows "\<exists>p'. HandleDisconnect p pe = Some p' \<and> (\<forall>i<n.
    peers_in (Having (pp_pieces p' ! i)) = peers_in (Having (pp_pieces p ! i)) - {pe} \<and>
    peers_in (Requested (pp_pieces p' ! i)) = peers_in (Requested (pp_pieces p ! i)) - {pe} \<and>
    peers_in (mp_Snubbed (pp_pieces p' ! i)) = peers_in (mp_Snubbed (pp_pieces p ! i)) - {pe} \<and>
    Choked (pp_pieces p' ! i) = Choked (pp_pieces p ! i))"
proof -
  have n: "length (pp_pieces p) = n" "n < 2 ^ 32" using assms by (simp_all add: pp_inv_def)
  obtain p' where p': "HandleDisconnect p pe = Some p'" "\<forall>j<n. pp_pieces p' ! j = forget pe (pp_pieces p ! j)"
    using disconnect_from_spec [of "[0..<n]" p pe] n by (auto simp: HandleDisconnect_def atLeast0LessThan)
  have "mp_ok (pp_pieces p ! i)" if "i < n" for i using assms that by (simp add: pp_inv_def)
  then show ?thesis using p' by (auto simp: forget_def ps.remove_elems mp_ok_def)
qed

theorem disconnected_peer_stays_choked_witness:
  "\<exists>p p'. HandleChoke sample_picker 5 1 = Some p \<and> HandleDisconnect p 5 = Some p' \<and>
     Choked (pp_pieces p' ! 1) = \<lparr>Peers = [5]\<rparr>"
proof -
  obtain p where p: "HandleChoke sample_picker 5 1 = Some p" "Choked (pp_pieces p ! 1) = \<lparr>Peers = [5]\<rparr>"
    by (simp add: HandleChoke_def at_piece_def sample_picker_def emptyMyPiece_def emptyPeerSet_def Add_def Remove_def)
  have "pp_inv 2 p" using picker_step_inv [OF step_choke [OF p(1)] sample_inv] .
  from disconnected_peer_stays_choked [OF this, of 5] p show ?thesis by auto
qed

end
