(* ===== verification/Webseed.thy ===== *)
theory Webseed
  imports PiecePicker
begin

text \<open>
  Downloads from HTTP servers: \<open>internal/webseedsource\<close>, the ranges of pieces that \<open>internal/piecepicker/webseed.go\<close> reserves
  for them, the operations of \<open>external/piecepicker\<close> on these ranges, and the requests and buffers of
  \<open>internal/urldownloader\<close>.  A torrent of \<open>filechain\<close> has no source of this kind: nothing under \<open>src/\<close> picks a range or starts a
  download, and the cases of \<open>filechain/torrent_run.go\<close> that would are commented out, so who calls these operations is the environment.

  Indices of pieces are natural numbers, below \<open>2 ^ 32\<close>; what could wrap is computed on 32 bits.  A source is its place in the
  list of sources, and \<open>requested\<close> holds the source of each piece, \<open>RequestedWebseed\<close>.
\<close>

section \<open>Sources and reservations\<close>

record url_downloader =
  ud_Begin :: nat
  ud_End :: nat
  ud_current :: nat
  ud_sending :: bool

record webseed_source =
  ws_URL :: "byte list"
  ws_Downloader :: "url_downloader option"

record webseeds =
  requested :: "nat option list"
  webseedSources :: "webseed_source list"

definition NewUrlDownloader :: "nat \<Rightarrow> nat \<Rightarrow> url_downloader" where
  "NewUrlDownloader b e = \<lparr>ud_Begin = b, ud_End = e, ud_current = b, ud_sending = False\<rparr>"

definition NewWebseeds :: "byte list list \<Rightarrow> nat \<Rightarrow> webseeds" where
  "NewWebseeds urls n = \<lparr>requested = replicate n None, webseedSources = map (\<lambda>u. \<lparr>ws_URL = u, ws_Downloader = None\<rparr>) urls\<rparr>"

definition downloader_of :: "webseeds \<Rightarrow> nat \<Rightarrow> url_downloader option" where
  "downloader_of w k = (if k < length (webseedSources w) then ws_Downloader (webseedSources w ! k) else None)"

definition set_downloader :: "nat \<Rightarrow> url_downloader option \<Rightarrow> webseeds \<Rightarrow> webseeds" where
  "set_downloader k d w = w\<lparr>webseedSources := (webseedSources w)[k := (webseedSources w ! k)\<lparr>ws_Downloader := d\<rparr>]\<rparr>"

text \<open>
  \<open>ud_sending\<close>: \<open>Run\<close> has completed a piece that is not the last, has read \<open>End\<close> for it, and is about to send the result, or waits to; \<open>current\<close>
  is incremented only after that.
\<close>

definition completed_piece :: "url_downloader \<Rightarrow> url_downloader" where
  "completed_piece d = (if ud_current d \<ge> ud_End d - 1 then d else d\<lparr>ud_sending := True\<rparr>)"

definition incrCurrent :: "url_downloader \<Rightarrow> url_downloader" where
  "incrCurrent d = d\<lparr>ud_current := Suc (ud_current d), ud_sending := False\<rparr>"

text \<open>\<open>uint32\<close> arithmetic.\<close>

definition ud_Remaining :: "url_downloader \<Rightarrow> nat" where
  "ud_Remaining d = unat ((of_nat (ud_End d) - of_nat (ud_current d) - 1) :: u32)"

definition middle :: "url_downloader \<Rightarrow> nat" where
  "middle d = unat ((of_nat (ud_current d) + of_nat (ud_End d) + 1 :: u32) div 2)"

definition Remaining :: "webseeds \<Rightarrow> nat \<Rightarrow> nat" where
  "Remaining w k = (case downloader_of w k of None \<Rightarrow> 0 | Some d \<Rightarrow> ud_Remaining d)"

definition AvailableForWebseed :: "Piece list \<Rightarrow> webseeds \<Rightarrow> bool \<Rightarrow> nat \<Rightarrow> bool" where
  "AvailableForWebseed tps w duplicate i =
     (if \<not> idle tps i \<or> requested w ! i \<noteq> None then False
      else if \<not> duplicate then requested w ! i \<noteq> None
      else True)"

text \<open>The loops over a range; a piece in another state panics.\<close>

fun reserve :: "nat \<Rightarrow> nat list \<Rightarrow> nat option list \<Rightarrow> nat option list option" where
  "reserve k [] r = Some r"
| "reserve k (i # is) r = (if i < length r \<and> r ! i = None then reserve k is (r[i := Some k]) else None)"

fun release :: "nat \<Rightarrow> nat list \<Rightarrow> nat option list \<Rightarrow> nat option list option" where
  "release k [] r = Some r"
| "release k (i # is) r = (if i < length r \<and> r ! i = Some k then release k is (r[i := None]) else None)"

definition CloseWebseedDownloader :: "webseeds \<Rightarrow> nat \<Rightarrow> webseeds option" where
  "CloseWebseedDownloader w k =
     (case downloader_of w k of
        None \<Rightarrow> Some w
      | Some d \<Rightarrow> do {
          r \<leftarrow> release k [ud_Begin d..<ud_End d] (requested w);
          Some (set_downloader k None (w\<lparr>requested := r\<rparr>))
        })"

definition WebseedStopAt :: "webseeds \<Rightarrow> nat \<Rightarrow> nat \<Rightarrow> (bool \<times> webseeds) option" where
  "WebseedStopAt w k i = do {
     d \<leftarrow> downloader_of w k;
     r \<leftarrow> release k [i..<ud_End d] (requested w);
     let w = set_downloader k (Some (d\<lparr>ud_End := i\<rparr>)) (w\<lparr>requested := r\<rparr>);
     if i \<le> ud_current d then map_option (Pair True) (CloseWebseedDownloader w k)
     else Some (False, w)
   }"

definition downloadingWebseed :: "webseeds \<Rightarrow> bool" where
  "downloadingWebseed w = list_ex (\<lambda>s. ws_Downloader s \<noteq> None) (webseedSources w)"

definition getDownloadingSources :: "webseeds \<Rightarrow> nat list" where
  "getDownloadingSources w = List.filter (\<lambda>k. downloader_of w k \<noteq> None) [0..<length (webseedSources w)]"

text \<open>The gaps: \<open>begin\<close> is set while in a gap.\<close>

fun gaps_loop :: "(nat \<Rightarrow> bool) \<Rightarrow> nat list \<Rightarrow> nat \<Rightarrow> nat option \<Rightarrow> (nat \<times> nat) list" where
  "gaps_loop av [] n g = (case g of None \<Rightarrow> [] | Some b \<Rightarrow> [(b, n)])"
| "gaps_loop av (i # is) n g =
     (case g of
        None \<Rightarrow> gaps_loop av is n (if av i then Some i else None)
      | Some b \<Rightarrow> if av i then gaps_loop av is n g else (b, i) # gaps_loop av is n None)"

definition findGaps2 :: "Piece list \<Rightarrow> webseeds \<Rightarrow> bool \<Rightarrow> (nat \<times> nat) list" where
  "findGaps2 tps w duplicate =
     gaps_loop (AvailableForWebseed tps w duplicate) [0..<length (requested w)] (length (requested w)) None"

definition findGaps :: "Piece list \<Rightarrow> webseeds \<Rightarrow> (nat \<times> nat) list" where
  "findGaps tps w = (let gaps = findGaps2 tps w False in if gaps = [] then findGaps2 tps w True else gaps)"

definition range_Len :: "nat \<times> nat \<Rightarrow> int" where
  "range_Len r = int (snd r) - int (fst r)"

text \<open>The source with the most pieces left loses the second half of them.\<close>

definition webseedStealsFromAnotherWebseed :: "choices \<Rightarrow> webseeds \<Rightarrow> ((nat \<times> nat) \<times> webseeds \<times> choices) option" where
  "webseedStealsFromAnotherWebseed cs w =
     (let (order, cs) = sort_slice (\<lambda>k. - int (Remaining w k)) cs (getDownloadingSources w) in
      case order of
        [] \<Rightarrow> Some ((0, 0), w, cs)
      | k # _ \<Rightarrow> do {
          d \<leftarrow> downloader_of w k;
          let b = middle d;
          (_, w) \<leftarrow> WebseedStopAt w k b;
          Some ((b, ud_End d), w, cs)
        })"

definition findRangeForWebseed :: "choices \<Rightarrow> Piece list \<Rightarrow> webseeds \<Rightarrow> ((nat \<times> nat) \<times> webseeds \<times> choices) option" where
  "findRangeForWebseed cs tps w =
     (case findGaps tps w of
        [] \<Rightarrow> webseedStealsFromAnotherWebseed cs w
      | gaps \<Rightarrow> (let (order, cs) = sort_slice (\<lambda>g. - range_Len g) cs gaps in Some (hd order, w, cs)))"

text \<open>The spec is the range; the source is given.\<close>

definition PickWebseed :: "choices \<Rightarrow> Piece list \<Rightarrow> webseeds \<Rightarrow> nat \<Rightarrow> ((nat \<times> nat) option \<times> webseeds \<times> choices) option" where
  "PickWebseed cs tps w k = do {
     (g, w, cs) \<leftarrow> findRangeForWebseed cs tps w;
     if fst g = snd g then Some (None, w, cs)
     else do {
       r \<leftarrow> reserve k [fst g..<snd g] (requested w);
       Some (Some g, w\<lparr>requested := r\<rparr>, cs)
     }
   }"

section \<open>Peers beside web seeds\<close>

text \<open>A piece that a peer may take from the end of the range of a source.\<close>

definition stealable :: "Piece list \<Rightarrow> PiecePicker \<Rightarrow> ptr \<Rightarrow> nat \<Rightarrow> bool" where
  "stealable tps p pe i \<longleftrightarrow> idle tps i \<and> Has (Having (pp_pieces p ! i)) pe \<and> \<not> LenP (Requested (pp_pieces p ! i)) > 0"

fun steal_loop :: "Piece list \<Rightarrow> PiecePicker \<Rightarrow> ptr \<Rightarrow> nat list \<Rightarrow> webseeds \<Rightarrow> (nat option \<times> webseeds) option" where
  "steal_loop tps p pe [] w = Some (None, w)"
| "steal_loop tps p pe (k # ks) w =
     (if Remaining w k = 0 then steal_loop tps p pe ks w
      else do {
        d \<leftarrow> downloader_of w k;
        case List.find (stealable tps p pe) (rev [Suc (ud_current d)..<ud_End d]) of
          None \<Rightarrow> steal_loop tps p pe ks w
        | Some i \<Rightarrow> do {
            (_, w) \<leftarrow> WebseedStopAt w k i;
            Some (Some i, w)
          }
      })"

definition peerStealsFromWebseed :: "Piece list \<Rightarrow> PiecePicker \<Rightarrow> webseeds \<Rightarrow> ptr \<Rightarrow> (nat option \<times> webseeds) option" where
  "peerStealsFromWebseed tps p w pe = steal_loop tps p pe (getDownloadingSources w) w"

definition pickLastPieceOfSmallestGap ::
  "choices \<Rightarrow> Piece list \<Rightarrow> PiecePicker \<Rightarrow> webseeds \<Rightarrow> heap \<Rightarrow> ptr \<Rightarrow> nat option \<times> choices" where
  "pickLastPieceOfSmallestGap cs tps p w h pe =
     (let (gaps, cs) = sort_slice range_Len cs (findGaps tps w)
      in (List.find (\<lambda>i. Has (Having (pp_pieces p ! i)) pe \<and> (PeerChoking (h pe) \<longrightarrow> HasPiece (ReceivedAllowedFast (h pe)) i))
            (concat (map (\<lambda>g. rev [fst g..<snd g]) gaps)), cs))"

text \<open>\<open>findPiece\<close> of \<open>internal/piecepicker\<close>: while a source is downloading, peers take what it leaves.\<close>

definition findPieceBesideWebseeds ::
  "choices \<Rightarrow> Piece list \<Rightarrow> PiecePicker \<Rightarrow> webseeds \<Rightarrow> heap \<Rightarrow> ptr \<Rightarrow>
    (nat option \<times> bool \<times> PiecePicker \<times> webseeds \<times> choices) option" where
  "findPieceBesideWebseeds cs tps p w h pe =
     (if Downloading (h pe) then Some (None, False, p, w, cs)
      else if downloadingWebseed w then
        (if PeerChoking (h pe) then Some (None, False, p, w, cs)
         else case pickLastPieceOfSmallestGap cs tps p w h pe of
           (Some i, cs) \<Rightarrow> Some (Some i, HasPiece (ReceivedAllowedFast (h pe)) i, p, w, cs)
         | (None, cs) \<Rightarrow> do {
             (r, w) \<leftarrow> peerStealsFromWebseed tps p w pe;
             case r of
               Some i \<Rightarrow> Some (Some i, HasPiece (ReceivedAllowedFast (h pe)) i, p, w, cs)
             | None \<Rightarrow> Some (None, False, p, w, cs)
           })
      else (let (r, af, p, cs) = findPiece cs tps p h pe in Some (r, af, p, w, cs)))"

section \<open>Reservations are exact\<close>

text \<open>
  The steps of a picker with web seeds: a source without a download picks a range and starts it; the goroutine of a download
  completes a piece, and later, when its result has been received, moves on to the next, so that the picker may lower \<open>End\<close>
  in between; a download is closed, or loses pieces to a peer or to another source.  The state of the pieces is what it is at the
  step.  An operation of the picker is one step: \<open>current\<close> does not change within it.
\<close>

inductive webseed_step :: "webseeds \<Rightarrow> webseeds \<Rightarrow> bool" where
  pick: "k < length (webseedSources w) \<Longrightarrow> downloader_of w k = None \<Longrightarrow> PickWebseed cs tps w k = Some (Some g, w', cs') \<Longrightarrow>
    webseed_step w (set_downloader k (Some (NewUrlDownloader (fst g) (snd g))) w')"
| no_pick: "k < length (webseedSources w) \<Longrightarrow> downloader_of w k = None \<Longrightarrow> PickWebseed cs tps w k = Some (None, w', cs') \<Longrightarrow> webseed_step w w'"
| complete: "downloader_of w k = Some d \<Longrightarrow> \<not> ud_sending d \<Longrightarrow> webseed_step w (set_downloader k (Some (completed_piece d)) w)"
| advance: "downloader_of w k = Some d \<Longrightarrow> ud_sending d \<Longrightarrow> webseed_step w (set_downloader k (Some (incrCurrent d)) w)"
| close: "CloseWebseedDownloader w k = Some w' \<Longrightarrow> webseed_step w w'"
| peer: "findPieceBesideWebseeds cs tps p w h pe = Some (r, af, p', w', cs') \<Longrightarrow> webseed_step w w'"

text \<open>\<open>current\<close> reaches \<open>End\<close> when \<open>End\<close> was lowered while a result was sent.\<close>

definition run_ok :: "url_downloader \<Rightarrow> bool" where
  "run_ok d \<longleftrightarrow> ud_Begin d \<le> ud_current d \<and> ud_current d \<le> ud_End d \<and> ud_Begin d < ud_End d \<and> (ud_sending d \<longrightarrow> ud_current d < ud_End d)"

definition reserved_inv :: "nat \<Rightarrow> webseeds \<Rightarrow> bool" where
  "reserved_inv n w \<longleftrightarrow> length (requested w) = n \<and> (\<forall>k d. downloader_of w k = Some d \<longrightarrow> ud_End d \<le> n) \<and>
     (\<forall>i<n. \<forall>k. requested w ! i = Some k \<longleftrightarrow> (\<exists>d. downloader_of w k = Some d \<and> ud_Begin d \<le> i \<and> i < ud_End d))"

definition webseed_inv :: "nat \<Rightarrow> webseeds \<Rightarrow> bool" where
  "webseed_inv n w \<longleftrightarrow> reserved_inv n w \<and> (\<forall>k d. downloader_of w k = Some d \<longrightarrow> run_ok d)"

lemma AvailableForWebseed_False [simp]: "\<not> AvailableForWebseed tps w False i"
  by (simp add: AvailableForWebseed_def)

lemma gaps_loop_none: "(\<And>i. \<not> av i) \<Longrightarrow> gaps_loop av is n None = []"
  by (induction "is") auto

lemma findGaps2_False [simp]: "findGaps2 tps w False = []"
  by (simp add: findGaps2_def gaps_loop_none)

lemma reserve_spec:
  "distinct is \<Longrightarrow> (\<And>i. i \<in> set is \<Longrightarrow> i < length r \<and> r ! i = None) \<Longrightarrow>
    reserve k is r = Some (map (\<lambda>i. if i \<in> set is then Some k else r ! i) [0..<length r])"
proof (induction "is" arbitrary: r)
  case Nil
  then show ?case by (simp add: map_nth)
next
  case (Cons a "is")
  have "reserve k is (r[a := Some k]) = Some (map (\<lambda>i. if i \<in> set is then Some k else r[a := Some k] ! i) [0..<length (r[a := Some k])])"
    by (rule Cons.IH) (use Cons.prems in \<open>auto simp: nth_list_update\<close>)
  then show ?case using Cons.prems by (auto simp: nth_list_update)
qed

lemma release_spec:
  "distinct is \<Longrightarrow> (\<And>i. i \<in> set is \<Longrightarrow> i < length r \<and> r ! i = Some k) \<Longrightarrow>
    release k is r = Some (map (\<lambda>i. if i \<in> set is then None else r ! i) [0..<length r])"
proof (induction "is" arbitrary: r)
  case Nil
  then show ?case by (simp add: map_nth)
next
  case (Cons a "is")
  have "release k is (r[a := None]) = Some (map (\<lambda>i. if i \<in> set is then None else r[a := None] ! i) [0..<length (r[a := None])])"
    by (rule Cons.IH) (use Cons.prems in \<open>auto simp: nth_list_update\<close>)
  then show ?case using Cons.prems by (auto simp: nth_list_update)
qed

lemma downloader_of_set [simp]:
  "downloader_of (set_downloader k d w) j = (if j = k \<and> k < length (webseedSources w) then d else downloader_of w j)"
  by (auto simp: downloader_of_def set_downloader_def nth_list_update)

lemma set_downloader_simps [simp]:
  "requested (set_downloader k d w) = requested w" "length (webseedSources (set_downloader k d w)) = length (webseedSources w)"
  by (simp_all add: set_downloader_def)

lemma downloader_of_requested [simp]: "downloader_of (w\<lparr>requested := r\<rparr>) k = downloader_of w k"
  by (simp add: downloader_of_def)

lemma downloader_of_length: "downloader_of w k = Some d \<Longrightarrow> k < length (webseedSources w)"
  by (simp add: downloader_of_def split: if_splits)

lemma reserved_invD:
  assumes "reserved_inv n w"
  shows "length (requested w) = n" "downloader_of w k = Some d \<Longrightarrow> ud_End d \<le> n"
    "i < n \<Longrightarrow> requested w ! i = Some k \<longleftrightarrow> (\<exists>d. downloader_of w k = Some d \<and> ud_Begin d \<le> i \<and> i < ud_End d)"
  using assms unfolding reserved_inv_def by blast+

lemma reserved_invI:
  assumes "length (requested w) = n" "\<And>k d. downloader_of w k = Some d \<Longrightarrow> ud_End d \<le> n"
    "\<And>i k. i < n \<Longrightarrow> requested w ! i = Some k \<longleftrightarrow> (\<exists>d. downloader_of w k = Some d \<and> ud_Begin d \<le> i \<and> i < ud_End d)"
  shows "reserved_inv n w"
  using assms unfolding reserved_inv_def by blast

lemma webseed_invD:
  assumes "webseed_inv n w"
  shows "length (requested w) = n" "downloader_of w k = Some d \<Longrightarrow> run_ok d \<and> ud_End d \<le> n"
    "i < n \<Longrightarrow> requested w ! i = Some k \<longleftrightarrow> (\<exists>d. downloader_of w k = Some d \<and> ud_Begin d \<le> i \<and> i < ud_End d)" "reserved_inv n w"
  using assms reserved_invD [of n w] unfolding webseed_inv_def by blast+

lemma webseed_invI:
  assumes "length (requested w) = n" "\<And>k d. downloader_of w k = Some d \<Longrightarrow> run_ok d \<and> ud_End d \<le> n"
    "\<And>i k. i < n \<Longrightarrow> requested w ! i = Some k \<longleftrightarrow> (\<exists>d. downloader_of w k = Some d \<and> ud_Begin d \<le> i \<and> i < ud_End d)"
  shows "webseed_inv n w"
  using assms unfolding webseed_inv_def reserved_inv_def by blast

lemma close_reserved:
  assumes inv: "reserved_inv n w" and d: "downloader_of w k = Some d"
  shows "\<exists>r. CloseWebseedDownloader w k = Some (set_downloader k None (w\<lparr>requested := r\<rparr>)) \<and>
    reserved_inv n (set_downloader k None (w\<lparr>requested := r\<rparr>)) \<and>
    (\<forall>j<n. r ! j = (if ud_Begin d \<le> j \<and> j < ud_End d then None else requested w ! j))"
proof -
  note dn = reserved_invD(2) [OF inv d]
  have k: "k < length (webseedSources w)" by (rule downloader_of_length [OF d])
  have own: "i < length (requested w) \<and> requested w ! i = Some k" if "i \<in> set [ud_Begin d..<ud_End d]" for i
    using that d dn reserved_invD(1) [OF inv] reserved_invD(3) [OF inv, of i k] by auto
  let ?r = "map (\<lambda>i. if i \<in> set [ud_Begin d..<ud_End d] then None else requested w ! i) [0..<length (requested w)]"
  let ?w = "set_downloader k None (w\<lparr>requested := ?r\<rparr>)"
  have "release k [ud_Begin d..<ud_End d] (requested w) = Some ?r" by (rule release_spec) (use own in auto)
  then have "CloseWebseedDownloader w k = Some ?w" using d by (simp add: CloseWebseedDownloader_def)
  moreover have "reserved_inv n ?w"
  proof (rule reserved_invI)
    fix i j
    assume i: "i < n"
    show "requested ?w ! i = Some j \<longleftrightarrow> (\<exists>d. downloader_of ?w j = Some d \<and> ud_Begin d \<le> i \<and> i < ud_End d)"
      using i k reserved_invD(1) [OF inv] reserved_invD(3) [OF inv i, of j] reserved_invD(3) [OF inv i, of k] d by auto
  qed (use reserved_invD(1,2) [OF inv] k in \<open>auto split: if_splits\<close>)
  moreover have "\<forall>j<n. ?r ! j = (if ud_Begin d \<le> j \<and> j < ud_End d then None else requested w ! j)"
    using reserved_invD(1) [OF inv] by auto
  ultimately show ?thesis by blast
qed

lemma close_ok:
  assumes inv: "webseed_inv n w"
  shows "\<exists>w'. CloseWebseedDownloader w k = Some w' \<and> webseed_inv n w' \<and> length (webseedSources w') = length (webseedSources w)"
proof (cases "downloader_of w k")
  case None
  then show ?thesis using inv by (simp add: CloseWebseedDownloader_def)
next
  case (Some d)
  from close_reserved [OF webseed_invD(4) [OF inv] Some] obtain r where
    "CloseWebseedDownloader w k = Some (set_downloader k None (w\<lparr>requested := r\<rparr>))" "reserved_inv n (set_downloader k None (w\<lparr>requested := r\<rparr>))"
    by blast
  then show ?thesis using inv downloader_of_length [OF Some] by (auto simp: webseed_inv_def)
qed

lemma stop_reserved:
  assumes inv: "reserved_inv n w" and d: "downloader_of w k = Some d" and i: "ud_Begin d \<le> i" "i \<le> ud_End d"
  shows "\<exists>r. release k [i..<ud_End d] (requested w) = Some r \<and> reserved_inv n (set_downloader k (Some (d\<lparr>ud_End := i\<rparr>)) (w\<lparr>requested := r\<rparr>)) \<and>
    (\<forall>j<n. r ! j = (if i \<le> j \<and> j < ud_End d then None else requested w ! j))"
proof -
  note dn = reserved_invD(2) [OF inv d]
  have k: "k < length (webseedSources w)" by (rule downloader_of_length [OF d])
  have own: "j < length (requested w) \<and> requested w ! j = Some k" if "j \<in> set [i..<ud_End d]" for j
    using that d dn i reserved_invD(1) [OF inv] reserved_invD(3) [OF inv, of j k] by auto
  let ?r = "map (\<lambda>j. if j \<in> set [i..<ud_End d] then None else requested w ! j) [0..<length (requested w)]"
  let ?w = "set_downloader k (Some (d\<lparr>ud_End := i\<rparr>)) (w\<lparr>requested := ?r\<rparr>)"
  have "release k [i..<ud_End d] (requested w) = Some ?r" by (rule release_spec) (use own in auto)
  moreover have "reserved_inv n ?w"
  proof (rule reserved_invI)
    fix j l
    assume j: "j < n"
    show "requested ?w ! j = Some l \<longleftrightarrow> (\<exists>d. downloader_of ?w l = Some d \<and> ud_Begin d \<le> j \<and> j < ud_End d)"
      using j k i dn d reserved_invD(1) [OF inv] reserved_invD(3) [OF inv j, of l] reserved_invD(3) [OF inv j, of k] by auto
  qed (use reserved_invD(1,2) [OF inv] k i dn in \<open>auto split: if_splits\<close>)
  moreover have "\<forall>j<n. ?r ! j = (if i \<le> j \<and> j < ud_End d then None else requested w ! j)"
    using reserved_invD(1) [OF inv] by auto
  ultimately show ?thesis by blast
qed

text \<open>Both ends of \<open>WebseedStopAt\<close>: the download goes on with a shorter range, or it is closed and its whole range released.\<close>

lemma stop_ok:
  assumes inv: "webseed_inv n w" and d: "downloader_of w k = Some d" and i: "ud_current d \<le> i" "i \<le> ud_End d"
  shows "\<exists>c w'. WebseedStopAt w k i = Some (c, w') \<and> webseed_inv n w' \<and> length (webseedSources w') = length (webseedSources w) \<and>
    (\<forall>j<n. i \<le> j \<and> j < ud_End d \<longrightarrow> requested w' ! j = None) \<and> (\<forall>j. downloader_of w j = None \<longrightarrow> downloader_of w' j = None)"
proof -
  have k: "k < length (webseedSources w)" by (rule downloader_of_length [OF d])
  have ok: "run_ok d" using webseed_invD(2) [OF inv d] by simp
  then have b: "ud_Begin d \<le> i" using i by (simp add: run_ok_def)
  from stop_reserved [OF webseed_invD(4) [OF inv] d b i(2)] obtain r where
    r: "release k [i..<ud_End d] (requested w) = Some r" "reserved_inv n (set_downloader k (Some (d\<lparr>ud_End := i\<rparr>)) (w\<lparr>requested := r\<rparr>))"
      "\<forall>j<n. r ! j = (if i \<le> j \<and> j < ud_End d then None else requested w ! j)" by blast
  let ?w = "set_downloader k (Some (d\<lparr>ud_End := i\<rparr>)) (w\<lparr>requested := r\<rparr>)"
  show ?thesis
  proof (cases "i \<le> ud_current d")
    case False
    have "run_ok (d\<lparr>ud_End := i\<rparr>)" using ok False by (simp add: run_ok_def)
    then have "webseed_inv n ?w" using inv r(2) k by (auto simp: webseed_inv_def split: if_splits)
    moreover have "WebseedStopAt w k i = Some (False, ?w)" using d r(1) False by (simp add: WebseedStopAt_def Let_def)
    ultimately show ?thesis using d r(3) by auto
  next
    case True
    have d': "downloader_of ?w k = Some (d\<lparr>ud_End := i\<rparr>)" using k by simp
    from close_reserved [OF r(2) d'] obtain r' where
      r': "CloseWebseedDownloader ?w k = Some (set_downloader k None (?w\<lparr>requested := r'\<rparr>))" "reserved_inv n (set_downloader k None (?w\<lparr>requested := r'\<rparr>))"
        "\<forall>j<n. r' ! j = (if ud_Begin d \<le> j \<and> j < i then None else r ! j)" by auto
    have "webseed_inv n (set_downloader k None (?w\<lparr>requested := r'\<rparr>))" using inv r'(2) k by (auto simp: webseed_inv_def split: if_splits)
    moreover have "WebseedStopAt w k i = Some (True, set_downloader k None (?w\<lparr>requested := r'\<rparr>))"
      using d r(1) True r'(1) by (simp add: WebseedStopAt_def Let_def)
    ultimately show ?thesis using d r(3) r'(3) by auto
  qed
qed

lemma middle_between:
  assumes "ud_current d \<le> ud_End d" "ud_End d < 2 ^ 31"
  shows "ud_current d \<le> middle d" "middle d \<le> ud_End d"
proof -
  have "(of_nat (ud_current d) + of_nat (ud_End d) + 1 :: u32) = of_nat (ud_current d + ud_End d + 1)" by simp
  moreover have "unat (of_nat (ud_current d + ud_End d + 1) :: u32) = ud_current d + ud_End d + 1"
    using assms by (simp add: unat_of_nat take_bit_nat_eq_self del: of_nat_add of_nat_Suc)
  ultimately have "unat (of_nat (ud_current d) + of_nat (ud_End d) + 1 :: u32) = ud_current d + ud_End d + 1"
    by (simp add: add.commute)
  then have "middle d = (ud_current d + ud_End d + 1) div 2" by (simp add: middle_def unat_div)
  then show "ud_current d \<le> middle d" "middle d \<le> ud_End d" using assms(1) by simp_all
qed

lemma gaps_loop_ok:
  assumes "(b, e) \<in> set (gaps_loop av [m..<n] n g)" "m \<le> n" "\<forall>a. g = Some a \<longrightarrow> a < m \<and> (\<forall>i. a \<le> i \<and> i < m \<longrightarrow> av i)"
  shows "b < e \<and> e \<le> n \<and> (\<forall>i. b \<le> i \<and> i < e \<longrightarrow> av i)"
  using assms
proof (induction "n - m" arbitrary: m g)
  case 0
  then show ?case by (auto split: option.splits)
next
  case (Suc x)
  then have mn: "m < n" by simp
  then have up: "[m..<n] = m # [Suc m..<n]" by (rule upt_conv_Cons)
  have IH: "(b, e) \<in> set (gaps_loop av [Suc m..<n] n g') \<Longrightarrow>
      \<forall>a. g' = Some a \<longrightarrow> a < Suc m \<and> (\<forall>i. a \<le> i \<and> i < Suc m \<longrightarrow> av i) \<Longrightarrow> ?case" for g'
    by (rule Suc.hyps(1)) (use Suc mn in auto)
  show ?case
  proof (cases g)
    case None
    have "(b, e) \<in> set (gaps_loop av [Suc m..<n] n (if av m then Some m else None))"
      using Suc.prems(1) None up by simp
    then show ?thesis by (rule IH) (auto simp: less_Suc_eq)
  next
    case (Some a)
    then have a: "a < m" "\<forall>i. a \<le> i \<and> i < m \<longrightarrow> av i" using Suc.prems(3) by simp_all
    show ?thesis
    proof (cases "av m")
      case True
      have "(b, e) \<in> set (gaps_loop av [Suc m..<n] n (Some a))" using Suc.prems(1) Some up True by simp
      then show ?thesis by (rule IH) (use a True in \<open>auto simp: less_Suc_eq\<close>)
    next
      case False
      then consider "b = a" "e = m" | "(b, e) \<in> set (gaps_loop av [Suc m..<n] n None)"
        using Suc.prems(1) Some up by auto
      then show ?thesis
      proof cases
        case 1
        then show ?thesis using a mn by simp
      next
        case 2
        then show ?thesis by (rule IH) simp
      qed
    qed
  qed
qed

lemma findGaps_ok:
  assumes "(b, e) \<in> set (findGaps tps w)"
  shows "b < e \<and> e \<le> length (requested w) \<and> (\<forall>i. b \<le> i \<and> i < e \<longrightarrow> idle tps i \<and> requested w ! i = None)"
proof -
  have "(b, e) \<in> set (findGaps2 tps w True)" using assms by (simp add: findGaps_def)
  then have "b < e \<and> e \<le> length (requested w) \<and> (\<forall>i. b \<le> i \<and> i < e \<longrightarrow> AvailableForWebseed tps w True i)"
    unfolding findGaps2_def by (rule gaps_loop_ok) simp_all
  then show ?thesis by (auto simp: AvailableForWebseed_def split: if_splits)
qed

lemma downloading_source: "k \<in> set (getDownloadingSources w) \<longleftrightarrow> downloader_of w k \<noteq> None"
  by (auto simp: getDownloadingSources_def dest: downloader_of_length)

text \<open>The range that is found is free, whether it is a gap or taken from another source.\<close>

lemma find_range_ok:
  assumes inv: "webseed_inv n w" and n: "n < 2 ^ 31"
  shows "\<exists>b e w' cs'. findRangeForWebseed cs tps w = Some ((b, e), w', cs') \<and> webseed_inv n w' \<and> b \<le> e \<and> e \<le> n \<and>
    (\<forall>i. b \<le> i \<and> i < e \<longrightarrow> requested w' ! i = None) \<and> (\<forall>j. downloader_of w j = None \<longrightarrow> downloader_of w' j = None) \<and>
    length (webseedSources w') = length (webseedSources w)"
proof (cases "findGaps tps w")
  case (Cons g gs)
  obtain order cs' where o: "sort_slice (\<lambda>g. - range_Len g) cs (findGaps tps w) = (order, cs')" by force
  then have "set order = set (findGaps tps w)" by (metis fst_conv set_sort_slice)
  then have "order \<noteq> []" and hd: "hd order \<in> set (findGaps tps w)" using Cons by (metis list.set_intros(1) emptyE set_empty, metis list.set_sel(1) list.distinct(1) set_empty2)
  obtain b e where be: "hd order = (b, e)" by force
  have "findRangeForWebseed cs tps w = Some ((b, e), w, cs')"
    using Cons o be by (simp add: findRangeForWebseed_def)
  then show ?thesis using findGaps_ok [of b e tps w] hd be inv webseed_invD(1) [OF inv] by auto
next
  case Nil
  obtain order cs' where o: "sort_slice (\<lambda>k. - int (Remaining w k)) cs (getDownloadingSources w) = (order, cs')" by force
  then have so: "set order = set (getDownloadingSources w)" by (metis fst_conv set_sort_slice)
  show ?thesis
  proof (cases order)
    case Nil
    then have "findRangeForWebseed cs tps w = Some ((0, 0), w, cs')"
      using \<open>findGaps tps w = []\<close> o by (simp add: findRangeForWebseed_def webseedStealsFromAnotherWebseed_def)
    then show ?thesis using inv by auto
  next
    case (Cons k ks)
    then obtain d where d: "downloader_of w k = Some d" using so downloading_source by fastforce
    note dd = webseed_invD(2) [OF inv d]
    have m: "ud_current d \<le> middle d" "middle d \<le> ud_End d" using middle_between [of d] dd n by (auto simp: run_ok_def)
    obtain c w' where w': "WebseedStopAt w k (middle d) = Some (c, w')" "webseed_inv n w'" "length (webseedSources w') = length (webseedSources w)"
      "\<forall>j<n. middle d \<le> j \<and> j < ud_End d \<longrightarrow> requested w' ! j = None"
      "\<forall>j. downloader_of w j = None \<longrightarrow> downloader_of w' j = None"
      using stop_ok [OF inv d m] by blast
    have "findRangeForWebseed cs tps w = Some ((middle d, ud_End d), w', cs')"
      using \<open>findGaps tps w = []\<close> o Cons d w'(1) by (simp add: findRangeForWebseed_def webseedStealsFromAnotherWebseed_def Let_def)
    then show ?thesis using w' m(2) dd by auto
  qed
qed

lemma pick_ok:
  assumes inv: "webseed_inv n w" and n: "n < 2 ^ 31" and k: "k < length (webseedSources w)" "downloader_of w k = None"
  shows "\<exists>g w' cs'. PickWebseed cs tps w k = Some (g, w', cs') \<and>
    (case g of None \<Rightarrow> webseed_inv n w' | Some g \<Rightarrow> webseed_inv n (set_downloader k (Some (NewUrlDownloader (fst g) (snd g))) w'))"
proof -
  obtain b e w1 cs1 where f: "findRangeForWebseed cs tps w = Some ((b, e), w1, cs1)" "webseed_inv n w1" "b \<le> e" "e \<le> n"
    "\<forall>i. b \<le> i \<and> i < e \<longrightarrow> requested w1 ! i = None" "downloader_of w1 k = None" "length (webseedSources w1) = length (webseedSources w)"
    using find_range_ok [OF inv n, of cs tps] k(2) by blast
  show ?thesis
  proof (cases "b = e")
    case True
    then show ?thesis using f by (simp add: PickWebseed_def)
  next
    case False
    then have be: "b < e" using f(3) by simp
    have len: "length (requested w1) = n" by (rule webseed_invD(1) [OF f(2)])
    let ?r = "map (\<lambda>i. if i \<in> set [b..<e] then Some k else requested w1 ! i) [0..<length (requested w1)]"
    let ?w = "set_downloader k (Some (NewUrlDownloader b e)) (w1\<lparr>requested := ?r\<rparr>)"
    have "reserve k [b..<e] (requested w1) = Some ?r" by (rule reserve_spec) (use f len in auto)
    then have "PickWebseed cs tps w k = Some (Some (b, e), w1\<lparr>requested := ?r\<rparr>, cs1)"
      using f(1) False by (simp add: PickWebseed_def)
    moreover have "webseed_inv n ?w"
    proof (rule webseed_invI)
      fix i j
      assume i: "i < n"
      show "requested ?w ! i = Some j \<longleftrightarrow> (\<exists>d. downloader_of ?w j = Some d \<and> ud_Begin d \<le> i \<and> i < ud_End d)"
        using i k f len webseed_invD(3) [OF f(2) i, of j] by (auto simp: NewUrlDownloader_def)
    qed (use webseed_invD(2) [OF f(2)] len be f(4) in \<open>auto simp: NewUrlDownloader_def run_ok_def split: if_splits\<close>)
    ultimately show ?thesis by auto
  qed
qed

lemma steal_loop_ok:
  assumes "webseed_inv n w"
  shows "\<exists>r w'. steal_loop tps p pe ks w = Some (r, w') \<and> webseed_inv n w' \<and>
    (\<forall>i. r = Some i \<longrightarrow> i < n \<and> idle tps i \<and> requested w' ! i = None)"
  using assms
proof (induction ks)
  case Nil
  then show ?case by simp
next
  case (Cons k ks)
  show ?case
  proof (cases "Remaining w k = 0")
    case True
    then show ?thesis using Cons by simp
  next
    case False
    then obtain d where d: "downloader_of w k = Some d" by (auto simp: Remaining_def split: option.splits)
    note dd = webseed_invD(2) [OF Cons.prems d]
    show ?thesis
    proof (cases "List.find (stealable tps p pe) (rev [Suc (ud_current d)..<ud_End d])")
      case None
      then show ?thesis using Cons d False by simp
    next
      case (Some i)
      then have i: "i \<in> set (rev [Suc (ud_current d)..<ud_End d])" "stealable tps p pe i"
        by (metis find_Some_iff nth_mem)+
      then have b: "ud_current d \<le> i" "i < ud_End d" "i \<le> ud_End d" by auto
      obtain c w' where w': "WebseedStopAt w k i = Some (c, w')" "webseed_inv n w'" "\<forall>j<n. i \<le> j \<and> j < ud_End d \<longrightarrow> requested w' ! j = None"
        using stop_ok [OF Cons.prems d b(1,3)] by blast
      have "i < n" using b dd by simp
      then show ?thesis using d False Some w' b i(2) by (simp add: stealable_def)
    qed
  qed
qed

lemma beside_ok:
  assumes "webseed_inv n w"
  shows "\<exists>r af p' w' cs'. findPieceBesideWebseeds cs tps p w h pe = Some (r, af, p', w', cs') \<and> webseed_inv n w'"
proof -
  obtain r w' where "peerStealsFromWebseed tps p w pe = Some (r, w')" "webseed_inv n w'"
    using steal_loop_ok [OF assms] unfolding peerStealsFromWebseed_def by blast
  then show ?thesis
    using assms by (auto simp: findPieceBesideWebseeds_def split: prod.splits option.splits)
qed

text \<open>A step of the goroutine of a download leaves its range as it is.\<close>

lemma runs_on_ok:
  assumes inv: "webseed_inv n w" and d: "downloader_of w k = Some d" and e: "ud_Begin e = ud_Begin d" "ud_End e = ud_End d" "run_ok e"
  shows "webseed_inv n (set_downloader k (Some e) w)"
proof (rule webseed_invI)
  fix i j
  assume i: "i < n"
  show "requested (set_downloader k (Some e) w) ! i = Some j \<longleftrightarrow>
      (\<exists>e'. downloader_of (set_downloader k (Some e) w) j = Some e' \<and> ud_Begin e' \<le> i \<and> i < ud_End e')"
    using webseed_invD(3) [OF inv i, of j] d e downloader_of_length [OF d] by auto
next
  fix j e'
  assume "downloader_of (set_downloader k (Some e) w) j = Some e'"
  then show "run_ok e' \<and> ud_End e' \<le> n"
    using webseed_invD(2) [OF inv d] webseed_invD(2) [OF inv, of j e'] e by (auto split: if_splits)
qed (simp add: webseed_invD(1) [OF inv])

lemma completed_piece_ok: "run_ok d \<Longrightarrow> run_ok (completed_piece d)"
  by (auto simp: run_ok_def completed_piece_def)

lemma incrCurrent_ok: "run_ok d \<Longrightarrow> ud_sending d \<Longrightarrow> run_ok (incrCurrent d)"
  by (auto simp: run_ok_def incrCurrent_def)

lemma runs_on_range [simp]:
  "ud_Begin (completed_piece d) = ud_Begin d" "ud_End (completed_piece d) = ud_End d"
  "ud_Begin (incrCurrent d) = ud_Begin d" "ud_End (incrCurrent d) = ud_End d"
  by (simp_all add: completed_piece_def incrCurrent_def)

lemma webseed_step_inv:
  assumes "webseed_step w w'" "webseed_inv n w" "n < 2 ^ 31"
  shows "webseed_inv n w'"
  using assms(1)
proof cases
  case (pick k cs tps g w1 cs')
  then show ?thesis using pick_ok [OF assms(2,3) pick(2,3), of cs tps] by auto
next
  case (no_pick k cs tps cs')
  then show ?thesis using pick_ok [OF assms(2,3) no_pick(1,2), of cs tps] by auto
next
  case (complete k d)
  then show ?thesis using runs_on_ok [OF assms(2) complete(2)] completed_piece_ok webseed_invD(2) [OF assms(2) complete(2)] by simp
next
  case (advance k d)
  then show ?thesis using runs_on_ok [OF assms(2) advance(2)] incrCurrent_ok webseed_invD(2) [OF assms(2) advance(2)] by simp
next
  case (close k)
  then show ?thesis using close_ok [OF assms(2), of k] by auto
next
  case (peer cs tps p h pe r af p' cs')
  then show ?thesis using beside_ok [OF assms(2), of cs tps p h pe] by auto
qed

definition webseed_reachable :: "byte list list \<Rightarrow> nat \<Rightarrow> webseeds \<Rightarrow> bool" where
  "webseed_reachable urls n = webseed_step\<^sup>*\<^sup>* (NewWebseeds urls n)"

lemma webseed_inv_start: "webseed_inv n (NewWebseeds urls n)"
  by (rule webseed_invI) (auto simp: NewWebseeds_def downloader_of_def split: if_splits)

lemma webseed_inv_reachable: "webseed_reachable urls n w \<Longrightarrow> n < 2 ^ 31 \<Longrightarrow> webseed_inv n w"
  unfolding webseed_reachable_def
  by (induction rule: rtranclp_induct) (auto intro: webseed_inv_start webseed_step_inv)

definition sample_piece :: "u32 \<Rightarrow> int \<Rightarrow> u32 \<Rightarrow> Piece" where
  "sample_piece i off n = \<lparr>Index = i, p_Length = n,
     Data = [\<lparr>sec_File = 0, sec_Offset = off, sec_Length = int (unat n), sec_Name = ''a''\<rparr>], p_Hash = [], Writing = False, Done = False\<rparr>"

text \<open>A run of two sources: the second takes the second half of the range while the first sends a result, after which the first is past its end.\<close>

definition sample_pieces :: "Piece list" where
  "sample_pieces = [sample_piece 0 0 2, sample_piece 1 2 1]"

definition ud :: "nat \<Rightarrow> nat \<Rightarrow> nat \<Rightarrow> bool \<Rightarrow> url_downloader" where
  "ud b e c sending = \<lparr>ud_Begin = b, ud_End = e, ud_current = c, ud_sending = sending\<rparr>"

definition sample_webseeds :: "nat option list \<Rightarrow> url_downloader option \<Rightarrow> url_downloader option \<Rightarrow> webseeds" where
  "sample_webseeds r d1 d2 = \<lparr>requested = r, webseedSources = [\<lparr>ws_URL = [104], ws_Downloader = d1\<rparr>, \<lparr>ws_URL = [105], ws_Downloader = d2\<rparr>,
     \<lparr>ws_URL = [106], ws_Downloader = None\<rparr>]\<rparr>"

lemma sample_webseeds_simps [simp]:
  "downloader_of (sample_webseeds r d1 d2) 0 = d1" "downloader_of (sample_webseeds r d1 d2) (Suc 0) = d2"
  "downloader_of (sample_webseeds r d1 d2) 2 = None" "length (webseedSources (sample_webseeds r d1 d2)) = 3"
  "set_downloader 0 x (sample_webseeds r d1 d2) = sample_webseeds r x d2"
  "set_downloader (Suc 0) x (sample_webseeds r d1 d2) = sample_webseeds r d1 x"
  by (simp_all add: downloader_of_def set_downloader_def sample_webseeds_def)

lemma sample_picks:
  "PickWebseed [] sample_pieces (sample_webseeds [None, None] None None) 0 = Some (Some (0, 2), sample_webseeds [Some 0, Some 0] None None, [])"
  "PickWebseed [] sample_pieces (sample_webseeds [Some 0, Some 0] (Some (ud 0 2 0 True)) None) 1 =
     Some (Some (1, 2), sample_webseeds [Some 0, Some 1] (Some (ud 0 1 0 True)) None, [])"
  by code_simp+

lemma sample_past_end: "webseed_reachable [[104], [105], [106]] 2 (sample_webseeds [Some 0, Some 1] (Some (ud 0 1 1 False)) (Some (ud 1 2 1 False)))"
proof -
  have 1: "webseed_step (sample_webseeds [None, None] None None) (sample_webseeds [Some 0, Some 0] (Some (ud 0 2 0 False)) None)"
    using webseed_step.pick [OF _ _ sample_picks(1)] by (simp add: NewUrlDownloader_def ud_def)
  have 2: "webseed_step (sample_webseeds [Some 0, Some 0] (Some (ud 0 2 0 False)) None) (sample_webseeds [Some 0, Some 0] (Some (ud 0 2 0 True)) None)"
    using webseed_step.complete [of "sample_webseeds [Some 0, Some 0] (Some (ud 0 2 0 False)) None" 0] by (simp add: completed_piece_def ud_def)
  have 3: "webseed_step (sample_webseeds [Some 0, Some 0] (Some (ud 0 2 0 True)) None)
      (sample_webseeds [Some 0, Some 1] (Some (ud 0 1 0 True)) (Some (ud 1 2 1 False)))"
    using webseed_step.pick [OF _ _ sample_picks(2)] by (simp add: NewUrlDownloader_def ud_def)
  have 4: "webseed_step (sample_webseeds [Some 0, Some 1] (Some (ud 0 1 0 True)) (Some (ud 1 2 1 False)))
      (sample_webseeds [Some 0, Some 1] (Some (ud 0 1 1 False)) (Some (ud 1 2 1 False)))"
    using webseed_step.advance [of "sample_webseeds [Some 0, Some 1] (Some (ud 0 1 0 True)) (Some (ud 1 2 1 False))" 0] by (simp add: incrCurrent_def ud_def)
  have "NewWebseeds [[104], [105], [106]] 2 = sample_webseeds [None, None] None None"
    by (simp add: NewWebseeds_def sample_webseeds_def numeral_2_eq_2)
  then show ?thesis unfolding webseed_reachable_def
    using converse_rtranclp_into_rtranclp [OF 1 converse_rtranclp_into_rtranclp [OF 2 converse_rtranclp_into_rtranclp [OF 3 r_into_rtranclp [of webseed_step, OF 4]]]]
    by simp
qed

text \<open>
  C36: Reservations for web seeds.  Whatever sequence of picks, completed pieces, closings and losses to peers and other
  sources came before, with any state of the pieces, a piece is reserved by a source exactly when it lies in the range of its
  running download, so that the ranges of two downloads are disjoint; the next operation of every kind returns: the panics of
  \<open>PickWebseed\<close>, \<open>CloseWebseedDownloader\<close> and \<open>WebseedStopAt\<close> are unreachable.  The piece that is downloaded is at most the end
  of the range.  It may be that end, a piece that is not reserved for it, because \<open>Run\<close> reads \<open>End\<close> before it sends a result and
  increments \<open>current\<close> after; then \<open>Remaining\<close> wraps to the largest number, as in the run of the witness.  Nothing under \<open>src/\<close>
  calls \<open>PickWebseed\<close> or starts a download: the property is one of these operations, used as their names say.
\<close>

theorem webseed_reservations:
  assumes "webseed_reachable urls n w" and "n < 2 ^ 31"
  shows "(\<forall>i<n. \<forall>k. requested w ! i = Some k \<longleftrightarrow> (\<exists>d. downloader_of w k = Some d \<and> ud_Begin d \<le> i \<and> i < ud_End d)) \<and>
     (\<forall>k d. downloader_of w k = Some d \<longrightarrow> ud_Begin d \<le> ud_current d \<and> ud_current d \<le> ud_End d \<and> ud_End d \<le> n) \<and>
     CloseWebseedDownloader w k \<noteq> None \<and> findPieceBesideWebseeds cs tps p w h pe \<noteq> None \<and>
     (k < length (webseedSources w) \<and> downloader_of w k = None \<longrightarrow> PickWebseed cs tps w k \<noteq> None)"
proof -
  have inv: "webseed_inv n w" by (rule webseed_inv_reachable [OF assms])
  have "\<forall>k d. downloader_of w k = Some d \<longrightarrow> ud_Begin d \<le> ud_current d \<and> ud_current d \<le> ud_End d \<and> ud_End d \<le> n"
    using webseed_invD(2) [OF inv] by (auto simp: run_ok_def)
  then show ?thesis
    using webseed_invD(3) [OF inv] close_ok [OF inv, of k] beside_ok [OF inv, of cs tps p h pe] pick_ok [OF inv assms(2), of k cs tps]
    by auto
qed

theorem webseed_reservations_witness:
  "\<exists>w. webseed_reachable [[104], [105], [106]] 2 w \<and> (\<exists>d. downloader_of w 0 = Some d \<and> ud_current d = ud_End d) \<and>
     Remaining w 0 = 2 ^ 32 - 1 \<and> PickWebseed [] sample_pieces w 2 \<noteq> None"
proof -
  let ?w = "sample_webseeds [Some 0, Some 1] (Some (ud 0 1 1 False)) (Some (ud 1 2 1 False))"
  have "PickWebseed [] sample_pieces ?w 2 \<noteq> None"
    using webseed_reservations [OF sample_past_end] by simp
  moreover have "Remaining ?w 0 = 2 ^ 32 - 1"
    by (simp add: Remaining_def ud_Remaining_def ud_def unsigned_minus_1_eq_mask mask_eq_exp_minus_1)
  moreover have "\<exists>d. downloader_of ?w 0 = Some d \<and> ud_current d = ud_End d" by (simp add: ud_def)
  ultimately show ?thesis using sample_past_end by blast
qed

section \<open>Requests\<close>

record downloadJob =
  j_Filename :: string
  j_RangeBegin :: int
  j_Length :: int

definition new_job :: "FileSection \<Rightarrow> downloadJob" where
  "new_job sec = \<lparr>j_Filename = sec_Name sec, j_RangeBegin = sec_Offset sec, j_Length = sec_Length sec\<rparr>"

text \<open>Files of no bytes are not requested.\<close>

definition emit :: "downloadJob \<Rightarrow> downloadJob list" where
  "emit job = (if 0 < j_Length job then [job] else [])"

fun jobs_loop :: "downloadJob \<Rightarrow> (nat \<times> nat \<times> FileSection) list \<Rightarrow> downloadJob list" where
  "jobs_loop job [] = emit job"
| "jobs_loop job ((i, j, sec) # rest) =
     (if i = 0 \<and> j = 0 then jobs_loop (new_job sec) rest
      else if sec_Name sec = j_Filename job then jobs_loop (job\<lparr>j_Length := j_Length job + sec_Length sec\<rparr>) rest
      else emit job @ jobs_loop (new_job sec) rest)"

definition sections_of :: "Piece list \<Rightarrow> nat \<Rightarrow> nat \<Rightarrow> (nat \<times> nat \<times> FileSection) list" where
  "sections_of ps b e = concat (map (\<lambda>i. map (\<lambda>(j, sec). (i, j, sec)) (enumerate 0 (Data (ps ! i)))) [b..<e])"

definition createJobs :: "Piece list \<Rightarrow> nat \<Rightarrow> nat \<Rightarrow> downloadJob list option" where
  "createJobs ps b e =
     (if b = e then Some []
      else if b < e \<and> length ps < e then None
      else Some (jobs_loop \<lparr>j_Filename = [], j_RangeBegin = 0, j_Length = 0\<rparr> (sections_of ps b e)))"

text \<open>\<open>url.PathEscape\<close> is a parameter; an empty URL is an index out of range.\<close>

definition getURL :: "(string \<Rightarrow> string) \<Rightarrow> string \<Rightarrow> bool \<Rightarrow> string \<Rightarrow> string option" where
  "getURL esc src multifile filename =
     (if src = [] then None
      else Some (if \<not> multifile then (if last src = CHR ''/'' then src @ esc filename else src)
        else (if last src \<noteq> CHR ''/'' then src @ ''/'' else src) @ esc filename))"

section \<open>Responses\<close>

datatype piece_result = PieceData nat "byte list" bool | DownloadError

text \<open>
  The state of \<open>Run\<close>: the piece, the bytes read of it, and the results sent.  \<open>ends\<close> is the end of the range
  that is read when a piece is complete; \<open>body\<close> is the rest of the response.  The loop may index out of range after the last piece of
  the torrent.  Nothing is read only when the buffer is full, which is the case before.
\<close>

type_synonym ud_state = "nat \<times> byte list \<times> piece_result list"

function read_body_loop :: "Piece list \<Rightarrow> (nat \<Rightarrow> nat) \<Rightarrow> nat \<Rightarrow> byte list \<Rightarrow> ud_state \<Rightarrow> (bool \<times> ud_state) option" where
  "read_body_loop ps ends left body (cur, buf, res) =
     (if left = 0 then Some (True, cur, buf, res)
      else if length ps \<le> cur then None
      else let readSize = min (unat (p_Length (ps ! cur)) - length buf) left in
        if length body < readSize then Some (False, cur, buf, res @ [DownloadError])
        else let buf = buf @ take readSize body; left = left - readSize; body = drop readSize body in
          if length buf = unat (p_Length (ps ! cur)) then
            (let d = (ends cur \<noteq> 0 \<and> ends cur - 1 \<le> cur); res = res @ [PieceData cur buf d] in
             if d then Some (True, cur, buf, res) else read_body_loop ps ends left body (Suc cur, [], res))
          else if readSize = 0 then None
          else read_body_loop ps ends left body (cur, buf, res))"
  by pat_completeness auto
termination
  by (relation "measure (\<lambda>(ps, ends, left, body, cur, buf, res). left + (length ps - cur))") auto

declare read_body_loop.simps [simp del]

text \<open>What a server answers to a request for a range: an error, or the status and the body.\<close>

type_synonym http = "string \<Rightarrow> int \<Rightarrow> int \<Rightarrow> (nat \<times> byte list) option"

definition processJob ::
  "(string \<Rightarrow> string) \<Rightarrow> http \<Rightarrow> string \<Rightarrow> bool \<Rightarrow> Piece list \<Rightarrow> (nat \<Rightarrow> nat) \<Rightarrow> downloadJob \<Rightarrow> ud_state \<Rightarrow> (bool \<times> ud_state) option" where
  "processJob esc http src multifile ps ends job st = do {
     u \<leftarrow> getURL esc src multifile (j_Filename job);
     let failed = (False, fst st, fst (snd st), snd (snd st) @ [DownloadError]);
     case http u (j_RangeBegin job) (j_RangeBegin job + j_Length job - 1) of
       None \<Rightarrow> Some failed
     | Some (status, body) \<Rightarrow>
         if status = 200 \<or> status = 206 then read_body_loop ps ends (nat (j_Length job)) body st else Some failed
   }"

fun ud_loop ::
  "(string \<Rightarrow> string) \<Rightarrow> http \<Rightarrow> string \<Rightarrow> bool \<Rightarrow> Piece list \<Rightarrow> (nat \<Rightarrow> nat) \<Rightarrow> downloadJob list \<Rightarrow> ud_state \<Rightarrow> ud_state option" where
  "ud_loop esc http src multifile ps ends [] st = Some st"
| "ud_loop esc http src multifile ps ends (job # jobs) st = do {
     (ok, st) \<leftarrow> processJob esc http src multifile ps ends job st;
     if ok then ud_loop esc http src multifile ps ends jobs st else Some st
   }"

text \<open>The results that \<open>Run\<close> sends.\<close>

definition ud_Run ::
  "(string \<Rightarrow> string) \<Rightarrow> http \<Rightarrow> string \<Rightarrow> bool \<Rightarrow> Piece list \<Rightarrow> (nat \<Rightarrow> nat) \<Rightarrow> nat \<Rightarrow> nat \<Rightarrow> piece_result list option" where
  "ud_Run esc http src multifile ps ends b e = do {
     jobs \<leftarrow> createJobs ps b e;
     (if b < length ps then Some () else None);
     st \<leftarrow> ud_loop esc http src multifile ps ends jobs (b, [], []);
     Some (snd (snd st))
   }"

section \<open>What is downloaded\<close>

text \<open>\<open>content\<close> are the files of the server by name; the sections of a range are consecutive in each file.\<close>

definition sec_bytes :: "(string \<Rightarrow> byte list) \<Rightarrow> FileSection \<Rightarrow> byte list" where
  "sec_bytes content s = take (nat (sec_Length s)) (drop (nat (sec_Offset s)) (content (sec_Name s)))"

definition web_data :: "(string \<Rightarrow> byte list) \<Rightarrow> Piece list \<Rightarrow> nat \<Rightarrow> byte list" where
  "web_data content ps i = concat (map (sec_bytes content) (Data (ps ! i)))"

fun consecutive :: "(string \<Rightarrow> byte list) \<Rightarrow> string \<Rightarrow> int \<Rightarrow> FileSection list \<Rightarrow> bool" where
  "consecutive content nm eo [] = True"
| "consecutive content nm eo (s # ss) =
     (sec_Name s \<noteq> [] \<and> 0 \<le> sec_Offset s \<and> 0 \<le> sec_Length s \<and> sec_Offset s + sec_Length s \<le> int (length (content (sec_Name s))) \<and>
      (sec_Name s = nm \<longrightarrow> sec_Offset s = eo) \<and> consecutive content (sec_Name s) (sec_Offset s + sec_Length s) ss)"

definition job_bytes :: "(string \<Rightarrow> byte list) \<Rightarrow> downloadJob \<Rightarrow> byte list" where
  "job_bytes content j = take (nat (j_Length j)) (drop (nat (j_RangeBegin j)) (content (j_Filename j)))"

definition job_ok :: "(string \<Rightarrow> byte list) \<Rightarrow> downloadJob \<Rightarrow> bool" where
  "job_ok content j \<longleftrightarrow> 0 \<le> j_RangeBegin j \<and> 0 \<le> j_Length j \<and>
     (0 < j_Length j \<longrightarrow> j_RangeBegin j + j_Length j \<le> int (length (content (j_Filename j))))"

lemma job_bytes_extend:
  assumes "0 \<le> r" "0 \<le> a" "0 \<le> c"
  shows "take (nat (a + c)) (drop (nat r) xs) = take (nat a) (drop (nat r) xs) @ take (nat c) (drop (nat (r + a)) xs)"
  using assms by (simp add: nat_add_distrib take_add add.commute)

lemma new_job_ok:
  assumes "consecutive content nm eo (s # ss)"
  shows "job_ok content (new_job s)" "job_bytes content (new_job s) = sec_bytes content s"
    "consecutive content (j_Filename (new_job s)) (j_RangeBegin (new_job s) + j_Length (new_job s)) ss"
  using assms by (simp_all add: job_ok_def new_job_def job_bytes_def sec_bytes_def)

lemma jobs_loop_ok:
  assumes "job_ok content job" "consecutive content (j_Filename job) (j_RangeBegin job + j_Length job) (map (\<lambda>x. snd (snd x)) rest)"
    "\<forall>x\<in>set rest. \<not> (fst x = 0 \<and> fst (snd x) = 0)"
  shows "concat (map (job_bytes content) (jobs_loop job rest)) = job_bytes content job @ concat (map (\<lambda>x. sec_bytes content (snd (snd x))) rest) \<and>
    (\<forall>j\<in>set (jobs_loop job rest). job_ok content j \<and> 0 < j_Length j \<and> j_Filename j \<in> insert (j_Filename job) (sec_Name ` (\<lambda>x. snd (snd x)) ` set rest))"
  using assms
proof (induction job rest rule: jobs_loop.induct)
  case (1 job)
  then show ?case by (auto simp: emit_def job_bytes_def)
next
  case (2 job i j sec rest)
  have ij: "\<not> (i = 0 \<and> j = 0)" and rest: "\<forall>x\<in>set rest. \<not> (fst x = 0 \<and> fst (snd x) = 0)" using 2(6) by auto
  show ?case
  proof (cases "sec_Name sec = j_Filename job")
    case True
    let ?job = "job\<lparr>j_Length := j_Length job + sec_Length sec\<rparr>"
    have c: "sec_Offset sec = j_RangeBegin job + j_Length job" "0 \<le> sec_Length sec"
      "sec_Offset sec + sec_Length sec \<le> int (length (content (sec_Name sec)))"
      "consecutive content (sec_Name sec) (sec_Offset sec + sec_Length sec) (map (\<lambda>x. snd (snd x)) rest)"
      using 2(5) True by auto
    have jb: "0 \<le> j_RangeBegin job" "0 \<le> j_Length job" using 2(4) by (simp_all add: job_ok_def)
    have "job_ok content ?job" using jb c True by (simp add: job_ok_def)
    moreover have "consecutive content (j_Filename ?job) (j_RangeBegin ?job + j_Length ?job) (map (\<lambda>x. snd (snd x)) rest)"
      using c True by (simp add: add.assoc)
    moreover have "job_bytes content ?job = job_bytes content job @ sec_bytes content sec"
      using job_bytes_extend [OF jb c(2)] c(1) True by (simp add: job_bytes_def sec_bytes_def)
    ultimately show ?thesis using 2(2) [OF ij True] ij True rest by auto
  next
    case False
    have c: "consecutive content (j_Filename job) (j_RangeBegin job + j_Length job) (sec # map (\<lambda>x. snd (snd x)) rest)" using 2(5) by simp
    note n = new_job_ok [OF c]
    have "concat (map (job_bytes content) (emit job)) = job_bytes content job" by (auto simp: emit_def job_bytes_def)
    moreover have "\<forall>j\<in>set (emit job). j = job \<and> 0 < j_Length j" by (simp add: emit_def)
    ultimately show ?thesis using 2(3) [OF ij False n(1,3) rest] n(2) 2(4) False ij by (auto simp: new_job_def)
  qed
qed

text \<open>The bytes that are still to come when \<open>buf\<close> is read of piece \<open>cur\<close>.\<close>

definition to_come :: "(nat \<Rightarrow> byte list) \<Rightarrow> nat \<Rightarrow> nat \<Rightarrow> byte list \<Rightarrow> byte list" where
  "to_come dat e cur buf = drop (length buf) (dat cur) @ concat (map dat [Suc cur..<e])"

definition results_of :: "(nat \<Rightarrow> byte list) \<Rightarrow> nat \<Rightarrow> nat \<Rightarrow> nat \<Rightarrow> piece_result list" where
  "results_of dat e i j = map (\<lambda>i. PieceData i (dat i) (Suc i = e)) [i..<j]"

definition at_byte :: "(nat \<Rightarrow> byte list) \<Rightarrow> nat \<Rightarrow> nat \<Rightarrow> byte list \<Rightarrow> bool" where
  "at_byte dat e cur buf \<longleftrightarrow> cur < e \<and> length buf < length (dat cur) \<and> buf = take (length buf) (dat cur)"

lemma to_come_next: "Suc cur < e \<Longrightarrow> to_come dat e (Suc cur) [] = concat (map dat [Suc cur..<e])"
  by (simp add: to_come_def upt_conv_Cons)

lemma results_of_Cons: "i < j \<Longrightarrow> results_of dat e i j = PieceData i (dat i) (Suc i = e) # results_of dat e (Suc i) j"
  by (simp add: results_of_def upt_conv_Cons)

lemma results_of_same [simp]: "results_of dat e i i = []"
  by (simp add: results_of_def)

lemma read_body_ok:
  assumes "e \<le> length ps" "\<And>i. i < e \<Longrightarrow> cur \<le> i \<Longrightarrow> unat (p_Length (ps ! i)) = length (dat i) \<and> dat i \<noteq> []"
    and "at_byte dat e cur buf" "left \<le> length (to_come dat e cur buf)" "body = take left (to_come dat e cur buf)"
  shows "(left < length (to_come dat e cur buf) \<longrightarrow>
       (\<exists>cur' buf'. read_body_loop ps (\<lambda>_. e) left body (cur, buf, res) = Some (True, cur', buf', res @ results_of dat e cur cur') \<and>
          cur \<le> cur' \<and> at_byte dat e cur' buf' \<and> to_come dat e cur' buf' = drop left (to_come dat e cur buf))) \<and>
     (left = length (to_come dat e cur buf) \<longrightarrow>
       (\<exists>cur' buf'. read_body_loop ps (\<lambda>_. e) left body (cur, buf, res) = Some (True, cur', buf', res @ results_of dat e cur e)))"
  using assms
proof (induction "left + (length ps - cur)" arbitrary: left body cur buf res rule: less_induct)
  case less
  note e = less.prems(1) and len = less.prems(2) and at = less.prems(3) and left = less.prems(4) and body = less.prems(5)
  have cur: "cur < e" "length buf < length (dat cur)" "buf = take (length buf) (dat cur)" using at by (simp_all add: at_byte_def)
  have pl: "unat (p_Length (ps ! cur)) = length (dat cur)" using len cur by simp
  show ?case
  proof (cases "left = 0")
    case True
    then show ?thesis using at cur(2) by (auto simp: read_body_loop.simps to_come_def intro!: exI [of _ cur] exI [of _ buf])
  next
    case False
    define rs where "rs = min (length (dat cur) - length buf) left"
    have rs: "0 < rs" "rs \<le> left" "rs \<le> length (dat cur) - length buf" using False cur by (simp_all add: rs_def)
    have lb: "length body = left" using body left by simp
    have tk: "take rs body = take rs (drop (length buf) (dat cur))"
      using body rs by (simp add: to_come_def min_def)
    define buf2 where "buf2 = take (length buf + rs) (dat cur)"
    have buf2: "buf @ take rs body = buf2" unfolding tk buf2_def take_add using cur(3) by metis
    have lb2: "length buf2 = length buf + rs" using rs cur by (simp add: buf2_def)
    have step: "read_body_loop ps (\<lambda>_. e) left body (cur, buf, res) =
        (if length buf2 = length (dat cur) then
           (if e \<noteq> 0 \<and> e - 1 \<le> cur then Some (True, cur, buf2, res @ [PieceData cur buf2 True])
            else read_body_loop ps (\<lambda>_. e) (left - rs) (drop rs body) (Suc cur, [], res @ [PieceData cur buf2 False]))
         else read_body_loop ps (\<lambda>_. e) (left - rs) (drop rs body) (cur, buf2, res))"
      using False cur e rs lb by (subst read_body_loop.simps) (simp add: pl Let_def buf2 rs_def [symmetric])
    have body': "drop rs body = take (left - rs) (drop rs (to_come dat e cur buf))" using body by (simp add: drop_take)
    show ?thesis
    proof (cases "length buf2 = length (dat cur)")
      case full: True
      then have b2: "buf2 = dat cur" using lb2 by (simp add: buf2_def)
      have rsl: "rs = length (dat cur) - length buf" using full lb2 by simp
      have tc: "drop rs (to_come dat e cur buf) = concat (map dat [Suc cur..<e])" by (simp add: to_come_def rsl)
      show ?thesis
      proof (cases "Suc cur = e")
        case True
        then have "left = length (to_come dat e cur buf)" using left rs rsl by (simp add: to_come_def)
        moreover have "read_body_loop ps (\<lambda>_. e) left body (cur, buf, res) = Some (True, cur, buf2, res @ [PieceData cur (dat cur) True])"
          using step full True b2 by auto
        moreover have "results_of dat e cur e = [PieceData cur (dat cur) True]" using True by (simp add: results_of_Cons cur(1))
        ultimately show ?thesis by simp
      next
        case False
        then have sc: "Suc cur < e" using cur by simp
        have at': "at_byte dat e (Suc cur) []" using len [of "Suc cur"] sc by (simp add: at_byte_def)
        have tc': "to_come dat e (Suc cur) [] = drop rs (to_come dat e cur buf)" unfolding tc by (rule to_come_next [OF sc])
        have eq: "read_body_loop ps (\<lambda>_. e) left body (cur, buf, res) =
            read_body_loop ps (\<lambda>_. e) (left - rs) (drop rs body) (Suc cur, [], res @ [PieceData cur (dat cur) False])"
          using step full sc b2 by auto
        have IH: "(left - rs < length (to_come dat e (Suc cur) []) \<longrightarrow>
             (\<exists>cur' buf'. read_body_loop ps (\<lambda>_. e) (left - rs) (drop rs body) (Suc cur, [], res @ [PieceData cur (dat cur) False]) =
                Some (True, cur', buf', (res @ [PieceData cur (dat cur) False]) @ results_of dat e (Suc cur) cur') \<and>
                Suc cur \<le> cur' \<and> at_byte dat e cur' buf' \<and> to_come dat e cur' buf' = drop (left - rs) (to_come dat e (Suc cur) []))) \<and>
           (left - rs = length (to_come dat e (Suc cur) []) \<longrightarrow>
             (\<exists>cur' buf'. read_body_loop ps (\<lambda>_. e) (left - rs) (drop rs body) (Suc cur, [], res @ [PieceData cur (dat cur) False]) =
                Some (True, cur', buf', (res @ [PieceData cur (dat cur) False]) @ results_of dat e (Suc cur) e)))"
          by (rule less.hyps) (use rs e len at' left sc cur tc' body' in auto)
        have ll: "left - rs < length (to_come dat e (Suc cur) []) \<longleftrightarrow> left < length (to_come dat e cur buf)"
          "left - rs = length (to_come dat e (Suc cur) []) \<longleftrightarrow> left = length (to_come dat e cur buf)"
          using rs left tc' by auto
        have dr: "drop (left - rs) (to_come dat e (Suc cur) []) = drop left (to_come dat e cur buf)" using rs tc' by simp
        have rc: "Suc cur \<le> j \<Longrightarrow> res @ results_of dat e cur j = (res @ [PieceData cur (dat cur) False]) @ results_of dat e (Suc cur) j" for j
          using results_of_Cons [of cur j dat e] False by simp
        show ?thesis
          using IH unfolding eq ll dr using rc Suc_leD [OF less_imp_le [OF sc]] sc by (metis less_imp_le Suc_leD)
      qed
    next
      case part: False
      have at': "at_byte dat e cur buf2" using cur lb2 part rs by (simp add: at_byte_def buf2_def)
      have tc': "to_come dat e cur buf2 = drop rs (to_come dat e cur buf)" using rs lb2 by (simp add: to_come_def add.commute)
      have eq: "read_body_loop ps (\<lambda>_. e) left body (cur, buf, res) = read_body_loop ps (\<lambda>_. e) (left - rs) (drop rs body) (cur, buf2, res)"
        using step part by simp
      have IH: "(left - rs < length (to_come dat e cur buf2) \<longrightarrow>
           (\<exists>cur' buf'. read_body_loop ps (\<lambda>_. e) (left - rs) (drop rs body) (cur, buf2, res) = Some (True, cur', buf', res @ results_of dat e cur cur') \<and>
              cur \<le> cur' \<and> at_byte dat e cur' buf' \<and> to_come dat e cur' buf' = drop (left - rs) (to_come dat e cur buf2))) \<and>
         (left - rs = length (to_come dat e cur buf2) \<longrightarrow>
           (\<exists>cur' buf'. read_body_loop ps (\<lambda>_. e) (left - rs) (drop rs body) (cur, buf2, res) = Some (True, cur', buf', res @ results_of dat e cur e)))"
        by (rule less.hyps) (use rs e len at' left cur tc' body' in auto)
      have ll: "left - rs < length (to_come dat e cur buf2) \<longleftrightarrow> left < length (to_come dat e cur buf)"
        "left - rs = length (to_come dat e cur buf2) \<longleftrightarrow> left = length (to_come dat e cur buf)"
        using rs left tc' by auto
      have dr: "drop (left - rs) (to_come dat e cur buf2) = drop left (to_come dat e cur buf)" using rs tc' by simp
      show ?thesis using IH unfolding eq ll dr by blast
    qed
  qed
qed

lemma ud_loop_ok:
  assumes "e \<le> length ps" "\<And>i. i < e \<Longrightarrow> cur \<le> i \<Longrightarrow> unat (p_Length (ps ! i)) = length (dat i) \<and> dat i \<noteq> []"
    and "at_byte dat e cur buf" "concat (map (job_bytes content) jobs) = to_come dat e cur buf"
    and "\<forall>j\<in>set jobs. job_ok content j \<and> 0 < j_Length j \<and>
      (\<exists>u. getURL esc src multifile (j_Filename j) = Some u \<and>
        http u (j_RangeBegin j) (j_RangeBegin j + j_Length j - 1) = Some (206, job_bytes content j))"
  shows "\<exists>cur' buf'. ud_loop esc http src multifile ps (\<lambda>_. e) jobs (cur, buf, res) = Some (cur', buf', res @ results_of dat e cur e)"
  using assms
proof (induction jobs arbitrary: cur buf res)
  case Nil
  then show ?case by (auto simp: to_come_def at_byte_def)
next
  case (Cons j jobs)
  have j: "job_ok content j" "0 < j_Length j" using Cons.prems(5) by auto
  from Cons.prems(5) obtain u where u: "getURL esc src multifile (j_Filename j) = Some u"
    "http u (j_RangeBegin j) (j_RangeBegin j + j_Length j - 1) = Some (206, job_bytes content j)" by auto
  have lj: "length (job_bytes content j) = nat (j_Length j)" using j by (auto simp: job_bytes_def job_ok_def)
  have tc: "to_come dat e cur buf = job_bytes content j @ concat (map (job_bytes content) jobs)" using Cons.prems(4) by simp
  have body: "job_bytes content j = take (nat (j_Length j)) (to_come dat e cur buf)" "nat (j_Length j) \<le> length (to_come dat e cur buf)"
    using tc lj by simp_all
  note loop = read_body_ok [OF Cons.prems(1,2,3) body(2,1), of res]
  have pj: "processJob esc http src multifile ps (\<lambda>_. e) j (cur, buf, res) =
      read_body_loop ps (\<lambda>_. e) (nat (j_Length j)) (job_bytes content j) (cur, buf, res)"
    using u by (simp add: processJob_def Let_def)
  show ?case
  proof (cases "jobs = []")
    case True
    then have "nat (j_Length j) = length (to_come dat e cur buf)" using tc lj by simp
    then show ?thesis using loop pj True by auto
  next
    case False
    then obtain j' where j': "j' \<in> set jobs" by (meson last_in_set)
    then have "0 < length (job_bytes content j')" using Cons.prems(5) by (auto simp: job_bytes_def job_ok_def)
    then have "concat (map (job_bytes content) jobs) \<noteq> []" using j' by auto
    then have lt: "nat (j_Length j) < length (to_come dat e cur buf)" using tc lj by simp
    obtain cur' buf' where st: "processJob esc http src multifile ps (\<lambda>_. e) j (cur, buf, res) = Some (True, cur', buf', res @ results_of dat e cur cur')"
      "cur \<le> cur'" "at_byte dat e cur' buf'" "to_come dat e cur' buf' = drop (nat (j_Length j)) (to_come dat e cur buf)"
      using loop lt unfolding pj by blast
    have "concat (map (job_bytes content) jobs) = to_come dat e cur' buf'" using st(4) tc lj by simp
    then obtain c2 b2 where r: "ud_loop esc http src multifile ps (\<lambda>_. e) jobs (cur', buf', res @ results_of dat e cur cur') =
        Some (c2, b2, (res @ results_of dat e cur cur') @ results_of dat e cur' e)"
      using Cons.IH [of cur' buf' "res @ results_of dat e cur cur'"] Cons.prems(1,2,5) st(2,3) by auto
    have "cur' < e" using st(3) by (simp add: at_byte_def)
    then have "[cur..<cur'] @ [cur'..<e] = [cur..<e]" using upt_add_eq_append [of cur cur' "e - cur'"] st(2) by simp
    then have "results_of dat e cur cur' @ results_of dat e cur' e = results_of dat e cur e"
      by (simp add: results_of_def flip: map_append)
    then show ?thesis using st(1) r by auto
  qed
qed

lemma sections_of_Cons: "b < e \<Longrightarrow> sections_of ps b e = map (\<lambda>(j, sec). (b, j, sec)) (enumerate 0 (Data (ps ! b))) @ sections_of ps (Suc b) e"
  by (simp add: sections_of_def upt_conv_Cons)

lemma sections_of_fst: "x \<in> set (sections_of ps b e) \<Longrightarrow> b \<le> fst x \<and> fst x < e"
  by (auto simp: sections_of_def)

lemma enumerate_snd: "map (\<lambda>x. snd (snd x)) (map (Pair i) (enumerate n xs)) = xs"
  by (induction xs arbitrary: n) simp_all

lemma sections_of_snd: "map (\<lambda>x. snd (snd x)) (sections_of ps b e) = concat (map (\<lambda>i. Data (ps ! i)) [b..<e])"
proof -
  have "map (\<lambda>x. snd (snd x)) (concat (map (\<lambda>i. map (\<lambda>(j, sec). (i, j, sec)) (enumerate 0 (Data (ps ! i)))) is)) =
      concat (map (\<lambda>i. Data (ps ! i)) is)" for "is"
    by (induction "is") (simp_all add: enumerate_snd del: map_map)
  then show ?thesis by (simp add: sections_of_def)
qed

lemma concat_map_concat: "concat (map f (concat (map g is))) = concat (map (\<lambda>i. concat (map f (g i))) is)"
  by (induction "is") simp_all

text \<open>The first section starts a job: by the test of the code when it is the first of the torrent, otherwise by its name.\<close>

lemma createJobs_ok:
  assumes b: "b < e" "e \<le> length ps" and ne: "Data (ps ! b) \<noteq> []"
    and con: "consecutive content [] 0 (concat (map (\<lambda>i. Data (ps ! i)) [b..<e]))"
  shows "\<exists>jobs. createJobs ps b e = Some jobs \<and>
    concat (map (job_bytes content) jobs) = concat (map (sec_bytes content) (concat (map (\<lambda>i. Data (ps ! i)) [b..<e]))) \<and>
    (\<forall>j\<in>set jobs. job_ok content j \<and> 0 < j_Length j \<and> j_Filename j \<in> sec_Name ` set (concat (map (\<lambda>i. Data (ps ! i)) [b..<e])))"
proof -
  obtain s ss where D: "Data (ps ! b) = s # ss" using ne by (meson neq_Nil_conv)
  define rest where "rest = map (\<lambda>(j, sec). (b, j, sec)) (enumerate 1 ss) @ sections_of ps (Suc b) e"
  have sec: "sections_of ps b e = (b, 0, s) # rest" using b D by (simp add: sections_of_Cons rest_def)
  have all: "concat (map (\<lambda>i. Data (ps ! i)) [b..<e]) = s # map (\<lambda>x. snd (snd x)) rest"
    using sections_of_snd [of ps b e] sec by simp
  have no0: "\<forall>x\<in>set rest. \<not> (fst x = 0 \<and> fst (snd x) = 0)"
    using sections_of_fst [of _ ps "Suc b" e] by (fastforce simp: rest_def in_set_enumerate_eq)
  note con' = con [unfolded all]
  note n = new_job_ok [OF con']
  let ?empty = "\<lparr>j_Filename = [], j_RangeBegin = 0, j_Length = 0\<rparr>"
  have "sec_Name s \<noteq> []" using con' by simp
  then have "createJobs ps b e = Some (jobs_loop (new_job s) rest)"
    using b by (simp add: createJobs_def sec emit_def)
  moreover have "j_Filename (new_job s) = sec_Name s" by (simp add: new_job_def)
  ultimately show ?thesis
    using jobs_loop_ok [OF n(1,3) no0] n(2) unfolding all by (auto simp: comp_def)
qed

text \<open>
  C37: A range of pieces from a server.  If the sections of the pieces are consecutive in their files and the server answers each
  range request with those bytes of the file, then the downloader returns, asks for no empty range, and sends exactly the pieces of
  its range in order, each with its data, the last one marked as done.
\<close>

theorem web_range_downloaded:
  assumes "b < e" "e \<le> length ps"
    and "\<And>i. b \<le> i \<Longrightarrow> i < e \<Longrightarrow> unat (p_Length (ps ! i)) = length (web_data content ps i) \<and> web_data content ps i \<noteq> []"
    and "consecutive content [] 0 (concat (map (\<lambda>i. Data (ps ! i)) [b..<e]))"
    and "\<And>s x n. s \<in> set (concat (map (\<lambda>i. Data (ps ! i)) [b..<e])) \<Longrightarrow> 0 < n \<Longrightarrow>
      \<exists>u. getURL esc src multifile (sec_Name s) = Some u \<and>
        http u x (x + n - 1) = Some (206, take (nat n) (drop (nat x) (content (sec_Name s))))"
  shows "ud_Run esc http src multifile ps (\<lambda>_. e) b e = Some (map (\<lambda>i. PieceData i (web_data content ps i) (Suc i = e)) [b..<e])"
proof -
  have ne: "Data (ps ! b) \<noteq> []" using assms(1) assms(3) [of b] by (auto simp: web_data_def)
  obtain jobs where jobs: "createJobs ps b e = Some jobs"
    "concat (map (job_bytes content) jobs) = concat (map (sec_bytes content) (concat (map (\<lambda>i. Data (ps ! i)) [b..<e])))"
    "\<forall>j\<in>set jobs. job_ok content j \<and> 0 < j_Length j \<and> j_Filename j \<in> sec_Name ` set (concat (map (\<lambda>i. Data (ps ! i)) [b..<e]))"
    using createJobs_ok [OF assms(1,2) ne assms(4)] by blast
  have at: "at_byte (web_data content ps) e b []" using assms(1) assms(3) [of b] by (simp add: at_byte_def)
  have "concat (map (sec_bytes content) (concat (map (\<lambda>i. Data (ps ! i)) [b..<e]))) = concat (map (web_data content ps) [b..<e])"
    by (simp add: web_data_def [abs_def] concat_map_concat)
  also have "\<dots> = to_come (web_data content ps) e b []" using assms(1) by (simp add: to_come_def upt_conv_Cons)
  finally have stream: "concat (map (job_bytes content) jobs) = to_come (web_data content ps) e b []" using jobs(2) by simp
  have answers: "\<forall>j\<in>set jobs. job_ok content j \<and> 0 < j_Length j \<and>
      (\<exists>u. getURL esc src multifile (j_Filename j) = Some u \<and>
        http u (j_RangeBegin j) (j_RangeBegin j + j_Length j - 1) = Some (206, job_bytes content j))"
  proof
    fix j
    assume j: "j \<in> set jobs"
    then obtain s where s: "s \<in> set (concat (map (\<lambda>i. Data (ps ! i)) [b..<e]))" "j_Filename j = sec_Name s" "0 < j_Length j" "job_ok content j"
      using jobs(3) by blast
    show "job_ok content j \<and> 0 < j_Length j \<and> (\<exists>u. getURL esc src multifile (j_Filename j) = Some u \<and>
        http u (j_RangeBegin j) (j_RangeBegin j + j_Length j - 1) = Some (206, job_bytes content j))"
      using assms(5) [OF s(1,3), of "j_RangeBegin j"] s by (simp add: job_bytes_def)
  qed
  obtain c2 b2 where "ud_loop esc http src multifile ps (\<lambda>_. e) jobs (b, [], []) =
      Some (c2, b2, [] @ results_of (web_data content ps) e b e)"
    using ud_loop_ok [where dat = "web_data content ps" and cur = b and buf = "[]" and res = "[]", OF assms(2) _ at stream answers] assms(3) by blast
  then show ?thesis using jobs(1) assms(1,2) by (simp add: ud_Run_def results_of_def)
qed

theorem web_range_downloaded_witness:
  "ud_Run (\<lambda>n. n) (\<lambda>_ x y. Some (206, take (nat (y - x + 1)) (drop (nat x) [7, 8, 9]))) ''h/'' False
     [sample_piece 0 0 2, sample_piece 1 2 1] (\<lambda>_. 2) 0 2 = Some [PieceData 0 [7, 8] False, PieceData 1 [9] True]"
proof -
  let ?ps = "[sample_piece 0 0 2, sample_piece 1 2 1]"
  let ?http = "\<lambda>_ x y. Some (206, take (nat (y - x + 1)) (drop (nat x) [7, 8, 9 :: byte]))"
  have two: "[0..<2] = [0, Suc 0]" by (simp add: upt_rec)
  have "ud_Run (\<lambda>n. n) ?http ''h/'' False ?ps (\<lambda>_. 2) 0 2 =
      Some (map (\<lambda>i. PieceData i (web_data (\<lambda>_. [7, 8, 9]) ?ps i) (Suc i = 2)) [0..<2])"
  proof (rule web_range_downloaded)
    fix i :: nat
    assume "i < 2"
    then consider "i = 0" | "i = 1" by linarith
    then show "unat (p_Length (?ps ! i)) = length (web_data (\<lambda>_. [7, 8, 9]) ?ps i) \<and> web_data (\<lambda>_. [7, 8, 9]) ?ps i \<noteq> []"
      by cases (simp_all add: web_data_def sec_bytes_def sample_piece_def)
  next
    fix s :: FileSection and x n :: int
    assume "0 < n"
    then have "x + n - 1 - x + 1 = n" by simp
    then show "\<exists>u. getURL (\<lambda>n. n) ''h/'' False (sec_Name s) = Some u \<and> ?http u x (x + n - 1) = Some (206, take (nat n) (drop (nat x) [7, 8, 9]))"
      by (simp add: getURL_def)
  qed (simp_all add: two sample_piece_def)
  then show ?thesis by (simp add: two web_data_def sec_bytes_def sample_piece_def)
qed

end
