(* ===== verification/PieceDownloader.thy ===== *)
theory PieceDownloader
  imports PeerState
begin

text \<open>
  \<open>internal/piecedownloader\<close>: downloads the blocks of one piece from one peer.  The Go maps \<open>pending\<close>
  and \<open>done\<close> are lists of their keys; a loop over a map visits them in an order of the choices.
\<close>

record PieceDownloader =
  pd_Piece :: ptr
  pd_Peer :: ptr
  AllowedFast :: bool
  Buffer :: "byte list"
  remaining :: "nat list"
  pending :: "nat list"
  pd_done :: "nat list"

datatype got_error = ErrBlockDuplicate | ErrBlockNotRequested

definition NewPD :: "ptr \<Rightarrow> Piece \<Rightarrow> ptr \<Rightarrow> bool \<Rightarrow> byte list \<Rightarrow> PieceDownloader" where
  "NewPD i pi pe allowedFast buf = \<lparr>pd_Piece = i, pd_Peer = pe, AllowedFast = allowedFast, Buffer = buf,
     remaining = [0..<NumBlocks pi], pending = [], pd_done = []\<rparr>"

definition pd_Choked :: "choices \<Rightarrow> heap \<Rightarrow> PieceDownloader \<Rightarrow> PieceDownloader \<times> choices" where
  "pd_Choked cs h d =
     (if AllowedFast d then (d, cs)
      else if FastEnabled (h (pd_Peer d)) then (d, cs)
      else let (order, cs) = shuffle cs (pending d)
           in (d\<lparr>pending := [], remaining := remaining d @ order\<rparr>, cs))"

text \<open>\<open>copy(d.Buffer.Data[begin:end], data)\<close>; the slice expression panics out of range.\<close>

definition copy_at :: "byte list \<Rightarrow> nat \<Rightarrow> nat \<Rightarrow> byte list \<Rightarrow> byte list option" where
  "copy_at buf b e data =
     (if b \<le> e \<and> e \<le> length buf
      then let n = min (e - b) (length data) in Some (take b buf @ take n data @ drop (b + n) buf)
      else None)"

definition GotBlock :: "Block \<Rightarrow> byte list \<Rightarrow> PieceDownloader \<Rightarrow> (PieceDownloader \<times> got_error option) option" where
  "GotBlock b data d =
     (if b_Index b \<in> set (pd_done d) then Some (d, Some ErrBlockDuplicate)
      else let err = (if b_Index b \<notin> set (pending d) then Some ErrBlockNotRequested else None) in
        Option.bind (copy_at (Buffer d) (unat (Begin b)) (unat (Begin b + b_Length b)) data) (\<lambda>buf.
          Some (d\<lparr>Buffer := buf, pending := removeAll (b_Index b) (pending d),
                  pd_done := pd_done d @ [b_Index b]\<rparr>, err)))"

definition Rejected :: "Block \<Rightarrow> PieceDownloader \<Rightarrow> PieceDownloader" where
  "Rejected b d = d\<lparr>pending := removeAll (b_Index b) (pending d), remaining := remaining d @ [b_Index b]\<rparr>"

fun cancel_loop :: "Piece \<Rightarrow> ptr \<Rightarrow> nat list \<Rightarrow> heap \<Rightarrow> heap option" where
  "cancel_loop pi pe [] h = Some h"
| "cancel_loop pi pe (i # is) h = do {
     b \<leftarrow> GetBlock pi i;
     cancel_loop pi pe is (h(pe := CancelPiece (Index pi) (Begin b) (b_Length b) (h pe)))
   }"

definition CancelPending :: "choices \<Rightarrow> Piece \<Rightarrow> heap \<Rightarrow> PieceDownloader \<Rightarrow> (heap \<times> choices) option" where
  "CancelPending cs pi h d =
     (let (order, cs) = shuffle cs (pending d) in
      map_option (\<lambda>h. (h, cs)) (cancel_loop pi (pd_Peer d) order h))"

fun request_loop :: "Piece \<Rightarrow> int \<Rightarrow> nat list \<Rightarrow> PieceDownloader \<Rightarrow> heap \<Rightarrow> (PieceDownloader \<times> heap) option" where
  "request_loop pi q [] d h = Some (d, h)"
| "request_loop pi q (i # is) d h =
     (if int (length (pending d)) \<ge> q then Some (d, h)
      else do {
        b \<leftarrow> GetBlock pi i;
        let h = (if i \<notin> set (pd_done d)
                 then h(pd_Peer d := RequestPiece (Index pi) (Begin b) (b_Length b) (h (pd_Peer d))) else h);
        request_loop pi q is (d\<lparr>remaining := tl (remaining d), pending := List.insert i (pending d)\<rparr>) h
      })"

definition RequestBlocks :: "int \<Rightarrow> Piece \<Rightarrow> heap \<Rightarrow> PieceDownloader \<Rightarrow> (PieceDownloader \<times> heap) option" where
  "RequestBlocks q pi h d = request_loop pi q (remaining d) d h"

definition pd_Done :: "Piece \<Rightarrow> PieceDownloader \<Rightarrow> bool" where
  "pd_Done pi d \<longleftrightarrow> length (pd_done d) = NumBlocks pi"

section \<open>No block is lost\<close>

definition pd_inv :: "Piece \<Rightarrow> PieceDownloader \<Rightarrow> bool" where
  "pd_inv pi d \<longleftrightarrow> distinct (pending d) \<and> distinct (pd_done d) \<and>
     set (remaining d) \<union> set (pending d) \<union> set (pd_done d) = {..<NumBlocks pi} \<and>
     length (Buffer d) = unat (p_Length pi)"

lemma pd_inv_New: "length buf = unat (p_Length pi) \<Longrightarrow> pd_inv pi (NewPD i pi pe af buf)"
  by (auto simp: pd_inv_def NewPD_def)

lemma pd_inv_Choked: "pd_inv pi d \<Longrightarrow> pd_inv pi (fst (pd_Choked cs h d))"
  by (simp add: pd_inv_def pd_Choked_def split_beta Un_ac)

lemma pd_inv_Rejected: "pd_inv pi d \<Longrightarrow> b_Index b < NumBlocks pi \<Longrightarrow> pd_inv pi (Rejected b d)"
  by (auto simp: pd_inv_def Rejected_def distinct_removeAll)

lemma GetBlock_range:
  assumes "GetBlock pi i = Some b"
  shows "unat (Begin b + b_Length b) = unat (Begin b) + unat (b_Length b)"
    and "unat (Begin b) + unat (b_Length b) \<le> unat (p_Length pi)"
proof -
  note b = GetBlock_SomeD [OF assms]
  show le: "unat (Begin b) + unat (b_Length b) \<le> unat (p_Length pi)" using b(3-5) by auto
  show "unat (Begin b + b_Length b) = unat (Begin b) + unat (b_Length b)"
    using le unat_u32_less [of "p_Length pi"] by (simp add: unat_plus_u32)
qed

lemma GotBlock_spec:
  assumes inv: "pd_inv pi d" and b: "GetBlock pi i = Some b" and len: "length data = unat (b_Length b)"
  shows "\<exists>d'. GotBlock b data d = Some (d', if i \<in> set (pd_done d) then Some ErrBlockDuplicate
      else if i \<in> set (pending d) then None else Some ErrBlockNotRequested) \<and> pd_inv pi d' \<and>
    (if i \<in> set (pd_done d) then d' = d
     else pd_done d' = pd_done d @ [i] \<and> pending d' = removeAll i (pending d) \<and> remaining d' = remaining d \<and>
       Buffer d' = take (16384 * i) (Buffer d) @ data @ drop (16384 * i + length data) (Buffer d))"
proof (cases "i \<in> set (pd_done d)")
  case True
  then show ?thesis using inv GetBlock_SomeD(2) [OF b] by (simp add: GotBlock_def)
next
  case False
  have bi: "b_Index b = i" "unat (Begin b) = 16384 * i" and i: "i < NumBlocks pi"
    using GetBlock_SomeD [OF b] by simp_all
  have "copy_at (Buffer d) (unat (Begin b)) (unat (Begin b + b_Length b)) data =
      Some (take (16384 * i) (Buffer d) @ data @ drop (16384 * i + length data) (Buffer d))"
    using GetBlock_range [OF b] inv len bi by (simp add: copy_at_def pd_inv_def Let_def)
  moreover have "16384 * i + length data \<le> length (Buffer d)"
    using GetBlock_range [OF b] inv len bi by (simp add: pd_inv_def)
  ultimately show ?thesis using False inv bi i
    by (auto simp: GotBlock_def pd_inv_def distinct_removeAll)
qed

lemma request_loop_spec:
  assumes "pd_inv pi d" and "remaining d = is"
  shows "\<exists>d' h' taken. request_loop pi q is d h = Some (d', h') \<and> pd_inv pi d' \<and>
    is = taken @ remaining d' \<and> set (pending d') = set (pending d) \<union> set taken \<and>
    pd_done d' = pd_done d \<and> Buffer d' = Buffer d \<and> pd_Peer d' = pd_Peer d \<and>
    int (length (pending d')) \<le> max q (int (length (pending d))) \<and>
    (remaining d' = [] \<or> q \<le> int (length (pending d')))"
  using assms
proof (induction "is" arbitrary: d h)
  case Nil
  then show ?case by (auto intro: exI [of _ "[]"])
next
  case (Cons i "is")
  show ?case
  proof (cases "int (length (pending d)) \<ge> q")
    case True
    then show ?thesis using Cons.prems by (auto intro: exI [of _ "[]"])
  next
    case False
    have "i < NumBlocks pi" using Cons.prems by (auto simp: pd_inv_def)
    then obtain b where b: "GetBlock pi i = Some b" using GetBlock_in by blast
    let ?d = "d\<lparr>remaining := is, pending := List.insert i (pending d)\<rparr>"
    let ?h = "if i \<notin> set (pd_done d)
      then h(pd_Peer d := RequestPiece (Index pi) (Begin b) (b_Length b) (h (pd_Peer d))) else h"
    have "pd_inv pi ?d" using Cons.prems by (auto simp: pd_inv_def)
    then obtain d' h' taken where IH: "request_loop pi q is ?d ?h = Some (d', h')" "pd_inv pi d'"
      "is = taken @ remaining d'" "set (pending d') = set (pending ?d) \<union> set taken"
      "pd_done d' = pd_done ?d" "Buffer d' = Buffer ?d" "pd_Peer d' = pd_Peer ?d"
      "int (length (pending d')) \<le> max q (int (length (pending ?d)))"
      "remaining d' = [] \<or> q \<le> int (length (pending d'))"
      using Cons.IH [of ?d ?h] by auto
    have "request_loop pi q (i # is) d h = Some (d', h')"
      using False b IH(1) Cons.prems(2) by (simp add: Let_def)
    moreover have "int (length (pending ?d)) \<le> max q (int (length (pending d)))"
      using False by (simp add: List.insert_def)
    ultimately show ?thesis using IH Cons.prems
      by (intro exI [of _ d'] exI [of _ h'] exI [of _ "i # taken"]) auto
  qed
qed

section \<open>The blocks are assembled\<close>

datatype pd_event =
    EvGot nat "byte list"
  | EvRejected nat
  | EvChoked choices heap
  | EvRequest int heap

text \<open>
  What can happen to a downloader: a block that \<open>FindBlock\<close> found comes with its length; a rejected
  one is a block of the piece as well.
\<close>

inductive pd_run :: "Piece \<Rightarrow> PieceDownloader \<Rightarrow> pd_event list \<Rightarrow> PieceDownloader \<Rightarrow> bool" for pi d0 where
  run_new: "pd_run pi d0 [] d0"
| run_got: "pd_run pi d0 evs d \<Longrightarrow> GetBlock pi i = Some b \<Longrightarrow> length data = unat (b_Length b) \<Longrightarrow>
    GotBlock b data d = Some (d', err) \<Longrightarrow> pd_run pi d0 (evs @ [EvGot i data]) d'"
| run_rejected: "pd_run pi d0 evs d \<Longrightarrow> GetBlock pi i = Some b \<Longrightarrow>
    pd_run pi d0 (evs @ [EvRejected i]) (Rejected b d)"
| run_choked: "pd_run pi d0 evs d \<Longrightarrow> pd_run pi d0 (evs @ [EvChoked cs h]) (fst (pd_Choked cs h d))"
| run_request: "pd_run pi d0 evs d \<Longrightarrow> RequestBlocks q pi h d = Some (d', h') \<Longrightarrow>
    pd_run pi d0 (evs @ [EvRequest q h]) d'"

fun got_of :: "nat \<Rightarrow> pd_event \<Rightarrow> byte list option" where
  "got_of i (EvGot j data) = (if i = j then Some data else None)"
| "got_of i _ = None"

text \<open>The first data received for block \<open>i\<close>.\<close>

definition first_got :: "nat \<Rightarrow> pd_event list \<Rightarrow> byte list option" where
  "first_got i evs = (case List.map_filter (got_of i) evs of [] \<Rightarrow> None | data # _ \<Rightarrow> Some data)"

lemma first_got_snoc:
  "first_got i (evs @ [e]) = (case first_got i evs of None \<Rightarrow> got_of i e | Some data \<Rightarrow> Some data)"
  by (auto simp: first_got_def List.map_filter_def split: option.splits list.splits)

abbreviation block_slice :: "Piece \<Rightarrow> nat \<Rightarrow> byte list \<Rightarrow> byte list" where
  "block_slice pi \<equiv> blk (unat (p_Length pi))"

definition assembled :: "Piece \<Rightarrow> pd_event list \<Rightarrow> PieceDownloader \<Rightarrow> bool" where
  "assembled pi evs d \<longleftrightarrow> pd_inv pi d \<and>
     (\<forall>i. i \<in> set (pd_done d) \<longleftrightarrow> first_got i evs \<noteq> None) \<and>
     (\<forall>i data. first_got i evs = Some data \<longrightarrow> i < NumBlocks pi \<and> block_slice pi i (Buffer d) = data)"

lemma assembled_same:
  "assembled pi evs d \<Longrightarrow> pd_inv pi d' \<Longrightarrow> pd_done d' = pd_done d \<Longrightarrow> Buffer d' = Buffer d \<Longrightarrow>
    (\<And>i. got_of i e = None) \<Longrightarrow> assembled pi (evs @ [e]) d'"
  by (simp add: assembled_def first_got_snoc option.case_eq_if)

lemma assembled_got:
  assumes as: "assembled pi evs d" and b: "GetBlock pi i = Some b" and len: "length data = unat (b_Length b)"
    and g: "GotBlock b data d = Some (d', err)"
  shows "assembled pi (evs @ [EvGot i data]) d'"
proof -
  have inv: "pd_inv pi d" using as by (simp add: assembled_def)
  have bi: "i < NumBlocks pi" "length data = min 16384 (unat (p_Length pi) - 16384 * i)"
    using GetBlock_SomeD [OF b] len by simp_all
  have L: "length (Buffer d) = unat (p_Length pi)" using inv by (simp add: pd_inv_def)
  have fit: "16384 * i + length data \<le> length (Buffer d)"
    using GetBlock_range(2) [OF b] GetBlock_SomeD(3) [OF b] len L by simp
  note spec = GotBlock_spec [OF inv b len]
  show ?thesis
  proof (cases "i \<in> set (pd_done d)")
    case True
    then have "d' = d" using spec g by auto
    then show ?thesis using as True by (auto simp: assembled_def first_got_snoc split: option.splits)
  next
    case False
    then have d': "pd_inv pi d'" "pd_done d' = pd_done d @ [i]"
      "Buffer d' = take (16384 * i) (Buffer d) @ data @ drop (16384 * i + length data) (Buffer d)"
      using spec g by auto
    have bs: "block_slice pi j (Buffer d') = (if j = i then data else block_slice pi j (Buffer d))" for j
      unfolding d'(3) by (rule blk_overwrite [OF bi(2) fit])
    have "first_got i evs = None" using as False by (simp add: assembled_def)
    then show ?thesis using as d' bs bi(1)
      by (auto simp: assembled_def first_got_snoc split: option.splits if_splits)
  qed
qed

lemma pd_run_assembled:
  assumes "pd_run pi (NewPD k pi pe af buf) evs d" and "length buf = unat (p_Length pi)"
  shows "assembled pi evs d"
  using assms(1)
proof induction
  case run_new
  then show ?case using pd_inv_New [OF assms(2)] by (simp add: assembled_def first_got_def NewPD_def List.map_filter_def)
next
  case (run_got evs d i b data d' err)
  then show ?case by (auto intro: assembled_got)
next
  case (run_rejected evs d i b)
  then have "pd_inv pi (Rejected b d)"
    using GetBlock_SomeD [of pi i b] by (intro pd_inv_Rejected) (simp_all add: assembled_def)
  then show ?case using run_rejected by (intro assembled_same [of pi evs d]) (simp_all add: Rejected_def)
next
  case (run_choked evs d cs h)
  then show ?case using pd_inv_Choked [of pi d cs h]
    by (intro assembled_same [of pi evs d]) (simp_all add: pd_Choked_def split_beta assembled_def)
next
  case (run_request evs d q h d' h')
  then have "pd_inv pi d" by (simp add: assembled_def)
  from request_loop_spec [OF this refl, of q h] run_request show ?case
    by (intro assembled_same [of pi evs d]) (auto simp: RequestBlocks_def)
qed

section \<open>Properties\<close>

text \<open>
  C34: However blocks arrive, are rejected, requeued by a choke and requested again, no block of the
  piece is ever lost: each is remaining, pending or done.  The downloader is done exactly when
  every block has been received, and then the buffer is the blocks' data in order, the first
  received of each.
\<close>

theorem piece_is_assembled:
  assumes "pd_run pi (NewPD k pi pe af buf) evs d" and "length buf = unat (p_Length pi)"
  shows "set (remaining d) \<union> set (pending d) \<union> set (pd_done d) = {..<NumBlocks pi} \<and>
    (pd_Done pi d \<longleftrightarrow> (\<forall>i<NumBlocks pi. first_got i evs \<noteq> None)) \<and>
    (pd_Done pi d \<longrightarrow> Buffer d = concat (map (\<lambda>i. the (first_got i evs)) [0..<NumBlocks pi]))"
proof -
  have as: "assembled pi evs d" by (rule pd_run_assembled [OF assms])
  then have inv: "pd_inv pi d" and got: "\<And>i. i \<in> set (pd_done d) \<longleftrightarrow> first_got i evs \<noteq> None"
    and sl: "\<And>i data. first_got i evs = Some data \<Longrightarrow> block_slice pi i (Buffer d) = data"
    by (simp_all add: assembled_def)
  have sub: "set (pd_done d) \<subseteq> {..<NumBlocks pi}" and dist: "distinct (pd_done d)"
    using inv unfolding pd_inv_def by blast+
  have "pd_Done pi d \<longleftrightarrow> card (set (pd_done d)) = NumBlocks pi"
    using dist by (simp add: pd_Done_def distinct_card)
  also have "\<dots> \<longleftrightarrow> set (pd_done d) = {..<NumBlocks pi}"
    using card_subset_eq [OF finite_lessThan sub] by (metis card_lessThan)
  finally have dn: "pd_Done pi d \<longleftrightarrow> set (pd_done d) = {..<NumBlocks pi}" .
  have all: "(\<forall>i<NumBlocks pi. first_got i evs \<noteq> None) \<longleftrightarrow> set (pd_done d) = {..<NumBlocks pi}"
    using sub got by (metis lessThan_iff subsetD subsetI subset_antisym)
  have "Buffer d = concat (map (\<lambda>i. the (first_got i evs)) [0..<NumBlocks pi])" if "pd_Done pi d"
  proof -
    have L: "length (Buffer d) = unat (p_Length pi)" using inv by (simp add: pd_inv_def)
    have "map (\<lambda>i. the (first_got i evs)) [0..<NumBlocks pi] = map (\<lambda>i. block_slice pi i (Buffer d)) [0..<NumBlocks pi]"
    proof (rule map_cong [OF refl])
      fix i assume "i \<in> set [0..<NumBlocks pi]"
      then have "i \<in> set (pd_done d)" using dn that by simp
      then obtain data where "first_got i evs = Some data" using got by blast
      then show "the (first_got i evs) = block_slice pi i (Buffer d)" using sl by simp
    qed
    then have "concat (map (\<lambda>i. the (first_got i evs)) [0..<NumBlocks pi]) = take (16384 * NumBlocks pi) (Buffer d)"
      by (simp only: concat_blk [OF L])
    moreover have "unat (p_Length pi) \<le> 16384 * NumBlocks pi" unfolding NumBlocks_eq by simp
    ultimately show ?thesis using L by simp
  qed
  moreover have "set (remaining d) \<union> set (pending d) \<union> set (pd_done d) = {..<NumBlocks pi}"
    using inv unfolding pd_inv_def by blast
  ultimately show ?thesis using all dn by argo
qed

theorem piece_is_assembled_witness:
  "\<exists>d. pd_run (sample_pieces ! 0) (NewPD 0 (sample_pieces ! 0) 5 False [0, 0, 0, 0]) [EvGot 0 [1, 2, 3, 4]] d \<and>
     Buffer d = [1, 2, 3, 4]"
proof -
  let ?pi = "sample_pieces ! 0"
  let ?d = "NewPD 0 ?pi 5 False [0, 0, 0, 0]"
  have b: "GetBlock ?pi 0 = Some \<lparr>b_Index = 0, Begin = 0, b_Length = 4\<rparr>"
    by (simp add: GetBlock_def sample_pieces_def BlockSize_def Let_def)
  have N: "NumBlocks ?pi = 1" by (simp add: NumBlocks_def sample_pieces_def BlockSize_def Let_def)
  obtain d' err where g: "GotBlock \<lparr>b_Index = 0, Begin = 0, b_Length = 4\<rparr> [1, 2, 3, 4] ?d = Some (d', err)"
    by (simp add: GotBlock_def NewPD_def copy_at_def)
  have r: "pd_run ?pi ?d ([] @ [EvGot 0 [1, 2, 3, 4]]) d'"
    by (rule run_got [OF run_new b _ g]) simp
  have "length [0, 0, 0, 0 :: byte] = unat (p_Length ?pi)" by (simp add: sample_pieces_def)
  from piece_is_assembled [OF r this] have "Buffer d' = [1, 2, 3, 4]"
    by (simp add: N first_got_def List.map_filter_def)
  then show ?thesis using r by auto
qed

text \<open>
  Requesting keeps the queue bounded and makes progress: \<open>RequestBlocks\<close> returns, takes blocks from
  the front of \<open>remaining\<close> until nothing remains or \<open>q\<close> requests are in flight, and never raises the
  number in flight above \<open>q\<close>.
\<close>

lemma request_blocks_bounded:
  assumes "pd_inv pi d"
  shows "\<exists>d' h' taken. RequestBlocks q pi h d = Some (d', h') \<and> pd_inv pi d' \<and>
    remaining d = taken @ remaining d' \<and> set (pending d') = set (pending d) \<union> set taken \<and>
    int (length (pending d')) \<le> max q (int (length (pending d))) \<and>
    (remaining d' = [] \<or> q \<le> int (length (pending d')))"
  using request_loop_spec [OF assms refl, of q h] unfolding RequestBlocks_def by blast

theorem request_blocks_bounded_witness:
  "\<exists>d' h'. RequestBlocks 1 (sample_pieces ! 0) (\<lambda>_. newPeer Manual ''x'')
      (NewPD 0 (sample_pieces ! 0) 5 False [0, 0, 0, 0]) = Some (d', h') \<and> int (length (pending d')) \<le> 1"
proof -
  have "pd_inv (sample_pieces ! 0) (NewPD 0 (sample_pieces ! 0) 5 False [0, 0, 0, 0])"
    by (rule pd_inv_New) (simp add: sample_pieces_def)
  from request_blocks_bounded [OF this, of 1 "\<lambda>_. newPeer Manual ''x''"] show ?thesis
    by (auto simp: NewPD_def)
qed

end
