(* ===== verification/Unchoker.thy ===== *)
theory Unchoker
  imports PeerState
begin

text \<open>
  \<open>internal/unchoker/unchoker.go\<close>: which peers to upload to.  The state holds the two maps of unchoked
  peers as lists of their keys; the peers' flags are in the heap.  The speeds the meters report at
  a tick are parameters.
\<close>

record Unchoker =
  numUnchoked :: int
  numOptimisticUnchoked :: int
  round :: byte
  peersUnchoked :: "ptr list"
  peersUnchokedOptimistic :: "ptr list"

definition NewUnchoker :: "int \<Rightarrow> int \<Rightarrow> Unchoker" where
  "NewUnchoker n k = \<lparr>numUnchoked = n, numOptimisticUnchoked = k, round = 0, peersUnchoked = [],
     peersUnchokedOptimistic = []\<rparr>"

definition u_HandleDisconnect :: "ptr \<Rightarrow> Unchoker \<Rightarrow> Unchoker" where
  "u_HandleDisconnect pe u = u\<lparr>peersUnchoked := removeAll pe (peersUnchoked u),
     peersUnchokedOptimistic := removeAll pe (peersUnchokedOptimistic u)\<rparr>"

definition candidatesUnchoke :: "heap \<Rightarrow> ptr list \<Rightarrow> ptr list" where
  "candidatesUnchoke h allPeers = filter (\<lambda>pe. PeerInterested (h pe)) allPeers"

definition sortPeers :: "choices \<Rightarrow> (ptr \<Rightarrow> int) \<Rightarrow> (ptr \<Rightarrow> int) \<Rightarrow> bool \<Rightarrow> ptr list \<Rightarrow> ptr list \<times> choices" where
  "sortPeers cs up down completed peers =
     (if completed then sort_slice (\<lambda>pe. - up pe) cs peers else sort_slice (\<lambda>pe. - down pe) cs peers)"

definition chokePeer :: "ptr \<Rightarrow> heap \<times> Unchoker \<Rightarrow> heap \<times> Unchoker" where
  "chokePeer pe = (\<lambda>(h, u).
     if ClientChoking (h pe) then (h, u)
     else (h(pe := SetOptimistic False (ChokePeer (h pe))),
           u\<lparr>peersUnchoked := removeAll pe (peersUnchoked u),
             peersUnchokedOptimistic := removeAll pe (peersUnchokedOptimistic u)\<rparr>))"

definition unchokePeer :: "ptr \<Rightarrow> heap \<times> Unchoker \<Rightarrow> heap \<times> Unchoker" where
  "unchokePeer pe = (\<lambda>(h, u).
     if \<not> ClientChoking (h pe) then
       (if OptimisticUnchoked (h pe)
        then (h(pe := SetOptimistic False (h pe)),
              u\<lparr>peersUnchokedOptimistic := removeAll pe (peersUnchokedOptimistic u),
                peersUnchoked := List.insert pe (peersUnchoked u)\<rparr>)
        else (h, u))
     else (h(pe := SetOptimistic False (UnchokePeer (h pe))),
           u\<lparr>peersUnchoked := List.insert pe (peersUnchoked u)\<rparr>))"

definition optimisticUnchokePeer :: "ptr \<Rightarrow> heap \<times> Unchoker \<Rightarrow> heap \<times> Unchoker" where
  "optimisticUnchokePeer pe = (\<lambda>(h, u).
     if \<not> ClientChoking (h pe) then
       (if \<not> OptimisticUnchoked (h pe)
        then (h(pe := SetOptimistic True (h pe)),
              u\<lparr>peersUnchoked := removeAll pe (peersUnchoked u),
                peersUnchokedOptimistic := List.insert pe (peersUnchokedOptimistic u)\<rparr>)
        else (h, u))
     else (h(pe := SetOptimistic True (UnchokePeer (h pe))),
           u\<lparr>peersUnchokedOptimistic := List.insert pe (peersUnchokedOptimistic u)\<rparr>))"

text \<open>The first loop of \<open>TickUnchoke\<close>; the result has the peers it did not reach.\<close>

fun unchoke_loop :: "bool \<Rightarrow> int \<Rightarrow> ptr list \<Rightarrow> int \<Rightarrow> heap \<times> Unchoker \<Rightarrow> ptr list \<times> heap \<times> Unchoker" where
  "unchoke_loop optimistic num [] unchoked s = ([], s)"
| "unchoke_loop optimistic num (pe # peers) unchoked s =
     (if \<not> unchoked < num then (pe # peers, s)
      else if \<not> optimistic \<and> OptimisticUnchoked (fst s pe) then unchoke_loop optimistic num peers unchoked s
      else unchoke_loop optimistic num peers (unchoked + 1) (unchokePeer pe s))"

text \<open>The optimistic loop: \<open>k\<close> rounds at most, each with a random peer taken out of the slice.\<close>

fun optimistic_loop ::
  "nat \<Rightarrow> choices \<Rightarrow> ptr list \<Rightarrow> heap \<times> Unchoker \<Rightarrow> ptr list \<times> choices \<times> heap \<times> Unchoker" where
  "optimistic_loop 0 cs peers s = (peers, cs, s)"
| "optimistic_loop (Suc k) cs peers s =
     (if peers = [] then (peers, cs, s)
      else let (n, cs) = draw cs (length peers)
           in optimistic_loop k cs (swap_remove n peers) (optimisticUnchokePeer (peers ! n) s))"

definition TickUnchoke ::
  "choices \<Rightarrow> (ptr \<Rightarrow> int) \<Rightarrow> (ptr \<Rightarrow> int) \<Rightarrow> ptr list \<Rightarrow> bool \<Rightarrow> heap \<times> Unchoker \<Rightarrow>
    (heap \<times> Unchoker) \<times> choices" where
  "TickUnchoke cs up down allPeers torrentCompleted s =
     (let u = snd s;
          optimistic = (round u = 0);
          peers = candidatesUnchoke (fst s) allPeers;
          (peers, cs) = sortPeers cs up down torrentCompleted peers;
          (peers, s) = unchoke_loop optimistic (numUnchoked u) peers 0 s;
          (peers, cs, s) = (if optimistic then optimistic_loop (nat (numOptimisticUnchoked u)) cs peers s
                            else (peers, cs, s));
          (h, u) = foldl (\<lambda>s pe. chokePeer pe s) s peers
      in ((h, u\<lparr>round := (round u + 1) mod 3\<rparr>), cs))"

definition FastUnchoke :: "ptr \<Rightarrow> heap \<times> Unchoker \<Rightarrow> heap \<times> Unchoker" where
  "FastUnchoke pe s =
     (let s = (if ClientChoking (fst s pe) \<and> PeerInterested (fst s pe) \<and>
                  int (length (peersUnchoked (snd s))) < numUnchoked (snd s)
               then unchokePeer pe s else s)
      in if ClientChoking (fst s pe) \<and> PeerInterested (fst s pe) \<and>
            int (length (peersUnchokedOptimistic (snd s))) < numOptimisticUnchoked (snd s)
         then optimisticUnchokePeer pe s else s)"

section \<open>What one call does to the flags\<close>

text \<open>\<open>flags h pe\<close> is what the peer's two flags are: choked by us, optimistic.\<close>

definition flags :: "heap \<Rightarrow> ptr \<Rightarrow> bool \<times> bool" where
  "flags h pe = (ClientChoking (h pe), OptimisticUnchoked (h pe))"

definition flags_ok :: "heap \<Rightarrow> bool" where
  "flags_ok h \<longleftrightarrow> (\<forall>pe. ClientChoking (h pe) \<longrightarrow> \<not> OptimisticUnchoked (h pe))"

lemma flags_chokePeer:
  "flags_ok (fst s) \<Longrightarrow> flags (fst (chokePeer pe s)) = (flags (fst s))(pe := (True, False))"
  by (rule ext) (auto simp: chokePeer_def flags_def flags_ok_def SetOptimistic_def ChokePeer_def split: prod.splits)

lemma flags_unchokePeer:
  "flags (fst (unchokePeer pe s)) = (flags (fst s))(pe := (False, False))"
  by (rule ext) (auto simp: unchokePeer_def flags_def SetOptimistic_def UnchokePeer_def split: prod.splits)

lemma flags_optimisticUnchokePeer:
  "flags (fst (optimisticUnchokePeer pe s)) = (flags (fst s))(pe := (False, True))"
  by (rule ext) (auto simp: optimisticUnchokePeer_def flags_def SetOptimistic_def UnchokePeer_def split: prod.splits)

lemma flags_ok_iff: "flags_ok h \<longleftrightarrow> (\<forall>pe. flags h pe \<noteq> (True, True))"
  by (auto simp: flags_ok_def flags_def)

lemma flags_ok_step:
  "flags_ok (fst s) \<Longrightarrow> flags_ok (fst (chokePeer pe s))"
  "flags_ok (fst s) \<Longrightarrow> flags_ok (fst (unchokePeer pe s))"
  "flags_ok (fst s) \<Longrightarrow> flags_ok (fst (optimisticUnchokePeer pe s))"
  by (auto simp: flags_ok_iff flags_chokePeer flags_unchokePeer flags_optimisticUnchokePeer)

lemma flags_choke_all:
  "flags_ok (fst s) \<Longrightarrow> flags (fst (foldl (\<lambda>s pe. chokePeer pe s) s peers)) =
    (\<lambda>pe. if pe \<in> set peers then (True, False) else flags (fst s) pe)"
proof (induction peers arbitrary: s)
  case (Cons pe peers)
  from Cons.IH [OF flags_ok_step(1) [OF Cons.prems]] show ?case
    by (auto simp: flags_chokePeer [OF Cons.prems] fun_eq_iff)
qed simp

lemma unchoke_loop_optimistic_round:
  assumes "distinct peers"
  shows "unchoke_loop True num peers c s = (rest, s') \<Longrightarrow>
    rest = drop (nat (num - c)) peers \<and> (flags_ok (fst s) \<longrightarrow> flags_ok (fst s')) \<and>
    flags (fst s') = (\<lambda>pe. if pe \<in> set (take (nat (num - c)) peers) then (False, False) else flags (fst s) pe)"
  using assms
proof (induction peers arbitrary: c s)
  case (Cons pe peers)
  show ?case
  proof (cases "c < num")
    case True
    then have n: "nat (num - c) = Suc (nat (num - (c + 1)))" by simp
    from Cons.IH [of "c + 1" "unchokePeer pe s"] Cons.prems True show ?thesis
      by (auto simp: n flags_unchokePeer flags_ok_step fun_eq_iff)
  next
    case False
    then show ?thesis using Cons.prems by auto
  qed
qed auto

lemma optimistic_loop_spec:
  assumes "distinct peers"
  shows "optimistic_loop k cs peers s = (rest, cs', s') \<Longrightarrow>
    \<exists>opt. distinct opt \<and> set opt \<inter> set rest = {} \<and> set opt \<union> set rest = set peers \<and> distinct rest \<and>
      length opt = min k (length peers) \<and> (flags_ok (fst s) \<longrightarrow> flags_ok (fst s')) \<and>
      flags (fst s') = (\<lambda>pe. if pe \<in> set opt then (False, True) else flags (fst s) pe)"
  using assms
proof (induction k arbitrary: cs peers s)
  case (Suc k)
  show ?case
  proof (cases "peers = []")
    case True
    then show ?thesis using Suc.prems by (auto intro: exI [of _ "[]"])
  next
    case False
    obtain n cs1 where d: "draw cs (length peers) = (n, cs1)" by fastforce
    then have n: "n < length peers" using draw_less [of "length peers" cs] False by simp
    note sr = set_swap_remove [OF Suc.prems(2) n]
    obtain opt where opt: "distinct opt" "set opt \<inter> set rest = {}" "set opt \<union> set rest = set peers - {peers ! n}"
      "distinct rest" "length opt = min k (length peers - 1)"
      "flags_ok (fst (optimisticUnchokePeer (peers ! n) s)) \<longrightarrow> flags_ok (fst s')"
      "flags (fst s') = (\<lambda>pe. if pe \<in> set opt then (False, True) else flags (fst (optimisticUnchokePeer (peers ! n) s)) pe)"
      using Suc.IH [of cs1 "swap_remove n peers" "optimisticUnchokePeer (peers ! n) s"] Suc.prems d False sr by auto
    have "peers ! n \<in> set peers" using n by simp
    moreover have "length (peers ! n # opt) = min (Suc k) (length peers)"
      using opt(5) n by (cases "length peers") simp_all
    ultimately show ?thesis using opt(1-4,6,7) False
      by (intro exI [of _ "peers ! n # opt"]) (auto simp: flags_optimisticUnchokePeer flags_ok_step fun_eq_iff)
  qed
qed (auto intro: exI [of _ "[]"])

lemma flags_other_round:
  assumes "distinct peers"
  shows "unchoke_loop False num peers c s = (rest, s') \<Longrightarrow>
    \<exists>pre. peers = pre @ rest \<and> (flags_ok (fst s) \<longrightarrow> flags_ok (fst s')) \<and>
      (rest = [] \<or> num \<le> c + int (length (filter (\<lambda>pe. \<not> OptimisticUnchoked (fst s pe)) pre))) \<and>
      c + int (length (filter (\<lambda>pe. \<not> OptimisticUnchoked (fst s pe)) pre)) \<le> max c num \<and>
      flags (fst s') = (\<lambda>pe. if pe \<in> set pre \<and> \<not> OptimisticUnchoked (fst s pe) then (False, False) else flags (fst s) pe)"
  using assms
proof (induction peers arbitrary: c s)
  case (Cons pe peers)
  consider "\<not> c < num" | "c < num" "OptimisticUnchoked (fst s pe)" | "c < num" "\<not> OptimisticUnchoked (fst s pe)"
    by blast
  then show ?case
  proof cases
    case 1
    then show ?thesis using Cons.prems by (auto intro!: exI [of _ "[]"])
  next
    case 2
    then have "unchoke_loop False num peers c s = (rest, s')" using Cons.prems(1) by simp
    from Cons.IH [OF this] Cons.prems(2) obtain pre where "peers = pre @ rest" "flags_ok (fst s) \<longrightarrow> flags_ok (fst s')"
      "rest = [] \<or> num \<le> c + int (length (filter (\<lambda>pe. \<not> OptimisticUnchoked (fst s pe)) pre))"
      "c + int (length (filter (\<lambda>pe. \<not> OptimisticUnchoked (fst s pe)) pre)) \<le> max c num"
      "flags (fst s') = (\<lambda>pe. if pe \<in> set pre \<and> \<not> OptimisticUnchoked (fst s pe) then (False, False) else flags (fst s) pe)"
      by auto
    then show ?thesis using 2 by (intro exI [of _ "pe # pre"]) (auto simp: fun_eq_iff)
  next
    case 3
    let ?t = "unchokePeer pe s"
    have same: "OptimisticUnchoked (fst ?t q) = OptimisticUnchoked (fst s q)" if "q \<noteq> pe" for q
      using fun_cong [OF flags_unchokePeer [of pe s], of q] that by (simp add: flags_def)
    have "unchoke_loop False num peers (c + 1) ?t = (rest, s')" using Cons.prems(1) 3 by simp
    from Cons.IH [OF this] Cons.prems(2) obtain pre where pre: "peers = pre @ rest" "flags_ok (fst ?t) \<longrightarrow> flags_ok (fst s')"
      "rest = [] \<or> num \<le> c + 1 + int (length (filter (\<lambda>pe. \<not> OptimisticUnchoked (fst ?t pe)) pre))"
      "c + 1 + int (length (filter (\<lambda>pe. \<not> OptimisticUnchoked (fst ?t pe)) pre)) \<le> max (c + 1) num"
      "flags (fst s') = (\<lambda>pe. if pe \<in> set pre \<and> \<not> OptimisticUnchoked (fst ?t pe) then (False, False) else flags (fst ?t) pe)"
      by auto
    have "filter (\<lambda>pe. \<not> OptimisticUnchoked (fst ?t pe)) pre = filter (\<lambda>pe. \<not> OptimisticUnchoked (fst s pe)) pre"
    proof (rule filter_cong [OF refl])
      fix q assume "q \<in> set pre"
      then have "q \<noteq> pe" using Cons.prems(2) pre(1) by auto
      then show "(\<not> OptimisticUnchoked (fst ?t q)) = (\<not> OptimisticUnchoked (fst s q))" by (simp add: same)
    qed
    then show ?thesis using 3 pre Cons.prems(2) same flags_ok_step(2) [of s pe]
      by (intro exI [of _ "pe # pre"]) (auto simp: fun_eq_iff flags_unchokePeer)
  qed
qed auto

lemma round_steps [simp]:
  "round (snd (chokePeer pe s)) = round (snd s)" "round (snd (unchokePeer pe s)) = round (snd s)"
  "round (snd (optimisticUnchokePeer pe s)) = round (snd s)"
  by (simp_all add: chokePeer_def unchokePeer_def optimisticUnchokePeer_def split: prod.splits)

lemma round_choke_all: "round (snd (foldl (\<lambda>s pe. chokePeer pe s) s peers)) = round (snd s)"
  by (induction peers arbitrary: s) simp_all

lemma round_unchoke_loop: "unchoke_loop b num peers c s = (rest, s') \<Longrightarrow> round (snd s') = round (snd s)"
  by (induction b num peers c s rule: unchoke_loop.induct) (auto split: if_splits)

lemma round_optimistic_loop: "optimistic_loop k cs peers s = (rest, cs', s') \<Longrightarrow> round (snd s') = round (snd s)"
  by (induction k cs peers s rule: optimistic_loop.induct) (auto split: if_splits prod.splits)

lemma candidates: "set (candidatesUnchoke h ps) = {pe \<in> set ps. PeerInterested (h pe)}"
  "distinct ps \<Longrightarrow> distinct (candidatesUnchoke h ps)"
  by (auto simp: candidatesUnchoke_def)

definition speed :: "(ptr \<Rightarrow> int) \<Rightarrow> (ptr \<Rightarrow> int) \<Rightarrow> bool \<Rightarrow> ptr \<Rightarrow> int" where
  "speed up down completed pe = (if completed then up pe else down pe)"

lemma sortPeers_spec:
  assumes "sortPeers cs up down completed peers = (order, cs')"
  shows "set order = set peers" and "distinct order = distinct peers" and "length order = length peers"
    and "sorted (map (\<lambda>pe. - speed up down completed pe) order)"
proof -
  have s: "sortPeers cs up down completed peers = sort_slice (\<lambda>pe. - speed up down completed pe) cs peers"
    by (simp add: sortPeers_def speed_def)
  show "set order = set peers" "distinct order = distinct peers" "length order = length peers"
    "sorted (map (\<lambda>pe. - speed up down completed pe) order)"
    using assms set_sort_slice distinct_sort_slice length_sort_slice sorted_sort_slice unfolding s
    by (metis fst_conv)+
qed

section \<open>Properties\<close>

text \<open>
  An optimistic round.  After \<open>TickUnchoke\<close> in round 0, of the interested peers exactly the
  \<open>numUnchoked\<close> fastest (upload speed once the torrent is complete, download speed before) are
  unchoked, then \<open>numOptimisticUnchoked\<close> random others optimistically, or all others when there are
  fewer, and every other interested peer is choked; the flags of all other peers are unchanged.
\<close>

lemma optimistic_round:
  assumes "distinct allPeers" and "flags_ok h" and "round u = 0"
    and "TickUnchoke cs up down allPeers completed (h, u) = ((h', u'), cs')"
  shows "\<exists>top opt. let I = {pe \<in> set allPeers. PeerInterested (h pe)} in
    top \<subseteq> I \<and> card top = min (nat (numUnchoked u)) (card I) \<and>
    (\<forall>a\<in>top. \<forall>b\<in>I - top. speed up down completed b \<le> speed up down completed a) \<and>
    opt \<subseteq> I - top \<and> card opt = min (nat (numOptimisticUnchoked u)) (card (I - top)) \<and>
    (\<forall>pe. flags h' pe = (if pe \<in> top then (False, False) else if pe \<in> opt then (False, True)
       else if pe \<in> I then (True, False) else flags h pe)) \<and> round u' = 1"
proof -
  let ?I = "{pe \<in> set allPeers. PeerInterested (h pe)}"
  let ?n = "nat (numUnchoked u)"
  obtain order cs1 where o: "sortPeers cs up down completed (candidatesUnchoke h allPeers) = (order, cs1)" by fastforce
  have so: "set order = ?I" "distinct order" "sorted (map (\<lambda>pe. - speed up down completed pe) order)"
    using sortPeers_spec [OF o] candidates(1) [of h allPeers] candidates(2) [of allPeers h] assms(1) by simp_all
  obtain rest s1 where l: "unchoke_loop True (numUnchoked u) order 0 (h, u) = (rest, s1)" by (metis surj_pair)
  note l1 = unchoke_loop_optimistic_round [OF so(2) l]
  obtain rest2 cs2 s2 where o2: "optimistic_loop (nat (numOptimisticUnchoked u)) cs1 rest s1 = (rest2, cs2, s2)"
    by (metis prod_cases3)
  have rest: "rest = drop ?n order" "distinct rest" using l1 so(2) by auto
  obtain opt where opt: "distinct opt" "set opt \<inter> set rest2 = {}" "set opt \<union> set rest2 = set rest"
    "length opt = min (nat (numOptimisticUnchoked u)) (length rest)" "flags_ok (fst s1) \<longrightarrow> flags_ok (fst s2)"
    "flags (fst s2) = (\<lambda>pe. if pe \<in> set opt then (False, True) else flags (fst s1) pe)"
    using optimistic_loop_spec [OF rest(2) o2] by blast
  have h': "h' = fst (foldl (\<lambda>s pe. chokePeer pe s) s2 rest2)"
    and u': "u' = (snd (foldl (\<lambda>s pe. chokePeer pe s) s2 rest2))\<lparr>round := (round (snd (foldl (\<lambda>s pe. chokePeer pe s) s2 rest2)) + 1) mod 3\<rparr>"
    using assms(3,4) o l o2 by (auto simp: TickUnchoke_def Let_def split: prod.splits)
  have "flags_ok (fst s2)" using opt(5) l1 assms(2) by simp
  from flags_choke_all [OF this, of rest2]
  have fl: "flags h' = (\<lambda>pe. if pe \<in> set rest2 then (True, False) else flags (fst s2) pe)" by (simp add: h')
  let ?top = "set (take ?n order)"
  have part: "?top \<union> set rest = ?I" "?top \<inter> set rest = {}"
    using so(1,2) rest(1) by (metis append_take_drop_id set_append, metis append_take_drop_id distinct_append)
  have cI: "card ?I = length order" using so(1,2) distinct_card by fastforce
  have ct: "card ?top = min ?n (card ?I)" using so(2) cI by (simp add: distinct_card)
  have "?I - ?top = set rest" using part by blast
  moreover have "card (set rest) = length rest" using rest(2) by (rule distinct_card)
  moreover have "card (set opt) = length opt" using opt(1) by (rule distinct_card)
  moreover have "\<forall>a\<in>?top. \<forall>b\<in>set rest. speed up down completed b \<le> speed up down completed a"
    using so(3) append_take_drop_id [of ?n order] unfolding rest(1)
    by (metis (mono_tags, lifting) map_append sorted_append image_eqI list.set_map neg_le_iff_le)
  ultimately have main: "?top \<subseteq> ?I \<and> card ?top = min ?n (card ?I) \<and>
    (\<forall>a\<in>?top. \<forall>b\<in>?I - ?top. speed up down completed b \<le> speed up down completed a) \<and>
    set opt \<subseteq> ?I - ?top \<and> card (set opt) = min (nat (numOptimisticUnchoked u)) (card (?I - ?top))"
    using part(1) ct opt(3,4) by auto
  have "flags h' pe = (if pe \<in> ?top then (False, False) else if pe \<in> set opt then (False, True)
       else if pe \<in> ?I then (True, False) else flags h pe)" for pe
    using part opt(2,3) l1 so(1) by (auto simp: fl opt(6) rest(1))
  moreover have "round (snd s2) = 0"
    using round_unchoke_loop [OF l] round_optimistic_loop [OF o2] assms(3) by simp
  then have "round u' = 1" unfolding u' by (simp add: round_choke_all)
  ultimately show ?thesis using main by (intro exI [of _ ?top] exI [of _ "set opt"]) (simp add: Let_def)
qed

definition sample_peers :: heap where
  "sample_peers = (\<lambda>_. (newPeer Manual ''x'')\<lparr>PeerInterested := True\<rparr>)"

theorem optimistic_round_witness:
  "\<exists>top. top \<subseteq> {1, 2, 3 :: ptr} \<and> card top = 2 \<and> (\<forall>a\<in>top. \<forall>b\<in>{1, 2, 3} - top. int b \<le> int a) \<and>
     (\<exists>h' u' cs'. TickUnchoke [] int int [1, 2, 3] False (sample_peers, NewUnchoker 2 0) = ((h', u'), cs') \<and>
        (\<forall>pe\<in>{1, 2, 3} - top. ClientChoking (h' pe)))"
proof -
  obtain h' u' cs' where t: "TickUnchoke [] int int [1, 2, 3] False (sample_peers, NewUnchoker 2 0) = ((h', u'), cs')"
    by (metis surj_pair)
  have I: "{pe \<in> set [1, 2, 3]. PeerInterested (sample_peers pe)} = {1, 2, 3}"
    by (auto simp: sample_peers_def)
  have "distinct [1, 2, 3 :: ptr]" "flags_ok sample_peers" "round (NewUnchoker 2 0) = 0"
    by (simp_all add: flags_ok_def sample_peers_def newPeer_def NewUnchoker_def)
  from optimistic_round [OF this t] obtain top opt where
    "top \<subseteq> {1, 2, 3}" "card top = 2" "\<forall>a\<in>top. \<forall>b\<in>{1, 2, 3} - top. int b \<le> int a" "card opt = 0" "opt \<subseteq> {1, 2, 3} - top"
    "\<forall>pe. flags h' pe = (if pe \<in> top then (False, False) else if pe \<in> opt then (False, True)
       else if pe \<in> {1, 2, 3} then (True, False) else flags sample_peers pe)"
    unfolding I Let_def by (auto simp: NewUnchoker_def speed_def)
  moreover from this(4,5) have "opt = {}" by (metis card_0_eq finite.emptyI finite_Diff finite_insert finite_subset)
  ultimately have "\<forall>pe\<in>{1, 2, 3} - top. flags h' pe = (True, False)" by simp
  then have "\<forall>pe\<in>{1, 2, 3} - top. ClientChoking (h' pe)" by (simp add: flags_def)
  then show ?thesis using t \<open>top \<subseteq> _\<close> \<open>card top = 2\<close> \<open>\<forall>a\<in>top. _\<close> by blast
qed

text \<open>
  The rounds in between.  In round 1 or 2 a tick goes through the interested peers from the fastest,
  passing over the optimistically unchoked ones, until \<open>numUnchoked\<close> others are unchoked; it leaves
  every peer it went through unchoked and chokes all the rest.  So an optimistic unchoke does not
  last until the next optimistic round: a slow peer loses it at the next tick.
\<close>

lemma other_round:
  assumes "distinct allPeers" and "flags_ok h" and "round u \<noteq> 0"
    and "TickUnchoke cs up down allPeers completed (h, u) = ((h', u'), cs')"
  shows "\<exists>P. let I = {pe \<in> set allPeers. PeerInterested (h pe)}; R = {pe \<in> P. \<not> OptimisticUnchoked (h pe)} in
    P \<subseteq> I \<and> (\<forall>a\<in>P. \<forall>b\<in>I - P. speed up down completed b \<le> speed up down completed a) \<and>
    int (card R) \<le> max 0 (numUnchoked u) \<and> (P = I \<or> numUnchoked u \<le> int (card R)) \<and>
    (\<forall>pe. flags h' pe = (if pe \<in> P then (False, OptimisticUnchoked (h pe))
       else if pe \<in> I then (True, False) else flags h pe)) \<and> round u' = (round u + 1) mod 3"
proof -
  let ?I = "{pe \<in> set allPeers. PeerInterested (h pe)}"
  let ?reg = "\<lambda>pe. \<not> OptimisticUnchoked (h pe)"
  obtain order cs1 where o: "sortPeers cs up down completed (candidatesUnchoke h allPeers) = (order, cs1)" by fastforce
  have so: "set order = ?I" "distinct order" "sorted (map (\<lambda>pe. - speed up down completed pe) order)"
    using sortPeers_spec [OF o] candidates(1) [of h allPeers] candidates(2) [of allPeers h] assms(1) by simp_all
  obtain rest s1 where l: "unchoke_loop False (numUnchoked u) order 0 (h, u) = (rest, s1)" by (metis surj_pair)
  obtain pre where pre: "order = pre @ rest" "flags_ok h \<longrightarrow> flags_ok (fst s1)"
    "rest = [] \<or> numUnchoked u \<le> 0 + int (length (filter ?reg pre))"
    "0 + int (length (filter ?reg pre)) \<le> max 0 (numUnchoked u)"
    "flags (fst s1) = (\<lambda>pe. if pe \<in> set pre \<and> ?reg pe then (False, False) else flags h pe)"
    using flags_other_round [OF so(2) l] unfolding fst_conv by blast
  have h': "h' = fst (foldl (\<lambda>s pe. chokePeer pe s) s1 rest)"
    and u': "u' = (snd (foldl (\<lambda>s pe. chokePeer pe s) s1 rest))\<lparr>round := (round (snd (foldl (\<lambda>s pe. chokePeer pe s) s1 rest)) + 1) mod 3\<rparr>"
    using assms(3,4) o l by (auto simp: TickUnchoke_def Let_def split: prod.splits)
  have "flags_ok (fst s1)" using pre(2) assms(2) by simp
  from flags_choke_all [OF this, of rest]
  have fl: "flags h' = (\<lambda>pe. if pe \<in> set rest then (True, False) else flags (fst s1) pe)" by (simp add: h')
  have dp: "distinct pre" "set pre \<inter> set rest = {}" "set pre \<union> set rest = ?I" using so(1,2) pre(1) by auto
  have "card {pe \<in> set pre. ?reg pe} = length (filter ?reg pre)"
    using dp(1) by (simp flip: set_filter add: distinct_card)
  then have R: "int (card {pe \<in> set pre. ?reg pe}) \<le> max 0 (numUnchoked u)"
    "set pre = ?I \<or> numUnchoked u \<le> int (card {pe \<in> set pre. ?reg pe})"
    using pre(3,4) dp(3) by auto
  have rest: "?I - set pre = set rest" using dp by blast
  have top: "\<forall>a\<in>set pre. \<forall>b\<in>?I - set pre. speed up down completed b \<le> speed up down completed a"
    using so(3) unfolding rest pre(1) by (auto simp: sorted_append)
  have opt: "flags h pe = (False, True)" if "\<not> ?reg pe" for pe
    using assms(2) that by (auto simp: flags_def flags_ok_def)
  have flags: "flags h' pe = (if pe \<in> set pre then (False, OptimisticUnchoked (h pe))
       else if pe \<in> ?I then (True, False) else flags h pe)" for pe
    using dp rest opt [of pe] by (auto simp: fl pre(5))
  have "round u' = (round u + 1) mod 3" unfolding u' using round_unchoke_loop [OF l] by (simp add: round_choke_all)
  then show ?thesis using dp(3) R top flags by (intro exI [of _ "set pre"]) (auto simp: Let_def)
qed

theorem other_round_witness:
  "\<exists>h' u' cs'. TickUnchoke [] int int [1, 2] False
      (sample_peers(1 := (sample_peers 1)\<lparr>OptimisticUnchoked := True\<rparr>), (NewUnchoker 1 1)\<lparr>round := 1\<rparr>) = ((h', u'), cs') \<and>
    round u' = 2"
proof -
  let ?h = "sample_peers(1 := (sample_peers 1)\<lparr>OptimisticUnchoked := True\<rparr>)"
  obtain h' u' cs' where t: "TickUnchoke [] int int [1, 2] False (?h, (NewUnchoker 1 1)\<lparr>round := 1\<rparr>) = ((h', u'), cs')"
    by (metis surj_pair)
  have "distinct [1, 2 :: ptr]" "flags_ok ?h" "round ((NewUnchoker 1 1)\<lparr>round := 1\<rparr>) \<noteq> 0"
    by (auto simp: flags_ok_def sample_peers_def newPeer_def)
  from other_round [OF this t] have "round u' = (1 + 1) mod 3" by (auto simp: Let_def)
  then show ?thesis using t by simp
qed

end
