(* ===== verification/InfoDownloader.thy ===== *)
theory InfoDownloader
  imports PeerState
begin

text \<open>
  \<open>internal/infodownloader\<close>: downloads the info dictionary in blocks of 16 KiB from one peer.
\<close>

definition blockSize :: u32 where
  "blockSize = 16 * 1024"

record info_block =
  ib_size :: u32
  requested :: bool

record InfoDownloader =
  id_Peer :: ptr
  id_Bytes :: "byte list"
  blocks :: "info_block list"
  id_pending :: int
  nextBlockIndex :: u32

datatype info_got_error = InvalidIndex | Unrequested | InvalidSize

definition createBlocks :: "u32 \<Rightarrow> info_block list" where
  "createBlocks sz =
     (let numBlocks = sz div blockSize;
          md = sz mod blockSize;
          numBlocks = (if md \<noteq> 0 then numBlocks + 1 else numBlocks);
          bs = replicate (unat numBlocks) \<lparr>ib_size = blockSize, requested = False\<rparr>
      in if md \<noteq> 0 \<and> length bs > 0 then bs[length bs - 1 := (bs ! (length bs - 1))\<lparr>ib_size := md\<rparr>] else bs)"

definition NewID :: "heap \<Rightarrow> ptr \<Rightarrow> InfoDownloader option" where
  "NewID h pe = do {
     sz \<leftarrow> pe_MetadataSize (h pe);
     Some \<lparr>id_Peer = pe, id_Bytes = replicate (unat sz) 0, blocks = createBlocks sz,
       id_pending = 0, nextBlockIndex = 0\<rparr>
   }"

definition id_GotBlock ::
  "u32 \<Rightarrow> byte list \<Rightarrow> InfoDownloader \<Rightarrow> (info_got_error + InfoDownloader) option" where
  "id_GotBlock index data d =
     (if index \<ge> of_nat (length (blocks d)) then Some (Inl InvalidIndex)
      else do {
        b \<leftarrow> slice_get (blocks d) (unat index);
        if \<not> requested b then Some (Inl Unrequested)
        else if of_nat (length data) \<noteq> ib_size b then Some (Inl InvalidSize)
        else let bgn = unat (index * blockSize); fin = unat (index * blockSize + ib_size b) in
          if bgn \<le> fin \<and> fin \<le> length (id_Bytes d)
          then Some (Inr (d\<lparr>id_pending := id_pending d - 1,
                 id_Bytes := take bgn (id_Bytes d) @ take (fin - bgn) data @
                   drop (bgn + min (fin - bgn) (length data)) (id_Bytes d)\<rparr>))
          else None
      })"

partial_function (option) id_request_loop ::
  "int \<Rightarrow> heap \<Rightarrow> InfoDownloader \<Rightarrow> (InfoDownloader \<times> heap) option" where
  "id_request_loop queueLength h d =
     (if nextBlockIndex d < of_nat (length (blocks d)) \<and> id_pending d < queueLength
      then Option.bind (RequestMetadataPiece (nextBlockIndex d) (h (id_Peer d))) (\<lambda>p.
           Option.bind (slice_get (blocks d) (unat (nextBlockIndex d))) (\<lambda>b.
             id_request_loop queueLength (h(id_Peer d := p))
               (d\<lparr>blocks := (blocks d)[unat (nextBlockIndex d) := b\<lparr>requested := True\<rparr>],
                  id_pending := id_pending d + 1, nextBlockIndex := nextBlockIndex d + 1\<rparr>)))
      else Some (d, h))"

definition id_RequestBlocks :: "int \<Rightarrow> heap \<Rightarrow> InfoDownloader \<Rightarrow> (InfoDownloader \<times> heap) option" where
  "id_RequestBlocks queueLength h d = id_request_loop queueLength h d"

definition id_Done :: "InfoDownloader \<Rightarrow> bool" where
  "id_Done d \<longleftrightarrow> nextBlockIndex d = of_nat (length (blocks d)) \<and> id_pending d = 0"

section \<open>The blocks tile the dictionary\<close>

lemma unat_blockSize [simp]: "unat blockSize = 16384"
  by (simp add: blockSize_def)

definition num_info_blocks :: "u32 \<Rightarrow> nat" where
  "num_info_blocks sz = (unat sz + 16383) div 16384"

lemma createBlocks_spec:
  "length (createBlocks sz) = num_info_blocks sz"
  "i < num_info_blocks sz \<Longrightarrow> unat (ib_size (createBlocks sz ! i)) = min 16384 (unat sz - 16384 * i) \<and>
     \<not> requested (createBlocks sz ! i)"
proof -
  let ?md = "sz mod blockSize" and ?dv = "sz div blockSize"
  have un: "unat ?dv = unat sz div 16384" "unat ?md = unat sz mod 16384"
    by (simp_all add: unat_div unat_mod)
  have md0: "?md \<noteq> 0 \<longleftrightarrow> unat sz mod 16384 \<noteq> 0" using un(2) by (metis unat_0 unat_eq_0)
  have "unat ?dv + 1 < 4294967296" using un(1) unat_u32_less [of sz] by linarith
  then have "unat (?dv + 1) = unat ?dv + 1" by (simp add: unat_plus_u32)
  then have N: "unat (if ?md \<noteq> 0 then ?dv + 1 else ?dv) = num_info_blocks sz"
    using ceil_div [of 16384 "unat sz"] un(1) md0 by (auto simp: num_info_blocks_def split: if_splits)
  show len: "length (createBlocks sz) = num_info_blocks sz"
    using N by (auto simp: createBlocks_def Let_def split: if_splits)
  assume i: "i < num_info_blocks sz"
  define q m where "q = unat sz div 16384" and "m = unat sz mod 16384"
  have s: "unat sz = 16384 * q + m" "m < 16384" by (simp_all add: q_def m_def)
  have n: "num_info_blocks sz = (if m = 0 then q else Suc q)"
  proof (cases "m = 0")
    case True
    then show ?thesis using s by (simp add: num_info_blocks_def)
  next
    case False
    then have "unat sz + 16383 = 16384 * Suc q + (m - 1)" using s by simp
    moreover have "m - 1 < 16384" using s by simp
    ultimately show ?thesis using False by (simp add: num_info_blocks_def div_mult_self4)
  qed
  have mm: "unat ?md = m" using un(2) by (simp add: m_def)
  have bs: "createBlocks sz = (if m \<noteq> 0
      then (replicate (Suc q) \<lparr>ib_size = blockSize, requested = False\<rparr>)[q := \<lparr>ib_size = ?md, requested = False\<rparr>]
      else replicate q \<lparr>ib_size = blockSize, requested = False\<rparr>)"
    using N n md0 by (cases "m = 0") (simp_all add: createBlocks_def Let_def m_def del: replicate_Suc)
  show "unat (ib_size (createBlocks sz ! i)) = min 16384 (unat sz - 16384 * i) \<and> \<not> requested (createBlocks sz ! i)"
    using i s mm unfolding bs n by (auto simp: nth_list_update less_Suc_eq simp del: replicate_Suc)
qed

section \<open>What a downloader goes through\<close>

datatype id_event = IdGot u32 "byte list" | IdRequest int

inductive id_run :: "InfoDownloader \<Rightarrow> id_event list \<Rightarrow> InfoDownloader \<Rightarrow> bool" for d0 where
  idr_new: "id_run d0 [] d0"
| idr_got: "id_run d0 evs d \<Longrightarrow> id_GotBlock i data d = Some (Inr d') \<Longrightarrow> id_run d0 (evs @ [IdGot i data]) d'"
| idr_request: "id_run d0 evs d \<Longrightarrow> id_RequestBlocks q h d = Some (d', h') \<Longrightarrow> id_run d0 (evs @ [IdRequest q]) d'"

fun got_pair :: "id_event \<Rightarrow> (nat \<times> byte list) option" where
  "got_pair (IdGot i data) = Some (unat i, data)"
| "got_pair (IdRequest q) = None"

definition gots :: "id_event list \<Rightarrow> (nat \<times> byte list) list" where
  "gots evs = List.map_filter got_pair evs"

lemma gots_simps [simp]:
  "gots [] = []" "gots (evs @ [IdGot i data]) = gots evs @ [(unat i, data)]"
  "gots (evs @ [IdRequest q]) = gots evs"
  by (simp_all add: gots_def List.map_filter_def)

definition id_shape :: "u32 \<Rightarrow> InfoDownloader \<Rightarrow> bool" where
  "id_shape sz d \<longleftrightarrow> length (blocks d) = num_info_blocks sz \<and> length (id_Bytes d) = unat sz \<and>
     unat (nextBlockIndex d) \<le> num_info_blocks sz \<and>
     (\<forall>i<num_info_blocks sz. unat (ib_size (blocks d ! i)) = min 16384 (unat sz - 16384 * i) \<and>
        (requested (blocks d ! i) \<longleftrightarrow> i < unat (nextBlockIndex d)))"

lemma num_info_blocks_less: "num_info_blocks sz < 4294967296"
  using unat_u32_less [of sz] by (simp add: num_info_blocks_def)

lemma id_shape_New: "NewID h pe = Some d \<Longrightarrow> \<exists>sz. pe_MetadataSize (h pe) = Some sz \<and> id_shape sz d \<and> id_pending d = 0"
  by (auto simp: NewID_def id_shape_def createBlocks_spec split: Option.bind_splits)

lemma info_slice: "i < num_info_blocks sz \<Longrightarrow> 16384 * i + min 16384 (unat sz - 16384 * i) \<le> unat sz"
  by (auto simp: num_info_blocks_def min_def)

lemma id_GotBlock_spec:
  assumes sh: "id_shape sz d" and g: "id_GotBlock i data d = Some (Inr d')" and len: "length data < 2 ^ 32"
  shows "unat i < unat (nextBlockIndex d) \<and> unat i < num_info_blocks sz \<and>
    length data = min 16384 (unat sz - 16384 * unat i) \<and> id_shape sz d' \<and> id_pending d' = id_pending d - 1 \<and>
    nextBlockIndex d' = nextBlockIndex d \<and>
    id_Bytes d' = take (16384 * unat i) (id_Bytes d) @ data @ drop (16384 * unat i + length data) (id_Bytes d)"
proof -
  define b where "b = blocks d ! unat i"
  define lo hi where "lo = unat (i * blockSize)" and "hi = unat (i * blockSize + ib_size b)"
  have N: "length (blocks d) = num_info_blocks sz" using sh by (simp add: id_shape_def)
  have ge: "\<not> of_nat (length (blocks d)) \<le> i"
    using g by (auto simp: id_GotBlock_def)
  then have i: "unat i < num_info_blocks sz"
    using N num_info_blocks_less [of sz] by (simp add: word_le_nat_alt unat_of_nat_u32)
  then have "slice_get (blocks d) (unat i) = Some b" using N by (simp add: b_def)
  then have g2: "requested b" "of_nat (length data) = ib_size b" "lo \<le> hi \<and> hi \<le> length (id_Bytes d)"
    and d': "d' = d\<lparr>id_pending := id_pending d - 1,
      id_Bytes := take lo (id_Bytes d) @ take (hi - lo) data @ drop (lo + min (hi - lo) (length data)) (id_Bytes d)\<rparr>"
    using g ge unfolding id_GotBlock_def Let_def lo_def hi_def by (simp_all split: if_splits)
  have bs: "unat (ib_size b) = min 16384 (unat sz - 16384 * unat i)"
    "requested b \<longleftrightarrow> unat i < unat (nextBlockIndex d)" using sh i by (simp_all add: id_shape_def b_def)
  have "unat (of_nat (length data) :: u32) = length data" using len by (subst unat_of_nat_u32) simp_all
  then have l: "length data = unat (ib_size b)" using g2(2) by simp
  have sl: "16384 * unat i + length data \<le> unat sz" using info_slice [OF i] l bs(1) by simp
  then have lt: "16384 * unat i + length data < 4294967296" using unat_u32_less [of sz] by linarith
  then have u: "unat (i * blockSize) = 16384 * unat i" by (simp add: unat_word_ariths mult.commute)
  have lohi: "lo = 16384 * unat i" "hi = 16384 * unat i + length data"
    using lt by (simp_all add: lo_def hi_def unat_plus_u32 u l)
  have B: "id_Bytes d' = take (16384 * unat i) (id_Bytes d) @ data @ drop (16384 * unat i + length data) (id_Bytes d)"
    by (simp add: d' lohi)
  have "length (id_Bytes d') = unat sz" using B sh sl by (simp add: id_shape_def)
  then have "id_shape sz d'" using sh unfolding id_shape_def by (simp add: d')
  then show ?thesis using B g2(1) bs l i by (simp add: d')
qed

lemma id_request_shape:
  assumes "id_request_loop q h d = Some y"
  shows "id_shape sz d \<longrightarrow> id_shape sz (fst y) \<and> id_Bytes (fst y) = id_Bytes d \<and>
    id_pending (fst y) - int (unat (nextBlockIndex (fst y))) = id_pending d - int (unat (nextBlockIndex d))"
proof (rule id_request_loop.raw_induct [where P = "\<lambda>q h d y. id_shape sz d \<longrightarrow> id_shape sz (fst y) \<and>
    id_Bytes (fst y) = id_Bytes d \<and>
    id_pending (fst y) - int (unat (nextBlockIndex (fst y))) = id_pending d - int (unat (nextBlockIndex d))", OF _ assms],
    goal_cases)
  case (1 f q h d y)
  show ?case
  proof (cases "nextBlockIndex d < of_nat (length (blocks d)) \<and> id_pending d < q")
    case False
    then show ?thesis using 1(2) by auto
  next
    case True
    then obtain p b where pb: "b = blocks d ! unat (nextBlockIndex d)"
      "f q (h(id_Peer d := p)) (d\<lparr>blocks := (blocks d)[unat (nextBlockIndex d) := b\<lparr>requested := True\<rparr>],
         id_pending := id_pending d + 1, nextBlockIndex := nextBlockIndex d + 1\<rparr>) = Some y"
      using 1(2) by (auto split: Option.bind_splits)
    show ?thesis
    proof
      assume sh: "id_shape sz d"
      have n: "unat (nextBlockIndex d) < num_info_blocks sz"
        using True sh num_info_blocks_less [of sz] by (simp add: id_shape_def word_less_nat_alt unat_of_nat_u32)
      then have n1: "unat (nextBlockIndex d + 1) = Suc (unat (nextBlockIndex d))"
        using num_info_blocks_less [of sz] by (simp add: unat_plus_u32)
      have "id_shape sz (d\<lparr>blocks := (blocks d)[unat (nextBlockIndex d) := b\<lparr>requested := True\<rparr>],
         id_pending := id_pending d + 1, nextBlockIndex := nextBlockIndex d + 1\<rparr>)"
        using sh n n1 by (auto simp: id_shape_def nth_list_update pb(1) less_Suc_eq)
      then show "id_shape sz (fst y) \<and> id_Bytes (fst y) = id_Bytes d \<and>
        id_pending (fst y) - int (unat (nextBlockIndex (fst y))) = id_pending d - int (unat (nextBlockIndex d))"
        using 1(1) [OF pb(2)] n1 by simp
    qed
  qed
qed

definition id_assembled :: "u32 \<Rightarrow> id_event list \<Rightarrow> InfoDownloader \<Rightarrow> bool" where
  "id_assembled sz evs d \<longleftrightarrow> id_shape sz d \<and>
     id_pending d = int (unat (nextBlockIndex d)) - int (length (gots evs)) \<and>
     (\<forall>(i, data)\<in>set (gots evs). i < unat (nextBlockIndex d)) \<and>
     (distinct (map fst (gots evs)) \<longrightarrow> (\<forall>(i, data)\<in>set (gots evs). blk (unat sz) i (id_Bytes d) = data))"

lemma id_request_next:
  assumes "id_request_loop q h d = Some y"
  shows "id_shape sz d \<longrightarrow> unat (nextBlockIndex d) \<le> unat (nextBlockIndex (fst y))"
proof (rule id_request_loop.raw_induct [where P = "\<lambda>q h d y. id_shape sz d \<longrightarrow>
    unat (nextBlockIndex d) \<le> unat (nextBlockIndex (fst y))", OF _ assms], goal_cases)
  case (1 f q h d y)
  show ?case
  proof (cases "nextBlockIndex d < of_nat (length (blocks d)) \<and> id_pending d < q")
    case False
    then show ?thesis using 1(2) by auto
  next
    case True
    then obtain p b where b: "b = blocks d ! unat (nextBlockIndex d)" and
      f: "f q (h(id_Peer d := p)) (d\<lparr>blocks := (blocks d)[unat (nextBlockIndex d) := b\<lparr>requested := True\<rparr>],
         id_pending := id_pending d + 1, nextBlockIndex := nextBlockIndex d + 1\<rparr>) = Some y"
      using 1(2) by (auto split: Option.bind_splits)
    show ?thesis
    proof
      assume sh: "id_shape sz d"
      have n: "unat (nextBlockIndex d) < num_info_blocks sz"
        using True sh num_info_blocks_less [of sz] by (simp add: id_shape_def word_less_nat_alt unat_of_nat_u32)
      then have n1: "unat (nextBlockIndex d + 1) = Suc (unat (nextBlockIndex d))"
        using num_info_blocks_less [of sz] by (simp add: unat_plus_u32)
      have "id_shape sz (d\<lparr>blocks := (blocks d)[unat (nextBlockIndex d) := b\<lparr>requested := True\<rparr>],
         id_pending := id_pending d + 1, nextBlockIndex := nextBlockIndex d + 1\<rparr>)"
        using sh n n1 by (auto simp: id_shape_def nth_list_update b less_Suc_eq)
      then show "unat (nextBlockIndex d) \<le> unat (nextBlockIndex (fst y))" using 1(1) [OF f] n1 by simp
    qed
  qed
qed

lemma id_run_assembled:
  assumes "NewID h pe = Some d0" and "pe_MetadataSize (h pe) = Some sz" and "id_run d0 evs d"
    and "\<forall>(i, data)\<in>set (gots evs). length data < 2 ^ 32"
  shows "id_assembled sz evs d"
  using assms(3,4)
proof induction
  case idr_new
  then show ?case using id_shape_New [OF assms(1)] assms(1,2)
    by (auto simp: id_assembled_def NewID_def split: Option.bind_splits)
next
  case (idr_got evs d i data d')
  then have as: "id_assembled sz evs d" by auto
  then have sh: "id_shape sz d" by (simp add: id_assembled_def)
  have "length data < 2 ^ 32" using idr_got.prems by auto
  note spec = id_GotBlock_spec [OF sh idr_got.hyps(2) this]
  have "16384 * unat i + length data \<le> length (id_Bytes d)"
    using spec info_slice [of "unat i" sz] sh by (simp add: id_shape_def)
  note bo = blk_overwrite [OF _ this, of "unat sz"]
  have "blk (unat sz) j (id_Bytes d') = (if j = unat i then data else blk (unat sz) j (id_Bytes d))" for j
    using bo [of j] spec by simp
  note bj = this
  have "blk (unat sz) j (id_Bytes d') = x"
    if "distinct (map fst (gots evs @ [(unat i, data)]))" "(j, x) \<in> set (gots evs @ [(unat i, data)])" for j x
  proof (cases "j = unat i \<and> x = data")
    case False
    then have jx: "(j, x) \<in> set (gots evs)" using that(2) by auto
    then have "j \<noteq> unat i" using that(1) by force
    then show ?thesis using as that(1) bj jx by (auto simp: id_assembled_def)
  qed (simp add: bj)
  then show ?case using as spec by (auto simp: id_assembled_def)
next
  case (idr_request evs d q h d' h')
  then have as: "id_assembled sz evs d" by simp
  have "id_request_loop q h d = Some (d', h')" using idr_request.hyps(2) by (simp add: id_RequestBlocks_def)
  from id_request_shape [OF this, of sz] id_request_next [OF this, of sz] as show ?case
    by (auto simp: id_assembled_def)
qed

lemma id_GotBlock_accepts:
  assumes sh: "id_shape sz d" and i: "unat i < unat (nextBlockIndex d)"
    and len: "length data = min 16384 (unat sz - 16384 * unat i)"
  shows "\<exists>d'. id_GotBlock i data d = Some (Inr d')"
proof -
  let ?b = "blocks d ! unat i"
  have iN: "unat i < num_info_blocks sz" "length (blocks d) = num_info_blocks sz" "length (id_Bytes d) = unat sz"
    using sh i by (simp_all add: id_shape_def)
  then have b: "unat (ib_size ?b) = length data" "requested ?b" using sh i len by (simp_all add: id_shape_def)
  have ge: "\<not> of_nat (length (blocks d)) \<le> i"
    using iN num_info_blocks_less [of sz] by (simp add: word_le_nat_alt unat_of_nat_u32)
  have sl: "16384 * unat i + length data \<le> unat sz" using info_slice [OF iN(1)] len by simp
  then have lt: "16384 * unat i + length data < 4294967296" using unat_u32_less [of sz] by linarith
  then have u: "unat (i * blockSize) = 16384 * unat i" by (simp add: unat_word_ariths mult.commute)
  have "unat (i * blockSize + ib_size ?b) = 16384 * unat i + length data"
    using lt by (simp add: unat_plus_u32 u b)
  moreover have "of_nat (length data) = ib_size ?b" unfolding b(1) [symmetric] by simp
  ultimately show ?thesis using ge iN b sl u by (simp add: id_GotBlock_def Let_def)
qed

definition sample_info_heap :: heap where
  "sample_info_heap = (\<lambda>_. (newPeer Manual ''x'')\<lparr>ExtensionHandshake :=
     Some \<lparr>hs_M = [(''ut_metadata'', 1)], hs_V = [], hs_YourIP = [], MetadataSize = 2, RequestQueue = 0\<rparr>\<rparr>)"

section \<open>Properties\<close>

text \<open>
  When no block is delivered twice, the info download is done exactly when every block has been
  received, and the bytes are then the received blocks in order.
\<close>

lemma info_is_assembled:
  assumes "NewID h pe = Some d0" and "pe_MetadataSize (h pe) = Some sz" and "id_run d0 evs d"
    and "\<forall>(i, data)\<in>set (gots evs). length data < 2 ^ 32" and "distinct (map fst (gots evs))"
  shows "(id_Done d \<longleftrightarrow> fst ` set (gots evs) = {..<num_info_blocks sz}) \<and>
    (id_Done d \<longrightarrow> id_Bytes d = concat (map (\<lambda>i. the (map_of (gots evs) i)) [0..<num_info_blocks sz]))"
proof -
  let ?N = "num_info_blocks sz" and ?G = "gots evs"
  have as: "id_assembled sz evs d" by (rule id_run_assembled [OF assms(1-4)])
  then have sh: "id_shape sz d" and pend: "id_pending d = int (unat (nextBlockIndex d)) - int (length ?G)"
    and idx: "fst ` set ?G \<subseteq> {..<unat (nextBlockIndex d)}"
    and sl: "\<forall>(i, data)\<in>set ?G. blk (unat sz) i (id_Bytes d) = data"
    using assms(5) by (auto simp: id_assembled_def)
  have nx: "unat (nextBlockIndex d) \<le> ?N" "length (id_Bytes d) = unat sz" using sh by (simp_all add: id_shape_def)
  have card: "card (fst ` set ?G) = length ?G" using distinct_card [OF assms(5)] by simp
  have "id_Done d \<longleftrightarrow> unat (nextBlockIndex d) = ?N \<and> id_pending d = 0"
    using sh num_info_blocks_less [of sz] by (auto simp: id_Done_def id_shape_def word_unat_eq_iff unat_of_nat_u32)
  also have "\<dots> \<longleftrightarrow> fst ` set ?G = {..<?N}"
  proof
    assume "unat (nextBlockIndex d) = ?N \<and> id_pending d = 0"
    then have "int (length ?G) = int ?N" and "fst ` set ?G \<subseteq> {..<?N}" using pend idx by (linarith, simp)
    then have "length ?G = ?N" "fst ` set ?G \<subseteq> {..<?N}" by (simp_all only: of_nat_eq_iff)
    then show "fst ` set ?G = {..<?N}" using card by (intro card_subset_eq) simp_all
  next
    assume eq: "fst ` set ?G = {..<?N}"
    then have "length ?G = ?N" using card by simp
    moreover have "?N \<le> unat (nextBlockIndex d)" using eq idx by (metis lessThan_subset_iff)
    ultimately show "unat (nextBlockIndex d) = ?N \<and> id_pending d = 0" using nx pend by simp
  qed
  finally have dn: "id_Done d \<longleftrightarrow> fst ` set ?G = {..<?N}" .
  have "id_Bytes d = concat (map (\<lambda>i. the (map_of ?G i)) [0..<?N])" if "id_Done d"
  proof -
    have "map (\<lambda>i. the (map_of ?G i)) [0..<?N] = map (\<lambda>i. blk (unat sz) i (id_Bytes d)) [0..<?N]"
    proof (rule map_cong [OF refl])
      fix i assume "i \<in> set [0..<?N]"
      then have "i \<in> fst ` set ?G" using dn that by simp
      then obtain data where "map_of ?G i = Some data" "(i, data) \<in> set ?G"
        by (metis map_of_SomeD map_of_eq_None_iff not_None_eq)
      then show "the (map_of ?G i) = blk (unat sz) i (id_Bytes d)" using sl by auto
    qed
    then have "concat (map (\<lambda>i. the (map_of ?G i)) [0..<?N]) = take (16384 * ?N) (id_Bytes d)"
      by (simp only: concat_blk [OF nx(2)])
    moreover have "unat sz \<le> 16384 * ?N" by (simp add: num_info_blocks_def)
    ultimately show ?thesis using nx(2) by simp
  qed
  then show ?thesis using dn by blast
qed

theorem info_is_assembled_witness:
  "\<exists>d0 d. NewID sample_info_heap 0 = Some d0 \<and> id_run d0 [IdRequest 1, IdGot 0 [100, 101]] d \<and>
     id_Done d \<and> id_Bytes d = [100, 101]"
proof -
  let ?h = sample_info_heap and ?evs = "[IdRequest 1, IdGot 0 [100, 101]]"
  have sz: "pe_MetadataSize (?h 0) = Some 2" by (simp add: sample_info_heap_def pe_MetadataSize_def)
  define d0 where "d0 = \<lparr>id_Peer = 0, id_Bytes = [0, 0], blocks = [\<lparr>ib_size = 2, requested = False\<rparr>],
    id_pending = 0, nextBlockIndex = 0\<rparr>"
  define d1 where "d1 = d0\<lparr>blocks := [\<lparr>ib_size = 2, requested = True\<rparr>], id_pending := 1, nextBlockIndex := 1\<rparr>"
  have "createBlocks 2 = [\<lparr>ib_size = 2, requested = False\<rparr>]" by code_simp
  then have new: "NewID ?h 0 = Some d0"
    using arg_cong [OF numeral_2_eq_2, of "\<lambda>n. replicate n (0 :: byte)"]
    by (simp add: NewID_def sz d0_def)
  obtain h1 where "id_RequestBlocks 1 ?h d0 = Some (d1, h1)"
    by (simp add: id_RequestBlocks_def d0_def d1_def id_request_loop.simps RequestMetadataPiece_def
      sample_info_heap_def)
  then have r1: "id_run d0 ([] @ [IdRequest 1]) d1" by (rule idr_request [OF idr_new])
  have "id_GotBlock 0 [100, 101] d1 = Some (Inr (d1\<lparr>id_pending := 0, id_Bytes := [100, 101]\<rparr>))"
    by (simp add: id_GotBlock_def d1_def d0_def blockSize_def)
  from idr_got [OF r1 this]
  have run: "id_run d0 ?evs (d1\<lparr>id_pending := 0, id_Bytes := [100, 101]\<rparr>)" by simp
  have g: "gots ?evs = [(0, [100, 101])]" by (simp add: gots_def List.map_filter_def)
  have n: "num_info_blocks 2 = 1" by (simp add: num_info_blocks_def)
  have "id_Done (d1\<lparr>id_pending := 0, id_Bytes := [100, 101]\<rparr>)"
    using info_is_assembled [OF new sz run] by (simp add: g n lessThan_Suc)
  then show ?thesis using new run by auto
qed

text \<open>
  A block delivered twice counts twice.  \<open>GotBlock\<close> does not remember that a block has arrived, so
  with two blocks in flight a peer that sends one of them two times makes the download \<open>Done\<close>
  while the other block was never received.
\<close>

lemma duplicate_block_completes:
  assumes "id_shape sz d" and "nextBlockIndex d = of_nat (num_info_blocks sz)" and "id_pending d = 2"
    and "unat i < num_info_blocks sz" and "length data = min 16384 (unat sz - 16384 * unat i)"
  shows "\<exists>d1 d2. id_GotBlock i data d = Some (Inr d1) \<and> id_GotBlock i data d1 = Some (Inr d2) \<and> id_Done d2 \<and>
    (\<forall>j. j \<noteq> unat i \<longrightarrow> blk (unat sz) j (id_Bytes d2) = blk (unat sz) j (id_Bytes d))"
proof -
  have n: "unat (nextBlockIndex d) = num_info_blocks sz"
    using assms(2) num_info_blocks_less [of sz] by (simp add: unat_of_nat_u32)
  have len: "length data < 2 ^ 32" using assms(5) by simp
  obtain d1 where d1: "id_GotBlock i data d = Some (Inr d1)"
    using id_GotBlock_accepts [OF assms(1) _ assms(5)] assms(4) n by auto
  note s1 = id_GotBlock_spec [OF assms(1) d1 len]
  then have sh1: "id_shape sz d1" and n1: "nextBlockIndex d1 = nextBlockIndex d" by simp_all
  obtain d2 where d2: "id_GotBlock i data d1 = Some (Inr d2)"
    using id_GotBlock_accepts [OF sh1 _ assms(5)] assms(4) n n1 by auto
  note s2 = id_GotBlock_spec [OF sh1 d2 len]
  have fit: "16384 * unat i + length data \<le> length (id_Bytes d)" "16384 * unat i + length data \<le> length (id_Bytes d1)"
    using info_slice [OF assms(4)] assms(1,5) sh1 by (simp_all add: id_shape_def)
  have "blk (unat sz) j (id_Bytes d2) = blk (unat sz) j (id_Bytes d)" if "j \<noteq> unat i" for j
    using s1 s2 that blk_overwrite [OF assms(5) fit(1), of j] blk_overwrite [OF assms(5) fit(2), of j] by simp
  moreover have "id_Done d2"
    using s1 s2 assms(2,3) by (simp add: id_Done_def id_shape_def)
  ultimately show ?thesis using d1 d2 by blast
qed

theorem duplicate_block_completes_witness:
  "\<exists>d d1 d2. id_GotBlock 1 [7] d = Some (Inr d1) \<and> id_GotBlock 1 [7] d1 = Some (Inr d2) \<and>
     id_Done d2 \<and> blk 16385 0 (id_Bytes d2) = replicate 16384 0"
proof -
  define d where "d = \<lparr>id_Peer = 0, id_Bytes = replicate 16385 0,
    blocks = [\<lparr>ib_size = 16384, requested = True\<rparr>, \<lparr>ib_size = 1, requested = True\<rparr>],
    id_pending = 2, nextBlockIndex = 2\<rparr>"
  have n: "num_info_blocks 16385 = Suc (Suc 0)" by (simp add: num_info_blocks_def)
  have sh: "id_shape 16385 d"
    by (simp add: id_shape_def d_def n All_less_Suc)
  have b: "blk 16385 0 (id_Bytes d) = replicate 16384 0"
    by (simp add: d_def blk_def)
  have nx: "nextBlockIndex d = of_nat (num_info_blocks 16385)" "id_pending d = 2" by (simp_all add: d_def n)
  have i: "unat 1 < num_info_blocks 16385" "length [7 :: byte] = min 16384 (unat (16385 :: u32) - 16384 * unat (1 :: u32))"
    by (simp_all add: n)
  from duplicate_block_completes [OF sh nx i] obtain d1 d2 where
    "id_GotBlock 1 [7] d = Some (Inr d1)" "id_GotBlock 1 [7] d1 = Some (Inr d2)" "id_Done d2"
    "\<forall>j. j \<noteq> unat (1 :: u32) \<longrightarrow> blk (unat (16385 :: u32)) j (id_Bytes d2) = blk (unat (16385 :: u32)) j (id_Bytes d)"
    by blast
  moreover from this(4) [rule_format, of 0] b have "blk 16385 0 (id_Bytes d2) = replicate 16384 0"
    by (simp)
  ultimately show ?thesis by blast
qed

end
