(* ===== verification/AddrList.thy ===== *)
theory AddrList
  imports PeerState
begin

text \<open>
  \<open>external/addrlist\<close> with \<open>external/peerpriority\<close> and the address helpers of \<open>internal/externalip\<close>: the
  addresses a torrent has heard of and not yet dialled, ordered by their BEP 40 priority and by age.

  \<open>google/btree\<close> is not part of the repository: its operations are the record \<open>btree\<close>, an argument of the
  definitions, and \<open>btree_ok\<close> states its documented behaviour.  A multiaddr is given by the values
  \<open>ValueForProtocol\<close> returns: the four bytes of its IPv4 part and its TCP port, each possibly absent.
\<close>

section \<open>Addresses\<close>

record maddr =
  ma_ip4 :: "byte list option"
  ma_tcp :: "u16 option"

record AddrInfo =
  ai_ID :: string
  ai_Addrs :: "maddr list"

record TCPAddr =
  IP :: "byte list"
  ta_Port :: int

text \<open>\<open>IsLoopback\<close>, \<open>IsLinkLocalMulticast\<close> and \<open>IsLinkLocalUnicast\<close> of package \<open>net\<close>, on four bytes.\<close>

definition isPublicIP :: "byte list \<Rightarrow> bool" where
  "isPublicIP ip4 =
     (if ip4 ! 0 = 127 \<or> (ip4 ! 0 = 224 \<and> ip4 ! 1 = 0 \<and> ip4 ! 2 = 0) \<or> (ip4 ! 0 = 169 \<and> ip4 ! 1 = 254) then False
      else if ip4 ! 0 = 10 then False
      else if ip4 ! 0 = 172 \<and> ip4 ! 1 \<ge> 16 \<and> ip4 ! 1 \<le> 31 then False
      else if ip4 ! 0 = 192 \<and> ip4 ! 1 = 168 then False
      else True)"

definition IsExternal :: "byte list list \<Rightarrow> byte list \<Rightarrow> bool" where
  "IsExternal ips ip \<longleftrightarrow> ip \<in> set ips"

definition FirstExternalIP :: "byte list list \<Rightarrow> byte list option" where
  "FirstExternalIP ips = (case ips of [] \<Rightarrow> None | ip # _ \<Rightarrow> Some ip)"

fun external_first :: "maddr list \<Rightarrow> TCPAddr option" where
  "external_first [] = None"
| "external_first (ad # ads) =
     (case ma_ip4 ad of
        None \<Rightarrow> external_first ads
      | Some netip \<Rightarrow>
        if \<not> isPublicIP netip then external_first ads
        else case ma_tcp ad of
            None \<Rightarrow> external_first ads
          | Some port \<Rightarrow> Some \<lparr>IP = netip, ta_Port = int (unat port)\<rparr>)"

definition GetExternalFirstTcp :: "AddrInfo \<Rightarrow> TCPAddr option" where
  "GetExternalFirstTcp addr = external_first (ai_Addrs addr)"

fun internal_first :: "maddr list \<Rightarrow> TCPAddr option" where
  "internal_first [] = None"
| "internal_first (ad # ads) =
     (case ma_ip4 ad of
        None \<Rightarrow> internal_first ads
      | Some netip \<Rightarrow>
        case ma_tcp ad of
          None \<Rightarrow> internal_first ads
        | Some port \<Rightarrow> Some \<lparr>IP = netip, ta_Port = int (unat port)\<rparr>)"

definition GetInternalFirstTcp :: "AddrInfo \<Rightarrow> TCPAddr option" where
  "GetInternalFirstTcp addr = internal_first (ai_Addrs addr)"

section \<open>Peer priority\<close>

text \<open>\<open>hash/crc32\<close> with the Castagnoli polynomial, and \<open>bytes.Compare(a, b) < 0\<close>.\<close>

definition crc_bit :: "u32 \<Rightarrow> u32" where
  "crc_bit c = (if bit c 0 then drop_bit 1 c XOR 0x82F63B78 else drop_bit 1 c)"

definition crc_byte :: "byte \<Rightarrow> u32 \<Rightarrow> u32" where
  "crc_byte b c = (crc_bit ^^ 8) (c XOR ucast b)"

definition crc32c :: "byte list \<Rightarrow> u32" where
  "crc32c bs = NOT (fold crc_byte bs (NOT 0))"

fun bytes_less :: "byte list \<Rightarrow> byte list \<Rightarrow> bool" where
  "bytes_less [] ys = (ys \<noteq> [])"
| "bytes_less (x # xs) [] = False"
| "bytes_less (x # xs) (y # ys) = (x < y \<or> (x = y \<and> bytes_less xs ys))"

definition ip_Mask :: "byte list \<Rightarrow> byte list \<Rightarrow> byte list" where
  "ip_Mask ip m = map2 (AND) ip m"

definition sameSubnet :: "nat \<Rightarrow> byte list \<Rightarrow> byte list \<Rightarrow> bool" where
  "sameSubnet ones a b =
     (let m = replicate (ones div 8) 0xff @ replicate ((32 - ones) div 8) 0 in ip_Mask a m = ip_Mask b m)"

definition ipv4Mask :: "byte list \<Rightarrow> byte list \<Rightarrow> byte list" where
  "ipv4Mask a b =
     (if \<not> sameSubnet 16 a b then [0xff, 0xff, 0x55, 0x55]
      else if \<not> sameSubnet 24 a b then [0xff, 0xff, 0xff, 0x55]
      else [0xff, 0xff, 0xff, 0xff])"

definition calculateBytes :: "TCPAddr \<Rightarrow> TCPAddr \<Rightarrow> byte list \<times> byte list" where
  "calculateBytes a b =
     (if IP a = IP b then (put_u16 (of_int (ta_Port a)), put_u16 (of_int (ta_Port b)))
      else let m = ipv4Mask (IP a) (IP b) in (ip_Mask (IP a) m, ip_Mask (IP b) m))"

definition Calculate :: "TCPAddr \<Rightarrow> TCPAddr \<Rightarrow> u32" where
  "Calculate a b =
     (let (x, y) = calculateBytes a b in if bytes_less x y then crc32c (x @ y) else crc32c (y @ x))"

lemma bytes_less_Nil [simp]: "\<not> bytes_less x []"
  by (cases x) auto

lemma bytes_less_total: "\<not> bytes_less x y \<Longrightarrow> \<not> bytes_less y x \<Longrightarrow> x = y"
  by (induction x y rule: bytes_less.induct) auto

lemma bytes_less_asym: "bytes_less x y \<Longrightarrow> \<not> bytes_less y x"
  by (induction x y rule: bytes_less.induct) auto

lemma ipv4Mask_sym: "ipv4Mask a b = ipv4Mask b a"
  by (auto simp: ipv4Mask_def sameSubnet_def Let_def)

section \<open>The ordered tree\<close>

type_synonym item = "u32 \<times> ptr"

record 't btree =
  bt_New :: 't
  ReplaceOrInsert :: "item \<Rightarrow> 't \<Rightarrow> 't \<times> item option"
  DeleteMax :: "'t \<Rightarrow> 't \<times> item option"
  bt_Delete :: "item \<Rightarrow> 't \<Rightarrow> 't \<times> item option"
  bt_Clear :: "'t \<Rightarrow> 't"
  bt_Len :: "'t \<Rightarrow> int"

text \<open>Items are ordered by their priority alone; \<open>items t\<close> is what the tree \<open>t\<close> holds.\<close>

definition btree_ok :: "'t btree \<Rightarrow> ('t \<Rightarrow> u32 \<rightharpoonup> ptr) \<Rightarrow> bool" where
  "btree_ok bt items \<longleftrightarrow>
     items (bt_New bt) = Map.empty \<and>
     (\<forall>t. items (bt_Clear bt t) = Map.empty \<and> bt_Len bt t = int (card (dom (items t)))) \<and>
     (\<forall>t k p. items (fst (ReplaceOrInsert bt (k, p) t)) = (items t)(k \<mapsto> p) \<and>
        snd (ReplaceOrInsert bt (k, p) t) = map_option (Pair k) (items t k)) \<and>
     (\<forall>t k p. items (fst (bt_Delete bt (k, p) t)) = (items t)(k := None)) \<and>
     (\<forall>t. dom (items t) = {} \<longrightarrow> items (fst (DeleteMax bt t)) = Map.empty \<and> snd (DeleteMax bt t) = None) \<and>
     (\<forall>t. dom (items t) \<noteq> {} \<longrightarrow>
        items (fst (DeleteMax bt t)) = (items t)(Max (dom (items t)) := None) \<and>
        snd (DeleteMax bt t) = Some (Max (dom (items t)), the (items t (Max (dom (items t))))))"

section \<open>The list\<close>

record peerAddr =
  pr :: AddrInfo
  timestamp :: int
  pa_source :: source
  priority :: u32
  pa_index :: nat

text \<open>
  \<open>*peerAddr\<close> pointers are shared between the slice and the tree; \<open>al_store\<close> holds the objects.
\<close>

record 't AddrList =
  peerByTime :: "ptr option list"
  peerByPriority :: 't
  maxItems :: int
  clientPeer :: AddrInfo
  clientTcp :: "TCPAddr option"
  al_filter :: "(maddr \<Rightarrow> bool) option"
  countBySource :: "source \<Rightarrow> int"
  al_store :: "ptr \<Rightarrow> peerAddr"
  al_next :: ptr

definition first_tcp :: "AddrInfo \<Rightarrow> TCPAddr option" where
  "first_tcp ad = (case GetExternalFirstTcp ad of None \<Rightarrow> GetInternalFirstTcp ad | Some a \<Rightarrow> Some a)"

definition NewAddrList :: "'t btree \<Rightarrow> int \<Rightarrow> AddrInfo \<Rightarrow> 't AddrList" where
  "NewAddrList bt mx client =
     \<lparr>peerByTime = [], peerByPriority = bt_New bt, maxItems = mx, clientPeer = client,
      clientTcp = first_tcp client, al_filter = None, countBySource = (\<lambda>_. 0),
      al_store = (\<lambda>_. \<lparr>pr = client, timestamp = 0, pa_source = Manual, priority = 0, pa_index = 0\<rparr>), al_next = 0\<rparr>"

definition al_Reset :: "'t btree \<Rightarrow> 't AddrList \<Rightarrow> 't AddrList" where
  "al_Reset bt d = d\<lparr>peerByTime := [], peerByPriority := bt_Clear bt (peerByPriority d), countBySource := (\<lambda>_. 0)\<rparr>"

definition al_Len :: "'t btree \<Rightarrow> 't AddrList \<Rightarrow> int" where
  "al_Len bt d = bt_Len bt (peerByPriority d)"

definition LenSource :: "'t AddrList \<Rightarrow> source \<Rightarrow> int" where
  "LenSource d s = countBySource d s"

definition add_source :: "source \<Rightarrow> int \<Rightarrow> 't AddrList \<Rightarrow> 't AddrList" where
  "add_source s n d = d\<lparr>countBySource := (countBySource d)(s := countBySource d s + n)\<rparr>"

definition Pop :: "'t btree \<Rightarrow> 't AddrList \<Rightarrow> ((AddrInfo \<times> source) option \<times> 't AddrList) option" where
  "Pop bt d =
     (case DeleteMax bt (peerByPriority d) of
        (t, None) \<Rightarrow> Some (None, d\<lparr>peerByPriority := t\<rparr>)
      | (t, Some (_, q)) \<Rightarrow>
        let p = al_store d q in
        if pa_index p < length (peerByTime d)
        then Some (Some (pr p, pa_source p),
          add_source (pa_source p) (- 1) (d\<lparr>peerByPriority := t, peerByTime := (peerByTime d)[pa_index p := None]\<rparr>))
        else None)"

definition blocked :: "'t AddrList \<Rightarrow> AddrInfo \<Rightarrow> bool" where
  "blocked d ad = (case al_filter d of None \<Rightarrow> False | Some f \<Rightarrow> list_ex f (ai_Addrs ad))"

text \<open>One round of the loop of \<open>Push\<close>; a nil TCP address makes \<open>peerpriority.Calculate\<close> panic.\<close>

definition push_one ::
  "'t btree \<Rightarrow> int \<Rightarrow> source \<Rightarrow> AddrInfo \<Rightarrow> 't AddrList \<times> int \<Rightarrow> ('t AddrList \<times> int) option" where
  "push_one bt now src ad s =
     (case s of (d, added) \<Rightarrow>
      if ai_Addrs ad = [] then Some (d, added)
      else if ai_ID (clientPeer d) = ai_ID ad then Some (d, added)
      else if blocked d ad then Some (d, added)
      else do {
        netTcp \<leftarrow> first_tcp ad;
        client \<leftarrow> clientTcp d;
        let p = al_next d;
        let obj = \<lparr>pr = ad, timestamp = now, pa_source = src, priority = Calculate netTcp client, pa_index = 0\<rparr>;
        let (t, item) = ReplaceOrInsert bt (priority obj, p) (peerByPriority d);
        let d = d\<lparr>peerByPriority := t, al_next := Suc p\<rparr>;
        d \<leftarrow> (case item of
          Some (_, q) \<Rightarrow>
            let i = pa_index (al_store d q) in
            if i < length (peerByTime d)
            then Some (add_source (pa_source (al_store d q)) (- 1)
              (d\<lparr>peerByTime := (peerByTime d)[i := Some p], al_store := (al_store d)(p := obj\<lparr>pa_index := i\<rparr>)\<rparr>))
            else None
        | None \<Rightarrow>
            Some (d\<lparr>peerByTime := peerByTime d @ [Some p],
              al_store := (al_store d)(p := obj\<lparr>pa_index := length (peerByTime d)\<rparr>)\<rparr>));
        Some (d, added + 1)
      })"

fun push_loop ::
  "'t btree \<Rightarrow> int \<Rightarrow> source \<Rightarrow> AddrInfo list \<Rightarrow> 't AddrList \<times> int \<Rightarrow> ('t AddrList \<times> int) option" where
  "push_loop bt now src [] s = Some s"
| "push_loop bt now src (ad # ads) s = Option.bind (push_one bt now src ad s) (push_loop bt now src ads)"

text \<open>The objects of \<open>xs\<close> get their positions as \<open>index\<close>.\<close>

fun set_indices :: "nat \<Rightarrow> ptr list \<Rightarrow> (ptr \<Rightarrow> peerAddr) \<Rightarrow> ptr \<Rightarrow> peerAddr" where
  "set_indices i [] st = st"
| "set_indices i (x # xs) st = set_indices (Suc i) xs (st(x := (st x)\<lparr>pa_index := i\<rparr>))"

fun somes :: "'a option list \<Rightarrow> 'a list" where
  "somes [] = []"
| "somes (None # xs) = somes xs"
| "somes (Some x # xs) = x # somes xs"

lemma set_somes [simp]: "x \<in> set (somes xs) \<longleftrightarrow> Some x \<in> set xs"
  by (induction xs rule: somes.induct) auto

definition with_order :: "ptr list \<Rightarrow> 't AddrList \<Rightarrow> 't AddrList" where
  "with_order xs d = d\<lparr>peerByTime := map Some xs, al_store := set_indices 0 xs (al_store d)\<rparr>"

definition filterNils :: "'t AddrList \<Rightarrow> 't AddrList" where
  "filterNils d = with_order (somes (peerByTime d)) d"

definition sortByTimestamp :: "choices \<Rightarrow> 't AddrList \<Rightarrow> 't AddrList \<times> choices" where
  "sortByTimestamp cs d =
     (let (xs, cs) = sort_slice (\<lambda>x. timestamp (al_store d x)) cs (somes (peerByTime d))
      in (with_order xs d, cs))"

fun remove_first :: "'t btree \<Rightarrow> nat \<Rightarrow> nat \<Rightarrow> 't AddrList \<Rightarrow> 't AddrList option" where
  "remove_first bt i 0 d = Some d"
| "remove_first bt i (Suc n) d = do {
     y \<leftarrow> slice_get (peerByTime d) i;
     q \<leftarrow> y;
     remove_first bt (Suc i) n (d\<lparr>peerByPriority := fst (bt_Delete bt (priority (al_store d q), q) (peerByPriority d)),
       peerByTime := (peerByTime d)[i := None]\<rparr>)
   }"

definition removeExcessItems :: "'t btree \<Rightarrow> int \<Rightarrow> 't AddrList \<Rightarrow> 't AddrList option" where
  "removeExcessItems bt delta d = remove_first bt 0 (nat delta) d"

definition Push ::
  "'t btree \<Rightarrow> choices \<Rightarrow> int \<Rightarrow> AddrInfo list \<Rightarrow> source \<Rightarrow> 't AddrList \<Rightarrow> ('t AddrList \<times> choices) option" where
  "Push bt cs now addrs src d = do {
     (d, added) \<leftarrow> push_loop bt now src addrs (d, 0);
     let (d, cs) = sortByTimestamp cs (filterNils d);
     let d = add_source src added d;
     let delta = al_Len bt d - maxItems d;
     d \<leftarrow> (if delta > 0
       then map_option (\<lambda>d. add_source src (- delta) (filterNils d)) (removeExcessItems bt delta d)
       else Some d);
     if int (length (peerByTime d)) \<noteq> al_Len bt d then None else Some (d, cs)
   }"

text \<open>
  \<open>&v\<close> is the address of the loop variable, which go 1.16 shares between the rounds: every element
  of the result points to the last address.
\<close>

definition ToAddrs :: "AddrInfo list \<Rightarrow> AddrInfo list" where
  "ToAddrs addrs = (if addrs = [] then [] else replicate (length addrs) (last addrs))"

section \<open>The slice and the tree agree\<close>

definition live :: "'t AddrList \<Rightarrow> ptr set" where
  "live d = {x. Some x \<in> set (peerByTime d)}"

definition al_inv :: "('t \<Rightarrow> u32 \<rightharpoonup> ptr) \<Rightarrow> 't AddrList \<Rightarrow> bool" where
  "al_inv items d \<longleftrightarrow>
     (\<forall>i x. i < length (peerByTime d) \<and> peerByTime d ! i = Some x \<longrightarrow> x < al_next d \<and> pa_index (al_store d x) = i) \<and>
     (\<forall>k x. items (peerByPriority d) k = Some x \<longleftrightarrow> x \<in> live d \<and> priority (al_store d x) = k)"

text \<open>The addresses \<open>Push\<close> takes in, and the priority they get.\<close>

definition wanted :: "'t AddrList \<Rightarrow> AddrInfo \<Rightarrow> bool" where
  "wanted d ad \<longleftrightarrow> ai_Addrs ad \<noteq> [] \<and> ai_ID (clientPeer d) \<noteq> ai_ID ad \<and> \<not> blocked d ad"

definition prio :: "'t AddrList \<Rightarrow> AddrInfo \<Rightarrow> u32" where
  "prio d ad = Calculate (the (first_tcp ad)) (the (clientTcp d))"

definition prios :: "'t AddrList \<Rightarrow> AddrInfo list \<Rightarrow> u32 set" where
  "prios d ads = prio d ` {ad \<in> set ads. wanted d ad}"

definition dialable :: "'t AddrList \<Rightarrow> AddrInfo list \<Rightarrow> bool" where
  "dialable d ads \<longleftrightarrow> clientTcp d \<noteq> None \<and> (\<forall>ad\<in>set ads. wanted d ad \<longrightarrow> first_tcp ad \<noteq> None)"

text \<open>What stays the same in every operation.\<close>

definition same_client :: "'t AddrList \<Rightarrow> 't AddrList \<Rightarrow> bool" where
  "same_client d d' \<longleftrightarrow> clientPeer d' = clientPeer d \<and> clientTcp d' = clientTcp d \<and> al_filter d' = al_filter d \<and>
     maxItems d' = maxItems d"

lemma same_client_simps:
  "same_client d d' \<Longrightarrow> wanted d' = wanted d" "same_client d d' \<Longrightarrow> prio d' = prio d"
  "same_client d d' \<Longrightarrow> dialable d' = dialable d" "same_client d d' \<Longrightarrow> prios d' = prios d"
  by (simp_all add: same_client_def wanted_def prio_def dialable_def prios_def blocked_def fun_eq_iff)

lemma same_client_trans: "same_client d d' \<Longrightarrow> same_client d' d'' \<Longrightarrow> same_client d d''"
  by (simp add: same_client_def)

lemma al_invI:
  assumes "\<And>i x. i < length (peerByTime d) \<Longrightarrow> peerByTime d ! i = Some x \<Longrightarrow> x < al_next d \<and> pa_index (al_store d x) = i"
    and "\<And>k x. items (peerByPriority d) k = Some x \<longleftrightarrow> x \<in> live d \<and> priority (al_store d x) = k"
  shows "al_inv items d"
  unfolding al_inv_def using assms by blast

lemma al_invD:
  "al_inv items d \<Longrightarrow> i < length (peerByTime d) \<Longrightarrow> peerByTime d ! i = Some x \<Longrightarrow> x < al_next d \<and> pa_index (al_store d x) = i"
  "al_inv items d \<Longrightarrow> items (peerByPriority d) k = Some x \<longleftrightarrow> x \<in> live d \<and> priority (al_store d x) = k"
  unfolding al_inv_def by blast+

lemma al_inv_unique:
  "al_inv items d \<Longrightarrow> x \<in> live d \<Longrightarrow> y \<in> live d \<Longrightarrow> priority (al_store d x) = priority (al_store d y) \<Longrightarrow> x = y"
  using al_invD(2) [of items d] by (metis option.inject)

lemma al_inv_index:
  assumes "al_inv items d" and "x \<in> live d"
  shows "pa_index (al_store d x) < length (peerByTime d) \<and> peerByTime d ! pa_index (al_store d x) = Some x \<and> x < al_next d"
proof -
  obtain i where "i < length (peerByTime d)" "peerByTime d ! i = Some x"
    using assms(2) by (auto simp: live_def in_set_conv_nth)
  then show ?thesis using assms(1) by (auto simp: al_inv_def)
qed

lemma Some_set_update:
  assumes "i < length xs" and "xs ! i = Some q" and "\<And>j. j < length xs \<Longrightarrow> xs ! j = Some q \<Longrightarrow> j = i"
  shows "{x. Some x \<in> set (xs[i := y])} = {x. y = Some x} \<union> ({x. Some x \<in> set xs} - {q})"
proof (rule set_eqI)
  fix x
  have "Some x \<in> set (xs[i := y]) \<longleftrightarrow> (\<exists>j<length xs. (if j = i then y else xs ! j) = Some x)"
    by (auto simp: in_set_conv_nth nth_list_update)
  also have "\<dots> \<longleftrightarrow> y = Some x \<or> (\<exists>j<length xs. j \<noteq> i \<and> xs ! j = Some x)" using assms(1) by auto
  also have "(\<exists>j<length xs. j \<noteq> i \<and> xs ! j = Some x) \<longleftrightarrow> Some x \<in> set xs \<and> x \<noteq> q"
    using assms by (metis in_set_conv_nth option.inject)
  finally show "x \<in> {x. Some x \<in> set (xs[i := y])} \<longleftrightarrow> x \<in> {x. y = Some x} \<union> ({x. Some x \<in> set xs} - {q})"
    by blast
qed

lemma live_update:
  assumes "al_inv items d" and "q \<in> live d"
  shows "{x. Some x \<in> set ((peerByTime d)[pa_index (al_store d q) := y])} = {x. y = Some x} \<union> (live d - {q})"
  unfolding live_def
  by (rule Some_set_update) (use al_inv_index [OF assms] assms(1) in \<open>auto simp: al_inv_def\<close>)

lemma add_source_simps [simp]:
  "peerByTime (add_source s n d) = peerByTime d" "peerByPriority (add_source s n d) = peerByPriority d"
  "maxItems (add_source s n d) = maxItems d" "clientPeer (add_source s n d) = clientPeer d"
  "clientTcp (add_source s n d) = clientTcp d" "al_filter (add_source s n d) = al_filter d"
  "al_store (add_source s n d) = al_store d" "al_next (add_source s n d) = al_next d"
  by (simp_all add: add_source_def)

lemma al_inv_add_source [simp]: "al_inv items (add_source s n d) = al_inv items d"
  by (simp add: al_inv_def live_def)

lemma push_one_ok:
  assumes bt: "btree_ok bt items" and inv: "al_inv items d" and dial: "dialable d [ad]"
  shows "\<exists>d' a'. push_one bt now src ad (d, a) = Some (d', a') \<and> al_inv items d' \<and> same_client d d' \<and>
    dom (items (peerByPriority d')) = dom (items (peerByPriority d)) \<union> prios d [ad]"
proof (cases "wanted d ad")
  case False
  then show ?thesis using inv
    by (auto simp: push_one_def wanted_def same_client_def prios_def)
next
  case True
  then obtain netTcp client where tcp: "first_tcp ad = Some netTcp" "clientTcp d = Some client"
    using dial by (auto simp: dialable_def)
  define k p where "k = Calculate netTcp client" and "p = al_next d"
  define obj where "obj = \<lparr>pr = ad, timestamp = now, pa_source = src, priority = k, pa_index = 0\<rparr>"
  define t where "t = fst (ReplaceOrInsert bt (k, p) (peerByPriority d))"
  have t: "items t = (items (peerByPriority d))(k \<mapsto> p)"
    "snd (ReplaceOrInsert bt (k, p) (peerByPriority d)) = map_option (Pair k) (items (peerByPriority d) k)"
    using bt unfolding btree_ok_def t_def by blast+
  then have roi: "ReplaceOrInsert bt (k, p) (peerByPriority d) = (t, map_option (Pair k) (items (peerByPriority d) k))"
    by (metis prod.collapse t_def)
  have pr: "prios d [ad] = {k}" using True tcp by (auto simp: prios_def prio_def k_def)
  have fresh: "p \<notin> live d" using al_inv_index [OF inv, of p] by (auto simp: p_def)
  have lv: "x \<noteq> p" if "x \<in> live d" for x using that fresh by blast
  have at: "x < p \<and> pa_index (al_store d x) = i" if "i < length (peerByTime d)" "peerByTime d ! i = Some x" for i x
    using inv that by (simp add: al_inv_def p_def)
  have tree: "items (peerByPriority d) k' = Some x \<longleftrightarrow> x \<in> live d \<and> priority (al_store d x) = k'" for k' x
    using inv by (simp add: al_inv_def)
  have w: "ai_Addrs ad \<noteq> []" "ai_ID (clientPeer d) \<noteq> ai_ID ad" "\<not> blocked d ad" using True by (simp_all add: wanted_def)
  show ?thesis
  proof (cases "items (peerByPriority d) k")
    case None
    define d' where "d' = d\<lparr>peerByPriority := t, al_next := Suc p, peerByTime := peerByTime d @ [Some p],
      al_store := (al_store d)(p := obj\<lparr>pa_index := length (peerByTime d)\<rparr>)\<rparr>"
    have step: "push_one bt now src ad (d, a) = Some (d', a + 1)"
      using w tcp roi None by (simp add: push_one_def Let_def d'_def k_def [symmetric] p_def [symmetric] obj_def)
    have l: "live d' = insert p (live d)" by (auto simp: live_def d'_def)
    have "al_inv items d'"
    proof (rule al_invI)
      fix i x assume "i < length (peerByTime d')" "peerByTime d' ! i = Some x"
      then show "x < al_next d' \<and> pa_index (al_store d' x) = i"
        using at [of i x] by (cases "i = length (peerByTime d)") (auto simp: d'_def nth_append)
    next
      fix k' x
      show "items (peerByPriority d') k' = Some x \<longleftrightarrow> x \<in> live d' \<and> priority (al_store d' x) = k'"
        unfolding l using inv None lv [of x] tree [of k x] by (auto simp: d'_def t obj_def al_inv_def)
    qed
    then show ?thesis using step t by (auto simp: d'_def same_client_def pr)
  next
    case (Some q)
    then have q: "q \<in> live d" "priority (al_store d q) = k" using inv by (simp_all add: al_inv_def)
    define i where "i = pa_index (al_store d q)"
    have iq: "i < length (peerByTime d)" "peerByTime d ! i = Some q" "q < p"
      using al_inv_index [OF inv q(1)] by (simp_all add: i_def p_def)
    define d' where "d' = add_source (pa_source (al_store d q)) (- 1) (d\<lparr>peerByPriority := t, al_next := Suc p,
      peerByTime := (peerByTime d)[i := Some p], al_store := (al_store d)(p := obj\<lparr>pa_index := i\<rparr>)\<rparr>)"
    have step: "push_one bt now src ad (d, a) = Some (d', a + 1)"
      using w tcp roi Some iq
      by (simp add: push_one_def Let_def d'_def k_def [symmetric] p_def [symmetric] i_def obj_def)
    have l: "live d' = insert p (live d - {q})"
      using live_update [OF inv q(1), of "Some p"] by (simp add: live_def d'_def i_def)
    have "al_inv items d'"
    proof (rule al_invI)
      fix j x assume "j < length (peerByTime d')" "peerByTime d' ! j = Some x"
      then show "x < al_next d' \<and> pa_index (al_store d' x) = j"
        using at [of j x] iq by (cases "j = i") (auto simp: d'_def)
    next
      fix k' x
      have uq: "x = q" if "x \<in> live d" "priority (al_store d x) = k"
        using al_inv_unique [OF inv that(1) q(1)] that(2) q(2) by simp
      show "items (peerByPriority d') k' = Some x \<longleftrightarrow> x \<in> live d' \<and> priority (al_store d' x) = k'"
      proof (cases "k' = k")
        case True
        then show ?thesis unfolding l using uq fresh by (auto simp: d'_def t obj_def)
      next
        case False
        then show ?thesis unfolding l using tree [of k' x] lv [of x] q(2) by (auto simp: d'_def t obj_def)
      qed
    qed
    then show ?thesis using step t by (auto simp: d'_def same_client_def pr)
  qed
qed

lemma push_loop_ok:
  assumes bt: "btree_ok bt items" and "al_inv items d" and "dialable d ads"
  shows "\<exists>d' a'. push_loop bt now src ads (d, a) = Some (d', a') \<and> al_inv items d' \<and> same_client d d' \<and>
    dom (items (peerByPriority d')) = dom (items (peerByPriority d)) \<union> prios d ads"
  using assms(2,3)
proof (induction ads arbitrary: d a)
  case Nil
  then show ?case by (simp add: same_client_def prios_def)
next
  case (Cons ad ads)
  have "dialable d [ad]" "dialable d ads" using Cons.prems(2) by (simp_all add: dialable_def)
  then obtain d1 a1 where 1: "push_one bt now src ad (d, a) = Some (d1, a1)" "al_inv items d1" "same_client d d1"
    "dom (items (peerByPriority d1)) = dom (items (peerByPriority d)) \<union> prios d [ad]"
    using push_one_ok [OF bt Cons.prems(1)] by blast
  obtain d' a' where "push_loop bt now src ads (d1, a1) = Some (d', a')" "al_inv items d'" "same_client d1 d'"
    "dom (items (peerByPriority d')) = dom (items (peerByPriority d1)) \<union> prios d1 ads"
    using Cons.IH [OF 1(2)] \<open>dialable d ads\<close> unfolding same_client_simps(3) [OF 1(3)] by blast
  moreover have "prios d (ad # ads) = prios d [ad] \<union> prios d ads" by (auto simp: prios_def)
  ultimately show ?case using 1 same_client_simps(4) [OF 1(3)] same_client_trans [OF 1(3)] by auto
qed

lemma set_indices_other: "x \<notin> set xs \<Longrightarrow> set_indices i xs st x = st x"
  by (induction i xs st rule: set_indices.induct) auto

lemma set_indices_nth: "distinct xs \<Longrightarrow> k < length xs \<Longrightarrow> set_indices i xs st (xs ! k) = (st (xs ! k))\<lparr>pa_index := i + k\<rparr>"
proof (induction i xs st arbitrary: k rule: set_indices.induct)
  case (2 i x xs st)
  show ?case
  proof (cases k)
    case 0
    then show ?thesis using 2 by (simp add: set_indices_other)
  next
    case (Suc j)
    have "set_indices (Suc i) xs (st(x := (st x)\<lparr>pa_index := i\<rparr>)) (xs ! j) =
        ((st(x := (st x)\<lparr>pa_index := i\<rparr>)) (xs ! j))\<lparr>pa_index := Suc i + j\<rparr>"
      by (rule "2.IH") (use "2.prems" Suc in simp_all)
    moreover have "xs ! j \<noteq> x" using 2(2,3) Suc by (auto dest: nth_mem)
    ultimately show ?thesis using Suc by simp
  qed
qed simp

lemma set_indices_keep [simp]:
  "priority (set_indices i xs st x) = priority (st x)" "timestamp (set_indices i xs st x) = timestamp (st x)"
  "pr (set_indices i xs st x) = pr (st x)" "pa_source (set_indices i xs st x) = pa_source (st x)"
  by (induction i xs st rule: set_indices.induct) auto

definition ptrs :: "'t AddrList \<Rightarrow> ptr list" where
  "ptrs d = somes (peerByTime d)"

lemma set_ptrs: "set (ptrs d) = live d"
  by (auto simp: ptrs_def live_def)

lemma distinct_somes:
  "(\<And>i j x. i < length xs \<Longrightarrow> j < length xs \<Longrightarrow> xs ! i = Some x \<Longrightarrow> xs ! j = Some x \<Longrightarrow> i = j) \<Longrightarrow>
    distinct (somes xs)"
proof (induction xs)
  case (Cons y ys)
  have "distinct (somes ys)"
  proof (rule Cons.IH)
    fix i j x assume "i < length ys" "j < length ys" "ys ! i = Some x" "ys ! j = Some x"
    then show "i = j" using Cons.prems [of "Suc i" "Suc j" x] by simp
  qed
  moreover have "Some x \<notin> set ys" if "y = Some x" for x
    using Cons.prems [of 0 _ x] that by (force simp: in_set_conv_nth)
  ultimately show ?case by (cases y) simp_all
qed simp

lemma distinct_ptrs: "al_inv items d \<Longrightarrow> distinct (ptrs d)"
  unfolding ptrs_def by (rule distinct_somes) (metis al_invD(1))

text \<open>\<open>tidy\<close>: no nils are left.\<close>

definition tidy :: "'t AddrList \<Rightarrow> bool" where
  "tidy d \<longleftrightarrow> None \<notin> set (peerByTime d)"

lemma with_order_ok:
  assumes inv: "al_inv items d" and xs: "set xs = live d" "distinct xs"
  shows "al_inv items (with_order xs d)" and "tidy (with_order xs d)" and "same_client d (with_order xs d)"
    and "peerByPriority (with_order xs d) = peerByPriority d" and "length (peerByTime (with_order xs d)) = card (live d)"
proof -
  have l: "live (with_order xs d) = live d" using xs(1) by (auto simp: live_def with_order_def)
  show "al_inv items (with_order xs d)"
  proof (rule al_invI)
    fix i x assume "i < length (peerByTime (with_order xs d))" "peerByTime (with_order xs d) ! i = Some x"
    then have i: "i < length xs" "xs ! i = x" by (simp_all add: with_order_def)
    then have "x \<in> live d" using xs(1) by force
    then have "x < al_next d" using al_inv_index [OF inv] by blast
    moreover have "pa_index (al_store (with_order xs d) x) = i"
      using set_indices_nth [OF xs(2) i(1), of 0 "al_store d"] i(2) by (simp add: with_order_def)
    ultimately show "x < al_next (with_order xs d) \<and> pa_index (al_store (with_order xs d) x) = i"
      by (simp add: with_order_def)
  next
    fix k x
    show "items (peerByPriority (with_order xs d)) k = Some x \<longleftrightarrow>
        x \<in> live (with_order xs d) \<and> priority (al_store (with_order xs d) x) = k"
      unfolding l using inv by (simp add: with_order_def al_inv_def)
  qed
  show "tidy (with_order xs d)" "same_client d (with_order xs d)" "peerByPriority (with_order xs d) = peerByPriority d"
    by (auto simp: tidy_def same_client_def with_order_def)
  show "length (peerByTime (with_order xs d)) = card (live d)"
    using distinct_card [OF xs(2)] xs(1) by (simp add: with_order_def)
qed

lemma filterNils_eq: "filterNils d = with_order (ptrs d) d"
  by (simp add: filterNils_def ptrs_def)

lemmas filterNils_ok = with_order_ok [OF _ set_ptrs distinct_ptrs, folded filterNils_eq]

lemma sortByTimestamp_ok:
  assumes "al_inv items d" and "sortByTimestamp cs d = (d', cs')"
  shows "al_inv items d'" and "tidy d'" and "same_client d d'" and "peerByPriority d' = peerByPriority d"
proof -
  define xs where "xs = fst (sort_slice (\<lambda>x. timestamp (al_store d x)) cs (ptrs d))"
  have "d' = with_order xs d" using assms(2) by (simp add: sortByTimestamp_def ptrs_def xs_def split_beta)
  moreover have "set xs = live d" "distinct xs" using set_ptrs distinct_ptrs [OF assms(1)] by (simp_all add: xs_def)
  ultimately show "al_inv items d'" and "tidy d'" and "same_client d d'" and "peerByPriority d' = peerByPriority d"
    using with_order_ok [OF assms(1)] by simp_all
qed

lemma card_live: "al_inv items d \<Longrightarrow> card (dom (items (peerByPriority d))) = card (live d)"
proof -
  assume inv: "al_inv items d"
  have "bij_betw (\<lambda>x. priority (al_store d x)) (live d) (dom (items (peerByPriority d)))"
    unfolding bij_betw_def inj_on_def
  proof (intro conjI ballI impI set_eqI)
    fix x y assume "x \<in> live d" "y \<in> live d" "priority (al_store d x) = priority (al_store d y)"
    then show "x = y" using inv unfolding al_inv_def by (metis option.inject)
  next
    fix k show "k \<in> (\<lambda>x. priority (al_store d x)) ` live d \<longleftrightarrow> k \<in> dom (items (peerByPriority d))"
      using inv by (auto simp: al_inv_def)
  qed
  then show ?thesis by (simp add: bij_betw_same_card)
qed

lemma finite_live: "finite (live d)"
  by (metis List.finite_set set_ptrs)

lemma delete_ok:
  assumes bt: "btree_ok bt items" and inv: "al_inv items d" and q: "q \<in> live d"
    and t: "items t = (items (peerByPriority d))(priority (al_store d q) := None)"
    and d': "d' = d\<lparr>peerByPriority := t, peerByTime := (peerByTime d)[pa_index (al_store d q) := None]\<rparr>"
  shows "al_inv items d'" and "live d' = live d - {q}"
proof -
  show l: "live d' = live d - {q}" using live_update [OF inv q, of None] by (simp add: live_def d')
  show "al_inv items d'"
  proof (rule al_invI)
    fix i x assume "i < length (peerByTime d')" "peerByTime d' ! i = Some x"
    then show "x < al_next d' \<and> pa_index (al_store d' x) = i"
      using al_invD(1) [OF inv, of i x] by (cases "i = pa_index (al_store d q)") (auto simp: d')
  next
    fix k x
    show "items (peerByPriority d') k = Some x \<longleftrightarrow> x \<in> live d' \<and> priority (al_store d' x) = k"
    proof (cases "k = priority (al_store d q)")
      case True
      then show ?thesis unfolding l using al_inv_unique [OF inv _ q, of x] by (auto simp: d' t)
    next
      case False
      then show ?thesis unfolding l using al_invD(2) [OF inv, of k x] by (auto simp: d' t)
    qed
  qed
qed

lemma remove_first_ok:
  assumes bt: "btree_ok bt items" and "al_inv items d" and "i + n \<le> length (peerByTime d)"
    and "\<forall>j. i \<le> j \<and> j < i + n \<longrightarrow> peerByTime d ! j \<noteq> None"
  shows "\<exists>d'. remove_first bt i n d = Some d' \<and> al_inv items d' \<and> same_client d d' \<and>
    live d' \<subseteq> live d \<and> card (live d') = card (live d) - n \<and> dom (items (peerByPriority d')) \<subseteq> dom (items (peerByPriority d))"
  using assms(2-4)
proof (induction n arbitrary: i d)
  case (Suc n)
  then obtain q where q: "peerByTime d ! i = Some q" "i < length (peerByTime d)" by fastforce
  then have ql: "q \<in> live d" using nth_mem [of i "peerByTime d"] by (simp add: live_def)
  have iq: "pa_index (al_store d q) = i" using Suc.prems(1) q by (auto simp: al_inv_def)
  define t where "t = fst (bt_Delete bt (priority (al_store d q), q) (peerByPriority d))"
  have t: "items t = (items (peerByPriority d))(priority (al_store d q) := None)"
    using bt unfolding btree_ok_def t_def by blast
  define d1 where "d1 = d\<lparr>peerByPriority := t, peerByTime := (peerByTime d)[i := None]\<rparr>"
  note del = delete_ok [OF bt Suc.prems(1) ql t, unfolded iq, OF d1_def]
  have "\<forall>j. Suc i \<le> j \<and> j < Suc i + n \<longrightarrow> peerByTime d1 ! j \<noteq> None" using Suc.prems(3) by (simp add: d1_def)
  moreover have "Suc i + n \<le> length (peerByTime d1)" using Suc.prems(2) by (simp add: d1_def)
  ultimately obtain d' where d': "remove_first bt (Suc i) n d1 = Some d'" "al_inv items d'" "same_client d1 d'"
    "live d' \<subseteq> live d1" "card (live d') = card (live d1) - n"
    "dom (items (peerByPriority d')) \<subseteq> dom (items (peerByPriority d1))"
    using Suc.IH [OF del(1)] by blast
  have "remove_first bt i (Suc n) d = Some d'" using q d'(1) by (simp add: d1_def t_def)
  moreover have "same_client d d1" by (simp add: same_client_def d1_def)
  moreover have "card (live d1) = card (live d) - 1" using del(2) ql finite_live by simp
  moreover have "dom (items (peerByPriority d1)) \<subseteq> dom (items (peerByPriority d))" using t by (auto simp: d1_def)
  moreover have "same_client d d'" using \<open>same_client d d1\<close> d'(3) by (rule same_client_trans)
  moreover have "live d' \<subseteq> live d" "dom (items (peerByPriority d')) \<subseteq> dom (items (peerByPriority d))"
    using d'(4,6) del(2) \<open>dom (items (peerByPriority d1)) \<subseteq> _\<close> by blast+
  ultimately show ?case using d'(2,5) by (intro exI [of _ d']) simp
qed (simp add: same_client_def)

lemma remove_first_length: "remove_first bt i n d = Some d' \<Longrightarrow> length (peerByTime d') = length (peerByTime d)"
  by (induction bt i n d arbitrary: d' rule: remove_first.induct) (auto split: Option.bind_splits)

lemma Len_eq: "btree_ok bt items \<Longrightarrow> al_inv items d \<Longrightarrow> al_Len bt d = int (card (live d))"
  using card_live [of items d] by (simp add: al_Len_def btree_ok_def)

lemma tidy_length: "al_inv items d \<Longrightarrow> tidy d \<Longrightarrow> length (peerByTime d) = card (live d)"
proof -
  assume inv: "al_inv items d" and t: "tidy d"
  have "somes xs = map the xs" if "None \<notin> set xs" for xs :: "ptr option list"
    using that
  proof (induction xs)
    case (Cons a xs)
    then show ?case by (cases a) simp_all
  qed simp
  then have "length (ptrs d) = length (peerByTime d)" using t by (simp add: ptrs_def tidy_def)
  then show ?thesis using distinct_card [OF distinct_ptrs [OF inv]] set_ptrs [of d] by simp
qed

lemma Push_ok:
  assumes bt: "btree_ok bt items" and inv: "al_inv items d" and dial: "dialable d ads" and mx: "0 \<le> maxItems d"
  shows "\<exists>d' cs'. Push bt cs now ads src d = Some (d', cs') \<and> al_inv items d' \<and> same_client d d' \<and> tidy d' \<and>
    al_Len bt d' = min (maxItems d) (int (card (dom (items (peerByPriority d)) \<union> prios d ads))) \<and>
    dom (items (peerByPriority d')) \<subseteq> dom (items (peerByPriority d)) \<union> prios d ads"
proof -
  let ?D = "dom (items (peerByPriority d)) \<union> prios d ads"
  obtain d1 a where 1: "push_loop bt now src ads (d, 0) = Some (d1, a)" "al_inv items d1" "same_client d d1"
    "dom (items (peerByPriority d1)) = ?D"
    using push_loop_ok [OF bt inv dial] by blast
  note f = filterNils_ok [OF 1(2) 1(2)]
  obtain d2 cs2 where s2: "sortByTimestamp cs (filterNils d1) = (d2, cs2)" by (metis surj_pair)
  note 2 = sortByTimestamp_ok [OF f(1) s2]
  define d3 where "d3 = add_source src a d2"
  have 3: "al_inv items d3" "tidy d3" "same_client d d3" "dom (items (peerByPriority d3)) = ?D"
    using 1 2 f by (simp_all add: d3_def tidy_def same_client_def)
  have len3: "al_Len bt d3 = int (card ?D)" "card (live d3) = card ?D" "length (peerByTime d3) = card ?D"
    using card_live [OF 3(1)] Len_eq [OF bt 3(1)] tidy_length [OF 3(1,2)] 3(4) by simp_all
  have mx3: "maxItems d3 = maxItems d" "maxItems d2 = maxItems d" using 3(3) by (simp_all add: same_client_def d3_def)
  show ?thesis
  proof (cases "al_Len bt d3 - maxItems d3 > 0")
    case False
    then have "Push bt cs now ads src d = Some (d3, cs2)"
      using 1(1) s2 len3 mx3 by (simp add: Push_def Let_def d3_def [symmetric])
    moreover have "al_Len bt d3 = min (maxItems d) (int (card ?D))" using False len3 mx3 by simp
    ultimately show ?thesis using 3 by blast
  next
    case True
    define n where "n = nat (al_Len bt d3 - maxItems d3)"
    have n: "int n = int (card ?D) - maxItems d" "n \<le> card ?D" using True len3 mx3 mx by (simp_all add: n_def)
    have B: "\<forall>j. 0 \<le> j \<and> j < 0 + n \<longrightarrow> peerByTime d3 ! j \<noteq> None"
    proof (intro allI impI)
      fix j assume "0 \<le> j \<and> j < 0 + n"
      then have "peerByTime d3 ! j \<in> set (peerByTime d3)" using n(2) len3(3) by simp
      then show "peerByTime d3 ! j \<noteq> None" using 3(2) unfolding tidy_def by metis
    qed
    have A: "0 + n \<le> length (peerByTime d3)" using n(2) len3(3) by simp
    obtain d4 where 4: "remove_first bt 0 n d3 = Some d4" "al_inv items d4" "same_client d3 d4"
      "card (live d4) = card (live d3) - n" "dom (items (peerByPriority d4)) \<subseteq> dom (items (peerByPriority d3))"
      using remove_first_ok [OF bt 3(1) A B] by blast
    note g = filterNils_ok [OF 4(2) 4(2)]
    define d5 where "d5 = add_source src (- (al_Len bt d3 - maxItems d3)) (filterNils d4)"
    have 5: "al_inv items d5" "tidy d5" using g(1,2) by (simp_all add: d5_def tidy_def)
    have 6: "same_client d d5" using g(3) 4(3) 3(3) by (simp add: d5_def same_client_def)
    have 7: "dom (items (peerByPriority d5)) \<subseteq> ?D" using 4(5) 3(4) by (simp add: d5_def g(4))
    have "length (peerByTime d5) = card (live d4)" using g(5) by (simp add: d5_def)
    moreover have "al_Len bt d5 = int (card (live d5))" by (rule Len_eq [OF bt 5(1)])
    moreover have "card (live d5) = card (live d4)" using tidy_length [OF 5] calculation(1) by simp
    ultimately have len5: "al_Len bt d5 = int (length (peerByTime d5))" "al_Len bt d5 = maxItems d"
      using 4(4) len3(2) n by simp_all
    have "Push bt cs now ads src d = Some (d5, cs2)"
      using 1(1) s2 4(1) True len5(1) mx3
      by (simp add: Push_def Let_def d3_def [symmetric] removeExcessItems_def n_def d5_def)
    moreover have "al_Len bt d5 = min (maxItems d) (int (card ?D))" using len5(2) n(1) by simp
    ultimately show ?thesis using 5 6 7 by blast
  qed
qed

lemma Pop_ok:
  assumes bt: "btree_ok bt items" and inv: "al_inv items d"
  shows "\<exists>r d'. Pop bt d = Some (r, d') \<and> al_inv items d' \<and> same_client d d' \<and>
    (if dom (items (peerByPriority d)) = {} then r = None \<and> live d' = live d
     else \<exists>x\<in>live d. priority (al_store d x) = Max (dom (items (peerByPriority d))) \<and>
       r = Some (pr (al_store d x), pa_source (al_store d x)) \<and> live d' = live d - {x})"
proof (cases "dom (items (peerByPriority d)) = {}")
  case True
  then obtain t where t: "DeleteMax bt (peerByPriority d) = (t, None)" "items t = Map.empty"
    using bt unfolding btree_ok_def by (metis prod.collapse)
  have "al_inv items (d\<lparr>peerByPriority := t\<rparr>)" using inv True t(2) by (auto simp: al_inv_def live_def)
  then show ?thesis using True t(1) by (simp add: Pop_def same_client_def live_def)
next
  case False
  let ?k = "Max (dom (items (peerByPriority d)))"
  define q where "q = the (items (peerByPriority d) ?k)"
  define t where "t = fst (DeleteMax bt (peerByPriority d))"
  have t: "items t = (items (peerByPriority d))(?k := None)" "snd (DeleteMax bt (peerByPriority d)) = Some (?k, q)"
    using bt False unfolding btree_ok_def t_def q_def by blast+
  then have del: "DeleteMax bt (peerByPriority d) = (t, Some (?k, q))" by (metis prod.collapse t_def)
  have "finite (dom (items (peerByPriority d)))"
    using card_live [OF inv] finite_live [of d] by (metis False al_invD(2) [OF inv] card.infinite card_eq_0_iff domIff empty_iff equals0I not_Some_eq)
  then have "?k \<in> dom (items (peerByPriority d))" using False by simp
  then have "items (peerByPriority d) ?k = Some q" by (auto simp: q_def)
  then have q: "q \<in> live d" "priority (al_store d q) = ?k" using al_invD(2) [OF inv] by simp_all
  define d' where "d' = d\<lparr>peerByPriority := t, peerByTime := (peerByTime d)[pa_index (al_store d q) := None]\<rparr>"
  have ok: "al_inv items d'" "live d' = live d - {q}" by (rule delete_ok [OF bt inv q(1) _ d'_def], simp add: t q(2))+
  have "Pop bt d = Some (Some (pr (al_store d q), pa_source (al_store d q)), add_source (pa_source (al_store d q)) (- 1) d')"
    using al_inv_index [OF inv q(1)] by (simp add: Pop_def del Let_def d'_def)
  moreover have "same_client d (add_source (pa_source (al_store d q)) (- 1) d')" by (simp add: same_client_def d'_def)
  ultimately show ?thesis using False ok q by (auto simp: live_def)
qed

lemma al_inv_New: "btree_ok bt items \<Longrightarrow> al_inv items (NewAddrList bt mx client)"
  by (simp add: al_inv_def NewAddrList_def live_def btree_ok_def)

lemma al_inv_Reset: "btree_ok bt items \<Longrightarrow> al_inv items (al_Reset bt d)"
  by (simp add: al_inv_def al_Reset_def live_def btree_ok_def)

section \<open>A tree\<close>

text \<open>An association list without duplicates shows that \<open>btree_ok\<close> can hold.\<close>

definition alist_max :: "(u32 \<times> ptr) list \<Rightarrow> u32" where
  "alist_max t = foldr max (map fst t) 0"

definition alist_tree :: "(u32 \<times> ptr) list btree" where
  "alist_tree = \<lparr>bt_New = [],
     ReplaceOrInsert = (\<lambda>(k, p) t. ((k, p) # AList.delete k t, map_option (Pair k) (map_of t k))),
     DeleteMax = (\<lambda>t. if t = [] then ([], None)
       else (AList.delete (alist_max t) t, Some (alist_max t, the (map_of t (alist_max t))))),
     bt_Delete = (\<lambda>(k, p) t. (AList.delete k t, map_option (Pair k) (map_of t k))),
     bt_Clear = (\<lambda>_. []), bt_Len = (\<lambda>t. int (length (remdups (map fst t))))\<rparr>"

lemma alist_max_Max: "t \<noteq> [] \<Longrightarrow> alist_max t = Max (fst ` set t)"
proof (induction t)
  case (Cons x t)
  then show ?case by (cases "t = []") (simp_all add: alist_max_def)
qed simp

lemma alist_tree_ok: "btree_ok alist_tree map_of"
  unfolding btree_ok_def alist_tree_def
  by (auto simp: dom_map_of_conv_image_fst delete_conv alist_max_Max fun_eq_iff
      length_remdups_card_conv)

section \<open>Properties\<close>

text \<open>
  C35: \<open>Push\<close> never finds its two data structures out of sync: from a consistent list it takes the
  addresses in, drops the oldest ones above \<open>maxItems\<close> and leaves a consistent list.
\<close>

theorem push_keeps_in_sync:
  assumes "btree_ok bt items" and "al_inv items d" and "dialable d ads" and "0 \<le> maxItems d"
  shows "\<exists>d' cs'. Push bt cs now ads src d = Some (d', cs') \<and> al_inv items d' \<and>
    al_Len bt d' = min (maxItems d) (int (card (dom (items (peerByPriority d)) \<union> prios d ads))) \<and>
    dom (items (peerByPriority d')) \<subseteq> dom (items (peerByPriority d)) \<union> prios d ads"
  using Push_ok [OF assms, of cs now src] by blast

definition sample_addr :: "string \<Rightarrow> byte \<Rightarrow> AddrInfo" where
  "sample_addr i x = \<lparr>ai_ID = i, ai_Addrs = [\<lparr>ma_ip4 = Some [1, 2, 3, x], ma_tcp = Some 4001\<rparr>]\<rparr>"

definition sample_list :: "item list AddrList" where
  "sample_list = NewAddrList alist_tree 1 (sample_addr ''me'' 9)"

lemma sample_list_ok: "al_inv map_of sample_list" "dialable sample_list [sample_addr ''a'' 1, sample_addr ''b'' 2]"
  unfolding sample_list_def by (rule al_inv_New [OF alist_tree_ok])
    (simp add: dialable_def NewAddrList_def first_tcp_def sample_addr_def GetExternalFirstTcp_def isPublicIP_def)

theorem push_keeps_in_sync_witness:
  "\<exists>d' cs'. Push alist_tree [] 0 [sample_addr ''a'' 1, sample_addr ''b'' 2] DHT sample_list = Some (d', cs') \<and>
     al_Len alist_tree d' \<le> 1"
proof -
  have mx: "maxItems sample_list = 1" by (simp add: sample_list_def NewAddrList_def)
  obtain d' cs' where "Push alist_tree [] 0 [sample_addr ''a'' 1, sample_addr ''b'' 2] DHT sample_list = Some (d', cs')"
    "al_Len alist_tree d' = min (maxItems sample_list)
      (int (card (dom (map_of (peerByPriority sample_list)) \<union> prios sample_list [sample_addr ''a'' 1, sample_addr ''b'' 2])))"
    using push_keeps_in_sync [OF alist_tree_ok sample_list_ok] mx by fastforce
  then show ?thesis using mx by auto
qed

text \<open>
  \<open>Pop\<close> returns the address with the highest priority and removes exactly it; it returns nothing
  only when the list is empty.
\<close>

lemma pop_highest_priority:
  assumes "btree_ok bt items" and "al_inv items d"
  shows "\<exists>r d'. Pop bt d = Some (r, d') \<and> al_inv items d' \<and>
    (if live d = {} then r = None \<and> live d' = {}
     else \<exists>x\<in>live d. (\<forall>y\<in>live d. priority (al_store d y) \<le> priority (al_store d x)) \<and>
       r = Some (pr (al_store d x), pa_source (al_store d x)) \<and> live d' = live d - {x})"
proof -
  let ?M = "dom (items (peerByPriority d))"
  have M: "?M = (\<lambda>x. priority (al_store d x)) ` live d" using al_invD(2) [OF assms(2)] by (auto simp: image_iff)
  then have fin: "finite ?M" using finite_live by simp
  have "priority (al_store d y) \<le> Max ?M" if "y \<in> live d" for y using that M fin by simp
  moreover have e: "?M = {} \<longleftrightarrow> live d = {}" using M by simp
  moreover obtain r d' where "Pop bt d = Some (r, d')" "al_inv items d'"
    "if ?M = {} then r = None \<and> live d' = live d
     else \<exists>x\<in>live d. priority (al_store d x) = Max ?M \<and>
       r = Some (pr (al_store d x), pa_source (al_store d x)) \<and> live d' = live d - {x}"
    using Pop_ok [OF assms] by blast
  ultimately show ?thesis by (cases "live d = {}") (simp, metis)
qed

theorem pop_highest_priority_witness:
  "\<exists>d'. Pop alist_tree sample_list = Some (None, d')"
  using pop_highest_priority [OF alist_tree_ok sample_list_ok(1)]
  by (auto simp: sample_list_def NewAddrList_def live_def)

text \<open>The priority of two addresses is canonical: both ends compute the same number (BEP 40).\<close>

lemma priority_canonical: "Calculate a b = Calculate b a"
proof -
  have "calculateBytes b a = (snd (calculateBytes a b), fst (calculateBytes a b))"
    by (simp add: calculateBytes_def ipv4Mask_sym [of "IP a"] Let_def)
  then show ?thesis using bytes_less_total bytes_less_asym
    by (auto simp: Calculate_def split_beta Let_def) (metis bytes_less_total)
qed

text \<open>
  Of a batch of discovered peers only one is kept.  \<open>handleNewPeers\<close> pushes \<open>ToAddrs(addrs)\<close>, whose
  elements all point to the last address, so the list grows by at most one entry however many peers
  were found.
\<close>

lemma discovered_peers_collapse:
  assumes "btree_ok bt items" and "al_inv items d" and "dialable d (ToAddrs addrs)" and "0 \<le> maxItems d"
  shows "\<exists>d' cs'. Push bt cs now (ToAddrs addrs) src d = Some (d', cs') \<and> al_Len bt d' \<le> al_Len bt d + 1"
proof -
  obtain d' cs' where "Push bt cs now (ToAddrs addrs) src d = Some (d', cs')"
    "al_Len bt d' = min (maxItems d) (int (card (dom (items (peerByPriority d)) \<union> prios d (ToAddrs addrs))))"
    using Push_ok [OF assms] by blast
  moreover have "prios d (ToAddrs addrs) \<subseteq> {prio d (last addrs)}" by (auto simp: prios_def ToAddrs_def split: if_splits)
  then have "card (prios d (ToAddrs addrs)) \<le> 1" by (metis card.empty card_mono finite.emptyI finite_insert card_insert_le_m1 card_1_singleton_iff is_singletonI is_singleton_altdef le_eq_less_or_eq)
  then have "card (dom (items (peerByPriority d)) \<union> prios d (ToAddrs addrs)) \<le> card (dom (items (peerByPriority d))) + 1"
    using card_Un_le [of "dom (items (peerByPriority d))" "prios d (ToAddrs addrs)"] by linarith
  moreover have "al_Len bt d = int (card (dom (items (peerByPriority d))))" using assms(1) by (simp add: al_Len_def btree_ok_def)
  ultimately show ?thesis by auto
qed

theorem discovered_peers_collapse_witness:
  "\<exists>d' cs'. Push alist_tree [] 0 (ToAddrs [sample_addr ''a'' 1, sample_addr ''b'' 2]) DHT sample_list = Some (d', cs') \<and>
     al_Len alist_tree d' \<le> 1"
proof -
  have "dialable sample_list (ToAddrs [sample_addr ''a'' 1, sample_addr ''b'' 2])"
    using sample_list_ok(2) by (auto simp: dialable_def ToAddrs_def)
  moreover have "al_Len alist_tree sample_list = 0"
    by (simp add: al_Len_def alist_tree_def sample_list_def NewAddrList_def)
  moreover have "0 \<le> maxItems sample_list" by (simp add: sample_list_def NewAddrList_def)
  ultimately show ?thesis
    using discovered_peers_collapse [OF alist_tree_ok sample_list_ok(1), of "[sample_addr ''a'' 1, sample_addr ''b'' 2]" "[]" 0 DHT]
    by simp
qed

text \<open>
  An address without an IPv4 TCP part crashes the process: \<open>Push\<close> passes a nil TCP address to
  \<open>peerpriority.Calculate\<close>, which dereferences it.  Every peer found through the DHT that listens on
  IPv6 or QUIC alone is such an address.
\<close>

lemma address_without_ip4_panics:
  assumes "wanted d ad" and "\<forall>m\<in>set (ai_Addrs ad). ma_ip4 m = None \<or> ma_tcp m = None"
  shows "Push bt cs now (ad # ads) src d = None"
proof -
  have "external_first ms = None \<and> internal_first ms = None" if "\<forall>m\<in>set ms. ma_ip4 m = None \<or> ma_tcp m = None" for ms
    using that by (induction ms) (auto split: option.splits)
  then have "first_tcp ad = None" using assms(2) by (simp add: first_tcp_def GetExternalFirstTcp_def GetInternalFirstTcp_def)
  then show ?thesis using assms(1) by (simp add: Push_def push_one_def wanted_def)
qed

theorem address_without_ip4_panics_witness:
  "Push alist_tree [] 0 [\<lparr>ai_ID = ''a'', ai_Addrs = [\<lparr>ma_ip4 = Some [1, 2, 3, 4], ma_tcp = None\<rparr>]\<rparr>] DHT sample_list = None"
  by (rule address_without_ip4_panics)
    (simp_all add: wanted_def sample_list_def NewAddrList_def sample_addr_def blocked_def)

end
