(* ===== verification/PieceCache.thy ===== *)
theory PieceCache
  imports Piece "HOL-Library.Signed_Division"
begin

text \<open>
  \<open>internal/piececache\<close> and \<open>internal/cachedpiece\<close>: blocks of pieces that were read from disk are kept in
  a cache of bounded size, shared by all torrents of a session, and served to peers from there.

  Items are shared by pointer between the map and the access list.  \<open>container/heap\<close> keeps the
  access list: its root is an item with the least \<open>lastAccessed\<close>, a choice when several have it.  The
  model runs one call after another; locks, meters and the semaphore do not appear.
\<close>

type_synonym cptr = nat

record cache_item =
  i_key :: "byte list"
  i_value :: "byte list"
  loaded :: bool
  i_err :: "io_error option"
  lastAccessed :: int

record Cache =
  c_size :: int
  maxSize :: int
  c_items :: "byte list \<rightharpoonup> cptr"
  accessList :: "cptr list"
  c_store :: "cptr \<Rightarrow> cache_item"
  c_next :: cptr

definition NewCache :: "int \<Rightarrow> Cache" where
  "NewCache mx = \<lparr>c_size = 0, maxSize = mx, c_items = Map.empty, accessList = [],
     c_store = (\<lambda>_. \<lparr>i_key = [], i_value = [], loaded = False, i_err = None, lastAccessed = 0\<rparr>), c_next = 0\<rparr>"

definition c_Clear :: "Cache \<Rightarrow> Cache" where
  "c_Clear c = c\<lparr>c_items := Map.empty, accessList := [], c_size := 0\<rparr>"

definition getItem :: "byte list \<Rightarrow> Cache \<Rightarrow> cptr \<times> Cache" where
  "getItem k c =
     (case c_items c k of
        Some i \<Rightarrow> (i, c)
      | None \<Rightarrow> let i = c_next c in
          (i, c\<lparr>c_next := Suc i, c_items := (c_items c)(k \<mapsto> i),
            c_store := (c_store c)(i := \<lparr>i_key = k, i_value = [], loaded = False, i_err = None, lastAccessed = 0\<rparr>)\<rparr>))"

text \<open>\<open>c.accessList[0]\<close>: an index out of range panics.\<close>

definition heap_root :: "choices \<Rightarrow> Cache \<Rightarrow> (cptr \<times> choices) option" where
  "heap_root cs c =
     (case sort_slice (\<lambda>i. lastAccessed (c_store c i)) cs (accessList c) of
        ([], _) \<Rightarrow> None | (i # _, cs) \<Rightarrow> Some (i, cs))"

definition removeItem :: "cptr \<Rightarrow> Cache \<Rightarrow> Cache" where
  "removeItem i c = c\<lparr>c_items := (c_items c)(i_key (c_store c i) := None),
     accessList := remove1 i (accessList c), c_size := c_size c - int (length (i_value (c_store c i)))\<rparr>"

lemma heap_root_in: "heap_root cs c = Some (i, cs') \<Longrightarrow> i \<in> set (accessList c)"
proof -
  assume h: "heap_root cs c = Some (i, cs')"
  obtain xs cs1 where s: "sort_slice (\<lambda>i. lastAccessed (c_store c i)) cs (accessList c) = (xs, cs1)"
    by (metis surj_pair)
  then have "set xs = set (accessList c)" by (metis fst_conv set_sort_slice)
  then show ?thesis using h s by (auto simp: heap_root_def split: list.splits)
qed

lemma heap_root_ex: "accessList c \<noteq> [] \<Longrightarrow> \<exists>i cs'. heap_root cs c = Some (i, cs')"
proof -
  assume ne: "accessList c \<noteq> []"
  obtain xs cs1 where s: "sort_slice (\<lambda>i. lastAccessed (c_store c i)) cs (accessList c) = (xs, cs1)"
    by (metis surj_pair)
  then have "xs \<noteq> []" using ne by (metis fst_conv length_0_conv length_sort_slice)
  then show ?thesis using s by (cases xs) (simp_all add: heap_root_def)
qed

function makeRoom :: "choices \<Rightarrow> cptr \<Rightarrow> Cache \<Rightarrow> (Cache \<times> choices) option" where
  "makeRoom cs i c =
     (if maxSize c - c_size c < int (length (i_value (c_store c i)))
      then (case heap_root cs c of None \<Rightarrow> None
            | Some (j, cs) \<Rightarrow> makeRoom cs i (removeItem j c))
      else Some (c, cs))"
  by pat_completeness auto
termination
proof (relation "measure (\<lambda>(cs, i, c). length (accessList c))", goal_cases)
  case (2 cs i c r j cs')
  then have "j \<in> set (accessList c)" by (metis heap_root_in)
  then show ?case by (auto simp: removeItem_def length_remove1 intro!: diff_less length_pos_if_in_set)
qed simp

declare makeRoom.simps [simp del]

definition handleNewItem ::
  "choices \<Rightarrow> int \<Rightarrow> cptr \<Rightarrow> Cache \<Rightarrow> ((io_error + byte list) \<times> Cache \<times> choices) option" where
  "handleNewItem cs now i c =
     (let it = c_store c i in
      case i_err it of
        Some e \<Rightarrow> Some (Inl e, c\<lparr>c_items := (c_items c)(i_key it := None)\<rparr>, cs)
      | None \<Rightarrow>
        if int (length (i_value it)) > maxSize c
        then Some (Inr (i_value it), c\<lparr>c_items := (c_items c)(i_key it := None)\<rparr>, cs)
        else do {
          (c, cs) \<leftarrow> makeRoom cs i c;
          Some (Inr (i_value it), c\<lparr>c_size := c_size c + int (length (i_value it)),
            c_store := (c_store c)(i := (c_store c i)\<lparr>lastAccessed := now\<rparr>),
            accessList := accessList c @ [i]\<rparr>, cs)
        })"

definition updateAccessTime :: "int \<Rightarrow> cptr \<Rightarrow> Cache \<Rightarrow> Cache" where
  "updateAccessTime now i c = c\<lparr>c_store := (c_store c)(i := (c_store c i)\<lparr>lastAccessed := now\<rparr>)\<rparr>"

text \<open>\<open>loader\<close> is what the loader returns, or its panic, when it is called.\<close>

definition getValue ::
  "choices \<Rightarrow> int \<Rightarrow> cptr \<Rightarrow> (byte list \<times> io_error option) option \<Rightarrow> Cache \<Rightarrow>
    ((io_error + byte list) \<times> Cache \<times> choices) option" where
  "getValue cs now i loader c =
     (let it = c_store c i in
      if loaded it then
        (case i_err it of
           Some e \<Rightarrow> Some (Inl e, c, cs)
         | None \<Rightarrow> Some (Inr (i_value it), updateAccessTime now i c, cs))
      else do {
        (v, e) \<leftarrow> loader;
        handleNewItem cs now i (c\<lparr>c_store := (c_store c)(i := it\<lparr>i_value := v, i_err := e, loaded := True\<rparr>)\<rparr>)
      })"

definition c_Get ::
  "choices \<Rightarrow> int \<Rightarrow> byte list \<Rightarrow> (byte list \<times> io_error option) option \<Rightarrow> Cache \<Rightarrow>
    ((io_error + byte list) \<times> Cache \<times> choices) option" where
  "c_Get cs now k loader c = (let (i, c) = getItem k c in getValue cs now i loader c)"

text \<open>What the timer of an item does when its time to live is over.\<close>

definition c_expire :: "cptr \<Rightarrow> Cache \<Rightarrow> Cache" where
  "c_expire i c = (if i \<in> set (accessList c) then removeItem i c else c)"

section \<open>The size of the cache is bounded\<close>

definition cached_bytes :: "Cache \<Rightarrow> int" where
  "cached_bytes c = (\<Sum>i\<leftarrow>accessList c. int (length (i_value (c_store c i))))"

definition cache_inv :: "Cache \<Rightarrow> bool" where
  "cache_inv c \<longleftrightarrow> distinct (accessList c) \<and> c_size c = cached_bytes c \<and> c_size c \<le> maxSize c \<and>
     (\<forall>k i. c_items c k = Some i \<longleftrightarrow> i \<in> set (accessList c) \<and> i_key (c_store c i) = k) \<and>
     (\<forall>i\<in>set (accessList c). i < c_next c \<and> loaded (c_store c i) \<and> i_err (c_store c i) = None)"

lemma sum_list_remove1: "x \<in> set xs \<Longrightarrow> sum_list (map f (remove1 x xs)) = sum_list (map f xs) - (f x :: int)"
  by (induction xs) auto

lemma sum_list_nonneg_len: "0 \<le> (\<Sum>i\<leftarrow>xs. int (length (g i)))"
  by (induction xs) auto

text \<open>
  Items that are loaded are in the map already and not yet in the access list: \<open>pending_inv P\<close> with the set \<open>P\<close> of
  these items; \<open>cache_inv_new p\<close> is the case of one new item whose load has ended.
\<close>

definition pending_inv :: "cptr set \<Rightarrow> Cache \<Rightarrow> bool" where
  "pending_inv P c \<longleftrightarrow> distinct (accessList c) \<and> c_size c = cached_bytes c \<and> c_size c \<le> maxSize c \<and>
     set (accessList c) \<inter> P = {} \<and>
     (\<forall>k i. c_items c k = Some i \<longleftrightarrow> (i \<in> set (accessList c) \<or> i \<in> P) \<and> i_key (c_store c i) = k) \<and>
     (\<forall>i\<in>set (accessList c). i < c_next c \<and> loaded (c_store c i) \<and> i_err (c_store c i) = None)"

definition cache_inv_new :: "cptr \<Rightarrow> Cache \<Rightarrow> bool" where
  "cache_inv_new p c \<longleftrightarrow> pending_inv {p} c \<and> p < c_next c \<and> loaded (c_store c p)"

lemma cache_inv_pending: "cache_inv c \<longleftrightarrow> pending_inv {} c"
  by (simp add: cache_inv_def pending_inv_def)

lemma removeItem_pending:
  assumes "pending_inv P c" and "j \<in> set (accessList c)"
  shows "pending_inv P (removeItem j c)"
proof -
  have sz: "cached_bytes (removeItem j c) = cached_bytes c - int (length (i_value (c_store c j)))"
    using assms(2) by (simp add: cached_bytes_def removeItem_def sum_list_remove1)
  have "distinct (accessList c)" using assms(1) by (simp add: pending_inv_def)
  then have set: "set (remove1 j (accessList c)) = set (accessList c) - {j}" by simp
  have it: "c_items c k = Some i \<longleftrightarrow> (i \<in> set (accessList c) \<or> i \<in> P) \<and> i_key (c_store c i) = k" for k i
    using assms(1) unfolding pending_inv_def by blast
  have jP: "j \<notin> P" using assms by (auto simp: pending_inv_def)
  have items: "c_items (removeItem j c) k = Some i \<longleftrightarrow> (i \<in> set (accessList c) - {j} \<or> i \<in> P) \<and> i_key (c_store c i) = k" for k i
  proof (cases "k = i_key (c_store c j)")
    case True
    have "c_items c k = Some j" using it assms(2) True by blast
    then show ?thesis using it [of k i] True jP by (auto simp: removeItem_def)
  next
    case False
    then show ?thesis using it [of k i] by (auto simp: removeItem_def)
  qed
  have acc: "accessList (removeItem j c) = remove1 j (accessList c)" "c_store (removeItem j c) = c_store c"
    "c_next (removeItem j c) = c_next c" "maxSize (removeItem j c) = maxSize c"
    "c_size (removeItem j c) = c_size c - int (length (i_value (c_store c j)))"
    by (simp_all add: removeItem_def)
  from assms(1) have c: "distinct (accessList c)" "c_size c = cached_bytes c" "c_size c \<le> maxSize c" "set (accessList c) \<inter> P = {}"
    "\<forall>i\<in>set (accessList c). i < c_next c \<and> loaded (c_store c i) \<and> i_err (c_store c i) = None"
    unfolding pending_inv_def by blast+
  show ?thesis
    unfolding pending_inv_def acc set items sz using c by auto
qed

lemma makeRoom_pending:
  assumes "pending_inv P c" and "int (length (i_value (c_store c p))) \<le> maxSize c"
  shows "\<exists>c' cs'. makeRoom cs p c = Some (c', cs') \<and> pending_inv P c' \<and> c_store c' = c_store c \<and>
    maxSize c' = maxSize c \<and> c_next c' = c_next c \<and> set (accessList c') \<subseteq> set (accessList c) \<and>
    c_size c' + int (length (i_value (c_store c p))) \<le> maxSize c"
  using assms
proof (induction cs p c rule: makeRoom.induct)
  case (1 cs p c)
  show ?case
  proof (cases "maxSize c - c_size c < int (length (i_value (c_store c p)))")
    case False
    then show ?thesis using 1(2,3) by (subst makeRoom.simps) simp
  next
    case True
    then have "accessList c \<noteq> []" using 1(2,3) by (auto simp: pending_inv_def cached_bytes_def)
    from heap_root_ex [OF this] obtain j cs1 where r: "heap_root cs c = Some (j, cs1)" by blast
    note j = heap_root_in [OF r]
    have "\<exists>c' cs'. makeRoom cs1 p (removeItem j c) = Some (c', cs') \<and> pending_inv P c' \<and>
        c_store c' = c_store (removeItem j c) \<and> maxSize c' = maxSize (removeItem j c) \<and> c_next c' = c_next (removeItem j c) \<and>
        set (accessList c') \<subseteq> set (accessList (removeItem j c)) \<and>
        c_size c' + int (length (i_value (c_store (removeItem j c) p))) \<le> maxSize (removeItem j c)"
      by (rule 1(1) [OF True r refl removeItem_pending [OF 1(2) j]]) (use 1(3) in \<open>simp add: removeItem_def\<close>)
    then show ?thesis using True r
      by (subst makeRoom.simps) (auto simp: removeItem_def dest!: set_remove1_subset [THEN subsetD])
  qed
qed

lemma makeRoom_ok:
  assumes "cache_inv_new p c" and "int (length (i_value (c_store c p))) \<le> maxSize c"
  shows "\<exists>c' cs'. makeRoom cs p c = Some (c', cs') \<and> cache_inv_new p c' \<and> c_store c' = c_store c \<and>
    maxSize c' = maxSize c \<and> c_next c' = c_next c \<and> set (accessList c') \<subseteq> set (accessList c) \<and>
    c_size c' + int (length (i_value (c_store c p))) \<le> maxSize c"
  using makeRoom_pending [of "{p}" c p cs] assms unfolding cache_inv_new_def by fastforce

lemma cache_inv_new_iff:
  "cache_inv_new p c \<longleftrightarrow> distinct (accessList c) \<and> c_size c = cached_bytes c \<and> c_size c \<le> maxSize c \<and>
     p \<notin> set (accessList c) \<and> p < c_next c \<and> loaded (c_store c p) \<and>
     (\<forall>k i. c_items c k = Some i \<longleftrightarrow> (i \<in> set (accessList c) \<or> i = p) \<and> i_key (c_store c i) = k) \<and>
     (\<forall>i\<in>set (accessList c). i < c_next c \<and> loaded (c_store c i) \<and> i_err (c_store c i) = None)"
  unfolding cache_inv_new_def pending_inv_def singleton_iff disjoint_insert inf_bot_right
  by blast

text \<open>What the cache holds for a key.\<close>

definition cached :: "Cache \<Rightarrow> byte list \<Rightarrow> byte list option" where
  "cached c k = map_option (\<lambda>i. i_value (c_store c i)) (c_items c k)"

definition loaded_result :: "byte list \<times> io_error option \<Rightarrow> io_error + byte list" where
  "loaded_result l = (case snd l of Some e \<Rightarrow> Inl e | None \<Rightarrow> Inr (fst l))"

lemma cache_invD:
  "cache_inv c \<Longrightarrow> c_items c k = Some i \<longleftrightarrow> i \<in> set (accessList c) \<and> i_key (c_store c i) = k"
  "cache_inv c \<Longrightarrow> i \<in> set (accessList c) \<Longrightarrow> i < c_next c \<and> loaded (c_store c i) \<and> i_err (c_store c i) = None"
  unfolding cache_inv_def by blast+

lemma cached_bytes_cong:
  "accessList c' = accessList c \<Longrightarrow> (\<And>i. i \<in> set (accessList c) \<Longrightarrow> i_value (c_store c' i) = i_value (c_store c i)) \<Longrightarrow>
    cached_bytes c' = cached_bytes c"
  by (simp add: cached_bytes_def cong: map_cong)

text \<open>\<open>keeps k v c c'\<close>: from \<open>c\<close> to \<open>c'\<close> entries may only go away, except that \<open>k\<close> may hold \<open>v\<close>.\<close>

definition keeps :: "byte list \<Rightarrow> byte list \<Rightarrow> Cache \<Rightarrow> Cache \<Rightarrow> bool" where
  "keeps k v c c' \<longleftrightarrow> maxSize c' = maxSize c \<and> cached c' k \<in> {None, Some v} \<and>
     (\<forall>k'. k' \<noteq> k \<longrightarrow> cached c' k' \<in> {None, cached c k'})"

lemma Get_hit:
  assumes inv: "cache_inv c" and hit: "cached c k = Some v"
  shows "\<exists>c'. c_Get cs now k loader c = Some (Inr v, c', cs) \<and> cache_inv c' \<and> keeps k v c c'"
proof -
  obtain i where i: "c_items c k = Some i" "v = i_value (c_store c i)" using hit by (auto simp: cached_def)
  then have il: "i \<in> set (accessList c)" using cache_invD(1) [OF inv] by blast
  note li = cache_invD(2) [OF inv il]
  have "c_Get cs now k loader c = Some (Inr v, updateAccessTime now i c, cs)"
    using i li by (simp add: c_Get_def getItem_def getValue_def)
  moreover have "cached_bytes (updateAccessTime now i c) = cached_bytes c"
    by (rule cached_bytes_cong) (simp_all add: updateAccessTime_def)
  then have "cache_inv (updateAccessTime now i c)"
    using inv by (auto simp: cache_inv_def updateAccessTime_def)
  moreover have "cached (updateAccessTime now i c) = cached c"
    by (auto simp: cached_def updateAccessTime_def fun_eq_iff map_option_case split: option.splits)
  then have "keeps k v c (updateAccessTime now i c)" using hit by (simp add: keeps_def updateAccessTime_def)
  ultimately show ?thesis by blast
qed

text \<open>The state after a miss: the new item \<open>p\<close> is loaded.\<close>

lemma load_new:
  assumes inv: "cache_inv c" and miss: "c_items c k = None" and p: "p = c_next c"
    and c1: "c1 = c\<lparr>c_next := Suc p, c_items := (c_items c)(k \<mapsto> p), c_store := (c_store c)(p := it)\<rparr>"
    and it: "i_key it = k" "loaded it"
  shows "cache_inv_new p c1" and "cached c1 = (cached c)(k \<mapsto> i_value it)"
proof -
  have fresh: "p \<notin> set (accessList c)" using cache_invD(2) [OF inv, of p] p by auto
  have other: "c_items c k' = Some i \<Longrightarrow> i \<noteq> p" for k' i using cache_invD(1) [OF inv] fresh by auto
  have "c_items c1 k' = Some i \<longleftrightarrow> (i \<in> set (accessList c1) \<or> i = p) \<and> i_key (c_store c1 i) = k'" for k' i
  proof (cases "k' = k")
    case True
    then show ?thesis using miss cache_invD(1) [OF inv, of k i] it fresh by (auto simp: c1)
  next
    case False
    then show ?thesis using cache_invD(1) [OF inv, of k' i] it other fresh by (auto simp: c1)
  qed
  moreover have "cached_bytes c1 = cached_bytes c"
    by (rule cached_bytes_cong) (use fresh in \<open>auto simp: c1\<close>)
  ultimately show "cache_inv_new p c1"
    using inv fresh it unfolding cache_inv_def cache_inv_new_iff by (auto simp: c1 p less_SucI)
  have "cached c1 k' = (if k' = k then Some (i_value it) else cached c k')" for k'
    using other [of k'] by (cases "c_items c k'") (auto simp: cached_def c1)
  then show "cached c1 = (cached c)(k \<mapsto> i_value it)" by auto
qed

text \<open>An item that is not kept leaves the map again.\<close>

lemma drop_pending:
  assumes n: "pending_inv (insert p P) c" "p \<notin> P" and k: "i_key (c_store c p) = k"
  shows "pending_inv P (c\<lparr>c_items := (c_items c)(k := None)\<rparr>)"
proof -
  have it: "c_items c k' = Some i \<longleftrightarrow> (i \<in> set (accessList c) \<or> i \<in> insert p P) \<and> i_key (c_store c i) = k'" for k' i
    using n(1) unfolding pending_inv_def by blast
  have p: "c_items c k = Some p" "p \<notin> set (accessList c)"
    using it [of k p] k n by (auto simp: pending_inv_def)
  have "((c_items c)(k := None)) k' = Some i \<longleftrightarrow> (i \<in> set (accessList c) \<or> i \<in> P) \<and> i_key (c_store c i) = k'" for k' i
  proof (cases "k' = k")
    case True
    then show ?thesis using it [of k i] p n(2) by auto
  next
    case False
    then show ?thesis using it [of k' i] k by auto
  qed
  moreover have "cached_bytes (c\<lparr>c_items := (c_items c)(k := None)\<rparr>) = cached_bytes c"
    by (rule cached_bytes_cong) simp_all
  ultimately show ?thesis using n unfolding pending_inv_def by simp
qed

lemma drop_new:
  assumes "cache_inv_new p c1" and "i_key (c_store c1 p) = k"
  shows "cache_inv (c1\<lparr>c_items := (c_items c1)(k := None)\<rparr>)"
  using drop_pending [of p "{}" c1 k] assms unfolding cache_inv_new_def cache_inv_pending by simp

text \<open>An item for which room was made enters the access list.\<close>

lemma insert_pending:
  assumes n: "pending_inv (insert p P) c2" "p \<notin> P" and e: "i_err (c_store c2 p) = None" "loaded (c_store c2 p)" "p < c_next c2"
    and fit: "c_size c2 + int (length (i_value (c_store c2 p))) \<le> maxSize c2"
    and c3: "c3 = c2\<lparr>c_size := c_size c2 + int (length (i_value (c_store c2 p))),
      c_store := (c_store c2)(p := (c_store c2 p)\<lparr>lastAccessed := now\<rparr>), accessList := accessList c2 @ [p]\<rparr>"
  shows "pending_inv P c3" and "cached c3 = cached c2"
proof -
  have fresh: "p \<notin> set (accessList c2)" using n(1) unfolding pending_inv_def by blast
  have "(\<Sum>i\<leftarrow>accessList c2. int (length (i_value (c_store c3 i)))) = cached_bytes c2"
    unfolding cached_bytes_def by (intro arg_cong [of _ _ sum_list] map_cong) (use fresh in \<open>auto simp: c3\<close>)
  then have "cached_bytes c3 = cached_bytes c2 + int (length (i_value (c_store c2 p)))"
    by (simp add: cached_bytes_def c3)
  moreover have "c_items c3 k = Some i \<longleftrightarrow> (i \<in> set (accessList c3) \<or> i \<in> P) \<and> i_key (c_store c3 i) = k" for k i
    using n unfolding pending_inv_def by (auto simp: c3)
  moreover have "distinct (accessList c2)" "c_size c2 = cached_bytes c2" "set (accessList c2) \<inter> insert p P = {}"
    "\<forall>i\<in>set (accessList c2). i < c_next c2 \<and> loaded (c_store c2 i) \<and> i_err (c_store c2 i) = None"
    using n(1) unfolding pending_inv_def by blast+
  ultimately show "pending_inv P c3"
    using e fit fresh n(2) unfolding pending_inv_def by (auto simp: c3)
  show "cached c3 = cached c2"
    by (auto simp: cached_def c3 fun_eq_iff map_option_case split: option.splits)
qed

lemma insert_new:
  assumes "cache_inv_new p c2" and "i_err (c_store c2 p) = None"
    and "c_size c2 + int (length (i_value (c_store c2 p))) \<le> maxSize c2"
    and "c3 = c2\<lparr>c_size := c_size c2 + int (length (i_value (c_store c2 p))),
      c_store := (c_store c2)(p := (c_store c2 p)\<lparr>lastAccessed := now\<rparr>), accessList := accessList c2 @ [p]\<rparr>"
  shows "cache_inv c3" and "cached c3 = cached c2"
  using insert_pending [of p "{}" c2 c3 now] assms unfolding cache_inv_new_def cache_inv_pending by simp_all

lemma Get_miss:
  assumes inv: "cache_inv c" and mx: "0 \<le> maxSize c" and miss: "cached c k = None"
  shows "\<exists>c' cs'. c_Get cs now k (Some l) c = Some (loaded_result l, c', cs') \<and> cache_inv c' \<and> keeps k (fst l) c c'"
proof -
  obtain v e where l: "l = (v, e)" by force
  have none: "c_items c k = None" using miss by (simp add: cached_def)
  define p where "p = c_next c"
  define it where "it = \<lparr>i_key = k, i_value = v, loaded = True, i_err = e, lastAccessed = 0\<rparr>"
  define c1 where "c1 = c\<lparr>c_next := Suc p, c_items := (c_items c)(k \<mapsto> p), c_store := (c_store c)(p := it)\<rparr>"
  note c1 = load_new [OF inv none p_def c1_def]
  have n1: "cache_inv_new p c1" and cd1: "cached c1 = (cached c)(k \<mapsto> v)" using c1 by (simp_all add: it_def)
  have st1: "c_store c1 p = it" "maxSize c1 = maxSize c" by (simp_all add: c1_def)
  have get: "c_Get cs now k (Some l) c = handleNewItem cs now p c1"
    by (simp add: c_Get_def getItem_def none getValue_def l p_def it_def c1_def Let_def)
  define cd where "cd = c1\<lparr>c_items := (c_items c1)(k := None)\<rparr>"
  have dropped: "cache_inv cd" "keeps k (fst l) c cd"
  proof -
    show "cache_inv cd" unfolding cd_def by (rule drop_new [OF n1]) (simp add: st1 it_def)
    have "cached cd k' = (if k' = k then None else cached c1 k')" for k' by (simp add: cached_def cd_def)
    then show "keeps k (fst l) c cd" by (simp add: keeps_def cd1) (simp add: cd_def st1)
  qed
  show ?thesis
  proof (cases "e = None \<and> int (length v) \<le> maxSize c")
    case False
    then have "handleNewItem cs now p c1 = Some (loaded_result l, cd, cs)"
      by (cases e) (simp_all add: handleNewItem_def Let_def st1 it_def loaded_result_def l cd_def)
    then show ?thesis using dropped get by auto
  next
    case True
    have len: "int (length (i_value (c_store c1 p))) \<le> maxSize c1" using True st1 by (simp add: it_def)
    obtain c2 cs2 where c2: "makeRoom cs p c1 = Some (c2, cs2)" "cache_inv_new p c2" "c_store c2 = c_store c1"
      "maxSize c2 = maxSize c1" "c_next c2 = c_next c1" "set (accessList c2) \<subseteq> set (accessList c1)"
      "c_size c2 + int (length (i_value (c_store c1 p))) \<le> maxSize c1"
      using makeRoom_ok [OF n1 len] by blast
    define c3 where "c3 = c2\<lparr>c_size := c_size c2 + int (length (i_value (c_store c2 p))),
      c_store := (c_store c2)(p := (c_store c2 p)\<lparr>lastAccessed := now\<rparr>), accessList := accessList c2 @ [p]\<rparr>"
    have "cache_inv c3" "cached c3 = cached c2"
      using insert_new [OF c2(2) _ _ c3_def] c2(3,4,7) True st1 by (simp_all add: it_def)
    moreover have "handleNewItem cs now p c1 = Some (loaded_result l, c3, cs2)"
      using True c2 by (simp add: handleNewItem_def Let_def st1 it_def loaded_result_def l c3_def)
    moreover have "cached c2 k' \<in> {None, cached c1 k'}" for k'
    proof (cases "c_items c2 k'")
      case (Some i)
      then have "(i \<in> set (accessList c2) \<or> i = p) \<and> i_key (c_store c2 i) = k'"
        using c2(2) unfolding cache_inv_new_iff by blast
      then have "(i \<in> set (accessList c1) \<or> i = p) \<and> i_key (c_store c1 i) = k'" using c2(3,6) by auto
      then have "c_items c1 k' = Some i" using n1 unfolding cache_inv_new_iff by blast
      then show ?thesis using Some c2(3) by (simp add: cached_def)
    qed (simp add: cached_def)
    then have "keeps k v c c2" using cd1 c2(4) st1 by (fastforce simp: keeps_def)
    then have "keeps k (fst l) c c3" using \<open>cached c3 = cached c2\<close> by (simp add: keeps_def l c3_def)
    ultimately show ?thesis using get by auto
  qed
qed

section \<open>Pieces read through the cache\<close>

record CachedPiece =
  cp_pi :: Piece
  readSize :: int
  cp_peerID :: "byte list"

definition cp_key :: "CachedPiece \<Rightarrow> u32 \<Rightarrow> byte list" where
  "cp_key cp b = cp_peerID cp @ put_u32 (Index (cp_pi cp)) @ put_u32 b"

definition cp_blk :: "CachedPiece \<Rightarrow> int \<Rightarrow> u32" where
  "cp_blk cp off = of_int (off sdiv readSize cp)"

definition cp_begin :: "CachedPiece \<Rightarrow> u32 \<Rightarrow> u32" where
  "cp_begin cp b = of_int (int (unat b) * readSize cp)"

definition cp_end :: "CachedPiece \<Rightarrow> u32 \<Rightarrow> u32" where
  "cp_end cp b = (let e = of_int (int (unat (cp_begin cp b)) + readSize cp)
                  in if e > p_Length (cp_pi cp) then p_Length (cp_pi cp) else e)"

text \<open>\<open>ReadAt\<close> into a buffer of \<open>n\<close> bytes returns what it copied; \<open>d\<close> is the disk.\<close>

definition cp_ReadAt ::
  "choices \<Rightarrow> int \<Rightarrow> disk \<Rightarrow> CachedPiece \<Rightarrow> nat \<Rightarrow> int \<Rightarrow> Cache \<Rightarrow>
    ((io_error + byte list) \<times> Cache \<times> choices) option" where
  "cp_ReadAt cs now d cp n off c =
     (if readSize cp = 0 then None
      else let b = cp_blk cp off; bgn = cp_begin cp b; fin = cp_end cp b in do {
        (r, c, cs) \<leftarrow> c_Get cs now (cp_key cp b)
          (ReadAt d (Data (cp_pi cp)) (unat (fin - bgn)) (int (unat bgn))) c;
        case r of
          Inl e \<Rightarrow> Some (Inl e, c, cs)
        | Inr buf \<Rightarrow>
            let i = off - int (unat bgn) in
            if 0 \<le> i \<and> i \<le> int (length buf) then Some (Inr (take n (drop (nat i) buf)), c, cs) else None
      })"

lemma put_u32_inject [simp]: "put_u32 x = put_u32 y \<longleftrightarrow> x = y"
  by (metis be32_put(2))

lemma cp_key_inject [simp]: "cp_key cp b = cp_key cp b' \<longleftrightarrow> b = b'"
  by (simp add: cp_key_def)

text \<open>\<open>holds_piece d cp P\<close>: the disk has the bytes \<open>P\<close> of the piece, and so has the cache where it has them.\<close>

definition disk_piece :: "disk \<Rightarrow> Piece \<Rightarrow> byte list \<Rightarrow> bool" where
  "disk_piece d pi P \<longleftrightarrow> length P = unat (p_Length pi) \<and>
     (\<forall>off n. off + n \<le> length P \<longrightarrow> ReadAt d (Data pi) n (int off) = Some (take n (drop off P), None))"

definition piece_blk :: "CachedPiece \<Rightarrow> byte list \<Rightarrow> u32 \<Rightarrow> byte list" where
  "piece_blk cp P b = take (nat (readSize cp)) (drop (unat b * nat (readSize cp)) P)"

definition cache_agrees :: "CachedPiece \<Rightarrow> byte list \<Rightarrow> Cache \<Rightarrow> bool" where
  "cache_agrees cp P c \<longleftrightarrow>
     (\<forall>b. unat b * nat (readSize cp) < length P \<longrightarrow> cached c (cp_key cp b) \<in> {None, Some (piece_blk cp P b)})"

lemma cp_block_range:
  assumes R: "0 < readSize cp" and P: "length P = unat (p_Length (cp_pi cp))"
    and fit: "int (length P) + readSize cp < 2 ^ 32" and b: "unat b * nat (readSize cp) < length P"
  shows "unat (cp_begin cp b) = unat b * nat (readSize cp)"
    and "unat (cp_end cp b - cp_begin cp b) = length (piece_blk cp P b)"
    and "unat (cp_begin cp b) + unat (cp_end cp b - cp_begin cp b) \<le> length P"
proof -
  define r where "r = nat (readSize cp)"
  have r: "readSize cp = int r" "0 < r" using R by (simp_all add: r_def)
  have fit': "length P + r < 4294967296" using fit r by simp
  have ub: "(of_int (int n) :: u32) = of_nat n" for n by simp
  have bg: "cp_begin cp b = of_nat (unat b * r)"
    unfolding cp_begin_def r(1) of_nat_mult [symmetric] by (simp only: of_int_of_nat_eq)
  then show u: "unat (cp_begin cp b) = unat b * nat (readSize cp)"
    using b fit' by (simp add: unat_of_nat_u32 r_def del: of_nat_mult)
  have "cp_end cp b = (if of_nat (unat b * r + r) > p_Length (cp_pi cp) then p_Length (cp_pi cp) else of_nat (unat b * r + r))"
  proof -
    have "int (unat (cp_begin cp b)) + readSize cp = int (unat b * r + r)" unfolding u r(1) of_nat_add nat_int ..
    then show ?thesis unfolding cp_end_def Let_def by (simp only: of_int_of_nat_eq)
  qed
  moreover have "unat (of_nat (unat b * r + r) :: u32) = unat b * r + r"
    by (rule unat_of_nat_u32) (use b fit' in \<open>simp add: r_def\<close>)
  ultimately have e: "unat (cp_end cp b) = min (length P) (unat b * r + r)"
    using P by (auto simp: word_less_nat_alt min_def)
  moreover have "cp_begin cp b \<le> cp_end cp b" using u e b by (simp add: word_le_nat_alt r_def)
  ultimately have d: "unat (cp_end cp b - cp_begin cp b) = min (length P) (unat b * r + r) - unat b * r"
    using u by (simp add: unat_minus_u32 r_def)
  then show "unat (cp_end cp b - cp_begin cp b) = length (piece_blk cp P b)"
    using b by (simp add: piece_blk_def r_def [symmetric])
  show "unat (cp_begin cp b) + unat (cp_end cp b - cp_begin cp b) \<le> length P"
    using u d b by (simp add: r_def)
qed

lemma cp_blk_div:
  assumes "0 < readSize cp" and "off < 4294967296"
  shows "unat (cp_blk cp (int off)) = off div nat (readSize cp)"
proof -
  have "int off sdiv readSize cp = int (off div nat (readSize cp))"
    using assms(1) by (cases "readSize cp") (simp_all add: signed_divide_int_def sgn_if zdiv_int)
  moreover have "off div nat (readSize cp) < 4294967296" using assms(2) div_le_dividend [of off "nat (readSize cp)"] by linarith
  ultimately show ?thesis by (simp add: cp_blk_def unat_of_nat_u32)
qed

section \<open>Properties\<close>

text \<open>
  The cache returns for a key what it holds or else what the loader returns, its size is the
  number of bytes it holds and stays within \<open>maxSize\<close>, and no other entry changes its value.
\<close>

lemma cache_get:
  assumes "cache_inv c" and "0 \<le> maxSize c"
  shows "\<exists>r c' cs'. c_Get cs now k (Some l) c = Some (r, c', cs') \<and>
    r = (case cached c k of Some v \<Rightarrow> Inr v | None \<Rightarrow> loaded_result l) \<and>
    cache_inv c' \<and> 0 \<le> c_size c' \<and> c_size c' \<le> maxSize c \<and>
    (\<forall>k'. k' \<noteq> k \<longrightarrow> cached c' k' \<in> {None, cached c k'})"
proof (cases "cached c k")
  case None
  obtain c' cs' where "c_Get cs now k (Some l) c = Some (loaded_result l, c', cs')" "cache_inv c'" "keeps k (fst l) c c'"
    using Get_miss [OF assms None] by blast
  then show ?thesis using None sum_list_nonneg_len
    by (auto simp: keeps_def cache_inv_def cached_bytes_def)
next
  case (Some v)
  obtain c' where "c_Get cs now k (Some l) c = Some (Inr v, c', cs)" "cache_inv c'" "keeps k v c c'"
    using Get_hit [OF assms(1) Some] by blast
  then show ?thesis using Some sum_list_nonneg_len
    by (auto simp: keeps_def cache_inv_def cached_bytes_def)
qed

lemma cache_inv_New: "0 \<le> mx \<Longrightarrow> cache_inv (NewCache mx)"
  by (simp add: cache_inv_def NewCache_def cached_bytes_def)

theorem cache_get_witness:
  "\<exists>c' cs'. c_Get [] 0 [1] (Some ([5, 6], None)) (NewCache 10) = Some (Inr [5, 6], c', cs') \<and> c_size c' \<le> 10"
  using cache_get [OF cache_inv_New, of 10 "[]" 0 "[1]" "([5, 6], None)"]
  by (auto simp: NewCache_def cached_def loaded_result_def)

lemma disk_pieceD:
  "disk_piece d pi P \<Longrightarrow> off + n \<le> length P \<Longrightarrow> ReadAt d (Data pi) n (int off) = Some (take n (drop off P), None)"
  by (simp add: disk_piece_def)

lemma take_length_take: "take (length (take n xs)) xs = take n xs"
  by (simp add: min_def)

lemma cp_ReadAt_ok:
  assumes c: "cache_inv c" "0 \<le> maxSize c" "cache_agrees cp P c"
    and d: "disk_piece d (cp_pi cp) P" and R: "0 < readSize cp" and fit: "int (length P) + readSize cp < 2 ^ 32"
    and off: "off < length P"
  shows "\<exists>c' cs'. cp_ReadAt cs now d cp n (int off) c =
      Some (Inr (take n (drop (off mod nat (readSize cp)) (piece_blk cp P (of_nat (off div nat (readSize cp)))))), c', cs') \<and>
    cache_inv c' \<and> maxSize c' = maxSize c \<and> cache_agrees cp P c'"
proof -
  define r b where "r = nat (readSize cp)" and "b = cp_blk cp (int off)"
  have "int off < 4294967296" using off fit R by simp
  then have lt: "off < 4294967296" by simp
  have ub: "unat b = off div r" using cp_blk_div [OF R lt] by (simp add: b_def r_def)
  have "of_nat (unat b) = b" by simp
  then have beq: "b = of_nat (off div r)" by (simp only: ub)
  have blt: "unat b * nat (readSize cp) < length P"
    using off ub by (metis div_mult_mod_eq le_add1 le_less_trans r_def)
  have P: "length P = unat (p_Length (cp_pi cp))" using d by (simp add: disk_piece_def)
  note rng = cp_block_range [OF R P fit blt]
  let ?l = "(piece_blk cp P b, None)"
  have l: "ReadAt d (Data (cp_pi cp)) (unat (cp_end cp b - cp_begin cp b)) (int (unat (cp_begin cp b))) = Some ?l"
    unfolding disk_pieceD [OF d rng(3)] unfolding rng(1,2) piece_blk_def by (simp only: take_length_take)
  have "\<exists>c' cs'. c_Get cs now (cp_key cp b) (Some ?l) c = Some (Inr (piece_blk cp P b), c', cs') \<and> cache_inv c' \<and>
      keeps (cp_key cp b) (piece_blk cp P b) c c'"
  proof (cases "cached c (cp_key cp b)")
    case None
    then show ?thesis using Get_miss [OF c(1,2) None, of cs now ?l] by (simp add: loaded_result_def)
  next
    case (Some v)
    then have "v = piece_blk cp P b" using c(3) blt unfolding cache_agrees_def by force
    then show ?thesis using Get_hit [OF c(1) Some, of cs now "Some ?l"] by blast
  qed
  then obtain c' cs' where g: "c_Get cs now (cp_key cp b) (Some ?l) c = Some (Inr (piece_blk cp P b), c', cs')"
    "cache_inv c'" "keeps (cp_key cp b) (piece_blk cp P b) c c'" by blast
  have "cache_agrees cp P c'" unfolding cache_agrees_def
  proof (intro allI impI)
    fix b' :: u32 assume "unat b' * nat (readSize cp) < length P"
    then show "cached c' (cp_key cp b') \<in> {None, Some (piece_blk cp P b')}"
      using g(3) c(3) cp_key_inject [of cp b' b] unfolding keeps_def cache_agrees_def
      by (cases "b' = b") (blast, metis (no_types, lifting) insertCI insertE singletonD)
  qed
  moreover have i: "int off - int (unat (cp_begin cp b)) = int (off mod r)"
    using rng(1) ub by (simp only: r_def) (metis add_diff_cancel_left' of_nat_add div_mult_mod_eq)
  have "off mod r \<le> length (piece_blk cp P b)"
  proof -
    have "off = r * (off div r) + off mod r" by simp
    moreover have "off mod r < r" using R by (simp add: r_def)
    ultimately have "off mod r \<le> min r (length P - r * (off div r))" using off by linarith
    then show ?thesis by (simp add: piece_blk_def ub r_def [symmetric] mult.commute min.commute)
  qed
  then have "cp_ReadAt cs now d cp n (int off) c = Some (Inr (take n (drop (off mod r) (piece_blk cp P b))), c', cs')"
    using R g(1) unfolding cp_ReadAt_def b_def [symmetric] Let_def l i by simp
  ultimately show ?thesis using g(2,3) by (simp add: keeps_def beq r_def)
qed

text \<open>
  A read through the cache returns the bytes of the piece, cut off at the end of the cache block
  that the offset is in: \<open>ReadAt\<close> reports fewer bytes than asked for, without an error.
\<close>

lemma cached_read_is_cut_at_block:
  assumes "cache_inv c" and "0 \<le> maxSize c" and "cache_agrees cp P c" and "disk_piece d (cp_pi cp) P"
    and "0 < readSize cp" and "int (length P) + readSize cp < 2 ^ 32" and "off < length P"
  shows "\<exists>m c' cs'. cp_ReadAt cs now d cp n (int off) c = Some (Inr (take m (drop off P)), c', cs') \<and>
    m = min n (nat (readSize cp) - off mod nat (readSize cp)) \<and> cache_inv c' \<and> cache_agrees cp P c'"
proof -
  define r where "r = nat (readSize cp)"
  have "int off < 4294967296" using assms(5-7) by simp
  then have "off div r < 4294967296" using div_le_dividend [of off r] by linarith
  then have "piece_blk cp P (of_nat (off div r)) = take r (drop (off div r * r) P)"
    by (simp add: piece_blk_def r_def unat_of_nat_u32)
  then have "take n (drop (off mod r) (piece_blk cp P (of_nat (off div r)))) = take (min n (r - off mod r)) (drop off P)"
    by (simp add: drop_take take_take min.commute)
  then show ?thesis using cp_ReadAt_ok [OF assms] unfolding r_def by metis
qed

text \<open>
  Torrents share cache entries.  \<open>newTorrent2\<close> leaves \<open>peerID\<close> zero in every torrent, and the cache of
  the session is keyed by \<open>peerID\<close>, piece index and block: after a piece of one torrent was
  served, the piece of the same index of any other torrent is answered with the first one's bytes.
\<close>

lemma torrents_share_cache_entries:
  assumes "cache_inv c" and "cached c (cp_key cp (cp_blk cp off)) = Some v"
    and "cp_peerID cp' = cp_peerID cp" and "Index (cp_pi cp') = Index (cp_pi cp)" and "readSize cp' = readSize cp"
    and "0 < readSize cp" and "0 \<le> off - int (unat (cp_begin cp (cp_blk cp off)))"
    and "off - int (unat (cp_begin cp (cp_blk cp off))) \<le> int (length v)"
  shows "\<exists>c'. cp_ReadAt cs now d cp' n off c =
    Some (Inr (take n (drop (nat (off - int (unat (cp_begin cp (cp_blk cp off))))) v)), c', cs)"
proof -
  have k: "cp_blk cp' off = cp_blk cp off" "cp_key cp' b = cp_key cp b" "cp_begin cp' b = cp_begin cp b" for b
    using assms(3-5) by (simp_all add: cp_blk_def cp_key_def cp_begin_def)
  obtain c' where g: "c_Get cs now (cp_key cp (cp_blk cp off))
      (ReadAt d (Data (cp_pi cp')) (unat (cp_end cp' (cp_blk cp off) - cp_begin cp (cp_blk cp off)))
        (int (unat (cp_begin cp (cp_blk cp off))))) c = Some (Inr v, c', cs)"
    using Get_hit [OF assms(1,2)] by blast
  then have "cp_ReadAt cs now d cp' n off c =
      Some (Inr (take n (drop (nat (off - int (unat (cp_begin cp (cp_blk cp off))))) v)), c', cs)"
    using assms(5-8) unfolding cp_ReadAt_def k Let_def by simp
  then show ?thesis by blast
qed

definition sample_cp :: "Piece \<Rightarrow> CachedPiece" where
  "sample_cp pi = \<lparr>cp_pi = pi, readSize = 16384, cp_peerID = replicate 20 0\<rparr>"

lemma sample_disk_piece:
  assumes "length P = unat (p_Length pi)" and "Data pi = [\<lparr>sec_File = f, sec_Offset = 0, sec_Length = int (length P), sec_Name = nm\<rparr>]"
    and "d f = P" and "P \<noteq> []"
  shows "disk_piece d pi P"
proof -
  have "ReadAt d (Data pi) n (int off) = Some (take n (drop off P), None)" if "off + n \<le> length P" for off n
    using that assms(2-4)
    by (auto simp: ReadAt_def ReadFull_def section_reader_def Let_def)
  then show ?thesis using assms(1) by (simp add: disk_piece_def)
qed

definition sample_cp1 :: CachedPiece where
  "sample_cp1 = sample_cp \<lparr>Index = 0, p_Length = 3, Data = [\<lparr>sec_File = 1, sec_Offset = 0, sec_Length = 3, sec_Name = ''a''\<rparr>],
     p_Hash = [], Writing = False, Done = True\<rparr>"

definition sample_cp2 :: CachedPiece where
  "sample_cp2 = sample_cp \<lparr>Index = 0, p_Length = 3, Data = [\<lparr>sec_File = 2, sec_Offset = 0, sec_Length = 3, sec_Name = ''b''\<rparr>],
     p_Hash = [], Writing = False, Done = True\<rparr>"

definition sample_disk :: disk where
  "sample_disk = (\<lambda>f. if f = 1 then [1, 2, 3] else [4, 5, 6])"

definition sample_cache :: Cache where
  "sample_cache = \<lparr>c_size = 3, maxSize = 100, c_items = [cp_key sample_cp1 0 \<mapsto> 0], accessList = [0],
     c_store = (\<lambda>_. \<lparr>i_key = cp_key sample_cp1 0, i_value = [1, 2, 3], loaded = True, i_err = None, lastAccessed = 0\<rparr>),
     c_next = 1\<rparr>"

theorem cached_read_is_cut_at_block_witness:
  "\<exists>c' cs'. cp_ReadAt [] 0 sample_disk sample_cp1 5 1 (NewCache 100) = Some (Inr [2, 3], c', cs')"
proof -
  have d: "disk_piece sample_disk (cp_pi sample_cp1) [1, 2, 3]"
    by (rule sample_disk_piece [where f = 1 and nm = "''a''"]) (simp_all add: sample_cp1_def sample_cp_def sample_disk_def)
  have "cache_agrees sample_cp1 [1, 2, 3] (NewCache 100)"
    by (simp add: cache_agrees_def cached_def NewCache_def)
  moreover have "0 \<le> maxSize (NewCache 100)" by (simp add: NewCache_def)
  moreover have "0 < readSize sample_cp1" "int (length [1, 2, 3 :: byte]) + readSize sample_cp1 < 2 ^ 32"
    "1 < length [1, 2, 3 :: byte]" by (simp_all add: sample_cp1_def sample_cp_def)
  ultimately obtain m c' cs' where
    "cp_ReadAt [] 0 sample_disk sample_cp1 5 (int 1) (NewCache 100) = Some (Inr (take m (drop 1 [1, 2, 3])), c', cs')"
    "m = min 5 (nat (readSize sample_cp1) - 1 mod nat (readSize sample_cp1))"
    using cached_read_is_cut_at_block [OF cache_inv_New _ _ d, of 100 1 "[]" 0 5] by auto
  then show ?thesis by (auto simp: sample_cp1_def sample_cp_def)
qed

theorem torrents_share_cache_entries_witness:
  "sample_disk 2 = [4, 5, 6] \<and> sec_File (Data (cp_pi sample_cp2) ! 0) = 2 \<and>
   (\<exists>c'. cp_ReadAt [] 0 sample_disk sample_cp2 3 0 sample_cache = Some (Inr [1, 2, 3], c', []))"
proof -
  have inv: "cache_inv sample_cache" by (auto simp: cache_inv_def sample_cache_def cached_bytes_def)
  have b: "cp_blk sample_cp1 0 = 0" "cp_begin sample_cp1 0 = 0"
    by (simp_all add: cp_blk_def cp_begin_def sample_cp1_def sample_cp_def)
  have "cached sample_cache (cp_key sample_cp1 (cp_blk sample_cp1 0)) = Some [1, 2, 3]"
    by (simp add: b cached_def sample_cache_def)
  moreover have "cp_peerID sample_cp2 = cp_peerID sample_cp1" "Index (cp_pi sample_cp2) = Index (cp_pi sample_cp1)"
    "readSize sample_cp2 = readSize sample_cp1" "0 < readSize sample_cp1"
    by (simp_all add: sample_cp1_def sample_cp2_def sample_cp_def)
  ultimately have "\<exists>c'. cp_ReadAt [] 0 sample_disk sample_cp2 3 0 sample_cache = Some (Inr [1, 2, 3], c', [])"
    using torrents_share_cache_entries [OF inv, of sample_cp1 0 "[1, 2, 3]" sample_cp2 "[]" 0 sample_disk 3] by (simp add: b)
  then show ?thesis by (simp add: sample_disk_def sample_cp2_def sample_cp_def)
qed

end
