(* ===== verification/CacheReaders.thy ===== *)
theory CacheReaders
  imports PieceCache
begin

text \<open>
  Concurrent readers of \<open>internal/piececache\<close>.  Every connected peer has a goroutine that writes its messages and
  reads blocks through the one cache of the session, so several calls of \<open>Get\<close> run at a time.  The steps are the
  critical sections of the mutex \<open>c.m\<close>, taking and leaving the mutex of an item, and the loader; the semaphore that
  bounds the loads at a time is the one of \<open>Workers\<close>.  \<open>Clear\<close> is not a step: nothing in the repository calls it.
\<close>

section \<open>The readers\<close>

text \<open>
  Where a reader stands in \<open>Get\<close>: with the item, waiting for its mutex; loading; loaded; about to touch a loaded item; returned.
\<close>

datatype reader_at =
    Idle
  | WantsItem "byte list" cptr
  | Loading "byte list" cptr
  | Loaded "byte list" cptr
  | Touching "byte list" cptr
  | Returned "byte list" "io_error + byte list"
  | Panicked

text \<open>\<open>timers\<close> are the items whose timer has been set.\<close>

record readers =
  r_cache :: Cache
  r_timers :: "cptr set"
  r_at :: "nat \<Rightarrow> reader_at"

definition no_readers :: "int \<Rightarrow> readers" where
  "no_readers mx = \<lparr>r_cache = NewCache mx, r_timers = {}, r_at = (\<lambda>_. Idle)\<rparr>"

definition holds :: "reader_at \<Rightarrow> cptr \<Rightarrow> bool" where
  "holds a i \<longleftrightarrow> (case a of Loading _ j \<Rightarrow> i = j | Loaded _ j \<Rightarrow> i = j | Touching _ j \<Rightarrow> i = j | _ \<Rightarrow> False)"

definition item_free :: "readers \<Rightarrow> cptr \<Rightarrow> bool" where
  "item_free s i \<longleftrightarrow> (\<forall>n. \<not> holds (r_at s n) i)"

text \<open>\<open>getValue\<close> after the mutex of the item is taken.\<close>

definition locked_at :: "byte list \<Rightarrow> cptr \<Rightarrow> cache_item \<Rightarrow> reader_at" where
  "locked_at k i it =
     (if loaded it then (case i_err it of Some e \<Rightarrow> Returned k (Inl e) | None \<Rightarrow> Touching k i) else Loading k i)"

definition set_loaded :: "cptr \<Rightarrow> byte list \<times> io_error option \<Rightarrow> Cache \<Rightarrow> Cache" where
  "set_loaded i l c = c\<lparr>c_store := (c_store c)(i := (c_store c i)\<lparr>i_value := fst l, i_err := snd l, loaded := True\<rparr>)\<rparr>"

lemma set_loaded_simps [simp]:
  "c_store (set_loaded i l c) j = (if j = i then (c_store c i)\<lparr>i_value := fst l, i_err := snd l, loaded := True\<rparr> else c_store c j)"
  "c_items (set_loaded i l c) = c_items c" "accessList (set_loaded i l c) = accessList c" "c_next (set_loaded i l c) = c_next c"
  "c_size (set_loaded i l c) = c_size c" "maxSize (set_loaded i l c) = maxSize c"
  by (simp_all add: set_loaded_def)

text \<open>\<open>handleNewItem\<close> sets a timer when it keeps the item.\<close>

definition new_timers :: "cptr \<Rightarrow> Cache \<Rightarrow> cptr set" where
  "new_timers i c = (if i_err (c_store c i) = None \<and> int (length (i_value (c_store c i))) \<le> maxSize c then {i} else {})"

text \<open>
  \<open>src\<close> is what the disk holds for a key.  \<open>updateAccessTime\<close> resets the timer of the item, a nil pointer when there is none.
\<close>

inductive readers_step :: "(byte list \<Rightarrow> byte list) \<Rightarrow> readers \<Rightarrow> readers \<Rightarrow> bool" for src where
  get: "r_at s n = Idle \<Longrightarrow> getItem k (r_cache s) = (i, c) \<Longrightarrow>
    readers_step src s (s\<lparr>r_cache := c, r_at := (r_at s)(n := WantsItem k i)\<rparr>)"
| lock: "r_at s n = WantsItem k i \<Longrightarrow> item_free s i \<Longrightarrow>
    readers_step src s (s\<lparr>r_at := (r_at s)(n := locked_at k i (c_store (r_cache s) i))\<rparr>)"
| load: "r_at s n = Loading k i \<Longrightarrow> snd l = None \<longrightarrow> fst l = src k \<Longrightarrow>
    readers_step src s (s\<lparr>r_cache := set_loaded i l (r_cache s), r_at := (r_at s)(n := Loaded k i)\<rparr>)"
| keep: "r_at s n = Loaded k i \<Longrightarrow> handleNewItem cs now i (r_cache s) = Some (v, c, cs') \<Longrightarrow>
    readers_step src s (s\<lparr>r_cache := c, r_timers := r_timers s \<union> new_timers i (r_cache s), r_at := (r_at s)(n := Returned k v)\<rparr>)"
| keep_panic: "r_at s n = Loaded k i \<Longrightarrow> handleNewItem cs now i (r_cache s) = None \<Longrightarrow>
    readers_step src s (s\<lparr>r_at := (r_at s)(n := Panicked)\<rparr>)"
| touch: "r_at s n = Touching k i \<Longrightarrow> i \<in> r_timers s \<Longrightarrow>
    readers_step src s (s\<lparr>r_cache := updateAccessTime now i (r_cache s),
      r_at := (r_at s)(n := Returned k (Inr (i_value (c_store (r_cache s) i))))\<rparr>)"
| touch_panic: "r_at s n = Touching k i \<Longrightarrow> i \<notin> r_timers s \<Longrightarrow> readers_step src s (s\<lparr>r_at := (r_at s)(n := Panicked)\<rparr>)"
| expire: "i \<in> r_timers s \<Longrightarrow> readers_step src s (s\<lparr>r_cache := c_expire i (r_cache s)\<rparr>)"
| again: "r_at s n = Returned k v \<Longrightarrow> readers_step src s (s\<lparr>r_at := (r_at s)(n := Idle)\<rparr>)"

definition readers_run :: "(byte list \<Rightarrow> byte list) \<Rightarrow> readers \<Rightarrow> readers \<Rightarrow> bool" where
  "readers_run src = (readers_step src)\<^sup>*\<^sup>*"

section \<open>The invariant\<close>

text \<open>An item is pending from its creation until \<open>handleNewItem\<close> has seen it; \<open>P\<close> are the pending items.\<close>

definition reader_ok :: "(byte list \<Rightarrow> byte list) \<Rightarrow> cptr set \<Rightarrow> Cache \<Rightarrow> reader_at \<Rightarrow> bool" where
  "reader_ok src P c a \<longleftrightarrow>
     (case a of
        WantsItem k i \<Rightarrow> i < c_next c \<and> i_key (c_store c i) = k
      | Loading k i \<Rightarrow> i < c_next c \<and> i_key (c_store c i) = k \<and> i \<in> P \<and> \<not> loaded (c_store c i)
      | Loaded k i \<Rightarrow> i < c_next c \<and> i_key (c_store c i) = k \<and> i \<in> P \<and> loaded (c_store c i)
      | Touching k i \<Rightarrow> i < c_next c \<and> i_key (c_store c i) = k \<and> i \<notin> P \<and> loaded (c_store c i) \<and> i_err (c_store c i) = None
      | Returned k r \<Rightarrow> (\<forall>v. r = Inr v \<longrightarrow> v = src k)
      | Idle \<Rightarrow> True
      | Panicked \<Rightarrow> False)"

definition item_ok :: "(byte list \<Rightarrow> byte list) \<Rightarrow> cptr set \<Rightarrow> readers \<Rightarrow> cptr \<Rightarrow> bool" where
  "item_ok src P s i \<longleftrightarrow>
     (let it = c_store (r_cache s) i in
      (i \<in> P \<longrightarrow> loaded it \<longrightarrow> (\<exists>n k. r_at s n = Loaded k i)) \<and>
      (i \<notin> P \<longrightarrow> loaded it \<and> (i_err it = None \<longrightarrow> i \<in> r_timers s)) \<and>
      (loaded it \<and> i_err it = None \<longrightarrow> i_value it = src (i_key it)))"

definition readers_inv :: "(byte list \<Rightarrow> byte list) \<Rightarrow> int \<Rightarrow> cptr set \<Rightarrow> readers \<Rightarrow> bool" where
  "readers_inv src mx P s \<longleftrightarrow> pending_inv P (r_cache s) \<and> maxSize (r_cache s) = mx \<and> P \<subseteq> {..<c_next (r_cache s)} \<and>
     r_timers s \<subseteq> {..<c_next (r_cache s)} - P \<and>
     (\<forall>n. reader_ok src P (r_cache s) (r_at s n)) \<and>
     (\<forall>n m i. holds (r_at s n) i \<longrightarrow> holds (r_at s m) i \<longrightarrow> n = m) \<and>
     (\<forall>i<c_next (r_cache s). item_ok src P s i)"

lemma readers_inv_start: "0 \<le> mx \<Longrightarrow> readers_inv src mx {} (no_readers mx)"
  by (simp add: readers_inv_def no_readers_def NewCache_def pending_inv_def cached_bytes_def reader_ok_def holds_def)

lemma holds_simps [simp]:
  "\<not> holds Idle i" "\<not> holds (WantsItem k j) i" "holds (Loading k j) i \<longleftrightarrow> i = j" "holds (Loaded k j) i \<longleftrightarrow> i = j"
  "holds (Touching k j) i \<longleftrightarrow> i = j" "\<not> holds (Returned k v) i" "\<not> holds Panicked i"
  by (simp_all add: holds_def)

lemma reader_ok_simps [simp]:
  "reader_ok src P c Idle" "\<not> reader_ok src P c Panicked"
  "reader_ok src P c (Returned k r) \<longleftrightarrow> (\<forall>v. r = Inr v \<longrightarrow> v = src k)"
  "reader_ok src P c (WantsItem k i) \<longleftrightarrow> i < c_next c \<and> i_key (c_store c i) = k"
  "reader_ok src P c (Loading k i) \<longleftrightarrow> i < c_next c \<and> i_key (c_store c i) = k \<and> i \<in> P \<and> \<not> loaded (c_store c i)"
  "reader_ok src P c (Loaded k i) \<longleftrightarrow> i < c_next c \<and> i_key (c_store c i) = k \<and> i \<in> P \<and> loaded (c_store c i)"
  "reader_ok src P c (Touching k i) \<longleftrightarrow> i < c_next c \<and> i_key (c_store c i) = k \<and> i \<notin> P \<and> loaded (c_store c i) \<and> i_err (c_store c i) = None"
  by (auto simp: reader_ok_def)

text \<open>A step that leaves the items as they are, but for their place in the access list, concerns one reader only.\<close>

definition same_items :: "Cache \<Rightarrow> Cache \<Rightarrow> bool" where
  "same_items c c' \<longleftrightarrow> c_next c' = c_next c \<and> maxSize c' = maxSize c \<and>
     (\<forall>i. i_key (c_store c' i) = i_key (c_store c i) \<and> i_value (c_store c' i) = i_value (c_store c i) \<and>
        loaded (c_store c' i) = loaded (c_store c i) \<and> i_err (c_store c' i) = i_err (c_store c i))"

lemma reader_ok_same: "same_items c c' \<Longrightarrow> reader_ok src P c' a = reader_ok src P c a"
  by (cases a) (auto simp: same_items_def)

lemma same_items_refl [simp]: "same_items c c"
  by (simp add: same_items_def)

lemma same_items_expire: "same_items c (c_expire i c)"
  by (simp add: same_items_def c_expire_def removeItem_def)

lemma same_items_touch: "same_items c (updateAccessTime now i c)"
  by (simp add: same_items_def updateAccessTime_def)

lemma pending_inv_expire: "pending_inv P c \<Longrightarrow> pending_inv P (c_expire i c)"
  by (simp add: c_expire_def removeItem_pending)

lemma pending_inv_touch:
  assumes "pending_inv P c"
  shows "pending_inv P (updateAccessTime now i c)"
proof -
  have "cached_bytes (updateAccessTime now i c) = cached_bytes c"
    by (rule cached_bytes_cong) (simp_all add: updateAccessTime_def)
  then show ?thesis using assms unfolding pending_inv_def by (auto simp: updateAccessTime_def)
qed

lemma inv_same_items:
  assumes "readers_inv src mx P s" "same_items (r_cache s) c" "pending_inv P c"
  shows "readers_inv src mx P (s\<lparr>r_cache := c\<rparr>)"
proof -
  have "item_ok src P (s\<lparr>r_cache := c\<rparr>) i = item_ok src P s i" for i
    using assms(2) by (simp add: item_ok_def same_items_def Let_def)
  moreover have "c_next c = c_next (r_cache s)" "maxSize c = maxSize (r_cache s)" using assms(2) by (simp_all add: same_items_def)
  ultimately show ?thesis using assms by (simp add: readers_inv_def reader_ok_same)
qed

text \<open>A step that moves the reader \<open>n\<close> only.\<close>

lemma inv_move:
  assumes inv: "readers_inv src mx P s" and a: "reader_ok src P (r_cache s) a"
    and hold: "\<And>i m. holds a i \<Longrightarrow> m \<noteq> n \<Longrightarrow> \<not> holds (r_at s m) i" and at: "\<And>k i. r_at s n \<noteq> Loaded k i"
  shows "readers_inv src mx P (s\<lparr>r_at := (r_at s)(n := a)\<rparr>)"
proof -
  have keep: "\<exists>m k. ((r_at s)(n := a)) m = Loaded k i" if "\<exists>m k. r_at s m = Loaded k i" for i
  proof -
    from that obtain m k where "r_at s m = Loaded k i" by blast
    then have "((r_at s)(n := a)) m = Loaded k i" using at by (cases "m = n") auto
    then show ?thesis by blast
  qed
  have "item_ok src P (s\<lparr>r_at := (r_at s)(n := a)\<rparr>) i" if "item_ok src P s i" for i
    using that keep [of i] by (simp add: item_ok_def Let_def del: fun_upd_apply)
  moreover have only: "holds (r_at s m) i \<Longrightarrow> holds (r_at s m') i \<Longrightarrow> m = m'" for m m' i
    using inv unfolding readers_inv_def by blast
  have "holds (((r_at s)(n := a)) m) i \<longrightarrow> holds (((r_at s)(n := a)) m') i \<longrightarrow> m = m'" for m m' i
    using only hold by (cases "m = n"; cases "m' = n") (simp; blast)+
  moreover have "reader_ok src P (r_cache s) (((r_at s)(n := a)) m)" for m
    using inv a unfolding readers_inv_def by simp
  ultimately show ?thesis using inv unfolding readers_inv_def by (simp del: fun_upd_apply)
qed

lemma readers_invD:
  assumes "readers_inv src mx P s"
  shows "pending_inv P (r_cache s)" "maxSize (r_cache s) = mx" "reader_ok src P (r_cache s) (r_at s n)"
    "holds (r_at s n) i \<Longrightarrow> holds (r_at s m) i \<Longrightarrow> n = m" "i < c_next (r_cache s) \<Longrightarrow> item_ok src P s i"
    "P \<subseteq> {..<c_next (r_cache s)}" "r_timers s \<subseteq> {..<c_next (r_cache s)} - P"
  using assms unfolding readers_inv_def by blast+

lemma inv_lock:
  assumes inv: "readers_inv src mx P s" and at: "r_at s n = WantsItem k i" and free: "item_free s i"
  shows "readers_inv src mx P (s\<lparr>r_at := (r_at s)(n := locked_at k i (c_store (r_cache s) i))\<rparr>)"
proof (rule inv_move [OF inv])
  have i: "i < c_next (r_cache s)" "i_key (c_store (r_cache s) i) = k"
    using readers_invD(3) [OF inv, of n] at by simp_all
  have "\<not> r_at s m = Loaded k' i" for m k' using free unfolding item_free_def by (metis holds_simps(4))
  then have "i \<in> P \<longleftrightarrow> \<not> loaded (c_store (r_cache s) i)"
    using readers_invD(5) [OF inv i(1)] unfolding item_ok_def Let_def by blast
  then show "reader_ok src P (r_cache s) (locked_at k i (c_store (r_cache s) i))"
    using i by (auto simp: locked_at_def split: option.splits)
  fix j m
  assume "holds (locked_at k i (c_store (r_cache s) i)) j"
  then have "j = i" by (auto simp: locked_at_def split: if_splits option.splits)
  then show "\<not> holds (r_at s m) j" using free by (simp add: item_free_def)
qed (simp add: at)

lemma inv_touch:
  assumes inv: "readers_inv src mx P s" and at: "r_at s n = Touching k i"
  shows "readers_inv src mx P (s\<lparr>r_cache := updateAccessTime now i (r_cache s),
      r_at := (r_at s)(n := Returned k (Inr (i_value (c_store (r_cache s) i))))\<rparr>)"
proof -
  have i: "i < c_next (r_cache s)" "i_key (c_store (r_cache s) i) = k" "loaded (c_store (r_cache s) i)" "i_err (c_store (r_cache s) i) = None"
    using readers_invD(3) [OF inv, of n] at by simp_all
  have v: "i_value (c_store (r_cache s) i) = src k"
    using readers_invD(5) [OF inv i(1)] i unfolding item_ok_def Let_def by blast
  have "readers_inv src mx P (s\<lparr>r_cache := updateAccessTime now i (r_cache s)\<rparr>)"
    by (rule inv_same_items [OF inv same_items_touch pending_inv_touch [OF readers_invD(1) [OF inv]]])
  from inv_move [OF this, of "Returned k (Inr (i_value (c_store (r_cache s) i)))" n]
  show ?thesis using v at by simp
qed

lemma inv_load:
  assumes inv: "readers_inv src mx P s" and at: "r_at s n = Loading k i" and l: "snd l = None \<longrightarrow> fst l = src k"
  shows "readers_inv src mx P (s\<lparr>r_cache := set_loaded i l (r_cache s), r_at := (r_at s)(n := Loaded k i)\<rparr>)"
    (is "readers_inv _ _ _ ?s")
proof -
  have i: "i < c_next (r_cache s)" "i_key (c_store (r_cache s) i) = k" "i \<in> P" "\<not> loaded (c_store (r_cache s) i)"
    using readers_invD(3) [OF inv, of n] at by simp_all
  have only: "\<not> holds (r_at s m) i" if "m \<noteq> n" for m using readers_invD(4) [OF inv, of n i m] at that by auto
  have fresh: "i \<notin> set (accessList (r_cache s))" using readers_invD(1) [OF inv] i(3) unfolding pending_inv_def by blast
  have "cached_bytes (set_loaded i l (r_cache s)) = cached_bytes (r_cache s)"
    by (rule cached_bytes_cong) (use fresh in auto)
  then have "pending_inv P (set_loaded i l (r_cache s))"
    using readers_invD(1) [OF inv] fresh unfolding pending_inv_def by auto
  moreover have "reader_ok src P (set_loaded i l (r_cache s)) (r_at s m)" if "m \<noteq> n" for m
    using readers_invD(3) [OF inv, of m] only [OF that] by (cases "r_at s m") auto
  then have "reader_ok src P (set_loaded i l (r_cache s)) (((r_at s)(n := Loaded k i)) m)" for m
    using i by simp
  moreover have "item_ok src P ?s j" if "j < c_next (r_cache s)" for j
  proof (cases "j = i")
    case True
    have "((r_at s)(n := Loaded k i)) n = Loaded k i" by simp
    then have "\<exists>m k'. ((r_at s)(n := Loaded k i)) m = Loaded k' i" by blast
    then show ?thesis using True l i unfolding item_ok_def Let_def by (simp del: fun_upd_apply)
  next
    case False
    have "\<exists>m k'. ((r_at s)(n := Loaded k i)) m = Loaded k' j" if "\<exists>m k'. r_at s m = Loaded k' j"
    proof -
      from that obtain m k' where m: "r_at s m = Loaded k' j" by blast
      then have "m \<noteq> n" using at by auto
      then show ?thesis using m by (intro exI [of _ m] exI [of _ k']) simp
    qed
    then show ?thesis
      using readers_invD(5) [OF inv that] False unfolding item_ok_def Let_def by (simp del: fun_upd_apply)
  qed
  moreover have "holds (((r_at s)(n := Loaded k i)) m) j \<longrightarrow> holds (((r_at s)(n := Loaded k i)) m') j \<longrightarrow> m = m'" for m m' j
    using readers_invD(4) [OF inv] only by (cases "m = n"; cases "m' = n") auto
  ultimately show ?thesis
    using readers_invD(2,6,7) [OF inv] unfolding readers_inv_def by (simp del: fun_upd_apply)
qed

text \<open>\<open>handleNewItem\<close> never panics and takes the item out of the pending ones.\<close>

lemma handleNewItem_pending:
  assumes inv: "pending_inv P c" and i: "i \<in> P" "i < c_next c" "loaded (c_store c i)"
    and fits: "i_err (c_store c i) = None \<longrightarrow> int (length (i_value (c_store c i))) \<le> maxSize c"
  shows "\<exists>c' cs'. handleNewItem cs now i c = Some (loaded_result (i_value (c_store c i), i_err (c_store c i)), c', cs') \<and>
    same_items c c' \<and> pending_inv (P - {i}) c'"
proof -
  have P: "pending_inv (insert i (P - {i})) c" using inv i(1) by (simp add: insert_absorb)
  show ?thesis
  proof (cases "i_err (c_store c i)")
    case (Some e)
    have "pending_inv (P - {i}) (c\<lparr>c_items := (c_items c)(i_key (c_store c i) := None)\<rparr>)"
      by (rule drop_pending [OF P]) simp_all
    then show ?thesis using Some by (simp add: handleNewItem_def Let_def loaded_result_def same_items_def)
  next
    case None
    then have len: "int (length (i_value (c_store c i))) \<le> maxSize c" using fits by simp
    from makeRoom_pending [OF P len] obtain c2 cs2 where c2: "makeRoom cs i c = Some (c2, cs2)"
      "pending_inv (insert i (P - {i})) c2" "c_store c2 = c_store c" "maxSize c2 = maxSize c" "c_next c2 = c_next c"
      "c_size c2 + int (length (i_value (c_store c i))) \<le> maxSize c"
      by blast
    define c3 where "c3 = c2\<lparr>c_size := c_size c2 + int (length (i_value (c_store c2 i))),
      c_store := (c_store c2)(i := (c_store c2 i)\<lparr>lastAccessed := now\<rparr>), accessList := accessList c2 @ [i]\<rparr>"
    have "pending_inv (P - {i}) c3"
      by (rule insert_pending(1) [OF c2(2) _ _ _ _ _ c3_def]) (use c2 None i in simp_all)
    moreover have "handleNewItem cs now i c = Some (Inr (i_value (c_store c i)), c3, cs2)"
      using None len c2 by (simp add: handleNewItem_def Let_def c3_def)
    moreover have "same_items c c3" using c2 by (simp add: same_items_def c3_def)
    ultimately show ?thesis using None by (auto simp: loaded_result_def)
  qed
qed

lemma inv_settle:
  assumes inv: "readers_inv src mx P s" and at: "r_at s n = Loaded k i" and same: "same_items (r_cache s) c"
    and pend: "pending_inv (P - {i}) c" and v: "\<And>b. v = Inr b \<Longrightarrow> b = src k"
    and T: "T \<subseteq> insert i (r_timers s)" "r_timers s \<subseteq> T" "i_err (c_store (r_cache s) i) = None \<Longrightarrow> i \<in> T"
  shows "readers_inv src mx (P - {i}) (s\<lparr>r_cache := c, r_timers := T, r_at := (r_at s)(n := Returned k v)\<rparr>)"
    (is "readers_inv _ _ _ ?s")
proof -
  have i: "i < c_next (r_cache s)" "i_key (c_store (r_cache s) i) = k" "i \<in> P" "loaded (c_store (r_cache s) i)"
    using readers_invD(3) [OF inv, of n] at by simp_all
  have only: "\<not> holds (r_at s m) i" if "m \<noteq> n" for m using readers_invD(4) [OF inv, of n i m] at that by auto
  have c: "c_next c = c_next (r_cache s)" "maxSize c = maxSize (r_cache s)" using same by (simp_all add: same_items_def)
  have "reader_ok src (P - {i}) (r_cache s) (r_at s m)" if "m \<noteq> n" for m
    using readers_invD(3) [OF inv, of m] only [OF that] i by (cases "r_at s m") auto
  then have "reader_ok src (P - {i}) c (((r_at s)(n := Returned k v)) m)" for m
    using v by (simp add: reader_ok_same [OF same])
  moreover have "item_ok src (P - {i}) ?s j" if "j < c_next (r_cache s)" for j
  proof (cases "j = i")
    case True
    then show ?thesis
      using readers_invD(5) [OF inv i(1)] i T(3) same unfolding item_ok_def Let_def same_items_def by auto
  next
    case False
    have "\<exists>m k'. ((r_at s)(n := Returned k v)) m = Loaded k' j" if "\<exists>m k'. r_at s m = Loaded k' j"
    proof -
      from that obtain m k' where m: "r_at s m = Loaded k' j" by blast
      then have "m \<noteq> n" using at False by auto
      then show ?thesis using m by (intro exI [of _ m] exI [of _ k']) simp
    qed
    then show ?thesis
      using readers_invD(5) [OF inv that] False same T(2) unfolding item_ok_def Let_def same_items_def
      by (simp del: fun_upd_apply) blast
  qed
  moreover have "holds (((r_at s)(n := Returned k v)) m) j \<longrightarrow> holds (((r_at s)(n := Returned k v)) m') j \<longrightarrow> m = m'" for m m' j
    using readers_invD(4) [OF inv] by (cases "m = n"; cases "m' = n") auto
  moreover have "T \<subseteq> {..<c_next (r_cache s)} - (P - {i})" "P - {i} \<subseteq> {..<c_next (r_cache s)}"
    using T(1) readers_invD(6,7) [OF inv] i by auto
  ultimately show ?thesis
    using pend readers_invD(2) [OF inv] c unfolding readers_inv_def by (simp del: fun_upd_apply)
qed

lemma inv_keep:
  assumes inv: "readers_inv src mx P s" and at: "r_at s n = Loaded k i" and fits: "int (length (src k)) \<le> mx"
  shows "\<exists>v c cs'. handleNewItem cs now i (r_cache s) = Some (v, c, cs') \<and>
    readers_inv src mx (P - {i}) (s\<lparr>r_cache := c, r_timers := r_timers s \<union> new_timers i (r_cache s), r_at := (r_at s)(n := Returned k v)\<rparr>)"
proof -
  have i: "i < c_next (r_cache s)" "i_key (c_store (r_cache s) i) = k" "i \<in> P" "loaded (c_store (r_cache s) i)"
    using readers_invD(3) [OF inv, of n] at by simp_all
  have val: "i_err (c_store (r_cache s) i) = None \<Longrightarrow> i_value (c_store (r_cache s) i) = src k"
    using readers_invD(5) [OF inv i(1)] i unfolding item_ok_def Let_def by blast
  have mx: "maxSize (r_cache s) = mx" by (rule readers_invD(2) [OF inv])
  obtain c cs' where c: "handleNewItem cs now i (r_cache s) =
      Some (loaded_result (i_value (c_store (r_cache s) i), i_err (c_store (r_cache s) i)), c, cs')"
    "same_items (r_cache s) c" "pending_inv (P - {i}) c"
    using handleNewItem_pending [OF readers_invD(1) [OF inv] i(3,1,4)] val fits mx by fastforce
  have "readers_inv src mx (P - {i}) (s\<lparr>r_cache := c, r_timers := r_timers s \<union> new_timers i (r_cache s),
      r_at := (r_at s)(n := Returned k (loaded_result (i_value (c_store (r_cache s) i), i_err (c_store (r_cache s) i))))\<rparr>)"
    by (rule inv_settle [OF inv at c(2,3)]) (use val fits mx in \<open>auto simp: loaded_result_def new_timers_def split: option.splits\<close>)
  then show ?thesis using c(1) by blast
qed

lemma inv_get:
  assumes inv: "readers_inv src mx P s" and at: "r_at s n = Idle" and get: "getItem k (r_cache s) = (i, c)"
  shows "\<exists>P'. readers_inv src mx P' (s\<lparr>r_cache := c, r_at := (r_at s)(n := WantsItem k i)\<rparr>)"
proof (cases "c_items (r_cache s) k")
  case (Some j)
  then have c: "c = r_cache s" "i = j" using get by (auto simp: getItem_def)
  have "(j \<in> set (accessList (r_cache s)) \<or> j \<in> P) \<and> i_key (c_store (r_cache s) j) = k"
    using readers_invD(1) [OF inv] Some unfolding pending_inv_def by blast
  moreover have "\<forall>j\<in>set (accessList (r_cache s)). j < c_next (r_cache s)"
    using readers_invD(1) [OF inv] unfolding pending_inv_def by blast
  ultimately have "reader_ok src P (r_cache s) (WantsItem k j)" using readers_invD(6) [OF inv] by auto
  from inv_move [OF inv this, of n] show ?thesis using at c by auto
next
  case None
  let ?c = "r_cache s"
  have i: "i = c_next ?c" and c: "c = ?c\<lparr>c_next := Suc i, c_items := (c_items ?c)(k \<mapsto> i),
      c_store := (c_store ?c)(i := \<lparr>i_key = k, i_value = [], loaded = False, i_err = None, lastAccessed = 0\<rparr>)\<rparr>"
    using get None by (auto simp: getItem_def Let_def)
  note pend = readers_invD(1) [OF inv]
  have list: "\<forall>j\<in>set (accessList ?c). j < i" using pend unfolding pending_inv_def i by blast
  have P: "\<forall>j\<in>P. j < i" using readers_invD(6) [OF inv] i by auto
  have it: "c_items ?c k' = Some j \<longleftrightarrow> (j \<in> set (accessList ?c) \<or> j \<in> P) \<and> i_key (c_store ?c j) = k'" for k' j
    using pend unfolding pending_inv_def by blast
  have "c_items c k' = Some j \<longleftrightarrow> (j \<in> set (accessList ?c) \<or> j \<in> insert i P) \<and> i_key (c_store c j) = k'" for k' j
  proof (cases "j = i")
    case True
    have "\<not> (i \<in> set (accessList ?c) \<or> i \<in> P)" using list P by blast
    then have "c_items ?c k' \<noteq> Some i" using it [of k' i] by simp
    then show ?thesis using True by (auto simp: c)
  next
    case False
    then show ?thesis using it [of k' j] None it [of k j] by (auto simp: c)
  qed
  moreover have "cached_bytes c = cached_bytes ?c"
    by (rule cached_bytes_cong) (use list in \<open>auto simp: c\<close>)
  moreover have "accessList c = accessList ?c" "c_size c = c_size ?c" "maxSize c = maxSize ?c" "c_next c = Suc i"
    by (simp_all add: c)
  moreover have "\<forall>j\<in>set (accessList ?c). c_store c j = c_store ?c j" using list by (auto simp: c)
  ultimately have pend': "pending_inv (insert i P) c"
    using pend list unfolding pending_inv_def by (auto simp: less_Suc_eq)
  have old: "c_store c j = c_store ?c j" if "j < i" for j using that by (simp add: c)
  have "reader_ok src (insert i P) c (r_at s m)" for m
    using readers_invD(3) [OF inv, of m] i by (cases "r_at s m") (auto simp: c)
  then have "reader_ok src (insert i P) c (((r_at s)(n := WantsItem k i)) m)" for m by (simp add: c)
  moreover have "item_ok src (insert i P) (s\<lparr>r_cache := c, r_at := (r_at s)(n := WantsItem k i)\<rparr>) j" if "j < Suc i" for j
  proof (cases "j = i")
    case True
    then show ?thesis by (simp add: item_ok_def c)
  next
    case False
    then have j: "j < i" using that by simp
    have "\<exists>m k'. ((r_at s)(n := WantsItem k i)) m = Loaded k' j" if "\<exists>m k'. r_at s m = Loaded k' j"
      using that at by (metis fun_upd_other reader_at.distinct(5))
    then show ?thesis
      using readers_invD(5) [OF inv, of j] j i unfolding item_ok_def Let_def by (simp add: old del: fun_upd_apply)
  qed
  moreover have "holds (((r_at s)(n := WantsItem k i)) m) j \<longrightarrow> holds (((r_at s)(n := WantsItem k i)) m') j \<longrightarrow> m = m'" for m m' j
    using readers_invD(4) [OF inv] by (cases "m = n"; cases "m' = n") auto
  moreover have "insert i P \<subseteq> {..<Suc i}" "r_timers s \<subseteq> {..<Suc i} - insert i P" "c_next c = Suc i" "maxSize c = mx"
    using readers_invD(2,6,7) [OF inv] i by (auto simp: c)
  ultimately have "readers_inv src mx (insert i P) (s\<lparr>r_cache := c, r_at := (r_at s)(n := WantsItem k i)\<rparr>)"
    using pend' unfolding readers_inv_def by (simp del: fun_upd_apply)
  then show ?thesis by blast
qed

lemma readers_step_inv:
  assumes "readers_step src s s'" "readers_inv src mx P s" and fits: "\<And>k. int (length (src k)) \<le> mx"
  shows "\<exists>P'. readers_inv src mx P' s'"
  using assms(1)
proof cases
  case (get n k i c)
  then show ?thesis using inv_get [OF assms(2)] by blast
next
  case (lock n k i)
  then show ?thesis using inv_lock [OF assms(2)] by blast
next
  case (load n k i l)
  show ?thesis using inv_load [OF assms(2) load(2,3)] load(1) by blast
next
  case (keep n k i cs now v c cs')
  then show ?thesis using inv_keep [OF assms(2) keep(2) fits, of cs now] by auto
next
  case (keep_panic n k i cs now)
  then show ?thesis using inv_keep [OF assms(2) keep_panic(2) fits, of cs now] by auto
next
  case (touch n k i now)
  then show ?thesis using inv_touch [OF assms(2)] by blast
next
  case (touch_panic n k i)
  have "i < c_next (r_cache s)" "i \<notin> P" "i_err (c_store (r_cache s) i) = None"
    using readers_invD(3) [OF assms(2), of n] touch_panic(2) by simp_all
  then have "i \<in> r_timers s"
    using readers_invD(5) [OF assms(2)] unfolding item_ok_def Let_def by blast
  then show ?thesis using touch_panic(3) by simp
next
  case (expire i)
  then show ?thesis
    using inv_same_items [OF assms(2) same_items_expire pending_inv_expire [OF readers_invD(1) [OF assms(2)]]] by blast
next
  case (again n k v)
  have "readers_inv src mx P (s\<lparr>r_at := (r_at s)(n := Idle)\<rparr>)"
    by (rule inv_move [OF assms(2)]) (simp_all add: again)
  then show ?thesis using again by blast
qed

lemma readers_inv_reachable:
  assumes "readers_run src (no_readers mx) s" and fits: "\<And>k. int (length (src k)) \<le> mx"
  shows "\<exists>P. readers_inv src mx P s"
proof -
  have "0 \<le> mx" using fits [of "[]"] by linarith
  show ?thesis
    using assms(1) unfolding readers_run_def
  proof (induction rule: rtranclp_induct)
    case base
    show ?case using readers_inv_start [OF \<open>0 \<le> mx\<close>] by blast
  next
    case (step y z)
    then show ?case using readers_step_inv fits by blast
  qed
qed

section \<open>The properties\<close>

text \<open>
  C10: Concurrent reads.  Whatever the order in which any number of readers, their loads and the timers of the items run, if
  every block fits into the cache then no reader panics, a read that succeeds returns what the disk holds for its key, the cache stays
  within its size, and no item is loaded by two readers at a time or by a reader after it has been loaded.
\<close>

theorem concurrent_reads:
  assumes "readers_run src (no_readers mx) s" and "\<And>k. int (length (src k)) \<le> mx"
  shows "r_at s n \<noteq> Panicked \<and> (r_at s n = Returned k (Inr v) \<longrightarrow> v = src k) \<and>
     0 \<le> c_size (r_cache s) \<and> c_size (r_cache s) \<le> mx \<and>
     (r_at s n = Loading k i \<longrightarrow> \<not> loaded (c_store (r_cache s) i) \<and> (\<forall>m. m \<noteq> n \<longrightarrow> \<not> holds (r_at s m) i))"
proof -
  obtain P where inv: "readers_inv src mx P s" using readers_inv_reachable [OF assms] by blast
  have "reader_ok src P (r_cache s) (r_at s n)" by (rule readers_invD(3) [OF inv])
  moreover have "c_size (r_cache s) = cached_bytes (r_cache s)" "c_size (r_cache s) \<le> mx"
    using readers_invD(1,2) [OF inv] unfolding pending_inv_def by auto
  ultimately show ?thesis
    using readers_invD(4) [OF inv, of n] by (auto simp: cached_bytes_def sum_list_nonneg_len)
qed

lemma readers_run_step: "readers_run src s s' \<Longrightarrow> readers_step src s' s'' \<Longrightarrow> readers_run src s s''"
  unfolding readers_run_def by (rule rtranclp.rtrancl_into_rtrancl)

lemma readers_run_refl [simp]: "readers_run src s s"
  by (simp add: readers_run_def)

text \<open>Two readers of one key: both hold the item, the first one has loaded it.\<close>

definition new_item :: "byte list \<Rightarrow> cache_item" where
  "new_item k = \<lparr>i_key = k, i_value = [], loaded = False, i_err = None, lastAccessed = 0\<rparr>"

definition two_readers :: "int \<Rightarrow> byte list \<Rightarrow> byte list \<Rightarrow> readers" where
  "two_readers mx k v =
     (let c = (NewCache mx)\<lparr>c_next := 1, c_items := [k \<mapsto> 0], c_store := (c_store (NewCache mx))(0 := new_item k)\<rparr>
      in \<lparr>r_cache = set_loaded 0 (v, None) c, r_timers = {}, r_at = (\<lambda>_. Idle)(0 := Loaded k 0, 1 := WantsItem k 0)\<rparr>)"

lemma two_readers_reachable: "readers_run src (no_readers mx) (two_readers mx k (src k))"
proof -
  let ?c = "(NewCache mx)\<lparr>c_next := 1, c_items := [k \<mapsto> 0], c_store := (c_store (NewCache mx))(0 := new_item k)\<rparr>"
  let ?s = "\<lambda>f. \<lparr>r_cache = ?c, r_timers = {}, r_at = f\<rparr>"
  let ?f1 = "(\<lambda>_. Idle)(0 := WantsItem k 0)"
  let ?f2 = "(\<lambda>_. Idle)(0 := Loading k 0)"
  let ?f3 = "(\<lambda>_. Idle)(0 := Loading k 0, 1 := WantsItem k 0)"
  have get: "getItem k (NewCache mx) = (0, ?c)" "getItem k ?c = (0, ?c)"
    by (simp_all add: getItem_def NewCache_def new_item_def)
  have s1: "readers_step src (no_readers mx) (?s ?f1)"
    using readers_step.get [of "no_readers mx" 0 k 0 ?c src] get(1) by (simp add: no_readers_def)
  have s2: "readers_step src (?s ?f1) (?s ?f2)"
    using readers_step.lock [of "?s ?f1" 0 k 0 src] by (simp add: item_free_def locked_at_def new_item_def)
  have s3: "readers_step src (?s ?f2) (?s ?f3)"
    using readers_step.get [of "?s ?f2" 1 k 0 ?c src] get(2) by simp
  have s4: "readers_step src (?s ?f3) (two_readers mx k (src k))"
    using readers_step.load [of "?s ?f3" 0 k 0 "(src k, None)" src]
    by (simp add: two_readers_def Let_def fun_upd_twist fun_upd_upd)
  show ?thesis
    by (rule readers_run_step [OF readers_run_step [OF readers_run_step [OF readers_run_step [OF readers_run_refl s1] s2] s3] s4])
qed

text \<open>
  A block that does not fit is returned but not kept; its item has no timer.  A second reader that has taken the item
  from the map before finds it loaded and resets the timer, a nil pointer.
\<close>

lemma oversized_read_panics:
  assumes "mx < int (length (src k))"
  shows "\<exists>s. readers_run src (no_readers mx) s \<and> r_at s 1 = Panicked"
proof -
  let ?t = "two_readers mx k (src k)"
  let ?c = "(r_cache ?t)\<lparr>c_items := (c_items (r_cache ?t))(k := None)\<rparr>"
  let ?t1 = "?t\<lparr>r_cache := ?c, r_at := (r_at ?t)(0 := Returned k (Inr (src k)))\<rparr>"
  let ?t2 = "?t1\<lparr>r_at := (r_at ?t1)(1 := Touching k 0)\<rparr>"
  have "handleNewItem [] 0 0 (r_cache ?t) = Some (Inr (src k), ?c, [])"
    using assms by (simp add: handleNewItem_def two_readers_def Let_def new_item_def NewCache_def)
  moreover have "new_timers 0 (r_cache ?t) = {}"
    using assms by (simp add: new_timers_def two_readers_def Let_def NewCache_def)
  ultimately have s1: "readers_step src ?t ?t1"
    using readers_step.keep [of ?t 0 k 0 "[]" 0 "Inr (src k)" ?c "[]" src] by (simp add: two_readers_def Let_def)
  have s2: "readers_step src ?t1 ?t2"
    using readers_step.lock [of ?t1 1 k 0 src]
    by (simp add: two_readers_def Let_def item_free_def locked_at_def new_item_def)
  have s3: "readers_step src ?t2 (?t2\<lparr>r_at := (r_at ?t2)(1 := Panicked)\<rparr>)"
    by (rule readers_step.touch_panic [of ?t2 1 k 0]) (simp_all add: two_readers_def Let_def)
  show ?thesis
    by (rule exI, rule conjI,
        rule readers_run_step [OF readers_run_step [OF readers_run_step [OF two_readers_reachable s1] s2] s3]) simp
qed

theorem concurrent_reads_witness:
  "r_at (two_readers 4 [1] [7]) 1 \<noteq> Panicked \<and> c_size (r_cache (two_readers 4 [1] [7])) \<le> 4"
proof -
  have "readers_run (\<lambda>_. [7]) (no_readers 4) (two_readers 4 [1] [7])" by (rule two_readers_reachable)
  from concurrent_reads [OF this, of 1] show ?thesis by simp
qed

end
