(* ===== verification/ResourceManager.thy ===== *)
theory ResourceManager
  imports Go_Prelude
begin

text \<open>
  \<open>internal/resourcemanager\<close>: hands out a limited amount of memory to the piece downloads of all
  torrents.  A request that does not fit waits; when something is released, one of the waiting
  requests, drawn at random, is notified.  Each case of the \<open>select\<close> in \<open>run\<close> is one definition; what
  the other ends of the channels do is an input of the step.
\<close>

record 'd waiting =
  r_key :: string
  r_data :: 'd
  r_n :: int

record 'd ResourceManager =
  limit :: int
  rm_available :: int
  objects :: int
  requests :: "(string \<times> 'd waiting list) list"

definition NewRM :: "int \<Rightarrow> 'd ResourceManager" where
  "NewRM l = \<lparr>limit = l, rm_available = l, objects = 0, requests = []\<rparr>"

definition pending_of :: "'d ResourceManager \<Rightarrow> string \<Rightarrow> 'd waiting list" where
  "pending_of m k = (case map_of (requests m) k of None \<Rightarrow> [] | Some rs \<Rightarrow> rs)"

text \<open>
  \<open>randomRequest\<close> looks at one key only: the loop over the map ends in its first round.
  No request (\<open>None\<close>) leaves the channels of the \<open>select\<close> nil.
\<close>

definition randomRequest :: "choices \<Rightarrow> 'd ResourceManager \<Rightarrow> ('d waiting \<times> nat) option \<times> choices" where
  "randomRequest cs m =
     (case shuffle cs (requests m) of
        ([], cs) \<Rightarrow> (None, cs)
      | ((k, rs) # _, cs) \<Rightarrow>
          let (i, cs) = draw cs (length rs); r = rs ! i in
          if r_n r > rm_available m then (None, cs) else (Some (r, i), cs))"

definition deleteRequest :: "string \<Rightarrow> nat \<Rightarrow> 'd ResourceManager \<Rightarrow> 'd ResourceManager option" where
  "deleteRequest k i m =
     (let rs = pending_of m k in
      if i < length rs
      then let rs = swap_remove i rs in
        Some (m\<lparr>requests := (if length rs > 0 then AList.update k rs (requests m) else AList.delete k (requests m))\<rparr>)
      else None)"

text \<open>\<open>cancelled\<close>: the requester's \<open>cancelC\<close> is chosen instead of its \<open>doneC\<close>.  The result says if it acquired.\<close>

definition handleRequest ::
  "bool \<Rightarrow> 'd waiting \<Rightarrow> 'd ResourceManager \<Rightarrow> (bool \<times> 'd ResourceManager) option" where
  "handleRequest cancelled r m =
     (let acquired = rm_available m \<ge> r_n r in
      if cancelled then Some (False, m)
      else if acquired then
        let m = m\<lparr>rm_available := rm_available m - r_n r, objects := objects m + 1\<rparr> in
        if rm_available m < 0 then None else Some (True, m)
      else Some (False, m\<lparr>requests := AList.update (r_key r) (pending_of m (r_key r) @ [r]) (requests m)\<rparr>))"

text \<open>\<open>Request\<close> ignores a negative amount; \<open>run\<close> takes it otherwise.\<close>

definition rm_Request ::
  "bool \<Rightarrow> 'd waiting \<Rightarrow> 'd ResourceManager \<Rightarrow> (bool \<times> 'd ResourceManager) option" where
  "rm_Request cancelled r m = (if r_n r < 0 then Some (False, m) else handleRequest cancelled r m)"

definition rm_Release :: "int \<Rightarrow> 'd ResourceManager \<Rightarrow> 'd ResourceManager option" where
  "rm_Release n m =
     (let m = m\<lparr>rm_available := rm_available m + n, objects := objects m - 1\<rparr> in
      if rm_available m > limit m then None else Some m)"

definition rm_notify :: "'d waiting \<Rightarrow> nat \<Rightarrow> 'd ResourceManager \<Rightarrow> 'd ResourceManager option" where
  "rm_notify req i m =
     (let m = m\<lparr>rm_available := rm_available m - r_n req, objects := objects m + 1\<rparr> in
      if rm_available m < 0 then None else deleteRequest (r_key req) i m)"

record Stats =
  AllocatedSize :: int
  AllocatedObjects :: int
  PendingKeys :: nat

definition rm_Stats :: "'d ResourceManager \<Rightarrow> Stats" where
  "rm_Stats m = \<lparr>AllocatedSize = limit m - rm_available m, AllocatedObjects = objects m, PendingKeys = length (requests m)\<rparr>"

section \<open>Steps of the manager\<close>

text \<open>
  \<open>held\<close> is a ghost: the amounts handed out and not yet released.  A client releases what it holds.
\<close>

inductive rm_step ::
  "'d ResourceManager \<times> int multiset \<Rightarrow> 'd ResourceManager option \<times> int multiset \<Rightarrow> bool" where
  rm_request: "rm_Request cancelled r m = Some (True, m') \<Longrightarrow> rm_step (m, held) (Some m', add_mset (r_n r) held)"
| rm_wait: "rm_Request cancelled r m = Some (False, m') \<Longrightarrow> rm_step (m, held) (Some m', held)"
| rm_request_panic: "rm_Request cancelled r m = None \<Longrightarrow> rm_step (m, held) (None, held)"
| rm_release: "n \<in># held \<Longrightarrow> rm_step (m, held) (rm_Release n m, held - {#n#})"
| rm_notified: "fst (randomRequest cs m) = Some (r, i) \<Longrightarrow> rm_step (m, held) (rm_notify r i m, add_mset (r_n r) held)"
| rm_cancelled: "fst (randomRequest cs m) = Some (r, i) \<Longrightarrow> rm_step (m, held) (deleteRequest (r_key r) i m, held)"

inductive rm_reachable :: "int \<Rightarrow> 'd ResourceManager option \<times> int multiset \<Rightarrow> bool" for l where
  rm_start: "rm_reachable l (Some (NewRM l), {#})"
| rm_next: "rm_reachable l (Some m, held) \<Longrightarrow> rm_step (m, held) s' \<Longrightarrow> rm_reachable l s'"

definition rm_inv :: "int \<Rightarrow> 'd ResourceManager \<times> int multiset \<Rightarrow> bool" where
  "rm_inv l s \<longleftrightarrow> (case s of (m, held) \<Rightarrow>
     limit m = l \<and> rm_available m + sum_mset held = l \<and> 0 \<le> rm_available m \<and> objects m = int (size held) \<and>
     (\<forall>n\<in>#held. 0 \<le> n) \<and> distinct (map fst (requests m)) \<and>
     (\<forall>(k, rs)\<in>set (requests m). rs \<noteq> [] \<and> (\<forall>r\<in>set rs. r_key r = k \<and> 0 \<le> r_n r)))"

lemma randomRequest_SomeD:
  assumes "rm_inv l (m, held)" and "fst (randomRequest cs m) = Some (r, i)"
  shows "i < length (pending_of m (r_key r))" and "pending_of m (r_key r) ! i = r" and "0 \<le> r_n r"
    and "r_n r \<le> rm_available m"
proof -
  obtain xs cs1 where sh: "shuffle cs (requests m) = (xs, cs1)" by (metis surj_pair)
  then have set: "set xs = set (requests m)" by (metis fst_conv set_shuffle)
  obtain k rs ys where xs: "xs = (k, rs) # ys"
    using assms(2) sh by (cases xs) (auto simp: randomRequest_def)
  then have kin: "(k, rs) \<in> set (requests m)" using set by auto
  have rs: "rs \<noteq> []" "\<forall>r\<in>set rs. r_key r = k \<and> 0 \<le> r_n r" "distinct (map fst (requests m))"
    using assms(1) kin by (auto simp: rm_inv_def)
  obtain j cs2 where dr: "draw cs1 (length rs) = (j, cs2)" by (metis surj_pair)
  then have j: "j < length rs" using rs(1) by (metis draw_less fst_conv length_greater_0_conv)
  have ri: "r = rs ! j" "i = j" "r_n r \<le> rm_available m"
    using assms(2) sh xs dr by (auto simp: randomRequest_def Let_def split: if_splits)
  then have "r_key r = k" "0 \<le> r_n r" using rs(2) j by (metis nth_mem)+
  moreover have "pending_of m k = rs" using kin rs(3) by (simp add: pending_of_def map_of_is_SomeI)
  ultimately show "i < length (pending_of m (r_key r))" "pending_of m (r_key r) ! i = r" "0 \<le> r_n r"
    "r_n r \<le> rm_available m" using ri j by simp_all
qed

lemma update_pending_inv:
  assumes "rm_inv l (m, held)" and "rs \<noteq> []" and "\<forall>r\<in>set rs. r_key r = k \<and> 0 \<le> r_n r"
  shows "rm_inv l (m\<lparr>requests := AList.update k rs (requests m)\<rparr>, held)"
proof -
  have "set (AList.update k rs xs) \<subseteq> insert (k, rs) (set xs)" for xs :: "(string \<times> 'a waiting list) list"
    by (induction xs) auto
  then show ?thesis using assms by (fastforce simp: rm_inv_def distinct_update)
qed

lemma delete_pending_inv:
  assumes "rm_inv l (m, held)" and "deleteRequest k i m = Some m'"
  shows "rm_inv l (m', held)"
proof -
  let ?rs = "pending_of m k"
  have i: "i < length ?rs" using assms(2) by (auto simp: deleteRequest_def Let_def split: if_splits)
  then obtain rs where "map_of (requests m) k = Some rs" "?rs = rs"
    by (auto simp: pending_of_def split: option.splits)
  then have "(k, ?rs) \<in> set (requests m)" by (simp add: map_of_SomeD)
  then have ok: "\<forall>r\<in>set ?rs. r_key r = k \<and> 0 \<le> r_n r" using assms(1) by (auto simp: rm_inv_def)
  have "set (swap_remove i ?rs) \<subseteq> set ?rs"
    using mset_swap_remove [OF i] by (metis diff_subset_eq_self set_mset_mono set_mset_mset)
  then have ok': "\<forall>r\<in>set (swap_remove i ?rs). r_key r = k \<and> 0 \<le> r_n r" using ok by blast
  show ?thesis
  proof (cases "swap_remove i ?rs \<noteq> []")
    case True
    then have "m' = m\<lparr>requests := AList.update k (swap_remove i ?rs) (requests m)\<rparr>"
      using assms(2) i by (simp add: deleteRequest_def Let_def)
    then show ?thesis using update_pending_inv [OF assms(1) _ ok'] True by simp
  next
    case False
    then have "m' = m\<lparr>requests := AList.delete k (requests m)\<rparr>"
      using assms(2) i by (simp add: deleteRequest_def Let_def)
    moreover have "set (AList.delete k (requests m)) \<subseteq> set (requests m)" by (auto simp: AList.delete_eq)
    ultimately show ?thesis using assms(1) distinct_delete [of "requests m" k] unfolding rm_inv_def by fastforce
  qed
qed

lemma deleteRequest_Some: "i < length (pending_of m k) \<Longrightarrow> \<exists>m'. deleteRequest k i m = Some m'"
  by (simp add: deleteRequest_def Let_def)

lemma pending_inv: "rm_inv l (m, held) \<Longrightarrow> r \<in> set (pending_of m k) \<Longrightarrow> r_key r = k \<and> 0 \<le> r_n r"
  by (auto simp: pending_of_def rm_inv_def split: option.splits dest!: map_of_SomeD)

lemma sum_mset_nonneg_int: "\<forall>n\<in>#M. 0 \<le> n \<Longrightarrow> 0 \<le> (sum_mset M :: int)"
  by (induction M) auto

lemma rm_step_inv:
  "rm_step s s' \<Longrightarrow> rm_inv l s \<Longrightarrow> \<exists>m' held'. s' = (Some m', held') \<and> rm_inv l (m', held')"
proof (induction rule: rm_step.induct)
  case (rm_request cancelled r m m' held)
  then have "0 \<le> r_n r" "m' = m\<lparr>rm_available := rm_available m - r_n r, objects := objects m + 1\<rparr>"
    "rm_available m - r_n r \<ge> 0"
    by (auto simp: rm_Request_def handleRequest_def Let_def split: if_splits)
  then show ?case using rm_request.prems by (auto simp: rm_inv_def)
next
  case (rm_wait cancelled r m m' held)
  show ?case
  proof (cases "m' = m")
    case True
    then show ?thesis using rm_wait by blast
  next
    case False
    then have 0: "0 \<le> r_n r" and m': "m' = m\<lparr>requests := AList.update (r_key r) (pending_of m (r_key r) @ [r]) (requests m)\<rparr>"
      using rm_wait.hyps by (auto simp: rm_Request_def handleRequest_def Let_def split: if_splits)
    have "\<forall>x\<in>set (pending_of m (r_key r) @ [r]). r_key x = r_key r \<and> 0 \<le> r_n x"
      using pending_inv [OF rm_wait.prems] 0 by auto
    from update_pending_inv [OF rm_wait.prems _ this] show ?thesis by (simp add: m')
  qed
next
  case (rm_request_panic cancelled r m held)
  then show ?case by (auto simp: rm_Request_def handleRequest_def Let_def split: if_splits)
next
  case (rm_release n held m)
  then obtain h where h: "held = add_mset n h" by (metis insert_DiffM)
  then have "0 \<le> sum_mset h" using rm_release.prems by (auto simp: rm_inv_def intro: sum_mset_nonneg_int)
  then show ?case using rm_release.prems h by (auto simp: rm_inv_def rm_Release_def Let_def)
next
  case (rm_notified cs m r i held)
  note r = randomRequest_SomeD [OF rm_notified.prems rm_notified.hyps]
  define m1 where "m1 = m\<lparr>rm_available := rm_available m - r_n r, objects := objects m + 1\<rparr>"
  have "rm_inv l (m1, add_mset (r_n r) held)" using rm_notified.prems r by (auto simp: rm_inv_def m1_def)
  moreover have "pending_of m1 = pending_of m" by (simp add: pending_of_def m1_def fun_eq_iff)
  then obtain m' where m': "deleteRequest (r_key r) i m1 = Some m'" using deleteRequest_Some r(1) by metis
  moreover note m'
  ultimately have "rm_inv l (m', add_mset (r_n r) held)" using delete_pending_inv by blast
  moreover have "rm_notify r i m = Some m'"
    using r(4) m' by (simp add: rm_notify_def m1_def [symmetric] Let_def) (simp add: m1_def)
  ultimately show ?case by blast
next
  case (rm_cancelled cs m r i held)
  then show ?case
    using deleteRequest_Some [OF randomRequest_SomeD(1) [OF rm_cancelled.prems rm_cancelled.hyps]] delete_pending_inv [OF rm_cancelled.prems] by auto
qed

lemma rm_reachable_inv: "rm_reachable l s \<Longrightarrow> 0 \<le> l \<Longrightarrow> \<exists>m held. s = (Some m, held) \<and> rm_inv l (m, held)"
proof (induction rule: rm_reachable.induct)
  case rm_start
  then show ?case by (simp add: rm_inv_def NewRM_def)
next
  case (rm_next m held s')
  then show ?case using rm_step_inv by blast
qed

section \<open>Properties\<close>

text \<open>
  C38: As long as clients release only what they hold, the manager never panics and never hands out
  more than its limit, and its counters describe exactly what is handed out.
\<close>

theorem manager_stays_within_limit:
  assumes "rm_reachable l s" and "0 \<le> l"
  shows "\<exists>m held. s = (Some m, held) \<and> sum_mset held \<le> l \<and> 0 \<le> sum_mset held \<and>
    rm_Stats m = \<lparr>AllocatedSize = sum_mset held, AllocatedObjects = int (size held), PendingKeys = length (requests m)\<rparr>"
proof -
  obtain m held where "s = (Some m, held)" "rm_inv l (m, held)" using rm_reachable_inv [OF assms] by blast
  then show ?thesis by (auto simp: rm_inv_def rm_Stats_def intro!: sum_mset_nonneg_int)
qed

theorem manager_stays_within_limit_witness:
  "\<exists>m :: nat ResourceManager. rm_reachable 10 (Some m, {#7#}) \<and> AllocatedSize (rm_Stats m) = 7"
proof -
  let ?m = "(NewRM 10 :: nat ResourceManager)\<lparr>rm_available := 3, objects := 1\<rparr>"
  have "rm_Request False \<lparr>r_key = ''t'', r_data = (0 :: nat), r_n = 7\<rparr> (NewRM 10) = Some (True, ?m)"
    by (simp add: rm_Request_def handleRequest_def NewRM_def)
  from rm_next [OF rm_start rm_request [OF this, of "{#}"]] have "rm_reachable 10 (Some ?m, {#7#})" by simp
  from manager_stays_within_limit [OF this] this show ?thesis by auto
qed

text \<open>A draw of \<open>randomRequest\<close> is a key and one of its requests; every one of them is drawn by some choices.\<close>

lemma randomRequest_draws:
  assumes "rm_inv l (m, held)"
  shows "(\<exists>cs. fst (randomRequest cs m) = x) \<longleftrightarrow>
    requests m = [] \<and> x = None \<or>
    (\<exists>k rs j. (k, rs) \<in> set (requests m) \<and> j < length rs \<and> x = (if r_n (rs ! j) > rm_available m then None else Some (rs ! j, j)))"
    (is "?l \<longleftrightarrow> ?r")
proof
  assume ?l
  then obtain cs where x: "fst (randomRequest cs m) = x" by blast
  obtain xs cs1 where sh: "shuffle cs (requests m) = (xs, cs1)" by (metis surj_pair)
  then have set: "set xs = set (requests m)" by (metis fst_conv set_shuffle)
  show ?r
  proof (cases xs)
    case Nil
    then show ?thesis using x sh set by (simp add: randomRequest_def)
  next
    case (Cons y ys)
    obtain k rs where y: "y = (k, rs)" by force
    obtain j cs2 where dr: "draw cs1 (length rs) = (j, cs2)" by (metis surj_pair)
    have kin: "(k, rs) \<in> set (requests m)" using set Cons y by auto
    then have "rs \<noteq> []" using assms by (auto simp: rm_inv_def)
    then have "j < length rs" using dr by (metis draw_less fst_conv length_greater_0_conv)
    moreover have "x = (if r_n (rs ! j) > rm_available m then None else Some (rs ! j, j))"
      using x sh Cons y dr by (auto simp: randomRequest_def Let_def)
    ultimately show ?thesis using kin by blast
  qed
next
  assume ?r
  then consider "requests m = []" "x = None" | k rs j where "(k, rs) \<in> set (requests m)" "j < length rs"
    "x = (if r_n (rs ! j) > rm_available m then None else Some (rs ! j, j))" by blast
  then show ?l
  proof cases
    case 1
    then have "fst (randomRequest [] m) = x" by (simp add: randomRequest_def)
    then show ?thesis by blast
  next
    case 2
    obtain us vs where "requests m = us @ (k, rs) # vs" using 2(1) by (meson split_list)
    then have "mset ((k, rs) # us @ vs) = mset (requests m)" by simp
    from shuffle_complete_aux [OF this] obtain cs where "shuffle (cs @ [j]) (requests m) = ((k, rs) # us @ vs, [j])" by blast
    then have "fst (randomRequest (cs @ [j]) m) = x" using 2(2,3) by (simp add: randomRequest_def Let_def)
    then show ?thesis by blast
  qed
qed

lemma pending_in:
  assumes "rm_inv l (m, held)" "(k, rs) \<in> set (requests m)" "j < length rs"
  shows "r_key (rs ! j) = k" "pending_of m k = rs"
  using assms by (auto simp: rm_inv_def pending_of_def map_of_is_SomeI)

lemma in_pending: "i < length (pending_of m k) \<Longrightarrow> (k, pending_of m k) \<in> set (requests m)"
  by (auto simp: pending_of_def map_of_SomeD split: option.splits)

lemma notify_ok:
  assumes inv: "rm_inv l (m, held)" and rr: "fst (randomRequest cs m) = Some (r, i)"
  shows "\<exists>m'. rm_notify r i m = Some m' \<and> mset (pending_of m' (r_key r)) = mset (pending_of m (r_key r)) - {#r#}"
proof -
  note r = randomRequest_SomeD [OF inv rr]
  define m1 where "m1 = m\<lparr>rm_available := rm_available m - r_n r, objects := objects m + 1\<rparr>"
  have p1: "pending_of m1 = pending_of m" by (simp add: pending_of_def m1_def fun_eq_iff)
  have n: "rm_notify r i m = deleteRequest (r_key r) i m1" using r(4) by (simp add: rm_notify_def m1_def Let_def)
  obtain m' where m': "deleteRequest (r_key r) i m1 = Some m'" using deleteRequest_Some p1 r(1) by metis
  have "pending_of m' (r_key r) = swap_remove i (pending_of m1 (r_key r))"
    using m' r(1) p1 by (auto simp: deleteRequest_def Let_def pending_of_def update_conv' delete_conv split: if_splits)
  then have "mset (pending_of m' (r_key r)) = mset (pending_of m (r_key r)) - {#r#}"
    using mset_swap_remove [OF r(1)] r(2) p1 by simp
  then show ?thesis using n m' by metis
qed

text \<open>
  C39: Which waiting requests are offered memory.  In every reachable state, what the manager offers is a waiting request that
  fits the free memory, and when it is taken exactly that request leaves its queue, without a panic.  Each waiting request
  that fits is offered for some draw of \<open>randomRequest\<close>.  Some request is offered whatever is drawn if and only if one is waiting
  and all of them fit the free memory, which is so once everything is released if none asks for more than the limit.  That is
  all the code promises: \<open>randomRequest\<close> looks at one request at random and gives up when that one does not fit, so that
  while a large request waits, a small one that fits may be passed over, and the manager then sleeps until the next event.
\<close>

theorem released_memory_reaches_waiting:
  assumes "rm_reachable l (Some m, held)" and "0 \<le> l"
  shows "rm_available m = l - sum_mset held \<and>
    ((\<exists>cs. fst (randomRequest cs m) = Some (r, i)) \<longleftrightarrow>
       i < length (pending_of m (r_key r)) \<and> pending_of m (r_key r) ! i = r \<and> r_n r \<le> rm_available m) \<and>
    ((\<forall>cs. fst (randomRequest cs m) \<noteq> None) \<longleftrightarrow>
       requests m \<noteq> [] \<and> (\<forall>(k, rs)\<in>set (requests m). \<forall>r\<in>set rs. r_n r \<le> rm_available m)) \<and>
    (fst (randomRequest cs m) = Some (r, i) \<longrightarrow>
       (\<exists>m'. rm_notify r i m = Some m' \<and> mset (pending_of m' (r_key r)) = mset (pending_of m (r_key r)) - {#r#}))"
proof (intro conjI)
  have inv: "rm_inv l (m, held)" using rm_reachable_inv [OF assms] by blast
  note draws = randomRequest_draws [OF inv]
  show "rm_available m = l - sum_mset held" using inv by (simp add: rm_inv_def)
  show "(\<exists>cs. fst (randomRequest cs m) = Some (r, i)) \<longleftrightarrow>
      i < length (pending_of m (r_key r)) \<and> pending_of m (r_key r) ! i = r \<and> r_n r \<le> rm_available m"
  proof
    assume "i < length (pending_of m (r_key r)) \<and> pending_of m (r_key r) ! i = r \<and> r_n r \<le> rm_available m"
    then show "\<exists>cs. fst (randomRequest cs m) = Some (r, i)"
      unfolding draws using in_pending [of i m "r_key r"] by force
  qed (use randomRequest_SomeD [OF inv] in blast)
  have j: "(\<exists>j. j < length rs \<and> r_n (rs ! j) > a) \<longleftrightarrow> \<not> (\<forall>r\<in>set rs. r_n r \<le> a)" for a and rs :: "'a waiting list"
    by (simp add: all_set_conv_all_nth not_le)
  have k: "(\<exists>k rs. (k, rs) \<in> S \<and> \<not> P rs) \<longleftrightarrow> \<not> (\<forall>(k, rs)\<in>S. P rs)" for S :: "(string \<times> 'a waiting list) set" and P by auto
  have "(\<exists>cs. fst (randomRequest cs m) = None) \<longleftrightarrow>
      requests m = [] \<or> (\<exists>k rs. (k, rs) \<in> set (requests m) \<and> (\<exists>j. j < length rs \<and> r_n (rs ! j) > rm_available m))"
    unfolding draws by auto
  then have "(\<exists>cs. fst (randomRequest cs m) = None) \<longleftrightarrow>
      requests m = [] \<or> \<not> (\<forall>(k, rs)\<in>set (requests m). \<forall>r\<in>set rs. r_n r \<le> rm_available m)" unfolding j k .
  then show "(\<forall>cs. fst (randomRequest cs m) \<noteq> None) \<longleftrightarrow>
      requests m \<noteq> [] \<and> (\<forall>(k, rs)\<in>set (requests m). \<forall>r\<in>set rs. r_n r \<le> rm_available m)"
    unfolding not_ex [symmetric] by (simp only: de_Morgan_disj not_not)
  show "fst (randomRequest cs m) = Some (r, i) \<longrightarrow>
      (\<exists>m'. rm_notify r i m = Some m' \<and> mset (pending_of m' (r_key r)) = mset (pending_of m (r_key r)) - {#r#})"
    using notify_ok [OF inv] by blast
qed

theorem released_memory_reaches_waiting_witness:
  "\<exists>(m :: nat ResourceManager) r i m'. requests m = [(''u'', [\<lparr>r_key = ''u'', r_data = 1, r_n = 5\<rparr>])] \<and>
     fst (randomRequest [] m) = Some (r, i) \<and> rm_notify r i m = Some m'"
proof -
  let ?r1 = "\<lparr>r_key = ''t'', r_data = (0 :: nat), r_n = 7\<rparr>" and ?r2 = "\<lparr>r_key = ''u'', r_data = (1 :: nat), r_n = 5\<rparr>"
  let ?m1 = "(NewRM 10 :: nat ResourceManager)\<lparr>rm_available := 3, objects := 1\<rparr>"
  let ?m2 = "?m1\<lparr>requests := [(''u'', [?r2])]\<rparr>"
  let ?m3 = "?m2\<lparr>rm_available := 10, objects := 0\<rparr>"
  have "rm_Request False ?r1 (NewRM 10) = Some (True, ?m1)"
    by (simp add: rm_Request_def handleRequest_def NewRM_def)
  from rm_next [OF rm_start rm_request [OF this, of "{#}"]] have 1: "rm_reachable 10 (Some ?m1, {#7#})" by simp
  have "rm_Request False ?r2 ?m1 = Some (False, ?m2)"
    by (simp add: rm_Request_def handleRequest_def NewRM_def pending_of_def)
  from rm_next [OF 1 rm_wait [OF this]] have 2: "rm_reachable 10 (Some ?m2, {#7#})" .
  have "rm_Release 7 ?m2 = Some ?m3" by (simp add: rm_Release_def NewRM_def)
  with rm_next [OF 2 rm_release [of 7]] have 3: "rm_reachable 10 (Some ?m3, {#})" by simp
  have "requests ?m3 \<noteq> []" "\<forall>(k, rs)\<in>set (requests ?m3). \<forall>r\<in>set rs. r_n r \<le> rm_available ?m3" by simp_all
  then have "fst (randomRequest [] ?m3) \<noteq> None"
    using released_memory_reaches_waiting [OF 3] by auto
  then obtain r i where "fst (randomRequest [] ?m3) = Some (r, i)" by auto
  moreover from this obtain m' where "rm_notify r i ?m3 = Some m'" using released_memory_reaches_waiting [OF 3, of r i "[]"] by auto
  moreover have "requests ?m3 = [(''u'', [?r2])]" by simp
  ultimately show ?thesis by blast
qed

end
