(* ===== verification/Workers.thy ===== *)
theory Workers
  imports Piece Bitfield
begin

text \<open>
  The workers of a torrent: \<open>internal/allocator\<close> opens its files in a \<open>internal/storage/filestorage\<close>,
  \<open>internal/verifier\<close> hashes what is on disk into a bitfield, \<open>internal/piecewriter\<close> checks and
  writes one piece under \<open>internal/semaphore\<close>.  Each runs in its own goroutine; the model has what it computes,
  and the torrent's event loop receives it as an event.  The channel that closes a worker early is left out: its
  result is then not delivered.
\<close>

section \<open>Files on disk\<close>

text \<open>
  A file system maps absolute paths, as lists of elements, to files; \<open>fails\<close> says which paths the operating
  system refuses to open or create.  A file that has a name keeps its content between opens.
\<close>

record fs =
  fs_paths :: "(string list \<times> nat) list"
  fs_data :: disk
  fs_next :: nat

fun split_path :: "string \<Rightarrow> string list" where
  "split_path [] = [[]]"
| "split_path (c # s) =
     (if c = CHR ''/'' then [] # split_path s
      else case split_path s of [] \<Rightarrow> [[c]] | e # es \<Rightarrow> (c # e) # es)"

text \<open>\<open>filepath.Clean\<close> of the name, and \<open>filepath.Join\<close> below a rooted directory: \<open>..\<close> at the root is dropped.\<close>

fun rooted_push :: "string list \<Rightarrow> string \<Rightarrow> string list" where
  "rooted_push st e = (if e = ''.'' then st else if e = ''..'' then tl st else e # st)"

definition clean_path :: "string \<Rightarrow> string list" where
  "clean_path name =
     (let es = split_path name in
      if take 1 name = ''/'' then rev (foldl rooted_push [] (filter (\<lambda>e. e \<noteq> []) es)) else clean_elems es)"

definition storage_path :: "string list \<Rightarrow> string \<Rightarrow> string list" where
  "storage_path dest name = rev (foldl rooted_push (rev dest) (clean_path name))"

text \<open>\<open>Truncate\<close> cuts or fills up with zeros.\<close>

definition resize :: "nat \<Rightarrow> byte list \<Rightarrow> byte list" where
  "resize n b = take n b @ replicate (n - length b) 0"

text \<open>\<open>FileStorage.Open\<close>: the open file and whether it existed, or nothing on an error.\<close>

definition fs_Open :: "(string list \<Rightarrow> bool) \<Rightarrow> string list \<Rightarrow> string \<Rightarrow> int \<Rightarrow> fs \<Rightarrow> (nat \<times> bool) option \<times> fs" where
  "fs_Open fails dest name sz s =
     (let p = storage_path dest name in
      if fails p then (None, s)
      else case map_of (fs_paths s) p of
        None \<Rightarrow>
          let h = fs_next s; s = s\<lparr>fs_paths := (p, h) # fs_paths s, fs_next := Suc h, fs_data := (fs_data s)(h := [])\<rparr> in
          if sz < 0 then (None, s) else (Some (h, False), s\<lparr>fs_data := (fs_data s)(h := resize (nat sz) [])\<rparr>)
      | Some h \<Rightarrow>
          if int (length (fs_data s h)) = sz then (Some (h, True), s)
          else if sz < 0 then (None, s)
          else (Some (h, True), s\<lparr>fs_data := (fs_data s)(h := resize (nat sz) (fs_data s h))\<rparr>))"

section \<open>Allocation\<close>

record allocation =
  al_Files :: "alloc_file list"
  HasExisting :: bool
  HasMissing :: bool
  al_Failed :: bool

text \<open>The loop of \<open>Run\<close>; the second component are the sizes sent as progress.\<close>

fun allocate_loop ::
  "(string list \<Rightarrow> bool) \<Rightarrow> string list \<Rightarrow> File list \<Rightarrow> int \<Rightarrow> allocation \<Rightarrow> fs \<Rightarrow> allocation \<times> int list \<times> fs"
where
  "allocate_loop fails dest [] acc a s = (a, [], s)"
| "allocate_loop fails dest (f # fs) acc a s =
     (case fs_Open fails dest (Path f) (Length f) s of
        (None, s) \<Rightarrow> (a\<lparr>al_Failed := True\<rparr>, [], s)
      | (Some (h, ex), s) \<Rightarrow>
          let a = a\<lparr>al_Files := al_Files a @ [\<lparr>Storage = h, af_Name = Path f\<rparr>]\<rparr>;
              a = (if ex then a\<lparr>HasExisting := True\<rparr> else a\<lparr>HasMissing := True\<rparr>);
              acc = wrap64 (acc + Length f);
              (a, ps, s) = allocate_loop fails dest fs acc a s
          in (a, acc # ps, s))"

definition Allocator_Run :: "(string list \<Rightarrow> bool) \<Rightarrow> string list \<Rightarrow> Info \<Rightarrow> fs \<Rightarrow> allocation \<times> int list \<times> fs" where
  "Allocator_Run fails dest info s =
     allocate_loop fails dest (Files info) 0 \<lparr>al_Files = [], HasExisting = False, HasMissing = False, al_Failed = False\<rparr> s"

section \<open>Verification\<close>

text \<open>
  One buffer, of the length of the first piece, is cut to each piece in turn: a longer piece would panic.
  A read error ends the loop with the bits set so far.
\<close>

fun verify_loop ::
  "(byte list \<Rightarrow> byte list) \<Rightarrow> disk \<Rightarrow> u32 \<Rightarrow> Piece list \<Rightarrow> bitfield \<Rightarrow> (bitfield \<times> io_error option) option"
where
  "verify_loop sha1 d buflen [] bf = Some (bf, None)"
| "verify_loop sha1 d buflen (p # ps) bf =
     (if p_Length p > buflen then None
      else do {
        (buf, err) \<leftarrow> ReadAt d (Data p) (unat (p_Length p)) 0;
        case err of
          Some e \<Rightarrow> Some (bf, Some e)
        | None \<Rightarrow> do {
            bf \<leftarrow> (if VerifyHash sha1 p buf then bf_Set bf (Index p) else Some bf);
            verify_loop sha1 d buflen ps bf
          }
      })"

definition Verifier_Run :: "(byte list \<Rightarrow> byte list) \<Rightarrow> disk \<Rightarrow> Piece list \<Rightarrow> (bitfield \<times> io_error option) option" where
  "Verifier_Run sha1 d tps =
     (case tps of [] \<Rightarrow> None
      | p # _ \<Rightarrow> verify_loop sha1 d (p_Length p) tps (New (of_nat (length tps))))"

section \<open>Writing a piece\<close>

definition PieceWriter_Run ::
  "(byte list \<Rightarrow> byte list) \<Rightarrow> (nat \<Rightarrow> bool) \<Rightarrow> disk \<Rightarrow> Piece \<Rightarrow> byte list \<Rightarrow> (bool \<times> io_error option \<times> disk) option" where
  "PieceWriter_Run sha1 ok d p buf =
     (if VerifyHash sha1 p buf
      then map_option (\<lambda>(d, _, e). (True, e, d)) (Write ok d (Data p) buf 0)
      else Some (False, None, d))"

section \<open>The semaphore\<close>

text \<open>
  A goroutine that waits, sends its token, and counts itself in; one that signals takes a token out and counts itself
  out.  The two halves of each are separate steps.
\<close>

record Semaphore =
  sem_n :: nat
  sem_c :: nat
  sem_waiting :: int
  sem_active :: int

definition NewSemaphore :: "nat \<Rightarrow> Semaphore" where
  "NewSemaphore n = \<lparr>sem_n = n, sem_c = 0, sem_waiting = 0, sem_active = 0\<rparr>"

datatype sem_event = SemWait | SemAcquire | SemEnter | SemSignal | SemLeave

text \<open>The counts next to the semaphore: goroutines at the send, between the send and the counters, inside, after the receive.\<close>

record sem_places =
  at_send :: nat
  at_count :: nat
  inside :: nat
  at_uncount :: nat

inductive sem_step :: "Semaphore \<times> sem_places \<Rightarrow> sem_event \<Rightarrow> Semaphore \<times> sem_places \<Rightarrow> bool" where
  wait: "sem_step (s, g) SemWait (s\<lparr>sem_waiting := sem_waiting s + 1\<rparr>, g\<lparr>at_send := at_send g + 1\<rparr>)"
| acquire: "0 < at_send g \<Longrightarrow> sem_c s < sem_n s \<Longrightarrow>
    sem_step (s, g) SemAcquire (s\<lparr>sem_c := sem_c s + 1\<rparr>, g\<lparr>at_send := at_send g - 1, at_count := at_count g + 1\<rparr>)"
| enter: "0 < at_count g \<Longrightarrow>
    sem_step (s, g) SemEnter (s\<lparr>sem_waiting := sem_waiting s - 1, sem_active := sem_active s + 1\<rparr>,
      g\<lparr>at_count := at_count g - 1, inside := inside g + 1\<rparr>)"
| signal: "0 < inside g \<Longrightarrow> 0 < sem_c s \<Longrightarrow>
    sem_step (s, g) SemSignal (s\<lparr>sem_c := sem_c s - 1\<rparr>, g\<lparr>inside := inside g - 1, at_uncount := at_uncount g + 1\<rparr>)"
| leave: "0 < at_uncount g \<Longrightarrow>
    sem_step (s, g) SemLeave (s\<lparr>sem_active := sem_active s - 1\<rparr>, g\<lparr>at_uncount := at_uncount g - 1\<rparr>)"

inductive_cases sem_stepE: "sem_step a e b"

inductive sem_reachable :: "nat \<Rightarrow> Semaphore \<times> sem_places \<Rightarrow> bool" for n where
  start: "sem_reachable n (NewSemaphore n, \<lparr>at_send = 0, at_count = 0, inside = 0, at_uncount = 0\<rparr>)"
| step: "sem_reachable n a \<Longrightarrow> sem_step a e b \<Longrightarrow> sem_reachable n b"

definition sem_inv :: "nat \<Rightarrow> Semaphore \<times> sem_places \<Rightarrow> bool" where
  "sem_inv n a \<longleftrightarrow> (case a of (s, g) \<Rightarrow> sem_n s = n \<and> sem_c s = at_count g + inside g \<and> sem_c s \<le> n \<and>
     sem_waiting s = int (at_send g + at_count g) \<and> sem_active s = int (inside g + at_uncount g))"

lemma sem_step_inv: "sem_step a e b \<Longrightarrow> sem_inv n a \<Longrightarrow> sem_inv n b"
  by (erule sem_stepE) (auto simp: sem_inv_def)

lemma sem_reachable_inv: "sem_reachable n a \<Longrightarrow> sem_inv n a"
proof (induction rule: sem_reachable.induct)
  case start
  show ?case by (simp add: sem_inv_def NewSemaphore_def)
next
  case (step a e b)
  from sem_step_inv [OF step(2) step.IH] show ?case .
qed

section \<open>What allocation leaves\<close>

definition fs_ok :: "fs \<Rightarrow> bool" where
  "fs_ok s \<longleftrightarrow> distinct (map fst (fs_paths s)) \<and> distinct (map snd (fs_paths s)) \<and> (\<forall>h\<in>snd ` set (fs_paths s). h < fs_next s)"

lemma length_resize [simp]: "length (resize n b) = n"
  by (simp add: resize_def)

lemma resize_id: "n = length b \<Longrightarrow> resize n b = b"
  by (simp add: resize_def)

text \<open>One file: it is there afterwards with its length; no other file changes; what existed keeps its bytes up to its length.\<close>

lemma fs_Open_ok:
  assumes ok: "fs_ok s" and "\<not> fails (storage_path dest name)" and "0 \<le> sz"
  shows "\<exists>h s'. fs_Open fails dest name sz s = (Some (h, map_of (fs_paths s) (storage_path dest name) \<noteq> None), s') \<and> fs_ok s' \<and>
    map_of (fs_paths s') = (map_of (fs_paths s))(storage_path dest name \<mapsto> h) \<and>
    (\<forall>p. map_of (fs_paths s) p \<noteq> None \<longrightarrow> map_of (fs_paths s') p = map_of (fs_paths s) p) \<and>
    fs_data s' h = (case map_of (fs_paths s) (storage_path dest name) of None \<Rightarrow> replicate (nat sz) 0
      | Some g \<Rightarrow> resize (nat sz) (fs_data s g)) \<and>
    (\<forall>g. g \<noteq> h \<longrightarrow> g < fs_next s \<longrightarrow> fs_data s' g = fs_data s g) \<and> fs_next s \<le> fs_next s' \<and> h < fs_next s' \<and>
    (h < fs_next s \<longrightarrow> map_of (fs_paths s) (storage_path dest name) = Some h)"
proof (cases "map_of (fs_paths s) (storage_path dest name)")
  case None
  let ?p = "storage_path dest name" and ?h = "fs_next s"
  let ?s = "s\<lparr>fs_paths := (?p, ?h) # fs_paths s, fs_next := Suc ?h, fs_data := (fs_data s)(?h := resize (nat sz) [])\<rparr>"
  have "?p \<notin> fst ` set (fs_paths s)" using None by (simp add: map_of_eq_None_iff)
  moreover have "?h \<notin> snd ` set (fs_paths s)" using ok by (auto simp: fs_ok_def)
  ultimately have "fs_ok ?s" using ok by (auto simp: fs_ok_def less_SucI)
  moreover have "fs_Open fails dest name sz s = (Some (?h, False), ?s)" using None assms(2,3) by (simp add: fs_Open_def Let_def)
  ultimately show ?thesis using None by (intro exI [of _ ?h] exI [of _ ?s]) (auto simp: resize_def)
next
  case (Some g)
  let ?s = "s\<lparr>fs_data := (fs_data s)(g := resize (nat sz) (fs_data s g))\<rparr>"
  have e: "fs_Open fails dest name sz s = (Some (g, True), ?s)"
  proof (cases "int (length (fs_data s g)) = sz")
    case True
    then have "nat sz = length (fs_data s g)" by auto
    then have "?s = s" by (simp add: resize_id)
    then show ?thesis using True Some assms(2) by (simp add: fs_Open_def Let_def)
  qed (use Some assms(2,3) in \<open>simp add: fs_Open_def Let_def\<close>)
  have "g < fs_next s" using ok map_of_SomeD [OF Some] by (force simp: fs_ok_def)
  moreover have "fs_ok ?s" using ok by (simp add: fs_ok_def)
  ultimately show ?thesis using e Some by (intro exI [of _ g] exI [of _ ?s]) (auto simp: fun_upd_idem_iff)
qed

lemma fs_ok_inj:
  assumes "fs_ok s" and "map_of (fs_paths s) p = Some h" and "map_of (fs_paths s) q = Some h"
  shows "p = q"
  using assms map_of_SomeD [OF assms(2)] map_of_SomeD [OF assms(3)] unfolding fs_ok_def
  by (metis eq_key_imp_eq_value prod.collapse distinct_map inj_onD snd_conv fst_conv)

abbreviation file_at :: "string list \<Rightarrow> File \<Rightarrow> string list" where
  "file_at dest f \<equiv> storage_path dest (Path f)"

text \<open>What a file holds once it has been opened with its length.\<close>

definition opened :: "string list \<Rightarrow> fs \<Rightarrow> File \<Rightarrow> byte list" where
  "opened dest s f = (case map_of (fs_paths s) (file_at dest f) of None \<Rightarrow> replicate (nat (Length f)) 0
     | Some g \<Rightarrow> resize (nat (Length f)) (fs_data s g))"

lemma allocate_loop_ok:
  assumes "fs_ok s" and "\<forall>f\<in>set fs. \<not> fails (file_at dest f) \<and> 0 \<le> Length f" and "distinct (map (file_at dest) fs)"
  shows "\<exists>files ps s' a'. allocate_loop fails dest fs acc a s = (a', ps, s') \<and> al_Failed a' = al_Failed a \<and>
    al_Files a' = al_Files a @ files \<and> length files = length fs \<and> length ps = length fs \<and> fs_ok s' \<and> fs_next s \<le> fs_next s' \<and>
    (\<forall>k<length fs. map_of (fs_paths s') (file_at dest (fs ! k)) = Some (Storage (files ! k)) \<and>
       fs_data s' (Storage (files ! k)) = opened dest s (fs ! k)) \<and>
    (\<forall>p. p \<notin> file_at dest ` set fs \<longrightarrow> map_of (fs_paths s') p = map_of (fs_paths s) p) \<and>
    (\<forall>h<fs_next s. h \<notin> Storage ` set files \<longrightarrow> fs_data s' h = fs_data s h) \<and>
    (HasMissing a' \<longleftrightarrow> HasMissing a \<or> (\<exists>f\<in>set fs. map_of (fs_paths s) (file_at dest f) = None)) \<and>
    (HasExisting a' \<longleftrightarrow> HasExisting a \<or> (\<exists>f\<in>set fs. map_of (fs_paths s) (file_at dest f) \<noteq> None))"
  using assms
proof (induction fs arbitrary: acc a s)
  case (Cons f fs)
  let ?p = "file_at dest f"
  obtain h s1 where o: "fs_Open fails dest (Path f) (Length f) s = (Some (h, map_of (fs_paths s) ?p \<noteq> None), s1)"
    and ok1: "fs_ok s1" and m1: "map_of (fs_paths s1) = (map_of (fs_paths s))(?p \<mapsto> h)"
    and d1: "fs_data s1 h = opened dest s f" "\<forall>g. g \<noteq> h \<longrightarrow> g < fs_next s \<longrightarrow> fs_data s1 g = fs_data s g"
    and n1: "fs_next s \<le> fs_next s1" "h < fs_next s1" "h < fs_next s \<longrightarrow> map_of (fs_paths s) ?p = Some h"
    using fs_Open_ok [OF Cons.prems(1), of fails dest "Path f" "Length f"] Cons.prems(2) unfolding opened_def by auto
  have nin: "?p \<notin> file_at dest ` set fs" using Cons.prems(3) by simp
  have same: "map_of (fs_paths s1) (file_at dest g) = map_of (fs_paths s) (file_at dest g)" if "g \<in> set fs" for g
  proof -
    have "file_at dest g \<noteq> ?p" using nin that by (metis imageI)
    then show ?thesis using m1 by simp
  qed
  have op: "opened dest s1 g = opened dest s g" if "g \<in> set fs" for g
  proof (cases "map_of (fs_paths s) (file_at dest g)")
    case None
    then show ?thesis using same [OF that] by (simp add: opened_def)
  next
    case (Some i)
    then have "map_of (fs_paths s1) (file_at dest g) = Some i" using same [OF that] by simp
    moreover have "map_of (fs_paths s1) ?p = Some h" using m1 by simp
    ultimately have "i \<noteq> h" using fs_ok_inj [OF ok1, of ?p h "file_at dest g"] nin that by auto
    moreover have "i < fs_next s" using Cons.prems(1) map_of_SomeD [OF Some] by (force simp: fs_ok_def)
    ultimately have "fs_data s1 i = fs_data s i" using d1(2) by simp
    then show ?thesis using Some same [OF that] by (simp add: opened_def)
  qed
  define a1 where "a1 = (let a = a\<lparr>al_Files := al_Files a @ [\<lparr>Storage = h, af_Name = Path f\<rparr>]\<rparr> in
    if map_of (fs_paths s) ?p \<noteq> None then a\<lparr>HasExisting := True\<rparr> else a\<lparr>HasMissing := True\<rparr>)"
  have a1: "al_Failed a1 = al_Failed a" "al_Files a1 = al_Files a @ [\<lparr>Storage = h, af_Name = Path f\<rparr>]"
    "HasMissing a1 \<longleftrightarrow> HasMissing a \<or> map_of (fs_paths s) ?p = None" "HasExisting a1 \<longleftrightarrow> HasExisting a \<or> map_of (fs_paths s) ?p \<noteq> None"
    by (auto simp: a1_def Let_def)
  have c: "\<forall>f\<in>set fs. \<not> fails (file_at dest f) \<and> 0 \<le> Length f" "distinct (map (file_at dest) fs)"
    using Cons.prems(2,3) by simp_all
  from Cons.IH [OF ok1 c, of "wrap64 (acc + Length f)" a1] obtain files ps s' a' where
    r: "allocate_loop fails dest fs (wrap64 (acc + Length f)) a1 s1 = (a', ps, s')" "al_Failed a' = al_Failed a1"
      "al_Files a' = al_Files a1 @ files" "length files = length fs" "length ps = length fs" "fs_ok s'" "fs_next s1 \<le> fs_next s'" and
    k: "\<forall>k<length fs. map_of (fs_paths s') (file_at dest (fs ! k)) = Some (Storage (files ! k)) \<and>
       fs_data s' (Storage (files ! k)) = opened dest s1 (fs ! k)" and
    p: "\<forall>p. p \<notin> file_at dest ` set fs \<longrightarrow> map_of (fs_paths s') p = map_of (fs_paths s1) p" and
    o2: "\<forall>h<fs_next s1. h \<notin> Storage ` set files \<longrightarrow> fs_data s' h = fs_data s1 h" and
    hm: "HasMissing a' \<longleftrightarrow> HasMissing a1 \<or> (\<exists>f\<in>set fs. map_of (fs_paths s1) (file_at dest f) = None)" and
    he: "HasExisting a' \<longleftrightarrow> HasExisting a1 \<or> (\<exists>f\<in>set fs. map_of (fs_paths s1) (file_at dest f) \<noteq> None)" by (elim exE conjE) (rule that)
  have hp: "map_of (fs_paths s') ?p = Some h" using p nin m1 by simp
  have hn: "h \<notin> Storage ` set files"
  proof
    assume "h \<in> Storage ` set files"
    then obtain j where j: "j < length fs" "h = Storage (files ! j)" using r(4) by (metis imageE in_set_conv_nth)
    then have "map_of (fs_paths s') (file_at dest (fs ! j)) = Some h" using k by simp
    from fs_ok_inj [OF r(6) hp this] nin j(1) show False by auto
  qed
  let ?f = "\<lparr>Storage = h, af_Name = Path f\<rparr>"
  have run: "allocate_loop fails dest (f # fs) acc a s = (a', wrap64 (acc + Length f) # ps, s')"
    using o r(1) by (simp add: a1_def Let_def)
  have kk: "\<forall>i<length (f # fs). map_of (fs_paths s') (file_at dest ((f # fs) ! i)) = Some (Storage ((?f # files) ! i)) \<and>
       fs_data s' (Storage ((?f # files) ! i)) = opened dest s ((f # fs) ! i)"
  proof (intro allI impI)
    fix i assume "i < length (f # fs)"
    then show "map_of (fs_paths s') (file_at dest ((f # fs) ! i)) = Some (Storage ((?f # files) ! i)) \<and>
       fs_data s' (Storage ((?f # files) ! i)) = opened dest s ((f # fs) ! i)"
      using hp o2 n1(2) hn d1(1) k op by (cases i) auto
  qed
  have pp: "\<forall>p. p \<notin> file_at dest ` set (f # fs) \<longrightarrow> map_of (fs_paths s') p = map_of (fs_paths s) p" using p m1 by simp
  have oo: "\<forall>g<fs_next s. g \<notin> Storage ` set (?f # files) \<longrightarrow> fs_data s' g = fs_data s g" using o2 d1(2) n1(1) by simp
  have mm: "HasMissing a' \<longleftrightarrow> HasMissing a \<or> (\<exists>f\<in>set (f # fs). map_of (fs_paths s) (file_at dest f) = None)"
    "HasExisting a' \<longleftrightarrow> HasExisting a \<or> (\<exists>f\<in>set (f # fs). map_of (fs_paths s) (file_at dest f) \<noteq> None)"
    using hm he a1(3,4) same by auto
  show ?case
    by (intro exI [of _ "?f # files"] exI [of _ "wrap64 (acc + Length f) # ps"] exI [of _ s'] exI [of _ a'] conjI)
       (use run r a1 n1 kk pp oo mm in simp_all)
qed simp

text \<open>The handles of the files of a torrent, one each when their paths differ.\<close>

lemma Allocator_Run_ok:
  assumes s: "fs_ok s" and fs: "\<forall>f\<in>set (Files info). \<not> fails (file_at dest f) \<and> 0 \<le> Length f"
    and d: "distinct (map (file_at dest) (Files info))"
  shows "\<exists>a ps s'. Allocator_Run fails dest info s = (a, ps, s') \<and> \<not> al_Failed a \<and> length (al_Files a) = length (Files info) \<and>
    distinct (map Storage (al_Files a)) \<and> allocated info (al_Files a) (fs_data s') \<and> fs_ok s' \<and>
    (\<forall>k<length (Files info). fs_data s' (Storage (al_Files a ! k)) = opened dest s (Files info ! k)) \<and>
    (\<forall>h<fs_next s. h \<notin> Storage ` set (al_Files a) \<longrightarrow> fs_data s' h = fs_data s h) \<and>
    (HasMissing a \<longleftrightarrow> (\<exists>f\<in>set (Files info). map_of (fs_paths s) (file_at dest f) = None)) \<and>
    (HasExisting a \<longleftrightarrow> (\<exists>f\<in>set (Files info). map_of (fs_paths s) (file_at dest f) \<noteq> None))"
proof -
  let ?a = "\<lparr>al_Files = [], HasExisting = False, HasMissing = False, al_Failed = False\<rparr>"
  obtain files ps s' a where r: "allocate_loop fails dest (Files info) 0 ?a s = (a, ps, s')" "al_Failed a = al_Failed ?a"
    "al_Files a = al_Files ?a @ files" "length files = length (Files info)" "fs_ok s'" and
    k: "\<forall>k<length (Files info). map_of (fs_paths s') (file_at dest (Files info ! k)) = Some (Storage (files ! k)) \<and>
       fs_data s' (Storage (files ! k)) = opened dest s (Files info ! k)" and
    h: "\<forall>h<fs_next s. h \<notin> Storage ` set files \<longrightarrow> fs_data s' h = fs_data s h"
      "HasMissing a \<longleftrightarrow> HasMissing ?a \<or> (\<exists>f\<in>set (Files info). map_of (fs_paths s) (file_at dest f) = None)"
      "HasExisting a \<longleftrightarrow> HasExisting ?a \<or> (\<exists>f\<in>set (Files info). map_of (fs_paths s) (file_at dest f) \<noteq> None)"
    using allocate_loop_ok [OF s fs d, of 0 ?a] by blast
  have "distinct (map Storage files)" unfolding distinct_conv_nth
  proof (intro allI impI)
    fix i j assume ij: "i < length (map Storage files)" "j < length (map Storage files)" "i \<noteq> j"
    have "file_at dest (Files info ! i) \<noteq> file_at dest (Files info ! j)"
      using d ij r(4) nth_eq_iff_index_eq [OF d, of i j] by simp
    then have "Storage (files ! i) \<noteq> Storage (files ! j)"
      using k ij r(4) fs_ok_inj [OF r(5)] by (metis length_map)
    then show "map Storage files ! i \<noteq> map Storage files ! j" using ij by simp
  qed
  moreover have "allocated info files (fs_data s')" unfolding allocated_def
    using k fs by (auto simp: opened_def split: option.splits)
  ultimately show ?thesis unfolding Allocator_Run_def using r k h by simp
qed

end
