(* ===== verification/Verification.thy ===== *)
theory Verification
  imports Workers
begin

text \<open>
  What allocation, verification and writing of pieces come to together: the bitfield that
  \<open>Verifier.Run\<close> returns says which pieces of the content on disk have their hash, a written piece
  is found again, and the files a torrent was created from verify completely.
\<close>

section \<open>The verifier's loop\<close>

definition piece_bytes :: "disk \<Rightarrow> Piece \<Rightarrow> byte list" where
  "piece_bytes d p = map (loc_byte d) (locs (Data p))"

definition piece_fits :: "disk \<Rightarrow> Piece \<Rightarrow> bool" where
  "piece_fits d p \<longleftrightarrow> (\<forall>s\<in>set (Data p). sec_ok d s) \<and> Data p \<noteq> [] \<and> unat (p_Length p) = length (locs (Data p))"

lemma ReadAt_piece: "piece_fits d p \<Longrightarrow> ReadAt d (Data p) (unat (p_Length p)) 0 = Some (piece_bytes d p, None)"
  using ReadAt_locs [of "Data p" d 0 "unat (p_Length p)"] by (simp add: piece_fits_def piece_bytes_def)

lemma VerifyHash_piece: "piece_fits d p \<Longrightarrow> VerifyHash sha1 p (piece_bytes d p) \<longleftrightarrow> sha1 (piece_bytes d p) = p_Hash p"
proof -
  assume "piece_fits d p"
  then have "length (piece_bytes d p) = unat (p_Length p)" by (simp add: piece_fits_def piece_bytes_def)
  then show ?thesis by (simp add: VerifyHash_def)
qed

lemma verify_loop_ok:
  assumes "bf_ok bf" and "\<forall>p\<in>set ps. piece_fits d p \<and> p_Length p \<le> n \<and> Index p < Len bf"
  shows "\<exists>bf'. verify_loop sha1 d n ps bf = Some (bf', None) \<and> bf_ok bf' \<and> Len bf' = Len bf \<and>
    bf_set bf' = bf_set bf \<union> {unat (Index p) | p. p \<in> set ps \<and> sha1 (piece_bytes d p) = p_Hash p}"
  using assms
proof (induction ps arbitrary: bf)
  case (Cons p ps)
  have p: "piece_fits d p" "\<not> p_Length p > n" "Index p < Len bf" using Cons.prems(2) by auto
  show ?case
  proof (cases "sha1 (piece_bytes d p) = p_Hash p")
    case True
    obtain b1 where b1: "bf_Set bf (Index p) = Some b1" "bf_ok b1" "Len b1 = Len bf"
      "bf_set b1 = insert (unat (Index p)) (bf_set bf)" using bf_Set_eq [OF Cons.prems(1) p(3)] by blast
    from Cons.IH [OF b1(2)] Cons.prems(2) b1(3) obtain bf' where
      "verify_loop sha1 d n ps b1 = Some (bf', None)" "bf_ok bf'" "Len bf' = Len b1"
      "bf_set bf' = bf_set b1 \<union> {unat (Index p) | p. p \<in> set ps \<and> sha1 (piece_bytes d p) = p_Hash p}" by auto
    then show ?thesis using True p b1 by (auto simp: ReadAt_piece VerifyHash_piece)
  next
    case False
    from Cons.IH [OF Cons.prems(1)] Cons.prems(2) obtain bf' where
      "verify_loop sha1 d n ps bf = Some (bf', None)" "bf_ok bf'" "Len bf' = Len bf"
      "bf_set bf' = bf_set bf \<union> {unat (Index p) | p. p \<in> set ps \<and> sha1 (piece_bytes d p) = p_Hash p}" by auto
    then show ?thesis using False p by (auto simp: ReadAt_piece VerifyHash_piece)
  qed
qed simp

text \<open>A piece is as long as the piece length; the last one may be shorter but is not empty.\<close>

lemma piece_ok_length:
  assumes l: "layout_ok info files" and k: "k < unat (NumPieces info)" and ok: "piece_ok info files k p"
  shows "0 < unat (p_Length p)" and "unat (p_Length p) \<le> unat (PieceLength info)"
    and "Suc k < unat (NumPieces info) \<Longrightarrow> unat (p_Length p) = unat (PieceLength info)"
proof -
  let ?n = "unat (PieceLength info)"
  have "0 < unat (p_Length p) \<and> unat (p_Length p) \<le> ?n \<and> (Suc k < unat (NumPieces info) \<longrightarrow> unat (p_Length p) = ?n)"
  proof (cases "Suc k < unat (NumPieces info)")
    case True
    then have "p_Length p = PieceLength info" "0 < ?n"
      using ok l by (simp_all add: piece_ok_def layout_ok_def word_neq_0_conv unat_gt_0)
    then show ?thesis by simp
  next
    case False
    then have kn: "k = unat (NumPieces info) - 1" "int k = int (unat (NumPieces info)) - 1" using k by linarith+
    have "int k * int ?n = int (unat (NumPieces info)) * int ?n - int ?n" unfolding kn(2) by (simp add: left_diff_distrib)
    moreover have "int k * int ?n < info_Length info" "info_Length info \<le> int (unat (NumPieces info)) * int ?n"
      using l unfolding kn(1) layout_ok_def by blast+
    moreover have "int (unat (p_Length p)) = info_Length info - int k * int ?n"
      using ok unfolding piece_ok_def if_not_P [OF False] by blast
    ultimately show ?thesis using False by linarith
  qed
  then show "0 < unat (p_Length p)" "unat (p_Length p) \<le> ?n" "Suc k < unat (NumPieces info) \<Longrightarrow> unat (p_Length p) = ?n" by auto
qed

text \<open>The pieces of a torrent on an allocated disk.\<close>

definition good :: "(byte list \<Rightarrow> byte list) \<Rightarrow> disk \<Rightarrow> Piece list \<Rightarrow> nat set" where
  "good sha1 d ps = {k. k < length ps \<and> sha1 (piece_bytes d (ps ! k)) = p_Hash (ps ! k)}"

lemma pieces_fit:
  assumes "layout_ok info files" and "NewPieces info files = Some ps" and "allocated info files d" and "k < length ps"
  shows "piece_fits d (ps ! k)" and "unat (Index (ps ! k)) = k" and "p_Length (ps ! k) \<le> p_Length (ps ! 0)"
    and "length ps = unat (NumPieces info)" and "p_Hash (ps ! k) = take 20 (drop (20 * k) (pieces info))"
proof -
  have ps: "length ps = unat (NumPieces info)" "\<forall>k<length ps. piece_ok info files k (ps ! k)"
    using NewPieces_spec [OF assms(1)] assms(2) by auto
  have ok: "piece_ok info files k (ps ! k)" "piece_ok info files 0 (ps ! 0)" using ps(2) assms(4) by (blast, force)
  show "piece_fits d (ps ! k)"
    using ok(1) secs_pos_ok [OF assms(3)] unfolding piece_ok_def piece_fits_def by blast
  show "length ps = unat (NumPieces info)" by (rule ps(1))
  show "p_Hash (ps ! k) = take 20 (drop (20 * k) (pieces info))" using ok(1) by (simp add: piece_ok_def)
  have "k < 4294967296" using assms(4) ps(1) unat_u32_less [of "NumPieces info"] by simp
  then show "unat (Index (ps ! k)) = k" using ok(1) by (simp add: piece_ok_def unat_of_nat_u32)
  have lt: "unat (p_Length (ps ! k)) \<le> unat (PieceLength info)"
    using piece_ok_length(2) [OF assms(1) _ ok(1)] assms(4) ps(1) by simp
  show "p_Length (ps ! k) \<le> p_Length (ps ! 0)"
  proof (cases "Suc 0 < unat (NumPieces info)")
    case True
    then have "p_Length (ps ! 0) = PieceLength info" using ok(2) by (simp add: piece_ok_def)
    then show ?thesis using lt by (simp only: word_le_nat_alt)
  next
    case False
    then have "k = 0" using assms(4) ps(1) by simp
    then show ?thesis by simp
  qed
qed

lemma Verifier_Run_ok:
  assumes l: "layout_ok info files" and np: "NewPieces info files = Some ps" and al: "allocated info files d"
  shows "\<exists>bf. Verifier_Run sha1 d ps = Some (bf, None) \<and> bf_ok bf \<and> Len bf = NumPieces info \<and> bf_set bf = good sha1 d ps"
proof -
  note pf = pieces_fit [OF l np al]
  have "int (unat (NumPieces info) - 1) * int (unat (PieceLength info)) < info_Length info"
    "info_Length info \<le> int (unat (NumPieces info)) * int (unat (PieceLength info))" using l by (simp_all add: layout_ok_def)
  then have "unat (NumPieces info) \<noteq> 0" by (cases "unat (NumPieces info)") auto
  moreover have n: "length ps = unat (NumPieces info)" using NewPieces_spec [OF l] np by auto
  ultimately obtain p qs where ps: "ps = p # qs" by (cases ps) auto
  have len: "of_nat (length ps) = NumPieces info" by (simp add: n)
  have in_set: "\<exists>k<length ps. q = ps ! k" if "q \<in> set ps" for q using that by (metis in_set_conv_nth)
  have "piece_fits d q \<and> p_Length q \<le> p_Length p \<and> Index q < Len (New (NumPieces info))" if q: "q \<in> set ps" for q
  proof -
    obtain k where k: "k < length ps" "q = ps ! k" using in_set [OF q] by blast
    have "Index q < NumPieces info" using pf(2) [OF k(1)] k n by (simp add: word_less_nat_alt)
    then show ?thesis using pf(1,3) [OF k(1)] k ps by simp
  qed
  then obtain bf where bf: "verify_loop sha1 d (p_Length p) ps (New (NumPieces info)) = Some (bf, None)" "bf_ok bf"
    "Len bf = NumPieces info"
    "bf_set bf = {unat (Index q) | q. q \<in> set ps \<and> sha1 (piece_bytes d q) = p_Hash q}"
    using verify_loop_ok [OF bf_ok_New, of ps d "p_Length p" "NumPieces info" sha1] by auto
  have "bf_set bf = good sha1 d ps" unfolding bf(4) good_def set_eq_iff mem_Collect_eq
    using pf(2) by (metis in_set_conv_nth)
  then show ?thesis using bf ps len by (simp add: Verifier_Run_def)
qed

section \<open>Writing pieces\<close>

lemma PieceWriter_Run_ok:
  assumes l: "layout_ok info files" and np: "NewPieces info files = Some ps" and al: "allocated info files d"
    and dist: "distinct (map Storage files)" and i: "i < length ps" and len: "length buf = unat (p_Length (ps ! i))"
  shows "\<exists>d'. PieceWriter_Run sha1 (\<lambda>_. True) d (ps ! i) buf = Some (sha1 buf = p_Hash (ps ! i), None, d') \<and>
    allocated info files d' \<and>
    good sha1 d' ps = (if sha1 buf = p_Hash (ps ! i) then insert i (good sha1 d ps) else good sha1 d ps)"
proof (cases "sha1 buf = p_Hash (ps ! i)")
  case False
  then show ?thesis using al len by (simp add: PieceWriter_Run_def VerifyHash_def)
next
  case True
  obtain d' where d': "Write (\<lambda>_. True) d (Data (ps ! i)) buf 0 = Some (d', length buf, None)" "allocated info files d'"
    and r: "\<forall>off n. off + n \<le> length buf \<longrightarrow> ReadAt d' (Data (ps ! i)) n (int off) = Some (take n (drop off buf), None)"
    and o: "\<forall>j<length ps. \<forall>off n. j \<noteq> i \<longrightarrow> off + n \<le> unat (p_Length (ps ! j)) \<longrightarrow>
       ReadAt d' (Data (ps ! j)) n (int off) = ReadAt d (Data (ps ! j)) n (int off)"
    using piece_write_read [OF l np dist al i len] by blast
  have "piece_bytes d' (ps ! i) = buf"
    using spec [OF spec [OF r, of 0], of "length buf"] ReadAt_piece [OF pieces_fit(1) [OF l np d'(2) i]] len by simp
  moreover have "piece_bytes d' (ps ! j) = piece_bytes d (ps ! j)" if "j < length ps" "j \<noteq> i" for j
    using o [rule_format, OF that, of 0 "unat (p_Length (ps ! j))"] ReadAt_piece [OF pieces_fit(1) [OF l np d'(2) that(1)]]
      ReadAt_piece [OF pieces_fit(1) [OF l np al that(1)]] by simp
  ultimately have "x \<in> good sha1 d' ps \<longleftrightarrow> x = i \<or> x \<in> good sha1 d ps" for x
    using True i by (cases "x = i") (auto simp: good_def)
  then have "good sha1 d' ps = insert i (good sha1 d ps)" by blast
  then show ?thesis using True len d' by (simp add: PieceWriter_Run_def VerifyHash_def)
qed

text \<open>Pieces written one after the other, as the event loop starts one writer for each.\<close>

fun write_all :: "(byte list \<Rightarrow> byte list) \<Rightarrow> disk \<Rightarrow> Piece list \<Rightarrow> (nat \<times> byte list) list \<Rightarrow> disk option" where
  "write_all sha1 d ps [] = Some d"
| "write_all sha1 d ps (w # ws) =
     do { (_, _, d) \<leftarrow> PieceWriter_Run sha1 (\<lambda>_. True) d (ps ! fst w) (snd w); write_all sha1 d ps ws }"

lemma write_all_ok:
  assumes l: "layout_ok info files" and np: "NewPieces info files = Some ps" and al: "allocated info files d"
    and dist: "distinct (map Storage files)" and ws: "\<forall>(i, buf)\<in>set ws. i < length ps \<and> length buf = unat (p_Length (ps ! i))"
  shows "\<exists>d'. write_all sha1 d ps ws = Some d' \<and> allocated info files d' \<and>
    good sha1 d' ps = good sha1 d ps \<union> {i. \<exists>buf. (i, buf) \<in> set ws \<and> sha1 buf = p_Hash (ps ! i)}"
  using al ws
proof (induction ws arbitrary: d)
  case (Cons w ws)
  obtain i buf where w: "w = (i, buf)" by fastforce
  have i: "i < length ps" "length buf = unat (p_Length (ps ! i))" using Cons.prems(2) w by auto
  obtain d1 where d1: "PieceWriter_Run sha1 (\<lambda>_. True) d (ps ! i) buf = Some (sha1 buf = p_Hash (ps ! i), None, d1)"
    "allocated info files d1"
    "good sha1 d1 ps = (if sha1 buf = p_Hash (ps ! i) then insert i (good sha1 d ps) else good sha1 d ps)"
    using PieceWriter_Run_ok [OF l np Cons.prems(1) dist i] by blast
  from Cons.IH [OF d1(2)] Cons.prems(2) obtain d' where "write_all sha1 d1 ps ws = Some d'" "allocated info files d'"
    "good sha1 d' ps = good sha1 d1 ps \<union> {i. \<exists>buf. (i, buf) \<in> set ws \<and> sha1 buf = p_Hash (ps ! i)}" by auto
  then show ?case using w d1 by (auto split: if_splits)
qed simp

section \<open>The content and its chunks\<close>

lemma chunks_unique:
  assumes "0 < n" and "\<forall>k<length xss. if Suc k < length xss then length (xss ! k) = n else 0 < length (xss ! k) \<and> length (xss ! k) \<le> n"
  shows "chunks n (concat xss) = xss"
  using assms(2)
proof (induction xss)
  case (Cons xs xss)
  have IH: "chunks n (concat xss) = xss"
  proof (rule Cons.IH, intro allI impI)
    fix k assume "k < length xss"
    then show "if Suc k < length xss then length (xss ! k) = n else 0 < length (xss ! k) \<and> length (xss ! k) \<le> n"
      using spec [OF Cons.prems, of "Suc k"] by (simp split: if_splits)
  qed
  show ?case
  proof (cases "length xs = n")
    case True
    then show ?thesis using chunks_full [OF assms(1) True] IH by simp
  next
    case False
    then have "\<not> Suc 0 < length (xs # xss)" "0 < length xs \<and> length xs \<le> n" using spec [OF Cons.prems, of 0] by (auto split: if_splits)
    then show ?thesis using False chunks_short [of xs n] by simp
  qed
qed simp

lemma piece_chunks:
  assumes l: "layout_ok info files" and np: "NewPieces info files = Some ps" and al: "allocated info files d"
  shows "map (piece_bytes d) ps =
    chunks (unat (PieceLength info)) (concat (map (\<lambda>k. d (Storage (files ! k))) [0..<length (Files info)]))"
proof -
  let ?n = "unat (PieceLength info)"
  have ps: "length ps = unat (NumPieces info)" "\<forall>k<length ps. piece_ok info files k (ps ! k)"
    "concat (map (locs \<circ> Data) ps) = all_locs info files" using NewPieces_spec [OF l] np by auto
  have n: "0 < ?n" using l by (simp add: layout_ok_def word_neq_0_conv unat_gt_0)
  have "map (loc_byte d) (file_locs info files k) = d (Storage (files ! k))" if "k < length (Files info)" for k
  proof -
    have "nat (Length (Files info ! k)) = length (d (Storage (files ! k)))" using al that by (auto simp: allocated_def)
    then show ?thesis by (simp add: file_locs_def loc_byte_def comp_def map_nth)
  qed
  then have "map (loc_byte d) (all_locs info files) = concat (map (\<lambda>k. d (Storage (files ! k))) [0..<length (Files info)])"
    unfolding all_locs_def map_concat map_map comp_def
    by (intro arg_cong [of _ _ concat] map_cong) (simp_all add: all_locs_def map_concat)
  moreover have "concat (map (piece_bytes d) ps) = map (loc_byte d) (all_locs info files)"
    by (simp add: ps(3) [symmetric] map_concat comp_def piece_bytes_def [abs_def])
  moreover have "chunks ?n (concat (map (piece_bytes d) ps)) = map (piece_bytes d) ps"
  proof (rule chunks_unique [OF n], intro allI impI)
    fix k assume "k < length (map (piece_bytes d) ps)"
    then have k: "k < length ps" by simp
    then have ok: "piece_ok info files k (ps ! k)" using ps(2) by blast
    have len: "length (piece_bytes d (ps ! k)) = unat (p_Length (ps ! k))" using ok by (simp add: piece_bytes_def piece_ok_def)
    show "if Suc k < length (map (piece_bytes d) ps) then length (map (piece_bytes d) ps ! k) = ?n
      else 0 < length (map (piece_bytes d) ps ! k) \<and> length (map (piece_bytes d) ps ! k) \<le> ?n"
      using piece_ok_length [OF l _ ok] k ps(1) len by simp
  qed
  ultimately show ?thesis by simp
qed

text \<open>What the files of a torrent hold, as far as their lengths go; a missing file is zeros.\<close>

definition content_at :: "string list \<Rightarrow> fs \<Rightarrow> Info \<Rightarrow> byte list" where
  "content_at dest s info = concat (map (opened dest s) (Files info))"

lemma allocate_and_verify:
  assumes l: "\<And>files. length files = length (Files info) \<Longrightarrow> layout_ok info files"
    and s: "fs_ok s" and fs: "\<forall>f\<in>set (Files info). \<not> fails (file_at dest f) \<and> 0 \<le> Length f"
    and d: "distinct (map (file_at dest) (Files info))"
  shows "\<exists>a pr s' ps bf. Allocator_Run fails dest info s = (a, pr, s') \<and> \<not> al_Failed a \<and>
    NewPieces info (al_Files a) = Some ps \<and> Verifier_Run sha1 (fs_data s') ps = Some (bf, None) \<and>
    bf_ok bf \<and> Len bf = NumPieces info \<and>
    (HasMissing a \<longleftrightarrow> (\<exists>f\<in>set (Files info). map_of (fs_paths s) (file_at dest f) = None)) \<and>
    length (chunks (unat (PieceLength info)) (content_at dest s info)) = unat (NumPieces info) \<and>
    bf_set bf = {k. k < unat (NumPieces info) \<and>
      sha1 (chunks (unat (PieceLength info)) (content_at dest s info) ! k) = take 20 (drop (20 * k) (pieces info))}"
proof -
  let ?n = "unat (PieceLength info)"
  obtain a pr s' where a: "Allocator_Run fails dest info s = (a, pr, s')" "\<not> al_Failed a"
    "length (al_Files a) = length (Files info)" "allocated info (al_Files a) (fs_data s')"
    "\<forall>k<length (Files info). fs_data s' (Storage (al_Files a ! k)) = opened dest s (Files info ! k)"
    "HasMissing a \<longleftrightarrow> (\<exists>f\<in>set (Files info). map_of (fs_paths s) (file_at dest f) = None)"
    using Allocator_Run_ok [OF s fs d] by blast
  note l = l [OF a(3)]
  obtain ps where np: "NewPieces info (al_Files a) = Some ps" "length ps = unat (NumPieces info)"
    using NewPieces_spec [OF l] by auto
  obtain bf where bf: "Verifier_Run sha1 (fs_data s') ps = Some (bf, None)" "bf_ok bf" "Len bf = NumPieces info"
    "bf_set bf = good sha1 (fs_data s') ps" using Verifier_Run_ok [OF l np(1) a(4)] by blast
  have "map (\<lambda>k. fs_data s' (Storage (al_Files a ! k))) [0..<length (Files info)] = map (opened dest s) (Files info)"
    using a(5) by (intro nth_equalityI) auto
  then have c: "map (piece_bytes (fs_data s')) ps = chunks ?n (content_at dest s info)"
    using piece_chunks [OF l np(1) a(4)] by (simp add: content_at_def)
  have "length (chunks ?n (content_at dest s info)) = unat (NumPieces info)" using arg_cong [OF c, of length] np(2) by simp
  moreover have "piece_bytes (fs_data s') (ps ! k) = chunks ?n (content_at dest s info) ! k" if "k < length ps" for k
    using arg_cong [OF c, of "\<lambda>xs. xs ! k"] that by simp
  then have "good sha1 (fs_data s') ps =
      {k. k < unat (NumPieces info) \<and> sha1 (chunks ?n (content_at dest s info) ! k) = take 20 (drop (20 * k) (pieces info))}"
    unfolding good_def using pieces_fit(5) [OF l np(1) a(4)] np(2) by auto
  ultimately show ?thesis using a np(1) bf by auto
qed

lemma take_drop_concat:
  assumes "\<forall>x\<in>set xs. length (f x) = (n :: nat)" and "k < length xs"
  shows "take n (drop (n * k) (concat (map f xs))) = f (xs ! k)"
  using assms
proof (induction xs arbitrary: k)
  case (Cons x xs)
  show ?case
  proof (cases k)
    case (Suc j)
    have "take n (drop (n * j) (concat (map f xs))) = f (xs ! j)" using Cons.prems Suc by (intro Cons.IH) auto
    then show ?thesis using Cons.prems Suc by simp
  qed (use Cons.prems in simp)
qed simp

section \<open>Paths\<close>

lemma split_path_no_sep: "CHR ''/'' \<notin> set e \<Longrightarrow> split_path e = [e]"
  by (induction e) auto

lemma split_path_append: "CHR ''/'' \<notin> set e \<Longrightarrow> split_path (e @ CHR ''/'' # s) = e # split_path s"
  by (induction e) auto

lemma split_join: "es \<noteq> [] \<Longrightarrow> \<forall>e\<in>set es. CHR ''/'' \<notin> set e \<Longrightarrow> split_path (join_slash es) = es"
  by (induction es rule: join_slash.induct) (auto simp: split_path_no_sep split_path_append)

text \<open>Elements that name something: not empty, not \<open>.\<close>, not \<open>..\<close>.\<close>

definition plain :: "string \<Rightarrow> bool" where
  "plain e \<longleftrightarrow> e \<noteq> [] \<and> e \<noteq> ''.'' \<and> e \<noteq> ''..''"

lemma clean_elems_filter: "''..'' \<notin> set es \<Longrightarrow> clean_elems es = filter plain es"
proof -
  have "foldl clean_push st (filter (\<lambda>e. e \<noteq> []) es) = rev (filter plain es) @ st" if "''..'' \<notin> set es" for st
    using that by (induction es arbitrary: st) (auto simp: plain_def)
  from this [of "[]"] show "''..'' \<notin> set es \<Longrightarrow> clean_elems es = filter plain es" by (simp add: clean_elems_def)
qed

lemma rooted_plain: "\<forall>e\<in>set es. plain e \<Longrightarrow> foldl rooted_push st es = rev es @ st"
  by (induction es arbitrary: st) (auto simp: plain_def)

lemma storage_path_elems:
  assumes "\<forall>e\<in>set es. CHR ''/'' \<notin> set e" and "''..'' \<notin> set es"
  shows "storage_path dest (filepath_Join es) = dest @ filter plain es"
proof -
  let ?c = "filter plain es"
  have c: "clean_elems es = ?c" by (rule clean_elems_filter [OF assms(2)])
  show ?thesis
  proof (cases "?c = []")
    case True
    have "clean_path [] = []" "clean_path ''.'' = []" by (simp_all add: clean_path_def clean_elems_def Let_def)
    then show ?thesis using True c by (auto simp: filepath_Join_def Let_def storage_path_def)
  next
    case False
    then obtain e es' where e: "?c = e # es'" by (cases ?c) auto
    have pl: "\<forall>e\<in>set ?c. plain e" by simp
    have "filter (\<lambda>e. e \<noteq> []) es \<noteq> []" using False by (auto simp: filter_empty_conv plain_def)
    then have j: "filepath_Join es = join_slash ?c" using False by (simp add: filepath_Join_def Let_def c)
    have sp: "split_path (join_slash ?c) = ?c" using assms(1) by (intro split_join [OF False]) auto
    have "e \<in> set ?c" using e by simp
    then have "e \<in> set es" "plain e" by simp_all
    then have "e \<noteq> []" "CHR ''/'' \<notin> set e" using assms(1) by (auto simp: plain_def)
    then have "take 1 (join_slash ?c) \<noteq> ''/''" unfolding e by (cases es'; cases e) auto
    then have "clean_path (join_slash ?c) = ?c" using assms(2) by (simp add: clean_path_def sp clean_elems_filter)
    then show ?thesis using rooted_plain [OF pl] by (simp add: j storage_path_def)
  qed
qed

lemma cleanName_no_separator: "CHR ''/'' \<notin> set (cleanName s)"
  by (simp add: cleanName_def cleanNameN_no_separator)

lemma storage_path_file:
  assumes "cleanName name \<noteq> ''..''" and "\<forall>e\<in>set path. cleanName e \<noteq> ''..''"
  shows "storage_path dest (file_path name path) = dest @ filter plain (cleanName name # map cleanName path)"
  unfolding file_path_def using assms by (intro storage_path_elems) (auto simp: cleanName_no_separator)

text \<open>What \<open>cleanName\<close> makes of a name is \<open>..\<close> only for \<open>..\<close> itself: a name that is cut stays long, however its last rune is broken.\<close>

lemma rune_len_le: "rune_len s \<le> length s" "rune_len s \<le> 4"
  by (cases s; simp add: rune_len_def Let_def split: list.split)+

text \<open>The encodings by their length; bytes after the first are no ASCII bytes.\<close>

lemma rune_len_cons: "rune_len (a # q) = (let n = (of_char a :: nat) in if n < 128 then 1
   else if in_range 194 223 a then rune_len (a # take 1 q) else if in_range 224 239 a then rune_len (a # take 2 q) else rune_len (a # take 3 q))"
  by (simp add: rune_len_def Let_def in_range_def numeral_3_eq_3 numeral_2_eq_2 split: list.split)

lemma rune_len_bound:
  "\<not> (of_char a :: nat) < 128 \<Longrightarrow> in_range 194 223 a \<Longrightarrow> rune_len (a # q) \<in> {0, 2}"
  "\<not> (of_char a :: nat) < 128 \<Longrightarrow> \<not> in_range 194 223 a \<Longrightarrow> in_range 224 239 a \<Longrightarrow> rune_len (a # q) \<in> {0, 3}"
  "\<not> (of_char a :: nat) < 128 \<Longrightarrow> \<not> in_range 194 223 a \<Longrightarrow> \<not> in_range 224 239 a \<Longrightarrow> rune_len (a # q) \<in> {0, 4}"
  by (simp_all add: rune_len_def Let_def split: list.split)

lemma rune_len_prefix:
  assumes "rune_len s \<noteq> 0"
  shows "rune_len (take (rune_len s) s @ x) = rune_len s"
proof (cases s)
  case (Cons a q)
  let ?k = "rune_len s"
  have k: "?k \<le> Suc (length q)" using rune_len_le(1) [of s] Cons by simp
  have t: "take ?k s @ x = a # (take (?k - 1) q @ x)" using Cons assms by (simp add: take_Cons')
  consider "(of_char a :: nat) < 128" | "\<not> (of_char a :: nat) < 128" "in_range 194 223 a" | "\<not> (of_char a :: nat) < 128" "\<not> in_range 194 223 a" "in_range 224 239 a"
    | "\<not> (of_char a :: nat) < 128" "\<not> in_range 194 223 a" "\<not> in_range 224 239 a" by blast
  then show ?thesis
  proof cases
    case 1
    then have "rune_len (a # u) = 1" for u by (subst rune_len_cons) simp
    then show ?thesis unfolding t Cons by simp
  next
    case 2
    then have "?k = 2" using rune_len_bound(1) [of a q] assms Cons by simp
    then show ?thesis using k 2 unfolding t by (subst Cons, subst (1 2) rune_len_cons) simp
  next
    case 3
    then have "?k = 3" using rune_len_bound(2) [of a q] assms Cons by simp
    then show ?thesis using k 3 unfolding t by (subst Cons, subst (1 2) rune_len_cons) simp
  next
    case 4
    then have "?k = 4" using rune_len_bound(3) [of a q] assms Cons by simp
    then show ?thesis using k 4 unfolding t by (subst Cons, subst (1 2) rune_len_cons) simp
  qed
qed (use assms in \<open>simp add: rune_len_def\<close>)

lemma rune_len_cont: "1 < rune_len s \<Longrightarrow> i < rune_len s \<Longrightarrow> 128 \<le> (of_char (s ! i) :: nat)"
proof -
  assume a: "1 < rune_len s" "i < rune_len s"
  then have "i = 0 \<or> i = 1 \<or> i = 2 \<or> i = 3" using rune_len_le(2) [of s] by linarith
  then show ?thesis using a
    by (elim disjE) (auto simp: rune_len_def Let_def in_range_def is_cont_def split: list.splits if_splits)
qed

lemma rune_len_ascii:
  assumes "p \<noteq> []" "r = [] \<or> (of_char (hd r) :: nat) < 128"
  shows "rune_len (p @ r) \<le> length p"
proof (rule ccontr)
  assume "\<not> ?thesis"
  then have l: "length p < rune_len (p @ r)" by simp
  then have "r \<noteq> []" using rune_len_le(1) [of "p @ r"] by auto
  moreover have "128 \<le> (of_char ((p @ r) ! length p) :: nat)" using l assms(1) by (intro rune_len_cont) (cases p; simp)+
  ultimately show False using assms(2) by (simp add: hd_conv_nth nth_append)
qed

text \<open>Strings that are a sequence of runes.\<close>

inductive valid_utf8 :: "string \<Rightarrow> bool" where
  empty: "valid_utf8 []"
| rune: "rune_len s \<noteq> 0 \<Longrightarrow> valid_utf8 (drop (rune_len s) s) \<Longrightarrow> valid_utf8 s"

lemma valid_append_rune:
  assumes "rune_len s \<noteq> 0" "valid_utf8 u"
  shows "valid_utf8 (take (rune_len s) s @ u)"
  by (rule valid_utf8.rune) (use assms rune_len_prefix [OF assms(1), of u] rune_len_le(1) [of s] in simp_all)

lemma to_valid_utf8_valid: "rep = replacement_char \<Longrightarrow> valid_utf8 (to_valid_utf8_from bad rep s)"
proof (induction bad rep s rule: to_valid_utf8_from.induct)
  case (1 bad rep s)
  have c: "rune_len (replacement_char @ u) = 3" "drop 3 (replacement_char @ u) = u" for u
    by (simp_all add: replacement_char_def rune_len_def in_range_def is_cont_def Let_def)
  have r: "valid_utf8 (replacement_char @ u)" if "valid_utf8 u" for u by (rule valid_utf8.rune) (use that c in simp_all)
  show ?case using 1 by (subst to_valid_utf8_from.simps) (auto intro: valid_utf8.empty valid_append_rune r)
qed

lemma to_valid_utf8_of_valid: "valid_utf8 s \<Longrightarrow> to_valid_utf8_from bad rep s = s"
proof (induction arbitrary: bad rule: valid_utf8.induct)
  case (rune s)
  then show ?case by (subst to_valid_utf8_from.simps) (auto simp: rune_len_def)
qed (simp add: to_valid_utf8_from.simps)

lemma to_valid_utf8_unchanged:
  "hd rep \<notin> set (to_valid_utf8_from bad rep s) \<Longrightarrow> rep \<noteq> [] \<Longrightarrow> \<not> bad \<Longrightarrow> to_valid_utf8_from bad rep s = s"
proof (induction bad rep s rule: to_valid_utf8_from.induct)
  case (1 bad rep s)
  show ?case using 1 by (subst (asm) (3) to_valid_utf8_from.simps, subst to_valid_utf8_from.simps) (cases rep; auto split: if_splits)
qed

text \<open>A byte of the ASCII range starts a rune, so that what follows it is read in full whatever comes before.\<close>

lemma valid_utf8_ascii_suffix:
  "valid_utf8 s \<Longrightarrow> s = x @ r \<Longrightarrow> (of_char (hd r) :: nat) < 128 \<Longrightarrow> valid_utf8 r"
proof (induction arbitrary: x rule: valid_utf8.induct)
  case (rune s)
  show ?case
  proof (cases "x = []")
    case True
    then show ?thesis using rune by (auto intro: valid_utf8.rune)
  next
    case False
    then have "rune_len s \<le> length x" using rune_len_ascii [OF False, of r] rune.prems by simp
    then have "drop (rune_len s) s = drop (rune_len s) x @ r" using rune.prems by simp
    then show ?thesis by (rule rune.IH) (rule rune.prems)
  qed
qed (auto intro: valid_utf8.empty)

lemma to_valid_utf8_ascii_suffix:
  "rep = [] \<Longrightarrow> r = [] \<or> (of_char (hd r) :: nat) < 128 \<Longrightarrow> length (to_valid_utf8_from False [] r) \<le> length (to_valid_utf8_from bad rep (p @ r))"
proof (induction "length p" arbitrary: p bad rule: less_induct)
  case less
  have flag: "to_valid_utf8_from True [] r = to_valid_utf8_from False [] r"
    by (subst (1 2) to_valid_utf8_from.simps) simp
  show ?case
  proof (cases "p = []")
    case True
    then show ?thesis using less.prems flag by (cases bad) auto
  next
    case False
    let ?n = "rune_len (p @ r)"
    have n: "?n \<le> length p" by (rule rune_len_ascii [OF False less.prems(2)])
    show ?thesis
    proof (cases "?n = 0")
      case True
      then show ?thesis using less.hyps [of "tl p" True] less.prems False by (subst (2) to_valid_utf8_from.simps) simp
    next
      case n0: False
      then have "length (drop ?n p) < length p" using False n by simp
      from less.hyps [OF this, of False] show ?thesis using less.prems False n n0 by (subst (2) to_valid_utf8_from.simps) simp
    qed
  qed
qed

lemma to_valid_utf8_cut:
  assumes "valid_utf8 s" "k \<le> length s" "r = [] \<or> (of_char (hd r) :: nat) < 128"
  shows "k + length (to_valid_utf8_from False [] r) \<le> length (to_valid_utf8_from False [] (take k s @ r)) + 3"
  using assms(1,2)
proof (induction arbitrary: k rule: valid_utf8.induct)
  case empty
  then show ?case by simp
next
  case (rune s)
  let ?n = "rune_len s"
  have n: "?n \<le> length s" "?n \<le> 4" by (rule rune_len_le)+
  show ?case
  proof (cases "k < ?n")
    case True
    then show ?thesis using n to_valid_utf8_ascii_suffix [OF refl assms(3), of False "take k s"] by simp
  next
    case False
    let ?t = "take (k - ?n) (drop ?n s) @ r"
    have t: "take k s @ r = take ?n s @ ?t" using False n(1)
      by (metis append.assoc le_add_diff_inverse not_less take_add)
    have "rune_len (take k s @ r) = ?n" unfolding t by (rule rune_len_prefix [OF rune.hyps(1)])
    then have "to_valid_utf8_from False [] (take k s @ r) = take ?n s @ to_valid_utf8_from False [] ?t"
      using rune.hyps(1) n(1) unfolding t by (subst to_valid_utf8_from.simps) (auto simp: rune_len_def)
    moreover have "k - ?n + length (to_valid_utf8_from False [] r) \<le> length (to_valid_utf8_from False [] ?t) + 3"
      using rune.prems n(1) by (intro rune.IH) simp
    ultimately show ?thesis using False n(1) by simp
  qed
qed

lemma ext_rev_dot: "ext_rev t acc = [] \<or> (\<exists>a b. t = a @ CHR ''.'' # b \<and> ext_rev t acc = CHR ''.'' # rev a @ acc)"
proof (induction t arbitrary: acc)
  case (Cons c t)
  consider "c = CHR ''/''" | "c = CHR ''.''" | "c \<noteq> CHR ''/''" "c \<noteq> CHR ''.''" by blast
  then show ?case
  proof cases
    case 3
    from Cons.IH [of "c # acc"] show ?thesis
    proof (elim disjE exE conjE)
      fix a b
      assume "t = a @ CHR ''.'' # b" "ext_rev t (c # acc) = CHR ''.'' # rev a @ c # acc"
      then show ?thesis using 3 by (intro disjI2 exI [of _ "c # a"] exI [of _ b]) simp
    qed (simp add: 3)
  qed auto
qed simp

lemma path_Ext_suffix:
  assumes "path_Ext s \<noteq> []"
  shows "hd (path_Ext s) = CHR ''.'' \<and> (\<exists>x. s = x @ path_Ext s)"
proof -
  obtain a b where "rev s = a @ CHR ''.'' # b" "path_Ext s = CHR ''.'' # rev a"
    using ext_rev_dot [of "rev s" "[]"] assms unfolding path_Ext_def by auto
  then have "s = rev b @ path_Ext s" "hd (path_Ext s) = CHR ''.''" by (simp_all add: rev_swap)
  then show ?thesis by blast
qed

text \<open>Cutting a long name leaves it long.\<close>

lemma trimmed_is_long:
  assumes "valid_utf8 s" "255 < length s"
  shows "252 \<le> length (to_valid_utf8_from False [] (trimName s 255))"
proof (cases "length (path_Ext s) > 255 \<or> path_Ext s = []")
  case True
  then have "trimName s 255 = take 255 s @ []" using assms(2) by (auto simp: trimName_def Let_def)
  then show ?thesis using to_valid_utf8_cut [OF assms(1), of 255 "[]"] assms(2) by simp
next
  case False
  let ?e = "path_Ext s"
  from path_Ext_suffix [of s] False obtain x where e: "hd ?e = CHR ''.''" "s = x @ ?e" by blast
  then have a: "(of_char (hd ?e) :: nat) < 128" by simp
  have "to_valid_utf8_from False [] ?e = ?e"
    by (rule to_valid_utf8_of_valid [OF valid_utf8_ascii_suffix [OF assms(1) e(2) a]])
  moreover have "trimName s 255 = take (255 - length ?e) s @ ?e" using assms(2) False by (simp add: trimName_def Let_def)
  ultimately show ?thesis using to_valid_utf8_cut [OF assms(1), of "255 - length ?e" ?e] a assms(2) False by simp
qed

text \<open>Only \<open>..\<close> is cleaned to \<open>..\<close>.\<close>

lemma cleanName_dots: "cleanName s = ''..'' \<longleftrightarrow> s = ''..''"
proof
  let ?v = "to_valid_utf8_from False replacement_char s"
  let ?w = "to_valid_utf8_from False [] (trimName ?v 255)"
  have v: "valid_utf8 ?v" by (rule to_valid_utf8_valid [OF refl])
  assume "cleanName s = ''..''"
  then have m: "map (\<lambda>r. if r = CHR ''/'' then CHR ''_'' else r) ?w = ''..''"
    by (simp add: cleanName_def cleanNameN_def ToValidUTF8_def replaceSeparator_def Let_def)
  then have w: "?w = ''..''" by (auto simp: map_eq_Cons_conv split: if_splits)
  then have "length ?v \<le> 255" using trimmed_is_long [OF v] by force
  then have v2: "?v = ''..''" using w to_valid_utf8_of_valid [OF v, of False "[]"] by (simp add: trimName_def)
  have "hd replacement_char \<notin> set ''..''" by (simp add: replacement_char_def char_of_def)
  then have "?v = s" using v2 by (intro to_valid_utf8_unchanged) (simp_all add: replacement_char_def)
  then show "s = ''..''" using v2 by simp
next
  have "cleanName ''..'' = ''..''" by code_simp
  then show "s = ''..'' \<Longrightarrow> cleanName s = ''..''" by simp
qed

lemma NewInfo_no_dots:
  assumes "NewInfo decode sha1 b = Inr info"
  obtains (multi) ib where "decode b = Some ib" "ib_Files ib \<noteq> []" "\<forall>f\<in>set (ib_Files ib). ''..'' \<notin> set (f_Path f)"
      "Files info = map (\<lambda>f. \<lparr>Length = f_Length f, Path = file_path (Name info) (f_Path f)\<rparr>) (ib_Files ib)"
  | (single) "Files info = [\<lparr>Length = info_Length info, Path = cleanName (Name info)\<rparr>]"
proof -
  obtain ib where d: "decode b = Some ib" using assms by (rule NewInfo_InrE)
  have t: "TrimSpace ''..'' = ''..''" by (simp add: TrimSpace_def space1_def space2_def)
  show ?thesis
  proof (cases "ib_Files ib = []")
    case True
    then show ?thesis using assms d single by (auto simp: NewInfo_def Let_def split: if_splits)
  next
    case False
    have "\<not> (\<exists>f\<in>set (ib_Files ib). \<exists>p\<in>set (f_Path f). TrimSpace p = ''..'')"
      using assms d by (simp add: NewInfo_def Let_def split: if_splits)
    then have "\<forall>f\<in>set (ib_Files ib). ''..'' \<notin> set (f_Path f)" using t by metis
    moreover have "Files info = map (\<lambda>f. \<lparr>Length = f_Length f, Path = file_path (Name info) (f_Path f)\<rparr>) (ib_Files ib)"
      using assms d False by (auto simp: NewInfo_def Let_def split: if_splits)
    ultimately show ?thesis using d False multi by blast
  qed
qed

lemma storage_path_element:
  assumes "CHR ''/'' \<notin> set e" and "e \<noteq> ''..''"
  shows "storage_path dest e = dest @ filter plain [e]"
proof -
  have "take 1 e \<noteq> ''/''" using assms(1) by (cases e) auto
  moreover have "clean_elems [e] = filter plain [e]" by (rule clean_elems_filter) (use assms(2) in simp)
  ultimately have c: "clean_path e = filter plain [e]" by (simp only: clean_path_def split_path_no_sep [OF assms(1)] Let_def if_False)
  have "\<forall>x\<in>set (filter plain [e]). plain x" by simp
  from rooted_plain [OF this, of "rev dest"] show ?thesis by (simp only: storage_path_def c rev_append rev_rev_ident)
qed

lemma NewInfo_confined:
  assumes "NewInfo decode sha1 b = Inr info" and "Name info \<noteq> ''..''"
  shows "\<forall>f\<in>set (Files info). \<exists>rest. storage_path dest (Path f) = dest @ rest \<and> (\<forall>e\<in>set rest. plain e \<and> CHR ''/'' \<notin> set e)"
  using assms(1)
proof (cases rule: NewInfo_no_dots)
  case (multi ib)
  show ?thesis
  proof
    fix f assume "f \<in> set (Files info)"
    then obtain g where g: "g \<in> set (ib_Files ib)" "Path f = file_path (Name info) (f_Path g)" unfolding multi(4) by auto
    let ?r = "filter plain (map cleanName (Name info # f_Path g))"
    have "storage_path dest (Path f) = dest @ ?r"
      unfolding g(2) list.map by (rule storage_path_file) (use g(1) multi(3) assms(2) in \<open>auto simp: cleanName_dots\<close>)
    moreover have "\<forall>e\<in>set ?r. plain e \<and> CHR ''/'' \<notin> set e" unfolding set_filter set_map using cleanName_no_separator by blast
    ultimately show "\<exists>rest. storage_path dest (Path f) = dest @ rest \<and> (\<forall>e\<in>set rest. plain e \<and> CHR ''/'' \<notin> set e)" by blast
  qed
next
  case single
  show ?thesis
  proof
    fix f assume "f \<in> set (Files info)"
    then have f: "Path f = cleanName (Name info)" unfolding single by simp
    let ?r = "filter plain [cleanName (Name info)]"
    have "storage_path dest (Path f) = dest @ ?r"
      unfolding f by (rule storage_path_element [OF cleanName_no_separator]) (simp only: cleanName_dots assms(2) not_False_eq_True)
    moreover have "\<forall>e\<in>set ?r. plain e \<and> CHR ''/'' \<notin> set e" unfolding set_filter using cleanName_no_separator by auto
    ultimately show "\<exists>rest. storage_path dest (Path f) = dest @ rest \<and> (\<forall>e\<in>set rest. plain e \<and> CHR ''/'' \<notin> set e)" by blast
  qed
qed

lemma on_disk_opened:
  assumes "map_option (fs_data s) (map_of (fs_paths s) (file_at dest f)) = Some c" and "Length f = int (length c)"
  shows "opened dest s f = c"
  using assms by (auto simp: opened_def resize_id)

section \<open>Properties\<close>

text \<open>
  C5: What the verifier reports is exactly what is on disk.  For an accepted torrent whose files
  have paths of their own, none negative in length or refused by the system, allocation succeeds, the files
  are cut into pieces, and the verifier returns without a panic or an error; bit \<open>k\<close> of its
  bitfield is set if and only if the digest of the \<open>k\<close>th piece of the content the files had before (cut
  or filled up with zeros to their lengths) is the \<open>k\<close>th hash of the torrent.
\<close>

theorem verification_exact:
  assumes "NewInfo decode sha1 b = Inr info" and "sizes_ok info" and "fs_ok s"
    and "\<forall>f\<in>set (Files info). \<not> fails (file_at dest f)" and "distinct (map (file_at dest) (Files info))"
  shows "\<exists>a pr s' ps bf. Allocator_Run fails dest info s = (a, pr, s') \<and> \<not> al_Failed a \<and>
    NewPieces info (al_Files a) = Some ps \<and> Verifier_Run sha1 (fs_data s') ps = Some (bf, None) \<and> Len bf = NumPieces info \<and>
    (\<forall>k<NumPieces info. Test bf k = Some
      (sha1 (chunks (unat (PieceLength info)) (content_at dest s info) ! unat k) = take 20 (drop (20 * unat k) (pieces info))))"
proof -
  have "\<forall>f\<in>set (Files info). \<not> fails (file_at dest f) \<and> 0 \<le> Length f" using assms(2,4) by (simp add: sizes_ok_def)
  from allocate_and_verify [OF layout_of_NewInfo [OF assms(1,2)] assms(3) this assms(5), of sha1]
  obtain a pr s' ps bf where v: "Allocator_Run fails dest info s = (a, pr, s')" "\<not> al_Failed a"
    "NewPieces info (al_Files a) = Some ps" "Verifier_Run sha1 (fs_data s') ps = Some (bf, None)" "bf_ok bf" "Len bf = NumPieces info"
    "bf_set bf = {k. k < unat (NumPieces info) \<and>
      sha1 (chunks (unat (PieceLength info)) (content_at dest s info) ! k) = take 20 (drop (20 * k) (pieces info))}" by blast
  have "Test bf k = Some
      (sha1 (chunks (unat (PieceLength info)) (content_at dest s info) ! unat k) = take 20 (drop (20 * unat k) (pieces info)))"
    if "k < NumPieces info" for k
    using Test_eq [OF v(5), of k] that v(6) by (simp add: v(7) word_less_nat_alt)
  then show ?thesis using v by blast
qed

definition sample_sha :: "byte list \<Rightarrow> byte list" where
  "sample_sha b = (if b = [1, 2, 3, 4] then replicate 20 7 else [])"

text \<open>On disk \<open>d/a\<close> is complete and \<open>d/b\<close> too short: only the first piece is there.\<close>

theorem verification_exact_witness:
  "\<exists>a pr s' ps bf. Allocator_Run (\<lambda>_. False) [''home''] sample_info
      \<lparr>fs_paths = [([''home'', ''d'', ''a''], 0), ([''home'', ''d'', ''b''], 1)], fs_data = (\<lambda>_. [])(0 := [1, 2, 3], 1 := [4]), fs_next = 2\<rparr>
      = (a, pr, s') \<and> NewPieces sample_info (al_Files a) = Some ps \<and>
    Verifier_Run sample_sha (fs_data s') ps = Some (bf, None) \<and> Test bf 0 = Some True \<and> Test bf 1 = Some False"
proof -
  let ?s = "\<lparr>fs_paths = [([''home'', ''d'', ''a''], 0), ([''home'', ''d'', ''b''], 1)], fs_data = (\<lambda>_. [])(0 := [1, 2, 3], 1 := [4]),
    fs_next = 2\<rparr>"
  have p: "file_at [''home''] (Files sample_info ! 0) = [''home'', ''d'', ''a'']"
    "file_at [''home''] (Files sample_info ! 1) = [''home'', ''d'', ''b'']" by code_simp+
  have n: "NewInfo (\<lambda>_. Some sample_dict) sample_sha [] = Inr sample_info"
    by (simp add: NewInfo_def sample_dict_def sample_info_def wrap64_def Let_def parsePrivateField_def TrimSpace_sample sample_sha_def)
  have c: "content_at [''home''] ?s sample_info = [1, 2, 3, 4, 0, 0, 0]" by code_simp
  have "fs_ok ?s" by (simp add: fs_ok_def)
  moreover have "distinct (map (file_at [''home'']) (Files sample_info))" by code_simp
  ultimately obtain a pr s' ps bf where
    v: "Allocator_Run (\<lambda>_. False) [''home''] sample_info ?s = (a, pr, s')" "NewPieces sample_info (al_Files a) = Some ps"
      "Verifier_Run sample_sha (fs_data s') ps = Some (bf, None)" and
    t: "\<forall>k<NumPieces sample_info. Test bf k = Some (sample_sha (chunks (unat (PieceLength sample_info))
      (content_at [''home''] ?s sample_info) ! unat k) = take 20 (drop (20 * unat k) (pieces sample_info)))"
    using verification_exact [OF n sizes_ok_sample, of ?s "\<lambda>_. False" "[''home'']"] by blast
  have "Test bf 0 = Some True" "Test bf 1 = Some False"
    using spec [OF t, of 0] spec [OF t, of 1] unfolding c by (simp_all add: sample_info_def chunks.simps sample_sha_def)
  then show ?thesis using v by blast
qed

text \<open>
  C7: Written pieces are found again.  Pieces written one after the other, in any order and any
  number of times, onto the allocated files of a torrent: the verifier then sets the bits it would have set
  before, and of each piece of which some buffer had the right digest.  So when every piece came in once, the bitfield is full.
\<close>

theorem written_pieces_verify:
  assumes "layout_ok info files" and "NewPieces info files = Some ps" and "allocated info files d"
    and "distinct (map Storage files)" and "\<forall>(i, buf)\<in>set ws. i < length ps \<and> length buf = unat (p_Length (ps ! i))"
  shows "\<exists>d' bf bf'. write_all sha1 d ps ws = Some d' \<and> Verifier_Run sha1 d ps = Some (bf, None) \<and>
    Verifier_Run sha1 d' ps = Some (bf', None) \<and>
    (\<forall>i<length ps. Test bf' (of_nat i) = Some (Test bf (of_nat i) = Some True \<or> (\<exists>buf. (i, buf) \<in> set ws \<and> sha1 buf = p_Hash (ps ! i)))) \<and>
    (All bf' \<longleftrightarrow> (\<forall>i<length ps. Test bf (of_nat i) = Some True \<or> (\<exists>buf. (i, buf) \<in> set ws \<and> sha1 buf = p_Hash (ps ! i))))"
proof -
  obtain d' where d': "write_all sha1 d ps ws = Some d'" "allocated info files d'"
    "good sha1 d' ps = good sha1 d ps \<union> {i. \<exists>buf. (i, buf) \<in> set ws \<and> sha1 buf = p_Hash (ps ! i)}"
    using write_all_ok [OF assms] by blast
  obtain bf where bf: "Verifier_Run sha1 d ps = Some (bf, None)" "bf_ok bf" "Len bf = NumPieces info" "bf_set bf = good sha1 d ps"
    using Verifier_Run_ok [OF assms(1-3)] by blast
  obtain bf' where bf': "Verifier_Run sha1 d' ps = Some (bf', None)" "bf_ok bf'" "Len bf' = NumPieces info" "bf_set bf' = good sha1 d' ps"
    using Verifier_Run_ok [OF assms(1,2) d'(2)] by blast
  have n: "length ps = unat (NumPieces info)" using NewPieces_spec [OF assms(1)] assms(2) by auto
  have t: "Test b (of_nat i) = Some (i \<in> bf_set b)" if "i < length ps" "bf_ok b" "Len b = NumPieces info" for b i
  proof -
    have "unat (of_nat i :: u32) = i" using that(1) n unat_u32_less [of "NumPieces info"] by (simp add: unat_of_nat_u32)
    then show ?thesis using Test_eq [OF that(2), of "of_nat i"] that n by (simp add: word_less_nat_alt)
  qed
  have each: "\<forall>i<length ps. Test bf' (of_nat i) =
      Some (Test bf (of_nat i) = Some True \<or> (\<exists>buf. (i, buf) \<in> set ws \<and> sha1 buf = p_Hash (ps ! i)))"
    using t [OF _ bf(2,3)] t [OF _ bf'(2,3)] bf(4) bf'(4) d'(3) by auto
  have "All bf' \<longleftrightarrow> (\<forall>i<length ps. Test bf' (of_nat i) = Some True)"
    using All_eq [OF bf'(2)] t [OF _ bf'(2,3)] bf'(3,4) n by (auto simp: good_def)
  then show ?thesis using d'(1) bf(1) bf'(1) each by auto
qed

text \<open>The second piece of the sample, and a wrong buffer for the first.\<close>

theorem written_pieces_verify_witness:
  "\<exists>d' bf'. write_all (\<lambda>b. if b = [5, 6, 7] then replicate 20 7 else []) ((\<lambda>_. [])(1 := replicate 3 0, 2 := replicate 4 0))
      sample_pieces [(0, [1, 2, 3, 4]), (1, [5, 6, 7])] = Some d' \<and>
    Verifier_Run (\<lambda>b. if b = [5, 6, 7] then replicate 20 7 else []) d' sample_pieces = Some (bf', None) \<and>
    Test bf' 1 = Some True \<and> \<not> All bf'"
proof -
  let ?d = "(\<lambda>_. [])(1 := replicate 3 0, 2 := replicate 4 0) :: disk" and ?h = "\<lambda>b :: byte list. if b = [5, 6, 7] then replicate 20 7 else []"
  let ?ws = "[(0, [1, 2, 3, 4]), (1, [5, 6, 7 :: byte])]"
  have "allocated sample_info sample_files ?d" by (simp add: allocated_def sample_info_def sample_files_def less_Suc_eq numeral_2_eq_2)
  moreover have "distinct (map Storage sample_files)" by (simp add: sample_files_def)
  moreover have "\<forall>(i, buf)\<in>set ?ws. i < length sample_pieces \<and> length buf = unat (p_Length (sample_pieces ! i))"
    by (simp add: sample_pieces_def)
  ultimately obtain d' bf bf' where
    v: "write_all ?h ?d sample_pieces ?ws = Some d'" "Verifier_Run ?h ?d sample_pieces = Some (bf, None)"
      "Verifier_Run ?h d' sample_pieces = Some (bf', None)" and
    t: "\<forall>i<length sample_pieces. Test bf' (of_nat i) = Some (Test bf (of_nat i) = Some True \<or>
      (\<exists>buf. (i, buf) \<in> set ?ws \<and> ?h buf = p_Hash (sample_pieces ! i)))"
      "All bf' \<longleftrightarrow> (\<forall>i<length sample_pieces. Test bf (of_nat i) = Some True \<or>
      (\<exists>buf. (i, buf) \<in> set ?ws \<and> ?h buf = p_Hash (sample_pieces ! i)))"
    using written_pieces_verify [OF layout_sample NewPieces_sample] by blast
  have b: "map_option (\<lambda>(b, _). Test b 0) (Verifier_Run ?h ?d sample_pieces) = Some (Some False)" by code_simp
  then have "Test bf 0 = Some False" unfolding v(2) by simp
  then have "Test bf' 1 = Some True" "\<not> All bf'" using spec [OF t(1), of 1] unfolding t(2) by (auto simp: sample_pieces_def)
  then show ?thesis using v by blast
qed

text \<open>Files that are on disk with the right lengths are found and make up the content.\<close>

lemma files_on_disk:
  assumes lens: "map Length (Files info) = map (int \<circ> length) fs"
    and disk: "map (\<lambda>f. map_option (fs_data s) (map_of (fs_paths s) (file_at dest f))) (Files info) = map Some fs"
  shows "content_at dest s info = concat fs"
    and "f \<in> set (Files info) \<Longrightarrow> map_of (fs_paths s) (file_at dest f) \<noteq> None"
    and "f \<in> set (Files info) \<Longrightarrow> 0 \<le> Length f"
proof -
  have len: "length (Files info) = length fs" using arg_cong [OF lens, of length] by simp
  have "map (opened dest s) (Files info) = fs"
  proof (rule nth_equalityI)
    fix k assume "k < length (map (opened dest s) (Files info))"
    then have k: "k < length (Files info)" by simp
    have "map_option (fs_data s) (map_of (fs_paths s) (file_at dest (Files info ! k))) = Some (fs ! k)"
      using arg_cong [OF disk, of "\<lambda>xs. xs ! k"] k len by simp
    moreover have "Length (Files info ! k) = int (length (fs ! k))"
      using arg_cong [OF lens, of "\<lambda>xs. xs ! k"] k len by simp
    ultimately show "map (opened dest s) (Files info) ! k = fs ! k" using on_disk_opened k by simp
  qed (simp add: len)
  then show "content_at dest s info = concat fs" unfolding content_at_def by simp
  assume f: "f \<in> set (Files info)"
  show "map_of (fs_paths s) (file_at dest f) \<noteq> None"
  proof
    assume "map_of (fs_paths s) (file_at dest f) = None"
    then have "None \<in> set (map (\<lambda>f. map_option (fs_data s) (map_of (fs_paths s) (file_at dest f))) (Files info))"
      using f by (force simp: image_iff)
    then show False unfolding disk by auto
  qed
  have "Length f \<in> set (map (int \<circ> length) fs)" using f unfolding lens [symmetric] by simp
  then show "0 \<le> Length f" by auto
qed

text \<open>
  C6: A torrent verifies where it was made.  Create a torrent from files, encode and decode its dictionary, and
  add it where every file of it is found with the content it was created from: allocation succeeds, and the
  verifier returns the full bitfield.
\<close>

theorem created_torrent_verifies:
  assumes "NewInfoBytes sha1 root paths private pl name = Inr cd"
    and "decode (encode cd) = Some (dict_of cd)" and "\<forall>b. length (sha1 b) = 20"
    and "int (length (created_content paths)) < 2 ^ 63" and "length (cd_Pieces cd) < 2 ^ 32"
    and "\<forall>f\<in>set (concat (map pa_files paths)). \<forall>p\<in>set (fst f). TrimSpace p \<noteq> ''..''"
    and "NewInfo decode sha1 (encode cd) = Inr info" and "fs_ok s"
    and "\<forall>f\<in>set (Files info). \<not> fails (file_at dest f)" and "distinct (map (file_at dest) (Files info))"
    and disk: "map (\<lambda>f. map_option (fs_data s) (map_of (fs_paths s) (file_at dest f))) (Files info) =
      map Some (if cd_Files cd = [] then [created_content paths] else map snd (concat (map pa_files paths)))"
  shows "\<exists>a pr s' ps bf. Allocator_Run fails dest info s = (a, pr, s') \<and> \<not> HasMissing a \<and> \<not> al_Failed a \<and>
    NewPieces info (al_Files a) = Some ps \<and> Verifier_Run sha1 (fs_data s') ps = Some (bf, None) \<and> All bf"
proof -
  let ?n = "unat (PieceLength info)" and ?c = "created_content paths"
  let ?fs = "if cd_Files cd = [] then [?c] else map snd (concat (map pa_files paths))"
  have i: "info_Length info = int (length ?c)" "pieces info = concat (map sha1 (chunks ?n ?c))"
    "map Length (Files info) = map (int \<circ> length) ?fs"
    using created_info [where decode = decode and eb = "encode cd", OF assms(1-6)] assms(7) by (auto simp: comp_def split: if_splits)
  have cat: "concat ?fs = ?c" by (simp add: created_content_def)
  note found = files_on_disk [OF i(3) disk]
  have nonneg: "\<forall>f\<in>set (Files info). 0 \<le> Length f" using found(3) by blast
  have "sum_list (map Length (Files info)) = int (length (concat ?fs))"
    using int_length_concat [of "\<lambda>x. x" ?fs] unfolding i(3) by (simp only: map_ident comp_def)
  moreover obtain ib where "decode (encode cd) = Some ib" "pieces info = ib_Pieces ib" by (rule NewInfo_InrE [OF assms(7)])
  then have "pieces info = cd_Pieces cd" using assms(2) sel_dict_of(2) [of cd] by simp
  ultimately have sz: "sizes_ok info" using nonneg assms(4,5) unfolding cat sizes_ok_def by simp
  have content: "content_at dest s info = ?c" using found(1) cat by simp
  have "\<forall>f\<in>set (Files info). \<not> fails (file_at dest f) \<and> 0 \<le> Length f" using assms(9) nonneg by blast
  from allocate_and_verify [OF layout_of_NewInfo [OF assms(7) sz] assms(8) this assms(10), of sha1]
  obtain a pr s' ps bf where v: "Allocator_Run fails dest info s = (a, pr, s')" "\<not> al_Failed a"
    "NewPieces info (al_Files a) = Some ps" "Verifier_Run sha1 (fs_data s') ps = Some (bf, None)" "bf_ok bf" "Len bf = NumPieces info"
    "HasMissing a \<longleftrightarrow> (\<exists>f\<in>set (Files info). map_of (fs_paths s) (file_at dest f) = None)"
    "length (chunks ?n ?c) = unat (NumPieces info)"
    "bf_set bf = {k. k < unat (NumPieces info) \<and> sha1 (chunks ?n ?c ! k) = take 20 (drop (20 * k) (pieces info))}"
    unfolding content by blast
  have "take 20 (drop (20 * k) (pieces info)) = sha1 (chunks ?n ?c ! k)" if "k < unat (NumPieces info)" for k
    unfolding i(2) using assms(3) that v(8) by (intro take_drop_concat) auto
  then have "bf_set bf = {..<unat (Len bf)}" unfolding v(6,9) by auto
  then have "All bf" using All_eq [OF v(5)] by simp
  then show ?thesis using v found(2) by blast
qed

theorem created_torrent_verifies_witness:
  "\<exists>info a pr s' ps bf. NewInfo (\<lambda>_. Some (dict_of \<lparr>cd_Name = ''d'', cd_Private = True, cd_PieceLength = 32768,
       cd_Pieces = [1, 2, 3] @ replicate 17 0, cd_Length = 3, cd_Files = []\<rparr>)) (\<lambda>b. take 20 (b @ replicate 20 0)) [] = Inr info \<and>
     Allocator_Run (\<lambda>_. False) [''home''] info
       \<lparr>fs_paths = [([''home'', ''d''], 0)], fs_data = (\<lambda>_. [])(0 := [1, 2, 3]), fs_next = 1\<rparr> = (a, pr, s') \<and>
     NewPieces info (al_Files a) = Some ps \<and> Verifier_Run (\<lambda>b. take 20 (b @ replicate 20 0)) (fs_data s') ps = Some (bf, None) \<and> All bf"
proof -
  let ?p = "[\<lparr>pa_Base = ''d'', pa_IsDir = False, pa_files = [([''.''], [1, 2, 3])]\<rparr>]" and ?h = "\<lambda>b :: byte list. take 20 (b @ replicate 20 0)"
  let ?cd = "\<lparr>cd_Name = ''d'', cd_Private = True, cd_PieceLength = 32768,
     cd_Pieces = [1, 2, 3] @ replicate 17 0, cd_Length = 3, cd_Files = []\<rparr>"
  let ?i = "\<lparr>PieceLength = 32768, Name = ''d'', Hash = ?h [], info_Length = 3, NumPieces = 1, Bytes = [], Private = True,
    Files = [\<lparr>Length = 3, Path = ''d''\<rparr>], pieces = [1, 2, 3] @ replicate 17 0\<rparr>"
  let ?s = "\<lparr>fs_paths = [([''home'', ''d''], 0)], fs_data = (\<lambda>_. [])(0 := [1, 2, 3 :: byte]), fs_next = 1\<rparr>"
  have w3: "wrap64 3 = 3" by (simp add: wrap64_def)
  have "NewInfoBytes ?h [] ?p True 0 [] = Inr ?cd"
    by (simp add: NewInfoBytes_def findTotalLength_def w3 calculatePieceLength_def Let_def read_file.simps)
  moreover have "TrimSpace ''.'' \<noteq> ''..''" by (simp add: TrimSpace_def space1_def)
  moreover have "\<forall>b :: byte list. min (length b) 20 + (20 - length b) = 20" by auto
  moreover have "cleanName ''d'' = ''d''" by code_simp
  then have "NewInfo (\<lambda>_. Some (dict_of ?cd)) ?h [] = Inr ?i"
    by (simp add: NewInfo_def dict_of_def wrap64_def Let_def parsePrivateField_def)
  moreover have "fs_ok ?s" by (simp add: fs_ok_def)
  moreover have "file_at [''home''] \<lparr>Length = 3, Path = ''d''\<rparr> = [''home'', ''d'']" by code_simp
  ultimately show ?thesis
    using created_torrent_verifies [of ?h "[]" ?p True 0 "[]" ?cd "\<lambda>_. Some (dict_of ?cd)" "\<lambda>_. []" ?i ?s "\<lambda>_. False" "[''home'']"]
    by (auto simp: created_content_def)
qed

text \<open>
  C27: Files stay below the download directory, unless the torrent is named \<open>..\<close>.  Of every info dictionary that \<open>NewInfo\<close>
  accepts, with one file or with many, every file is opened at or below the directory, at a path whose elements are names: not
  empty, not \<open>.\<close>, not \<open>..\<close>, and without a separator.  This rests on the check of the path elements for \<open>..\<close>, and on the fact
  that nothing but \<open>..\<close> is cleaned to \<open>..\<close>.  The name of the torrent is not checked: a torrent named \<open>..\<close> with a file \<open>p\<close> is
  accepted and its file is opened next to the directory, not in it, and one with a single file is opened at the parent itself.
\<close>

theorem storage_confined:
  "(NewInfo decode sha1 b = Inr info \<longrightarrow> Name info \<noteq> ''..'' \<longrightarrow>
     (\<forall>f\<in>set (Files info). \<exists>rest. storage_path dest (Path f) = dest @ rest \<and> (\<forall>e\<in>set rest. plain e \<and> CHR ''/'' \<notin> set e))) \<and>
   (\<exists>info. NewInfo (\<lambda>_. Some (sample_dict\<lparr>ib_Name := ''..'', ib_Length := 0,
        ib_Files := [\<lparr>f_Length = 7, f_Path = [''p'']\<rparr>]\<rparr>)) sha1 b = Inr info \<and>
      map Path (Files info) = [''../p''] \<and> storage_path (home @ [down]) ''../p'' = home @ [''p'']) \<and>
   (\<exists>info. NewInfo (\<lambda>_. Some (sample_dict\<lparr>ib_Name := ''..'', ib_Length := 7, ib_Files := []\<rparr>)) sha1 b = Inr info \<and>
      map Path (Files info) = [''..''] \<and> storage_path (home @ [down]) ''..'' = home)"
proof (intro conjI impI)
  assume "NewInfo decode sha1 b = Inr info" "Name info \<noteq> ''..''"
  then show "\<forall>f\<in>set (Files info). \<exists>rest. storage_path dest (Path f) = dest @ rest \<and> (\<forall>e\<in>set rest. plain e \<and> CHR ''/'' \<notin> set e)"
    by (rule NewInfo_confined)
next
  have "cleanName ''..'' = ''..''" "cleanName ''p'' = ''p''" by code_simp+
  then have "file_path ''..'' [''p''] = ''../p''" by (simp add: file_path_def filepath_Join_def clean_elems_def Let_def)
  moreover have "TrimSpace ''p'' = ''p''" by (simp add: TrimSpace_def space1_def)
  moreover have "storage_path (home @ [down]) ''../p'' = home @ [''p'']"
    by (simp add: storage_path_def clean_path_def clean_elems_def Let_def)
  ultimately show "\<exists>info. NewInfo (\<lambda>_. Some (sample_dict\<lparr>ib_Name := ''..'', ib_Length := 0,
        ib_Files := [\<lparr>f_Length = 7, f_Path = [''p'']\<rparr>]\<rparr>)) sha1 b = Inr info \<and>
      map Path (Files info) = [''../p''] \<and> storage_path (home @ [down]) ''../p'' = home @ [''p'']"
    by (simp add: NewInfo_def sample_dict_def wrap64_def Let_def)
next
  have "storage_path (home @ [down]) ''..'' = home" by (simp add: storage_path_def clean_path_def clean_elems_def Let_def)
  then show "\<exists>info. NewInfo (\<lambda>_. Some (sample_dict\<lparr>ib_Name := ''..'', ib_Length := 7, ib_Files := []\<rparr>)) sha1 b = Inr info \<and>
      map Path (Files info) = [''..''] \<and> storage_path (home @ [down]) ''..'' = home"
    by (simp add: NewInfo_def sample_dict_def wrap64_def Let_def cleanName_dots)
qed

theorem storage_confined_witness:
  "\<exists>info. NewInfo (\<lambda>_. Some sample_dict) (\<lambda>_. []) [] = Inr info \<and> length (Files info) = 2 \<and>
     (\<forall>f\<in>set (Files info). \<exists>rest. storage_path [''home''] (Path f) = ''home'' # rest \<and> ''..'' \<notin> set rest)"
proof -
  have "Name sample_info \<noteq> ''..''" by (simp add: sample_info_def)
  then have "\<forall>f\<in>set (Files sample_info). \<exists>rest. storage_path [''home''] (Path f) = [''home''] @ rest \<and> (\<forall>e\<in>set rest. plain e \<and> CHR ''/'' \<notin> set e)"
    using storage_confined [of "\<lambda>_. Some sample_dict" "\<lambda>_. []" "[]" sample_info "[''home'']" "[]" "[]"] NewInfo_sample by blast
  then have "\<forall>f\<in>set (Files sample_info). \<exists>rest. storage_path [''home''] (Path f) = ''home'' # rest \<and> ''..'' \<notin> set rest"
    unfolding plain_def by fastforce
  moreover have "length (Files sample_info) = 2" by (simp add: sample_info_def)
  ultimately show ?thesis using NewInfo_sample by blast
qed

text \<open>
  C40: The semaphore.  However its goroutines interleave, no more than \<open>n\<close> are between the end of \<open>Wait\<close> and
  the start of \<open>Signal\<close>; \<open>Waiting\<close> counts exactly those that have called \<open>Wait\<close> and are not through, and
  \<open>Signal\<close> never blocks: the channel holds a token for each goroutine inside.
\<close>

theorem semaphore_bounds:
  assumes "sem_reachable n (s, g)"
  shows "inside g \<le> n \<and> sem_waiting s = int (at_send g + at_count g) \<and> sem_active s = int (inside g + at_uncount g) \<and>
    (0 < inside g \<longrightarrow> (\<exists>b. sem_step (s, g) SemSignal b)) \<and>
    (0 < at_send g \<and> at_count g + inside g < n \<longrightarrow> (\<exists>b. sem_step (s, g) SemAcquire b))"
  using sem_reachable_inv [OF assms] sem_step.signal [of g s] sem_step.acquire [of g s] by (auto simp: sem_inv_def)

theorem semaphore_bounds_witness:
  "sem_waiting (NewSemaphore 1\<lparr>sem_waiting := 1\<rparr>) = 1 \<and>
   (\<exists>b. sem_step (NewSemaphore 1\<lparr>sem_waiting := 1\<rparr>, \<lparr>at_send = 1, at_count = 0, inside = 0, at_uncount = 0\<rparr>) SemAcquire b)"
proof -
  have "sem_reachable 1 (NewSemaphore 1\<lparr>sem_waiting := 1\<rparr>, \<lparr>at_send = 1, at_count = 0, inside = 0, at_uncount = 0\<rparr>)"
    using sem_reachable.step [OF sem_reachable.start sem_step.wait] by (simp add: NewSemaphore_def)
  from semaphore_bounds [OF this] show ?thesis by simp
qed

end
