(* ===== verification/Torrent.thy ===== *)
theory Torrent
  imports AddrList PiecePicker PieceDownloader Unchoker InfoDownloader
begin

text \<open>
  \<open>filechain/torrent*.go\<close>: the state of a torrent and the operations its event loop is made of.  All of
  this runs in one goroutine (\<open>run\<close>); the state is one record, passed from operation to operation.

  Peers are pointers into \<open>t_heap\<close>.  A map is an association list whose range order comes from
  \<open>t_choices\<close>; a piece pointer is its index, together with \<open>t_generation\<close>, which tells the arrays of
  pieces of successive starts apart.  An operation that panics has no result (\<open>None\<close>).

  What the torrent learns from outside is the record \<open>env\<close>: the answer to the \<open>n\<close>-th question is its
  value at \<open>n\<close>, and \<open>t_clock\<close> counts the questions.
\<close>

section \<open>State\<close>

datatype Status = Stopped | DownloadingMetadata | Allocating | Verifying | Downloading' | Seeding | Stopping

datatype torrent_error = ErrClosed | ErrAllocation | ErrNoPieces | ErrVerification | ErrPieceWrite io_error
  | ErrWriteBitfield | ErrParseInfo info_error | ErrPrivateTorrent | ErrWriteInfo

record config =
  MaxPeerDial :: int
  MaxRequestsIn :: int
  MaxRequestsOut :: int
  DefaultRequestsOut :: int
  ParallelMetadataDownloads :: int
  EndgameMaxDuplicateDownloads :: int
  has_ram :: bool

record 't env =
  bt :: "'t btree"
  cfg :: config
  sha1 :: "byte list \<Rightarrow> byte list"
  decode_info :: "byte list \<Rightarrow> info_dict option"
  MaxPieces :: u32
  yourip :: string
  now :: "nat \<Rightarrow> int"
  NewStream :: "nat \<Rightarrow> bool"
  FindProviders :: "nat \<Rightarrow> AddrInfo list option"
  ram_Request :: "nat \<Rightarrow> bool"
  db_ok :: "nat \<Rightarrow> bool"
  pool_data :: "nat \<Rightarrow> nat \<Rightarrow> byte"

record PieceWriter =
  pw_generation :: nat
  pw_Piece :: nat
  pw_Source :: ptr
  pw_Buffer :: "byte list"

record 't torrent =
  t_heap :: heap
  t_nextPeer :: ptr
  connectedPeers :: "(string \<times> ptr) list"
  peers :: "ptr list"
  t_info :: "Info option"
  t_pieces :: "Piece list option"
  t_generation :: nat
  t_bitfield :: "bitfield option"
  t_picker :: "PiecePicker option"
  pieceDownloaders :: "(ptr \<times> PieceDownloader) list"
  pieceDownloadersSnubbed :: "ptr list"
  pieceDownloadersChoked :: "ptr list"
  infoDownloaders :: "(ptr \<times> InfoDownloader) list"
  infoDownloadersSnubbed :: "ptr list"
  t_allocator :: "nat option"
  t_verifier :: "nat option"
  t_workers :: nat
  t_files :: "alloc_file list option"
  errC :: bool
  stopping :: bool
  stopC_closed :: bool
  completed :: bool
  completeC_closed :: bool
  lastError :: "torrent_error option"
  addrList :: "'t AddrList"
  t_unchoker :: Unchoker
  doVerify :: bool
  stopAfterDownload :: bool
  suspended :: bool
  writers :: "PieceWriter list"
  ramHeld :: int
  externalIP :: string
  infoHash :: "byte list"
  bytesDownloaded :: int
  bytesUploaded :: int
  bytesWasted :: int
  bytesAllocated :: int
  checkedPieces :: u32
  t_choices :: choices
  t_clock :: nat

definition newTorrent2 ::
  "'t btree \<Rightarrow> byte list \<Rightarrow> Info option \<Rightarrow> bitfield option \<Rightarrow> int \<times> int \<times> int \<Rightarrow> bool \<Rightarrow>
    int \<Rightarrow> AddrInfo \<Rightarrow> int \<Rightarrow> int \<Rightarrow> string \<Rightarrow> 't torrent option" where
  "newTorrent2 b ih info bf stats stopAfter maxAddrs host unchoked optimistic ip =
     (if length ih \<noteq> 20 then None
      else Some \<lparr>t_heap = (\<lambda>_. newPeer Manual []), t_nextPeer = 0, connectedPeers = [], peers = [],
        t_info = info, t_pieces = None, t_generation = 0, t_bitfield = bf, t_picker = None,
        pieceDownloaders = [], pieceDownloadersSnubbed = [], pieceDownloadersChoked = [],
        infoDownloaders = [], infoDownloadersSnubbed = [],
        t_allocator = None, t_verifier = None, t_workers = 0, t_files = None,
        errC = False, stopping = False, stopC_closed = False, completed = False, completeC_closed = False,
        lastError = None, addrList = NewAddrList b maxAddrs host, t_unchoker = NewUnchoker unchoked optimistic,
        doVerify = False, stopAfterDownload = stopAfter, suspended = False, writers = [], ramHeld = 0,
        externalIP = ip, infoHash = ih, bytesDownloaded = fst stats, bytesUploaded = fst (snd stats),
        bytesWasted = snd (snd stats), bytesAllocated = 0, checkedPieces = 0, t_choices = [], t_clock = 0\<rparr>)"

definition status :: "'t torrent \<Rightarrow> Status" where
  "status t =
     (if \<not> errC t then Stopped
      else if stopping t then Stopping
      else if t_allocator t \<noteq> None then Allocating
      else if t_verifier t \<noteq> None then Verifying
      else if completed t then Seeding
      else if t_info t = None then DownloadingMetadata
      else Downloading')"

section \<open>Peers\<close>

definition at_peer :: "ptr \<Rightarrow> (Peer \<Rightarrow> Peer) \<Rightarrow> 't torrent \<Rightarrow> 't torrent" where
  "at_peer pe f t = t\<lparr>t_heap := (t_heap t)(pe := f (t_heap t pe))\<rparr>"

definition SendMessage_to :: "message \<Rightarrow> ptr \<Rightarrow> 't torrent \<Rightarrow> 't torrent" where
  "SendMessage_to m pe t = at_peer pe (send (SendMessage m)) t"

definition tick :: "'t torrent \<Rightarrow> 't torrent" where
  "tick t = t\<lparr>t_clock := Suc (t_clock t)\<rparr>"

text \<open>
  \<open>for _, pe := range t.connectedPeers\<close>: the entries in some order.  An entry that is deleted before it
  is reached is not visited.  An entry that is created during the loop is not visited either; the
  language leaves this open.
\<close>

fun for_peers :: "(ptr \<Rightarrow> 't torrent \<Rightarrow> 't torrent option) \<Rightarrow> string list \<Rightarrow> 't torrent \<Rightarrow> 't torrent option" where
  "for_peers body [] t = Some t"
| "for_peers body (k # ks) t =
     (case map_of (connectedPeers t) k of
        None \<Rightarrow> for_peers body ks t
      | Some pe \<Rightarrow> Option.bind (body pe t) (for_peers body ks))"

definition range_peers :: "(ptr \<Rightarrow> 't torrent \<Rightarrow> 't torrent option) \<Rightarrow> 't torrent \<Rightarrow> 't torrent option" where
  "range_peers body t =
     (let (ks, cs) = shuffle (t_choices t) (map fst (connectedPeers t)) in for_peers body ks (t\<lparr>t_choices := cs\<rparr>))"

text \<open>The same over the keys of \<open>t.pieceDownloaders\<close> and of \<open>t.infoDownloaders\<close>.\<close>

fun for_downloaders ::
  "(PieceDownloader \<Rightarrow> 't torrent \<Rightarrow> 't torrent option) \<Rightarrow> ptr list \<Rightarrow> 't torrent \<Rightarrow> 't torrent option" where
  "for_downloaders body [] t = Some t"
| "for_downloaders body (k # ks) t =
     (case map_of (pieceDownloaders t) k of
        None \<Rightarrow> for_downloaders body ks t
      | Some pd \<Rightarrow> Option.bind (body pd t) (for_downloaders body ks))"

definition range_downloaders ::
  "(PieceDownloader \<Rightarrow> 't torrent \<Rightarrow> 't torrent option) \<Rightarrow> 't torrent \<Rightarrow> 't torrent option" where
  "range_downloaders body t =
     (let (ks, cs) = shuffle (t_choices t) (map fst (pieceDownloaders t)) in for_downloaders body ks (t\<lparr>t_choices := cs\<rparr>))"

definition sendFirstMessage :: "'t env \<Rightarrow> ptr \<Rightarrow> 't torrent \<Rightarrow> 't torrent" where
  "sendFirstMessage env pe t =
     (let p = t_heap t pe;
          t = (case t_bitfield t of
                 None \<Rightarrow> if FastEnabled p then SendMessage_to HaveNone pe t else t
               | Some bf \<Rightarrow>
                   if FastEnabled p \<and> All bf then SendMessage_to HaveAll pe t
                   else if FastEnabled p \<and> Count bf = 0 then SendMessage_to HaveNone pe t
                   else SendMessage_to (BitfieldMsg (bytes bf)) pe t);
          metadataSize = (case t_info t of None \<Rightarrow> 0 | Some i \<Rightarrow> (of_nat (length (Bytes i)) :: u32));
          handshake = \<lparr>hs_M = [(''ut_metadata'', 1), (''ut_pex'', 2)], hs_V = ''1.0'', hs_YourIP = externalIP t,
            MetadataSize = int (unat metadataSize), RequestQueue = MaxRequestsIn (cfg env)\<rparr>
      in SendMessage_to (Extension 0 (ExtHandshake handshake)) pe t)"

definition startPeer :: "'t env \<Rightarrow> ptr \<Rightarrow> 't torrent \<Rightarrow> 't torrent" where
  "startPeer env pe t =
     (let t = (case t_info t of None \<Rightarrow> t
               | Some i \<Rightarrow> at_peer pe (pe_Bitfield_update (\<lambda>_. Some (New (NumPieces i)))) t)
      in sendFirstMessage env pe t)"

text \<open>\<open>peer.New\<close> for a stream to \<open>i\<close>, entered into \<open>t.connectedPeers\<close>.\<close>

definition addPeer :: "'t env \<Rightarrow> string \<Rightarrow> source \<Rightarrow> 't torrent \<Rightarrow> 't torrent" where
  "addPeer env i src t =
     (let pe = t_nextPeer t in
      startPeer env pe (t\<lparr>t_heap := (t_heap t)(pe := newPeer src i), t_nextPeer := Suc pe,
        connectedPeers := AList.update i pe (connectedPeers t)\<rparr>))"

text \<open>A duplicate stream is closed, which is no step of the torrent.\<close>

definition handleNewIncomingStream :: "'t env \<Rightarrow> string \<Rightarrow> 't torrent \<Rightarrow> 't torrent" where
  "handleNewIncomingStream env i t =
     (if map_of (connectedPeers t) i \<noteq> None then t else addPeer env i Incoming t)"

definition dial_addr :: "'t env \<Rightarrow> AddrInfo \<Rightarrow> source \<Rightarrow> 't torrent \<Rightarrow> 't torrent" where
  "dial_addr env addr src t =
     (if map_of (connectedPeers t) (ai_ID addr) \<noteq> None then t
      else if \<not> NewStream env (t_clock t) then tick t
      else addPeer env (ai_ID addr) src (tick t))"

partial_function (option) dial_loop :: "'t env \<Rightarrow> 't torrent \<Rightarrow> 't torrent option" where
  "dial_loop env t =
     (if int (length (connectedPeers t)) < MaxPeerDial (cfg env)
      then Option.bind (Pop (bt env) (addrList t)) (\<lambda>r.
        case fst r of
          None \<Rightarrow> Some (t\<lparr>addrList := snd r\<rparr>)
        | Some a \<Rightarrow> dial_loop env (dial_addr env (fst a) (snd a) (t\<lparr>addrList := snd r\<rparr>)))
      else Some t)"

definition dialAddresses :: "'t env \<Rightarrow> 't torrent \<Rightarrow> 't torrent option" where
  "dialAddresses env t = (if completed t then Some t else dial_loop env t)"

definition handleNewPeers :: "'t env \<Rightarrow> AddrInfo list \<Rightarrow> source \<Rightarrow> 't torrent \<Rightarrow> 't torrent option" where
  "handleNewPeers env addrs src t =
     (if status t = Stopped \<or> status t = Stopping then Some t
      else if \<not> completed t then do {
        (al, cs) \<leftarrow> Push (bt env) (t_choices t) (now env (t_clock t)) (ToAddrs addrs) src (addrList t);
        dialAddresses env (tick (t\<lparr>addrList := al, t_choices := cs\<rparr>))
      }
      else Some t)"

section \<open>Closing\<close>

text \<open>\<open>session.ram\<close> is shared by all torrents; \<open>ramHeld\<close> is what this torrent has acquired and not released.\<close>

definition ram_Release :: "'t env \<Rightarrow> 't torrent \<Rightarrow> 't torrent option" where
  "ram_Release env t =
     (if has_ram (cfg env)
      then map_option (\<lambda>i. t\<lparr>ramHeld := ramHeld t - int (unat (PieceLength i))\<rparr>) (t_info t)
      else Some t)"

definition closePieceDownloader :: "'t env \<Rightarrow> PieceDownloader \<Rightarrow> 't torrent \<Rightarrow> 't torrent option" where
  "closePieceDownloader env pd t =
     (let pe = pd_Peer pd in
      if map_of (pieceDownloaders t) pe = None then Some t
      else do {
        let t = t\<lparr>pieceDownloaders := AList.delete pe (pieceDownloaders t),
          pieceDownloadersSnubbed := removeAll pe (pieceDownloadersSnubbed t),
          pieceDownloadersChoked := removeAll pe (pieceDownloadersChoked t)\<rparr>;
        t \<leftarrow> (case t_picker t of None \<Rightarrow> Some t
          | Some p \<Rightarrow> map_option (\<lambda>p. t\<lparr>t_picker := Some p\<rparr>) (HandleCancelDownload p pe (of_nat (pd_Piece pd))));
        ram_Release env (at_peer pe (Downloading_update (\<lambda>_. False)) t)
      })"

definition closeInfoDownloader :: "InfoDownloader \<Rightarrow> 't torrent \<Rightarrow> 't torrent" where
  "closeInfoDownloader idl t = t\<lparr>infoDownloaders := AList.delete (id_Peer idl) (infoDownloaders t),
     infoDownloadersSnubbed := removeAll (id_Peer idl) (infoDownloadersSnubbed t)\<rparr>"

definition closePeer :: "'t env \<Rightarrow> ptr \<Rightarrow> 't torrent \<Rightarrow> 't torrent option" where
  "closePeer env pe t = do {
     p \<leftarrow> Close (t_heap t pe);
     let t = t\<lparr>t_heap := (t_heap t)(pe := p)\<rparr>;
     t \<leftarrow> (case map_of (pieceDownloaders t) pe of None \<Rightarrow> Some t | Some pd \<Rightarrow> closePieceDownloader env pd t);
     let t = (case map_of (infoDownloaders t) pe of None \<Rightarrow> t | Some idl \<Rightarrow> closeInfoDownloader idl t);
     let t = t\<lparr>connectedPeers := AList.delete (pe_ID (t_heap t pe)) (connectedPeers t)\<rparr>;
     t \<leftarrow> (case t_picker t of None \<Rightarrow> Some t
       | Some pp \<Rightarrow> map_option (\<lambda>pp. t\<lparr>t_picker := Some pp\<rparr>) (HandleDisconnect pp pe));
     dialAddresses env (t\<lparr>t_unchoker := u_HandleDisconnect pe (t_unchoker t)\<rparr>)
   }"

section \<open>Downloading\<close>

definition maxAllowedRequests :: "'t env \<Rightarrow> Peer \<Rightarrow> int" where
  "maxAllowedRequests env p =
     (let ret = (case ExtensionHandshake p of
                   Some h \<Rightarrow> if RequestQueue h > 0 then RequestQueue h else DefaultRequestsOut (cfg env)
                 | None \<Rightarrow> DefaultRequestsOut (cfg env))
      in if ret > MaxRequestsOut (cfg env) then MaxRequestsOut (cfg env) else ret)"

text \<open>\<open>pd.RequestBlocks(...)\<close> on a downloader in the map, then \<open>pe.ResetSnubTimer()\<close>.\<close>

definition requestPieceBlocks :: "'t env \<Rightarrow> ptr \<Rightarrow> PieceDownloader \<Rightarrow> 't torrent \<Rightarrow> 't torrent option" where
  "requestPieceBlocks env pe pd t = do {
     tps \<leftarrow> t_pieces t;
     pi \<leftarrow> slice_get tps (pd_Piece pd);
     (pd, h) \<leftarrow> RequestBlocks (maxAllowedRequests env (t_heap t pe)) pi (t_heap t) pd;
     Some (at_peer pe ResetSnubTimer (t\<lparr>t_heap := h, pieceDownloaders := AList.update pe pd (pieceDownloaders t)\<rparr>))
   }"

text \<open>The deferred release runs on every return that has not started a download.\<close>

definition startSinglePieceDownloader :: "'t env \<Rightarrow> ptr \<Rightarrow> 't torrent \<Rightarrow> 't torrent option" where
  "startSinglePieceDownloader env pe t =
     (if status t \<noteq> Downloading' then ram_Release env t
      else do {
        pp \<leftarrow> t_picker t;
        tps \<leftarrow> t_pieces t;
        (pi, allowedFast, pp, h, cs) \<leftarrow> PickFor (t_choices t) tps pp (t_heap t) pe;
        let t = t\<lparr>t_picker := Some pp, t_heap := h, t_choices := cs\<rparr>;
        case pi of
          None \<Rightarrow> ram_Release env t
        | Some i \<Rightarrow>
            let pd = NewPD i (tps ! i) pe allowedFast
              (map (pool_data env (t_clock t)) [0..<unat (p_Length (tps ! i))]) in
            if map_of (pieceDownloaders t) pe \<noteq> None then None
            else requestPieceBlocks env pe pd
              (at_peer pe (Downloading_update (\<lambda>_. True))
                (tick (t\<lparr>pieceDownloaders := AList.update pe pd (pieceDownloaders t)\<rparr>)))
      })"

text \<open>When the memory is not granted at once, a notification may follow, which is an event of its own.\<close>

definition startPieceDownloaderFor :: "'t env \<Rightarrow> ptr \<Rightarrow> 't torrent \<Rightarrow> 't torrent option" where
  "startPieceDownloaderFor env pe t =
     (if status t \<noteq> Downloading' then Some t
      else if \<not> has_ram (cfg env) then startSinglePieceDownloader env pe t
      else do {
        i \<leftarrow> t_info t;
        if ram_Request env (t_clock t)
        then startSinglePieceDownloader env pe (tick (t\<lparr>ramHeld := ramHeld t + int (unat (PieceLength i))\<rparr>))
        else Some (tick t)
      })"

definition startPieceDownloaders :: "'t env \<Rightarrow> 't torrent \<Rightarrow> 't torrent option" where
  "startPieceDownloaders env t =
     (if status t \<noteq> Downloading' then Some t
      else range_peers (\<lambda>pe t. if Downloading (t_heap t pe) then Some t else startPieceDownloaderFor env pe t) t)"

section \<open>Downloading the metadata\<close>

definition info_candidate :: "'t torrent \<Rightarrow> ptr \<Rightarrow> bool" where
  "info_candidate t pe \<longleftrightarrow> map_of (infoDownloaders t) pe = None \<and>
     (case ExtensionHandshake (t_heap t pe) of None \<Rightarrow> False
      | Some h \<Rightarrow> MetadataSize h \<noteq> 0 \<and> map_of (hs_M h) ''ut_metadata'' \<noteq> None)"

definition nextInfoDownload :: "'t torrent \<Rightarrow> InfoDownloader option \<times> 't torrent" where
  "nextInfoDownload t =
     (let (order, cs) = shuffle (t_choices t) (map snd (connectedPeers t)); t = t\<lparr>t_choices := cs\<rparr> in
      case List.find (info_candidate t) order of
        None \<Rightarrow> (None, t)
      | Some pe \<Rightarrow> (NewID (t_heap t) pe, t))"

text \<open>\<open>idl.RequestBlocks(...)\<close>, then \<open>ResetSnubTimer()\<close>.\<close>

definition requestInfoBlocks :: "'t env \<Rightarrow> InfoDownloader \<Rightarrow> 't torrent \<Rightarrow> 't torrent option" where
  "requestInfoBlocks env idl t =
     (let pe = id_Peer idl in
      map_option (\<lambda>(idl, h). at_peer pe ResetSnubTimer
          (t\<lparr>t_heap := h, infoDownloaders := AList.update pe idl (infoDownloaders t)\<rparr>))
        (id_RequestBlocks (maxAllowedRequests env (t_heap t pe)) (t_heap t) idl))"

partial_function (option) info_loop :: "'t env \<Rightarrow> 't torrent \<Rightarrow> 't torrent option" where
  "info_loop env t =
     (if int (length (infoDownloaders t)) - int (length (infoDownloadersSnubbed t)) < ParallelMetadataDownloads (cfg env)
      then case fst (nextInfoDownload t) of
          None \<Rightarrow> Some (snd (nextInfoDownload t))
        | Some idl \<Rightarrow> Option.bind (requestInfoBlocks env idl (snd (nextInfoDownload t))) (info_loop env)
      else Some t)"

definition startInfoDownloaders :: "'t env \<Rightarrow> 't torrent \<Rightarrow> 't torrent option" where
  "startInfoDownloaders env t = (if t_info t \<noteq> None then Some t else info_loop env t)"

section \<open>Starting and stopping\<close>

definition startVerifier :: "'t torrent \<Rightarrow> 't torrent option" where
  "startVerifier t =
     (if t_verifier t \<noteq> None then None
      else if (case t_pieces t of None \<Rightarrow> True | Some tps \<Rightarrow> tps = []) then None
      else Some (t\<lparr>t_verifier := Some (t_workers t), t_workers := Suc (t_workers t)\<rparr>))"

definition startAllocator :: "'t torrent \<Rightarrow> 't torrent option" where
  "startAllocator t =
     (if t_allocator t \<noteq> None then None
      else Some (t\<lparr>t_allocator := Some (t_workers t), t_workers := Suc (t_workers t)\<rparr>))"

definition startAnnouncers :: "'t env \<Rightarrow> 't torrent \<Rightarrow> 't torrent option" where
  "startAnnouncers env t =
     (case FindProviders env (t_clock t) of
        None \<Rightarrow> Some (tick t)
      | Some addrs \<Rightarrow> if addrs = [] then Some (tick t) else handleNewPeers env addrs DHT (tick t))"

definition start :: "'t env \<Rightarrow> 't torrent \<Rightarrow> 't torrent option" where
  "start env t =
     (if errC t then Some t
      else
        let t = t\<lparr>stopping := False, stopC_closed := False, errC := True, lastError := None\<rparr> in
        if t_info t \<noteq> None then
          if t_pieces t \<noteq> None then
            if t_bitfield t \<noteq> None
            then Option.bind (startAnnouncers env t) (startPieceDownloaders env)
            else startVerifier t
          else startAllocator t
        else Option.bind (startAnnouncers env t) (startInfoDownloaders env))"

definition handleStopped :: "'t env \<Rightarrow> 't torrent \<Rightarrow> 't torrent option" where
  "handleStopped env t =
     (let t = t\<lparr>errC := False\<rparr> in
      if doVerify t then start env (t\<lparr>t_bitfield := None\<rparr>) else Some t)"

definition stopPeers :: "'t env \<Rightarrow> 't torrent \<Rightarrow> 't torrent option" where
  "stopPeers env t = range_peers (closePeer env) t"

definition stopPiecedownloaders :: "'t env \<Rightarrow> 't torrent \<Rightarrow> 't torrent option" where
  "stopPiecedownloaders env t = range_downloaders (closePieceDownloader env) t"

text \<open>Every entry of the map is closed; the order does not matter.\<close>

definition stopInfoDownloaders :: "'t torrent \<Rightarrow> 't torrent" where
  "stopInfoDownloaders t = fold closeInfoDownloader (map snd (infoDownloaders t)) t"

definition closeData :: "'t torrent \<Rightarrow> 't torrent" where
  "closeData t = t\<lparr>t_files := None, t_pieces := None, t_picker := None, bytesAllocated := 0, checkedPieces := 0\<rparr>"

definition stopAllocator :: "'t torrent \<Rightarrow> 't torrent" where
  "stopAllocator t = t\<lparr>t_allocator := None\<rparr>"

definition stopVerifier :: "'t torrent \<Rightarrow> 't torrent" where
  "stopVerifier t = t\<lparr>t_verifier := None\<rparr>"

text \<open>The resume database takes the bits; the result says if it did.\<close>

definition writeBitfield :: "'t env \<Rightarrow> 't torrent \<Rightarrow> bool \<times> 't torrent" where
  "writeBitfield env t = (db_ok env (t_clock t), tick t)"

definition stop :: "'t env \<Rightarrow> torrent_error option \<Rightarrow> 't torrent \<Rightarrow> 't torrent option" where
  "stop env err t =
     (if status t = Stopping \<or> status t = Stopped then Some t
      else do {
        t \<leftarrow> stopPeers env (t\<lparr>lastError := err\<rparr>);
        t \<leftarrow> stopPiecedownloaders env t;
        let t = stopInfoDownloaders t;
        let t = (if t_bitfield t \<noteq> None then snd (writeBitfield env t) else t);
        let t = stopVerifier (stopAllocator (closeData t));
        let t = t\<lparr>stopping := True\<rparr>;
        if stopC_closed t then None
        else do {
          t \<leftarrow> handleStopped env (t\<lparr>stopC_closed := True\<rparr>);
          Some (t\<lparr>addrList := al_Reset (bt env) (addrList t)\<rparr>)
        }
      })"

definition close_torrent :: "'t env \<Rightarrow> 't torrent \<Rightarrow> 't torrent option" where
  "close_torrent env t = stop env (Some ErrClosed) t"

definition handleVerifyCommand :: "'t env \<Rightarrow> 't torrent \<Rightarrow> 't torrent option" where
  "handleVerifyCommand env t =
     (let t = t\<lparr>doVerify := True\<rparr> in
      if status t = Stopped then start env (t\<lparr>t_bitfield := None\<rparr>) else stop env None t)"

text \<open>\<open>closePieceDownloader\<close>, then \<open>CancelPending\<close> on the same downloader.\<close>

definition cancelDownloader :: "'t env \<Rightarrow> PieceDownloader \<Rightarrow> 't torrent \<Rightarrow> 't torrent option" where
  "cancelDownloader env pd t = do {
     t \<leftarrow> closePieceDownloader env pd t;
     tps \<leftarrow> t_pieces t;
     pi \<leftarrow> slice_get tps (pd_Piece pd);
     (h, cs) \<leftarrow> CancelPending (t_choices t) pi (t_heap t) pd;
     Some (t\<lparr>t_heap := h, t_choices := cs\<rparr>)
   }"

definition checkCompletion :: "'t env \<Rightarrow> 't torrent \<Rightarrow> (bool \<times> 't torrent) option" where
  "checkCompletion env t =
     (if completed t then Some (True, t)
      else do {
        bf \<leftarrow> t_bitfield t;
        if \<not> All bf then Some (False, t)
        else if completeC_closed t then None
        else do {
          t \<leftarrow> range_peers (\<lambda>pe t. if \<not> PeerInterested (t_heap t pe) then closePeer env pe t else Some t)
            (t\<lparr>completed := True, completeC_closed := True\<rparr>);
          let t = t\<lparr>addrList := al_Reset (bt env) (addrList t)\<rparr>;
          t \<leftarrow> range_downloaders (cancelDownloader env) t;
          Some (True, t\<lparr>t_picker := None\<rparr>)
        }
      })"

end
