(* ===== verification/TorrentHandlers.thy ===== *)
theory TorrentHandlers
  imports Torrent Workers
begin

text \<open>
  \<open>filechain/torrent_messagehandler.go\<close>, \<open>torrent_metadataextension.go\<close>, \<open>torrent_allocation.go\<close>,
  \<open>torrent_verification.go\<close>, \<open>torrent_write.go\<close> and \<open>torrent_run.go\<close>: what the event loop does with each
  message of a peer and each result of a worker.
\<close>

text \<open>Which peers, with what kind of messages: the reader's messages and the writer's reports.\<close>

datatype peer_message = FromReader message | BlockUploaded u32

text \<open>The first index that we lack and the peer has; \<open>Test\<close> panics out of range.\<close>

fun interested_loop :: "bitfield \<Rightarrow> bitfield \<Rightarrow> u32 list \<Rightarrow> bool option" where
  "interested_loop ours theirs [] = Some False"
| "interested_loop ours theirs (i # is) = do {
     weHave \<leftarrow> Test ours i;
     peerHave \<leftarrow> Test theirs i;
     if \<not> weHave \<and> peerHave then Some True else interested_loop ours theirs is
   }"

definition is_interested :: "ptr \<Rightarrow> bitfield \<Rightarrow> 't torrent \<Rightarrow> bool option" where
  "is_interested pe bf t =
     (if completed t \<or> Len bf = 0 then Some False
      else Option.bind (pe_Bitfield (t_heap t pe)) (\<lambda>b. interested_loop bf b (u32_upto (Len bf))))"

definition updateInterestedState :: "ptr \<Rightarrow> 't torrent \<Rightarrow> 't torrent option" where
  "updateInterestedState pe t =
     (case (t_pieces t, t_bitfield t) of
        (Some _, Some bf) \<Rightarrow> do {
          interested \<leftarrow> is_interested pe bf t;
          Some (if \<not> ClientInterested (t_heap t pe) \<and> interested
            then SendMessage_to Interested pe (at_peer pe (ClientInterested_update (\<lambda>_. True)) t)
            else if ClientInterested (t_heap t pe) \<and> \<not> interested
            then SendMessage_to NotInterested pe (at_peer pe (ClientInterested_update (\<lambda>_. False)) t)
            else t)
        }
      | _ \<Rightarrow> Some t)"

section \<open>Messages about pieces the peer has\<close>

definition picker_have :: "ptr \<Rightarrow> u32 \<Rightarrow> 't torrent \<Rightarrow> 't torrent option" where
  "picker_have pe i t =
     (case t_picker t of None \<Rightarrow> Some t
      | Some pp \<Rightarrow> map_option (\<lambda>(pp, h). t\<lparr>t_picker := Some pp, t_heap := h\<rparr>) (HandleHave pp (t_heap t) pe i))"

fun picker_haves :: "ptr \<Rightarrow> u32 list \<Rightarrow> 't torrent \<Rightarrow> 't torrent option" where
  "picker_haves pe [] t = Some t"
| "picker_haves pe (i # is) t = Option.bind (picker_have pe i t) (picker_haves pe is)"

fun bits_of :: "bitfield \<Rightarrow> u32 list \<Rightarrow> u32 list option" where
  "bits_of bf [] = Some []"
| "bits_of bf (i # is) = do {
     b \<leftarrow> Test bf i;
     rest \<leftarrow> bits_of bf is;
     Some (if b then i # rest else rest)
   }"

text \<open>\<open>pe.Messages = append(pe.Messages, msg)\<close>\<close>

definition save_message :: "ptr \<Rightarrow> message \<Rightarrow> 't torrent \<Rightarrow> 't torrent" where
  "save_message pe m t = at_peer pe (\<lambda>p. p\<lparr>Messages := Messages p @ [m]\<rparr>) t"

definition no_info :: "'t torrent \<Rightarrow> bool" where
  "no_info t \<longleftrightarrow> t_pieces t = None \<or> t_bitfield t = None"

definition update_and_start :: "'t env \<Rightarrow> ptr \<Rightarrow> 't torrent \<Rightarrow> 't torrent option" where
  "update_and_start env pe t = Option.bind (updateInterestedState pe t) (startPieceDownloaderFor env pe)"

definition handleHaveMessage :: "'t env \<Rightarrow> ptr \<Rightarrow> u32 \<Rightarrow> 't torrent \<Rightarrow> 't torrent option" where
  "handleHaveMessage env pe i t =
     (if no_info t then Some (save_message pe (Have i) t)
      else do {
        info \<leftarrow> t_info t;
        if i \<ge> NumPieces info then closePeer env pe t
        else Option.bind (picker_have pe i t) (update_and_start env pe)
      })"

definition handleBitfieldMessage :: "'t env \<Rightarrow> ptr \<Rightarrow> byte list \<Rightarrow> 't torrent \<Rightarrow> 't torrent option" where
  "handleBitfieldMessage env pe data t =
     (if no_info t then Some (save_message pe (BitfieldMsg data) t)
      else if data = [] then Some t
      else do {
        info \<leftarrow> t_info t;
        case NewBytes data (NumPieces info) of
          Inl _ \<Rightarrow> closePeer env pe t
        | Inr bf \<Rightarrow> do {
            is \<leftarrow> bits_of bf (u32_upto (Len bf));
            t \<leftarrow> picker_haves pe is t;
            update_and_start env pe t
          }
      })"

definition handleHaveAllMessage :: "'t env \<Rightarrow> ptr \<Rightarrow> 't torrent \<Rightarrow> 't torrent option" where
  "handleHaveAllMessage env pe t =
     (if no_info t then Some (save_message pe HaveAll t)
      else do {
        tps \<leftarrow> t_pieces t;
        t \<leftarrow> picker_haves pe (map Index tps) t;
        update_and_start env pe t
      })"

definition handleAllowedFastMessage :: "'t env \<Rightarrow> ptr \<Rightarrow> u32 \<Rightarrow> 't torrent \<Rightarrow> 't torrent option" where
  "handleAllowedFastMessage env pe i t =
     (if no_info t then Some (save_message pe (message.AllowedFast i) t)
      else do {
        info \<leftarrow> t_info t;
        if i \<ge> NumPieces info then closePeer env pe t
        else case t_picker t of None \<Rightarrow> Some t
          | Some pp \<Rightarrow> map_option (\<lambda>h. t\<lparr>t_heap := h\<rparr>) (HandleAllowedFast pp (t_heap t) pe i)
      })"

section \<open>Choking and interest\<close>

definition handleUnchokeMessage :: "'t env \<Rightarrow> ptr \<Rightarrow> 't torrent \<Rightarrow> 't torrent option" where
  "handleUnchokeMessage env pe t =
     (let t = at_peer pe (PeerChoking_update (\<lambda>_. False)) t in
      case map_of (pieceDownloaders t) pe of
        None \<Rightarrow> startPieceDownloaderFor env pe t
      | Some pd \<Rightarrow>
          if PieceDownloader.AllowedFast pd then Some t
          else do {
            t \<leftarrow> requestPieceBlocks env pe pd
              (t\<lparr>pieceDownloadersChoked := removeAll pe (pieceDownloadersChoked t)\<rparr>);
            case t_picker t of None \<Rightarrow> Some t
            | Some pp \<Rightarrow> map_option (\<lambda>pp. t\<lparr>t_picker := Some pp\<rparr>) (HandleUnchoke pp pe (of_nat (pd_Piece pd)))
          })"

definition handleChokeMessage :: "'t env \<Rightarrow> ptr \<Rightarrow> 't torrent \<Rightarrow> 't torrent option" where
  "handleChokeMessage env pe t =
     (let t = at_peer pe (PeerChoking_update (\<lambda>_. True)) t in
      case map_of (pieceDownloaders t) pe of
        None \<Rightarrow> Some t
      | Some pd \<Rightarrow>
          if PieceDownloader.AllowedFast pd then Some t
          else do {
            let (pd, cs) = pd_Choked (t_choices t) (t_heap t) pd;
            let t = at_peer pe StopSnubTimer
              (t\<lparr>t_choices := cs, pieceDownloaders := AList.update pe pd (pieceDownloaders t),
                 pieceDownloadersChoked := List.insert pe (pieceDownloadersChoked t),
                 pieceDownloadersSnubbed := removeAll pe (pieceDownloadersSnubbed t)\<rparr>);
            t \<leftarrow> (case t_picker t of None \<Rightarrow> Some t
              | Some pp \<Rightarrow> map_option (\<lambda>pp. t\<lparr>t_picker := Some pp\<rparr>) (HandleChoke pp pe (of_nat (pd_Piece pd))));
            startPieceDownloaders env t
          })"

definition handleInterestedMessage :: "ptr \<Rightarrow> 't torrent \<Rightarrow> 't torrent" where
  "handleInterestedMessage pe t =
     (let t = at_peer pe (PeerInterested_update (\<lambda>_. True)) t; (h, u) = FastUnchoke pe (t_heap t, t_unchoker t)
      in t\<lparr>t_heap := h, t_unchoker := u\<rparr>)"

section \<open>Uploading\<close>

definition sendReject :: "request \<Rightarrow> ptr \<Rightarrow> 't torrent \<Rightarrow> 't torrent" where
  "sendReject r pe t = SendMessage_to (Reject r) pe t"

definition sendPiece :: "request \<Rightarrow> nat \<Rightarrow> ptr \<Rightarrow> 't torrent \<Rightarrow> 't torrent" where
  "sendPiece r i pe t = at_peer pe (send (SendPiece r i)) t"

definition handleRequestMessage :: "'t env \<Rightarrow> ptr \<Rightarrow> request \<Rightarrow> 't torrent \<Rightarrow> 't torrent option" where
  "handleRequestMessage env pe r t =
     (if no_info t then closePeer env pe t
      else do {
        info \<leftarrow> t_info t;
        if r_Index r \<ge> NumPieces info then closePeer env pe t
        else do {
          tps \<leftarrow> t_pieces t;
          pi \<leftarrow> slice_get tps (unat (r_Index r));
          if r_Begin r + r_Length r > p_Length pi then closePeer env pe t
          else if \<not> Done pi then Some (sendReject r pe t)
          else if ClientChoking (t_heap t pe) then
            Some (if FastEnabled (t_heap t pe)
              then if HasPiece (SentAllowedFast (t_heap t pe)) (unat (r_Index r))
                then sendPiece r (unat (r_Index r)) pe t else sendReject r pe t
              else t)
          else Some (sendPiece r (unat (r_Index r)) pe t)
        }
      })"

definition handleRejectMessage :: "'t env \<Rightarrow> ptr \<Rightarrow> request \<Rightarrow> 't torrent \<Rightarrow> 't torrent option" where
  "handleRejectMessage env pe r t =
     (if no_info t then closePeer env pe t
      else do {
        info \<leftarrow> t_info t;
        if r_Index r \<ge> NumPieces info then closePeer env pe t
        else case map_of (pieceDownloaders t) pe of
          None \<Rightarrow> Some t
        | Some pd \<Rightarrow> do {
            tps \<leftarrow> t_pieces t;
            pi \<leftarrow> slice_get tps (pd_Piece pd);
            if Index pi \<noteq> r_Index r then Some t
            else case FindBlock pi (r_Begin r) (r_Length r) of
              None \<Rightarrow> closePeer env pe t
            | Some b \<Rightarrow> Some (t\<lparr>pieceDownloaders := AList.update pe (Rejected b pd) (pieceDownloaders t)\<rparr>)
          }
      })"

definition handleCancelMessage :: "'t env \<Rightarrow> ptr \<Rightarrow> request \<Rightarrow> 't torrent \<Rightarrow> 't torrent option" where
  "handleCancelMessage env pe r t =
     (if no_info t then closePeer env pe t
      else do {
        info \<leftarrow> t_info t;
        if r_Index r \<ge> NumPieces info then Some t
        else let t = at_peer pe (send (CancelRequest r)) t in
          Some (if FastEnabled (t_heap t pe) then sendReject r pe t else t)
      })"

section \<open>The extension protocol\<close>

definition handleExtensionHandshake :: "'t env \<Rightarrow> ptr \<Rightarrow> ext_handshake \<Rightarrow> 't torrent \<Rightarrow> 't torrent option" where
  "handleExtensionHandshake env pe h t =
     (if ExtensionHandshake (t_heap t pe) \<noteq> None then Some t
      else
        let t = at_peer pe (ExtensionHandshake_update (\<lambda>_. Some h)) t;
            t = (if length (hs_YourIP h) = 4 then t\<lparr>externalIP := hs_YourIP h\<rparr> else t)
        in if map_of (hs_M h) ''ut_metadata'' \<noteq> None then startInfoDownloaders env t else Some t)"

definition sendMetadata :: "ptr \<Rightarrow> byte \<Rightarrow> ext_metadata \<Rightarrow> 't torrent \<Rightarrow> 't torrent" where
  "sendMetadata pe msgID m t = SendMessage_to (Extension msgID (ExtMetadata m)) pe t"

definition sendMetadataReject :: "ptr \<Rightarrow> u32 \<Rightarrow> byte \<Rightarrow> 't torrent \<Rightarrow> 't torrent" where
  "sendMetadataReject pe i msgID t =
     sendMetadata pe msgID \<lparr>md_Type = 2, md_Piece = i, md_TotalSize = 0, md_Data = []\<rparr> t"

definition metadataRequest :: "ptr \<Rightarrow> u32 \<Rightarrow> 't torrent \<Rightarrow> 't torrent" where
  "metadataRequest pe piece t =
     (case ExtensionHandshake (t_heap t pe) of None \<Rightarrow> t
      | Some h \<Rightarrow>
        (case map_of (hs_M h) ''ut_metadata'' of None \<Rightarrow> t
         | Some extMsgID \<Rightarrow>
           (case t_info t of None \<Rightarrow> sendMetadataReject pe piece extMsgID t
            | Some info \<Rightarrow>
              let bgn = 16 * 1024 * piece; fin = bgn + 16 * 1024;
                  totalSize = (of_nat (length (Bytes info)) :: u32);
                  fin = (if fin > totalSize then totalSize else fin)
              in if bgn \<ge> totalSize then sendMetadataReject pe piece extMsgID t
                 else if fin > totalSize then sendMetadataReject pe piece extMsgID t
                 else sendMetadata pe extMsgID \<lparr>md_Type = 1, md_Piece = piece, md_TotalSize = int (unat totalSize),
                   md_Data = take (unat fin - unat bgn) (drop (unat bgn) (Bytes info))\<rparr> t)))"

definition metadataComplete :: "'t env \<Rightarrow> byte list \<Rightarrow> 't torrent \<Rightarrow> 't torrent option" where
  "metadataComplete env data t =
     (let t = stopInfoDownloaders t in
      case parseInfo (decode_info env) (sha1 env) (MaxPieces env) data of
        Inl e \<Rightarrow> stop env (Some (ErrParseInfo e)) t
      | Inr info \<Rightarrow>
          if Private info then stop env (Some ErrPrivateTorrent) t
          else
            let t = tick (t\<lparr>t_info := Some info\<rparr>) in
            if \<not> db_ok env (t_clock t - 1) then stop env (Some ErrWriteInfo) t else startAllocator t)"

definition metadataData :: "'t env \<Rightarrow> ptr \<Rightarrow> u32 \<Rightarrow> byte list \<Rightarrow> 't torrent \<Rightarrow> 't torrent option" where
  "metadataData env pe piece data t =
     (case map_of (infoDownloaders t) pe of None \<Rightarrow> Some t
      | Some idl \<Rightarrow> do {
          r \<leftarrow> id_GotBlock piece data idl;
          case r of
            Inl _ \<Rightarrow> Option.bind (closePeer env pe t) (startInfoDownloaders env)
          | Inr idl \<Rightarrow>
              let t = t\<lparr>infoDownloaders := AList.update pe idl (infoDownloaders t)\<rparr> in
              if \<not> id_Done idl then requestInfoBlocks env idl t
              else
                let t = at_peer pe StopSnubTimer t in
                if sha1 env (id_Bytes idl) \<noteq> infoHash t
                then Option.bind (closePeer env (id_Peer idl) t) (startInfoDownloaders env)
                else metadataComplete env (id_Bytes idl) t
        })"

definition metadataReject :: "'t env \<Rightarrow> ptr \<Rightarrow> 't torrent \<Rightarrow> 't torrent option" where
  "metadataReject env pe t =
     (case map_of (infoDownloaders t) pe of None \<Rightarrow> Some t
      | Some idl \<Rightarrow> Option.bind (closePeer env (id_Peer idl) t) (startInfoDownloaders env))"

definition handleMetadataMessage :: "'t env \<Rightarrow> ptr \<Rightarrow> ext_metadata \<Rightarrow> 't torrent \<Rightarrow> 't torrent option" where
  "handleMetadataMessage env pe m t =
     (if md_Type m = 0 then Some (metadataRequest pe (md_Piece m) t)
      else if md_Type m = 1 then metadataData env pe (md_Piece m) (md_Data m) t
      else if md_Type m = 2 then metadataReject env pe t
      else Some t)"

section \<open>The dispatch\<close>

text \<open>
  There is no case for a port message, nor for the two kinds of message that the reader never passes on.
\<close>

definition handlePeerMessage :: "'t env \<Rightarrow> ptr \<Rightarrow> peer_message \<Rightarrow> 't torrent \<Rightarrow> 't torrent option" where
  "handlePeerMessage env pe pm t =
     (case pm of
        BlockUploaded len \<Rightarrow> Some (t\<lparr>bytesUploaded := bytesUploaded t + int (unat len)\<rparr>)
      | FromReader msg \<Rightarrow>
        (case msg of
           Have i \<Rightarrow> handleHaveMessage env pe i t
         | BitfieldMsg data \<Rightarrow> handleBitfieldMessage env pe data t
         | HaveAll \<Rightarrow> handleHaveAllMessage env pe t
         | HaveNone \<Rightarrow> Some t
         | message.AllowedFast i \<Rightarrow> handleAllowedFastMessage env pe i t
         | Unchoke \<Rightarrow> handleUnchokeMessage env pe t
         | Choke \<Rightarrow> handleChokeMessage env pe t
         | Interested \<Rightarrow> Some (handleInterestedMessage pe t)
         | NotInterested \<Rightarrow> Some (at_peer pe (PeerInterested_update (\<lambda>_. False)) t)
         | Request r \<Rightarrow> handleRequestMessage env pe r t
         | Reject r \<Rightarrow> handleRejectMessage env pe r t
         | Cancel r \<Rightarrow> handleCancelMessage env pe r t
         | Ext (ExtHandshake h) \<Rightarrow> handleExtensionHandshake env pe h t
         | Ext (ExtMetadata m) \<Rightarrow> handleMetadataMessage env pe m t
         | Ext (ExtPEX _) \<Rightarrow> Some t
         | Port _ \<Rightarrow> None
         | PieceMsg _ _ _ \<Rightarrow> None
         | Extension _ _ \<Rightarrow> None))"

fun handle_messages :: "'t env \<Rightarrow> ptr \<Rightarrow> message list \<Rightarrow> 't torrent \<Rightarrow> 't torrent option" where
  "handle_messages env pe [] t = Some t"
| "handle_messages env pe (m # ms) t = Option.bind (handlePeerMessage env pe (FromReader m) t) (handle_messages env pe ms)"

definition processQueuedMessages :: "'t env \<Rightarrow> 't torrent \<Rightarrow> 't torrent option" where
  "processQueuedMessages env t =
     range_peers (\<lambda>pe t. map_option (at_peer pe (Messages_update (\<lambda>_. []))) (handle_messages env pe (Messages (t_heap t pe)) t)) t"

section \<open>Blocks of pieces\<close>

definition waste :: "int \<Rightarrow> 't torrent \<Rightarrow> 't torrent" where
  "waste l t = t\<lparr>bytesWasted := bytesWasted t + l\<rparr>"

text \<open>A complete piece goes to a piece writer; piece messages are held back until it is done.\<close>

definition pieceComplete :: "'t env \<Rightarrow> ptr \<Rightarrow> PieceDownloader \<Rightarrow> 't torrent \<Rightarrow> 't torrent option" where
  "pieceComplete env pe pd t = do {
     t \<leftarrow> closePieceDownloader env pd t;
     let t = at_peer pe StopSnubTimer t;
     tps \<leftarrow> t_pieces t;
     pi \<leftarrow> slice_get tps (pd_Piece pd);
     if Writing pi then None
     else do {
       t \<leftarrow> startPieceDownloaderFor env pe (t\<lparr>t_pieces := Some (tps[pd_Piece pd := pi\<lparr>Writing := True\<rparr>])\<rparr>);
       Some (t\<lparr>suspended := True, writers := writers t @ [\<lparr>pw_generation = t_generation t, pw_Piece = pd_Piece pd,
         pw_Source = pe, pw_Buffer = Buffer pd\<rparr>]\<rparr>)
     }
   }"

definition handlePieceMessage :: "'t env \<Rightarrow> ptr \<Rightarrow> u32 \<Rightarrow> u32 \<Rightarrow> byte list \<Rightarrow> 't torrent \<Rightarrow> 't torrent option" where
  "handlePieceMessage env pe index bgn data t =
     (let l = int (length data) in
      if no_info t then closePeer env pe (waste l t)
      else do {
        tps \<leftarrow> t_pieces t;
        if index \<ge> of_nat (length tps) then closePeer env pe (waste l t)
        else
          let t = t\<lparr>bytesDownloaded := bytesDownloaded t + l\<rparr> in
          case map_of (pieceDownloaders t) pe of
            None \<Rightarrow> Some (waste l t)
          | Some pd \<Rightarrow> do {
              pi \<leftarrow> slice_get tps (pd_Piece pd);
              if Index pi \<noteq> index then Some (waste l t)
              else case FindBlock pi bgn (of_nat (length data)) of
                None \<Rightarrow> closePeer env pe (waste l t)
              | Some b \<Rightarrow> do {
                  (pd, _) \<leftarrow> GotBlock b data pd;
                  let t = t\<lparr>pieceDownloaders := AList.update pe pd (pieceDownloaders t)\<rparr>;
                  if \<not> pd_Done pi pd then
                    if PieceDownloader.AllowedFast pd \<or> \<not> PeerChoking (t_heap t pe)
                    then requestPieceBlocks env pe pd t else Some t
                  else pieceComplete env pe pd t
                }
            }
      })"

section \<open>Results of workers\<close>

text \<open>\<open>pw.Piece\<close> is a piece of the current array only when the torrent has not been stopped since.\<close>

definition at_written :: "PieceWriter \<Rightarrow> (Piece \<Rightarrow> Piece) \<Rightarrow> 't torrent \<Rightarrow> 't torrent" where
  "at_written pw f t =
     (case t_pieces t of None \<Rightarrow> t
      | Some tps \<Rightarrow> if pw_generation pw = t_generation t
          then t\<lparr>t_pieces := Some (tps[pw_Piece pw := f (tps ! pw_Piece pw)])\<rparr> else t)"

text \<open>
  The loop over the other peers that download the piece.  The slice that the loop reads is changed by
  \<open>closePieceDownloader\<close> at places already read only, so it yields the peers as they were.  A peer without
  a downloader would be a nil dereference.
\<close>

fun cancel_duplicates :: "'t env \<Rightarrow> ptr list \<Rightarrow> 't torrent \<Rightarrow> 't torrent option" where
  "cancel_duplicates env [] t = Some t"
| "cancel_duplicates env (pe # pes) t = do {
     pd \<leftarrow> map_of (pieceDownloaders t) pe;
     t \<leftarrow> cancelDownloader env pd t;
     t \<leftarrow> startPieceDownloaderFor env pe t;
     cancel_duplicates env pes t
   }"

definition announce_have :: "u32 \<Rightarrow> ptr \<Rightarrow> 't torrent \<Rightarrow> 't torrent option" where
  "announce_have i pe t = do {
     t \<leftarrow> updateInterestedState pe t;
     b \<leftarrow> pe_Bitfield (t_heap t pe);
     has \<leftarrow> Test b i;
     Some (if has then t else SendMessage_to (Have i) pe t)
   }"

fun announce_haves :: "u32 \<Rightarrow> ptr list \<Rightarrow> 't torrent \<Rightarrow> 't torrent option" where
  "announce_haves i [] t = Some t"
| "announce_haves i (pe # pes) t = Option.bind (announce_have i pe t) (announce_haves i pes)"

definition pieceWritten :: "'t env \<Rightarrow> PieceWriter \<Rightarrow> 't torrent \<Rightarrow> 't torrent option" where
  "pieceWritten env pw t = do {
     let i = (of_nat (pw_Piece pw) :: u32);
     let t = at_written pw (Done_update (\<lambda>_. True)) t;
     bf \<leftarrow> t_bitfield t;
     have \<leftarrow> Test bf i;
     if have then None
     else do {
       bf \<leftarrow> bf_Set bf i;
       let t = t\<lparr>t_bitfield := Some bf\<rparr>;
       t \<leftarrow> (case t_picker t of None \<Rightarrow> Some t
         | Some pp \<Rightarrow> Option.bind (RequestedPeers pp i) (\<lambda>pes. cancel_duplicates env pes t));
       t \<leftarrow> announce_haves i (peers t) t;
       (complete, t) \<leftarrow> checkCompletion env t;
       if complete
       then let (ok, t) = writeBitfield env t in
         if \<not> ok then stop env (Some ErrWriteBitfield) t
         else if stopAfterDownload t then stop env None t
         else Some t
       else Some t
     }
   }"

definition handlePieceWriteDone ::
  "'t env \<Rightarrow> PieceWriter \<Rightarrow> bool \<Rightarrow> io_error option \<Rightarrow> 't torrent \<Rightarrow> 't torrent option" where
  "handlePieceWriteDone env pw HashOK err t =
     (let t = at_written pw (Writing_update (\<lambda>_. False)) t; t = t\<lparr>suspended := False\<rparr> in
      if \<not> HashOK
      then Option.bind (closePeer env (pw_Source pw) (waste (int (length (pw_Buffer pw))) t)) (startPieceDownloaders env)
      else case err of
          Some e \<Rightarrow> stop env (Some (ErrPieceWrite e)) t
        | None \<Rightarrow> pieceWritten env pw t)"

text \<open>\<open>t.pieces[i].Done = t.bitfield.Test(i)\<close> for every bit.\<close>

fun mark_done :: "bitfield \<Rightarrow> u32 list \<Rightarrow> Piece list \<Rightarrow> Piece list option" where
  "mark_done bf [] tps = Some tps"
| "mark_done bf (i # is) tps = do {
     b \<leftarrow> Test bf i;
     pi \<leftarrow> slice_get tps (unat i);
     mark_done bf is (tps[unat i := pi\<lparr>Done := b\<rparr>])
   }"

text \<open>What follows once the bitfield is known.\<close>

definition resume_download :: "'t env \<Rightarrow> 't torrent \<Rightarrow> 't torrent option" where
  "resume_download env t = do {
     t \<leftarrow> processQueuedMessages env t;
     t \<leftarrow> startAnnouncers env t;
     startPieceDownloaders env t
   }"

definition completion_or_resume :: "'t env \<Rightarrow> 't torrent \<Rightarrow> 't torrent option" where
  "completion_or_resume env t = do {
     (complete, t) \<leftarrow> checkCompletion env t;
     if complete \<and> stopAfterDownload t then stop env None t else resume_download env t
   }"

definition reset_bitfields :: "u32 \<Rightarrow> 't torrent \<Rightarrow> 't torrent" where
  "reset_bitfields n t = fold (\<lambda>pe. at_peer pe (pe_Bitfield_update (\<lambda>_. Some (New n)))) (map snd (connectedPeers t)) t"

definition handleAllocationDone :: "'t env \<Rightarrow> nat \<Rightarrow> allocation \<Rightarrow> 't torrent \<Rightarrow> 't torrent option" where
  "handleAllocationDone env worker al t =
     (if t_allocator t \<noteq> Some worker then None
      else
        let t = t\<lparr>t_allocator := None\<rparr> in
        if al_Failed al then stop env (Some ErrAllocation) t
        else if t_files t \<noteq> None then None
        else if t_pieces t \<noteq> None then None
        else do {
          let t = t\<lparr>t_files := Some (al_Files al)\<rparr>;
          info \<leftarrow> t_info t;
          tps \<leftarrow> NewPieces info (al_Files al);
          if tps = [] then stop env (Some ErrNoPieces) t
          else if t_picker t \<noteq> None then None
          else do {
            let t = reset_bitfields (NumPieces info) (t\<lparr>t_pieces := Some tps, t_generation := Suc (t_generation t),
              t_picker := Some (NewPicker tps (EndgameMaxDuplicateDownloads (cfg env)))\<rparr>);
            case (t_bitfield t, HasMissing al) of
              (Some bf, False) \<Rightarrow> do {
                tps \<leftarrow> mark_done bf (u32_upto (Len bf)) tps;
                completion_or_resume env (t\<lparr>t_pieces := Some tps\<rparr>)
              }
            | _ \<Rightarrow>
                if \<not> HasExisting al
                then resume_download env (t\<lparr>t_bitfield := Some (New (NumPieces info))\<rparr>)
                else startVerifier t
          }
        })"

fun send_haves :: "u32 list \<Rightarrow> ptr \<Rightarrow> 't torrent \<Rightarrow> 't torrent" where
  "send_haves [] pe t = t"
| "send_haves (i # is) pe t = send_haves is pe (SendMessage_to (Have i) pe t)"

text \<open>The pieces of the set bits become \<open>Done\<close>; the others keep their flag.\<close>

fun mark_have :: "u32 list \<Rightarrow> Piece list \<Rightarrow> Piece list option" where
  "mark_have [] tps = Some tps"
| "mark_have (i # is) tps = do {
     pi \<leftarrow> slice_get tps (unat i);
     mark_have is (tps[unat i := pi\<lparr>Done := True\<rparr>])
   }"

definition handleVerificationDone :: "'t env \<Rightarrow> nat \<Rightarrow> bitfield option \<Rightarrow> 't torrent \<Rightarrow> 't torrent option" where
  "handleVerificationDone env worker result t =
     (if t_verifier t \<noteq> Some worker then None
      else
        let t = t\<lparr>t_verifier := None\<rparr> in
        case result of
          None \<Rightarrow> stop env (Some ErrVerification) t
        | Some bf \<Rightarrow> do {
            let t = t\<lparr>t_bitfield := Some bf\<rparr>;
            haveMessages \<leftarrow> bits_of bf (u32_upto (Len bf));
            tps \<leftarrow> (if haveMessages = [] then Some (t_pieces t)
              else Option.bind (t_pieces t) (\<lambda>tps. map_option Some (mark_have haveMessages tps)));
            let t = t\<lparr>t_pieces := tps\<rparr>;
            let t = (if \<not> All bf then t\<lparr>completed := False, completeC_closed := False\<rparr> else t);
            if doVerify t then stop env None (t\<lparr>doVerify := False\<rparr>)
            else do {
              t \<leftarrow> range_peers (\<lambda>pe t. updateInterestedState pe (send_haves haveMessages pe t)) t;
              completion_or_resume env t
            }
          })"

section \<open>The event loop\<close>

datatype event =
    EvStart | EvStop
  | EvAllocatorProgress int
  | EvAllocated nat allocation
  | EvVerifierProgress u32
  | EvVerified nat "bitfield option"
  | EvRamNotify ptr
  | EvPieceWritten PieceWriter bool "io_error option"
  | EvDisconnected ptr
  | EvPiece ptr u32 u32 "byte list"
  | EvMessage ptr peer_message
  | EvIncomingStream string
  | EvNewPeers "AddrInfo list"

text \<open>
  The cases of the \<open>select\<close>.  \<open>session.ram\<close> counts the memory as taken when it notifies.  \<open>handlePieceMessage\<close> is
  only reached while the channel of piece messages is not suspended.
\<close>

fun run_step :: "'t env \<Rightarrow> event \<Rightarrow> 't torrent \<Rightarrow> 't torrent option" where
  "run_step env EvStart t = start env t"
| "run_step env EvStop t = stop env None t"
| "run_step env (EvAllocatorProgress n) t = Some (t\<lparr>bytesAllocated := n\<rparr>)"
| "run_step env (EvAllocated w al) t = handleAllocationDone env w al t"
| "run_step env (EvVerifierProgress n) t = Some (t\<lparr>checkedPieces := n\<rparr>)"
| "run_step env (EvVerified w bf) t = handleVerificationDone env w bf t"
| "run_step env (EvRamNotify pe) t =
     Option.bind (t_info t) (\<lambda>i. startSinglePieceDownloader env pe (t\<lparr>ramHeld := ramHeld t + int (unat (PieceLength i))\<rparr>))"
| "run_step env (EvPieceWritten pw ok err) t =
     handlePieceWriteDone env pw ok err (t\<lparr>writers := remove1 pw (writers t)\<rparr>)"
| "run_step env (EvDisconnected pe) t = closePeer env pe t"
| "run_step env (EvPiece pe index bgn data) t = handlePieceMessage env pe index bgn data t"
| "run_step env (EvMessage pe m) t = handlePeerMessage env pe m t"
| "run_step env (EvIncomingStream i) t = Some (handleNewIncomingStream env i t)"
| "run_step env (EvNewPeers addrs) t = handleNewPeers env addrs DHT t"

end
