(* ===== verification/PeerConn.thy ===== *)
theory PeerConn
  imports TorrentHandlers
begin

text \<open>
  \<open>external/peerconn\<close> with the loops of \<open>peerreader\<close>, \<open>peerwriter\<close> and \<open>external/peer\<close>: the goroutines of one
  connection and the channels between them.  A channel without a buffer is a rendezvous, a step of both goroutines;
  a \<open>select\<close> is a choice among the steps that are possible; closing a channel twice panics.  What the reader takes
  from the stream is the list that \<open>Run\<close> of \<open>PeerProtocol\<close> delivers.  The loop of the torrent is the
  environment: it receives messages and disconnections and may close the peer, and, as \<open>Peer.Close\<close> does not look whether it
  was called before, may do so again; the case that would receive a snubbed peer is commented out in
  \<open>filechain/torrent_run.go\<close>, so there is no step for it.
\<close>

section \<open>The goroutines\<close>

text \<open>\<open>PeerReader.Run\<close>: reading, handing a message on, and the deferred calls.\<close>

datatype reader = RReading | RSending message | RStopping | RClosing | RDone

text \<open>\<open>PeerWriter.Run\<close>, and \<open>messageWriter\<close>: a message with the bytes of a block, and what follows the report of them.\<close>

datatype writer = WLoop | WDone

datatype sender = MLoop | MWriting u32 | MCounting u32 bool | MDone

text \<open>\<open>Conn.Run\<close>: the loop, the second stop, and the deferred calls in their order.\<close>

datatype conn_loop = CLoop | CForward peer_message | CStopWriter | CStopped | CWaitWriter | CWaitReader | CCloseMessages | CDone

text \<open>\<open>Peer.Run\<close>.\<close>

datatype peer_loop = PLoop | PDeliver peer_message | PSnubbed | PDisconnect | PDone

text \<open>Where the loop of the torrent is: it has not called \<open>Peer.Close\<close>, waits in it, or is back from it.\<close>

datatype closer = TOpen | TClosing | TClosed

record conn =
  c_reader :: reader
  c_writer :: writer
  c_sender :: sender
  c_conn :: conn_loop
  c_peer :: peer_loop
  c_torrent :: closer
  reader_stopC :: bool
  writer_stopC :: bool
  conn_closeC :: bool
  conn_messages :: bool
  peer_closeC :: bool
  stream_closed :: bool
  panicked :: bool
  c_closes :: nat
  c_input :: "message list"
  c_read :: "message list"
  c_delivered :: "peer_message list"

text \<open>\<open>true\<close> is a closed channel; \<open>c_closes\<close> counts the calls of \<open>Peer.Close\<close>.\<close>

definition start_conn :: "message list \<Rightarrow> conn" where
  "start_conn ms = \<lparr>c_reader = RReading, c_writer = WLoop, c_sender = MLoop, c_conn = CLoop, c_peer = PLoop, c_torrent = TOpen,
     reader_stopC = False, writer_stopC = False, conn_closeC = False, conn_messages = False, peer_closeC = False, stream_closed = False,
     panicked = False, c_closes = 0, c_input = ms, c_read = [], c_delivered = []\<rparr>"

definition ReaderStop :: "conn \<Rightarrow> conn" where
  "ReaderStop s = (if reader_stopC s then s\<lparr>panicked := True\<rparr> else s\<lparr>reader_stopC := True\<rparr>)"

definition WriterStop :: "conn \<Rightarrow> conn" where
  "WriterStop s = (if writer_stopC s then s\<lparr>panicked := True\<rparr> else s\<lparr>writer_stopC := True\<rparr>)"

text \<open>\<open>messageWriter\<close> returns: its deferred call closes the stream.\<close>

definition sender_exit :: "conn \<Rightarrow> conn" where
  "sender_exit s = s\<lparr>c_sender := MDone, stream_closed := True\<rparr>"

text \<open>
  A read may fail at any time: the end of the stream, a deadline, a message that is refused, or a stop while waiting for the rate limit.
\<close>

inductive reader_step :: "conn \<Rightarrow> conn \<Rightarrow> bool" where
  read: "c_reader s = RReading \<Longrightarrow> c_input s = m # ms \<Longrightarrow> reader_step s (s\<lparr>c_reader := RSending m, c_input := ms, c_read := c_read s @ [m]\<rparr>)"
| fail: "c_reader s = RReading \<Longrightarrow> reader_step s (s\<lparr>c_reader := RStopping\<rparr>)"
| stopped: "c_reader s = RSending m \<Longrightarrow> reader_stopC s \<Longrightarrow> reader_step s (s\<lparr>c_reader := RStopping\<rparr>)"
| stop: "c_reader s = RStopping \<Longrightarrow> reader_step s ((ReaderStop s)\<lparr>c_reader := RClosing\<rparr>)"
| exit: "c_reader s = RClosing \<Longrightarrow> reader_step s (s\<lparr>c_reader := RDone\<rparr>)"

inductive writer_loop_step :: "conn \<Rightarrow> conn \<Rightarrow> bool" where
  take: "c_writer s = WLoop \<Longrightarrow> c_sender s = MLoop \<Longrightarrow> writer_loop_step s (s\<lparr>c_sender := MWriting n\<rparr>)"
| stop: "c_writer s = WLoop \<Longrightarrow> writer_stopC s \<Longrightarrow> writer_loop_step s (s\<lparr>c_writer := WDone\<rparr>)"
| written: "c_sender s = MWriting n \<Longrightarrow> writer_loop_step s (s\<lparr>c_sender := if 0 < n then MCounting n True else MLoop\<rparr>)"
| write_error: "c_sender s = MWriting n \<Longrightarrow> writer_loop_step s (if 0 < n then s\<lparr>c_sender := MCounting n False\<rparr> else sender_exit s)"
| no_serialize: "c_sender s = MWriting n \<Longrightarrow> writer_loop_step s (sender_exit s)"
| no_count: "c_sender s = MCounting n b \<Longrightarrow> writer_stopC s \<Longrightarrow> writer_loop_step s (if b then s\<lparr>c_sender := MLoop\<rparr> else sender_exit s)"
| sender_stop: "c_sender s = MLoop \<Longrightarrow> writer_stopC s \<Longrightarrow> writer_loop_step s (sender_exit s)"
| keepalive_error: "c_sender s = MLoop \<Longrightarrow> writer_loop_step s (sender_exit s)"

text \<open>\<open>Conn.Run\<close>, with the sides of its channels.\<close>

inductive conn_step :: "conn \<Rightarrow> conn \<Rightarrow> bool" where
  from_reader: "c_conn s = CLoop \<Longrightarrow> c_reader s = RSending m \<Longrightarrow> conn_step s (s\<lparr>c_conn := CForward (FromReader m), c_reader := RReading\<rparr>)"
| from_writer: "c_conn s = CLoop \<Longrightarrow> c_sender s = MCounting n b \<Longrightarrow>
    conn_step s ((if b then s\<lparr>c_sender := MLoop\<rparr> else sender_exit s)\<lparr>c_conn := CForward (BlockUploaded n)\<rparr>)"
| forward: "c_conn s = CForward x \<Longrightarrow> c_peer s = PLoop \<Longrightarrow> conn_step s (s\<lparr>c_conn := CLoop, c_peer := PDeliver x\<rparr>)"
| drop: "c_conn s = CForward x \<Longrightarrow> conn_closeC s \<Longrightarrow> conn_step s (s\<lparr>c_conn := CLoop\<rparr>)"
| closed: "c_conn s = CLoop \<Longrightarrow> conn_closeC s \<Longrightarrow> conn_step s ((ReaderStop s)\<lparr>c_conn := CStopWriter\<rparr>)"
| reader_done: "c_conn s = CLoop \<Longrightarrow> c_reader s = RDone \<Longrightarrow> conn_step s (s\<lparr>c_conn := CStopWriter\<rparr>)"
| stop_writer: "c_conn s = CStopWriter \<Longrightarrow> conn_step s ((WriterStop s)\<lparr>c_conn := CStopped\<rparr>)"
| writer_done: "c_conn s = CLoop \<Longrightarrow> c_writer s = WDone \<Longrightarrow> conn_step s ((ReaderStop s)\<lparr>c_conn := CStopped\<rparr>)"
| close_stream: "c_conn s = CStopped \<Longrightarrow> conn_step s (s\<lparr>c_conn := CWaitWriter, stream_closed := True\<rparr>)"
| wait_writer: "c_conn s = CWaitWriter \<Longrightarrow> c_writer s = WDone \<Longrightarrow> conn_step s (s\<lparr>c_conn := CWaitReader\<rparr>)"
| wait_reader: "c_conn s = CWaitReader \<Longrightarrow> c_reader s = RDone \<Longrightarrow> conn_step s (s\<lparr>c_conn := CCloseMessages\<rparr>)"
| close_messages: "c_conn s = CCloseMessages \<Longrightarrow> conn_step s (s\<lparr>c_conn := CDone, conn_messages := True, panicked := panicked s \<or> conn_messages s\<rparr>)"

text \<open>\<open>Peer.Run\<close>: the loop of the torrent receives only while it does not wait in \<open>Close\<close>.\<close>

inductive peer_step :: "conn \<Rightarrow> conn \<Rightarrow> bool" where
  deliver: "c_peer s = PDeliver x \<Longrightarrow> c_torrent s = TOpen \<Longrightarrow> peer_step s (s\<lparr>c_peer := PLoop, c_delivered := c_delivered s @ [x]\<rparr>)"
| snub_timer: "c_peer s = PLoop \<Longrightarrow> peer_step s (s\<lparr>c_peer := PSnubbed\<rparr>)"
| no_messages: "c_peer s = PLoop \<Longrightarrow> conn_messages s \<Longrightarrow> peer_step s (s\<lparr>c_peer := PDisconnect\<rparr>)"
| disconnect: "c_peer s = PDisconnect \<Longrightarrow> c_torrent s = TOpen \<Longrightarrow> peer_step s (s\<lparr>c_peer := PDone\<rparr>)"
| closed: "c_peer s \<noteq> PDone \<Longrightarrow> peer_closeC s \<Longrightarrow> peer_step s (s\<lparr>c_peer := PDone\<rparr>)"

text \<open>
  \<open>Peer.Close\<close> up to where it waits for \<open>Peer.Run\<close>: closing the channel a second time panics, and nothing in the code guards
  against a second call, so a torrent that is not waiting in \<open>Close\<close> can always make one.
\<close>

definition PeerClose :: "conn \<Rightarrow> conn" where
  "PeerClose s =
     (if peer_closeC s then s\<lparr>panicked := True, c_closes := Suc (c_closes s)\<rparr>
      else s\<lparr>c_torrent := TClosing, peer_closeC := True, stream_closed := True, c_closes := Suc (c_closes s)\<rparr>)"

inductive torrent_step :: "conn \<Rightarrow> conn \<Rightarrow> bool" where
  close: "c_torrent s \<noteq> TClosing \<Longrightarrow> torrent_step s (PeerClose s)"
| close_returns: "c_torrent s = TClosing \<Longrightarrow> c_peer s = PDone \<Longrightarrow> torrent_step s (s\<lparr>c_torrent := TClosed\<rparr>)"

text \<open>
  \<open>Conn.Close\<close> is shadowed by \<open>Peer.Close\<close>, which closes a channel of its own, so nobody calls it; \<open>api\<close> says whether somebody does.
\<close>

definition ConnClose :: "conn \<Rightarrow> conn" where
  "ConnClose s = s\<lparr>conn_closeC := True, panicked := panicked s \<or> conn_closeC s\<rparr>"

inductive connection_step :: "bool \<Rightarrow> conn \<Rightarrow> conn \<Rightarrow> bool" for api where
  "\<not> panicked s \<Longrightarrow> reader_step s s' \<Longrightarrow> connection_step api s s'"
| "\<not> panicked s \<Longrightarrow> writer_loop_step s s' \<Longrightarrow> connection_step api s s'"
| "\<not> panicked s \<Longrightarrow> conn_step s s' \<Longrightarrow> connection_step api s s'"
| "\<not> panicked s \<Longrightarrow> peer_step s s' \<Longrightarrow> connection_step api s s'"
| "\<not> panicked s \<Longrightarrow> torrent_step s s' \<Longrightarrow> connection_step api s s'"
| "\<not> panicked s \<Longrightarrow> api \<Longrightarrow> connection_step api s (ConnClose s)"

definition connection_run :: "bool \<Rightarrow> conn \<Rightarrow> conn \<Rightarrow> bool" where
  "connection_run api = (connection_step api)\<^sup>*\<^sup>*"

section \<open>The invariant\<close>

text \<open>Where a message of the reader is on its way to the torrent.\<close>

fun of_reader :: "peer_message list \<Rightarrow> message list" where
  "of_reader [] = []"
| "of_reader (FromReader m # xs) = m # of_reader xs"
| "of_reader (BlockUploaded n # xs) = of_reader xs"

definition in_flight :: "conn \<Rightarrow> peer_message list" where
  "in_flight s =
     (case c_peer s of PDeliver x \<Rightarrow> [x] | _ \<Rightarrow> []) @ (case c_conn s of CForward x \<Rightarrow> [x] | _ \<Rightarrow> []) @
     (case c_reader s of RSending m \<Rightarrow> [FromReader m] | _ \<Rightarrow> [])"

text \<open>The calls of \<open>Peer.Close\<close>, and the state of the channels and of the messages.\<close>

definition close_inv :: "conn \<Rightarrow> bool" where
  "close_inv s \<longleftrightarrow> (panicked s \<longleftrightarrow> 1 < c_closes s) \<and> (c_torrent s = TOpen \<longleftrightarrow> c_closes s = 0) \<and> (c_torrent s = TClosing \<longrightarrow> c_closes s = 1)"

definition chan_inv :: "message list \<Rightarrow> conn \<Rightarrow> bool" where
  "chan_inv ms s \<longleftrightarrow> \<not> conn_closeC s \<and> (reader_stopC s \<longleftrightarrow> c_reader s \<in> {RClosing, RDone}) \<and>
     (writer_stopC s \<longleftrightarrow> c_conn s \<notin> {CLoop, CStopWriter} \<and> (\<forall>x. c_conn s \<noteq> CForward x)) \<and>
     (c_writer s = WDone \<longrightarrow> writer_stopC s) \<and> (c_conn s \<noteq> CLoop \<and> (\<forall>x. c_conn s \<noteq> CForward x) \<longrightarrow> c_reader s = RDone) \<and>
     (conn_messages s \<longleftrightarrow> c_conn s = CDone) \<and> (c_torrent s = TOpen \<longleftrightarrow> \<not> peer_closeC s) \<and> (c_torrent s = TClosed \<longrightarrow> c_peer s = PDone) \<and>
     c_read s @ c_input s = ms \<and> (if c_peer s = PDone then (\<exists>r. c_read s = of_reader (c_delivered s) @ r) else
       c_read s = of_reader (c_delivered s @ in_flight s))"

lemma of_reader_append [simp]: "of_reader (a @ b) = of_reader a @ of_reader b"
  by (induction a rule: of_reader.induct) simp_all

definition conn_inv :: "message list \<Rightarrow> conn \<Rightarrow> bool" where
  "conn_inv ms s \<longleftrightarrow> close_inv s \<and> chan_inv ms s"

lemma conn_inv_start: "conn_inv ms (start_conn ms)"
  by (simp add: conn_inv_def close_inv_def chan_inv_def start_conn_def in_flight_def)

lemma reader_step_chan: "reader_step s s' \<Longrightarrow> chan_inv ms s \<Longrightarrow> chan_inv ms s'"
  by (cases rule: reader_step.cases, assumption) (auto simp: chan_inv_def in_flight_def ReaderStop_def split: if_splits)

lemma writer_loop_step_chan: "writer_loop_step s s' \<Longrightarrow> chan_inv ms s \<Longrightarrow> chan_inv ms s'"
  by (cases rule: writer_loop_step.cases, assumption) (auto simp: chan_inv_def in_flight_def sender_exit_def split: if_splits)

lemma conn_step_chan: "conn_step s s' \<Longrightarrow> chan_inv ms s \<Longrightarrow> chan_inv ms s'"
  by (cases rule: conn_step.cases, assumption)
    (auto simp: chan_inv_def in_flight_def sender_exit_def WriterStop_def ReaderStop_def split: if_splits)

lemma peer_step_chan: "peer_step s s' \<Longrightarrow> chan_inv ms s \<Longrightarrow> chan_inv ms s'"
  by (cases rule: peer_step.cases, assumption) (auto simp: chan_inv_def in_flight_def split: if_splits)

lemma torrent_step_chan: "torrent_step s s' \<Longrightarrow> chan_inv ms s \<Longrightarrow> chan_inv ms s'"
  by (cases rule: torrent_step.cases, assumption) (auto simp: chan_inv_def in_flight_def PeerClose_def split: if_splits)

text \<open>Only the torrent calls \<open>Peer.Close\<close>, and no other step panics.\<close>

definition same_close :: "conn \<Rightarrow> conn \<Rightarrow> bool" where
  "same_close s s' \<longleftrightarrow> panicked s' = panicked s \<and> c_torrent s' = c_torrent s \<and> c_closes s' = c_closes s"

lemma same_close_inv: "same_close s s' \<Longrightarrow> close_inv s \<Longrightarrow> close_inv s'"
  by (simp add: same_close_def close_inv_def)

lemma reader_step_close: "reader_step s s' \<Longrightarrow> chan_inv ms s \<Longrightarrow> same_close s s'"
  by (cases rule: reader_step.cases, assumption) (simp_all add: chan_inv_def same_close_def ReaderStop_def)

lemma writer_loop_step_close: "writer_loop_step s s' \<Longrightarrow> same_close s s'"
  by (cases rule: writer_loop_step.cases, assumption) (simp_all add: same_close_def sender_exit_def)

lemma conn_step_close: "conn_step s s' \<Longrightarrow> chan_inv ms s \<Longrightarrow> same_close s s'"
  by (cases rule: conn_step.cases, assumption) (auto simp: chan_inv_def same_close_def sender_exit_def WriterStop_def ReaderStop_def)

lemma peer_step_close: "peer_step s s' \<Longrightarrow> same_close s s'"
  by (cases rule: peer_step.cases, assumption) (simp_all add: same_close_def)

lemma torrent_step_close: "torrent_step s s' \<Longrightarrow> chan_inv ms s \<Longrightarrow> close_inv s \<Longrightarrow> close_inv s'"
  by (cases rule: torrent_step.cases, assumption) (cases "c_torrent s"; auto simp: chan_inv_def close_inv_def PeerClose_def)+

lemmas step_chan = reader_step_chan writer_loop_step_chan conn_step_chan peer_step_chan torrent_step_chan
lemmas step_close = same_close_inv reader_step_close writer_loop_step_close conn_step_close peer_step_close torrent_step_close

lemma conn_inv_step:
  assumes "connection_step False s s'" "conn_inv ms s"
  shows "conn_inv ms s'"
  using assms(1)
  by cases (use assms(2) in \<open>auto simp: conn_inv_def intro: step_chan step_close\<close>)

lemma conn_inv_run: "connection_run False s s' \<Longrightarrow> conn_inv ms s \<Longrightarrow> conn_inv ms s'"
  unfolding connection_run_def by (induction rule: rtranclp_induct) (auto intro: conn_inv_step)

lemma conn_inv_reachable: "connection_run False (start_conn ms) s \<Longrightarrow> conn_inv ms s"
  using conn_inv_run conn_inv_start by blast

lemma connection_run_step: "connection_run api s s' \<Longrightarrow> connection_step api s' s'' \<Longrightarrow> connection_run api s s''"
  unfolding connection_run_def by (rule rtranclp.rtrancl_into_rtrancl)

lemma connection_run_refl [simp]: "connection_run api s s"
  by (simp add: connection_run_def)

inductive_cases connection_stepE: "connection_step api s s'"
inductive_cases conn_stepE: "conn_step s s'"
inductive_cases peer_stepE: "peer_step s s'"
inductive_cases torrent_stepE: "torrent_step s s'"
inductive_cases reader_stepE: "reader_step s s'"
inductive_cases writer_loop_stepE: "writer_loop_step s s'"

section \<open>What does not come back\<close>

text \<open>A peer that waits to be reported as snubbed stays so while the torrent does not close it.\<close>

definition snub_stuck :: "peer_message list \<Rightarrow> conn \<Rightarrow> bool" where
  "snub_stuck ds s \<longleftrightarrow> c_torrent s \<noteq> TOpen \<or> c_peer s = PSnubbed \<and> c_delivered s = ds \<and> \<not> peer_closeC s"

lemma snub_stuck_step:
  assumes "connection_step False s s'" "snub_stuck ds s"
  shows "snub_stuck ds s'"
  using assms
  by (elim connection_stepE)
    (auto simp: snub_stuck_def PeerClose_def ReaderStop_def WriterStop_def sender_exit_def split: if_splits
      elim!: conn_stepE peer_stepE torrent_stepE reader_stepE writer_loop_stepE)

lemma snub_stuck_run: "connection_run False s s' \<Longrightarrow> snub_stuck ds s \<Longrightarrow> snub_stuck ds s'"
  unfolding connection_run_def by (induction rule: rtranclp_induct) (auto intro: snub_stuck_step)

text \<open>A connection that hands on a message to a peer that has ended.\<close>

definition forward_stuck :: "peer_message \<Rightarrow> conn \<Rightarrow> bool" where
  "forward_stuck x s \<longleftrightarrow> c_peer s = PDone \<and> c_conn s = CForward x \<and> \<not> conn_closeC s \<and> c_writer s = WLoop \<and> \<not> writer_stopC s"

lemma forward_stuck_step:
  assumes "connection_step False s s'" "forward_stuck x s"
  shows "forward_stuck x s'"
  using assms
  by (elim connection_stepE)
    (auto simp: forward_stuck_def PeerClose_def ReaderStop_def WriterStop_def sender_exit_def split: if_splits
      elim!: conn_stepE peer_stepE torrent_stepE reader_stepE writer_loop_stepE)

lemma forward_stuck_run: "connection_run False s s' \<Longrightarrow> forward_stuck x s \<Longrightarrow> forward_stuck x s'"
  unfolding connection_run_def by (induction rule: rtranclp_induct) (auto intro: forward_stuck_step)

text \<open>
  If somebody did call \<open>Conn.Close\<close>: the connection stops the reader, whose deferred call stops it again.
\<close>

lemma conn_close_panics: "\<exists>s. connection_run True (start_conn ms) s \<and> panicked s"
proof -
  let ?s0 = "start_conn ms"
  let ?s1 = "?s0\<lparr>conn_closeC := True\<rparr>"
  let ?s2 = "?s1\<lparr>reader_stopC := True, c_conn := CStopWriter\<rparr>"
  let ?s3 = "?s2\<lparr>c_reader := RStopping\<rparr>"
  let ?s4 = "?s3\<lparr>c_reader := RClosing, panicked := True\<rparr>"
  have 1: "connection_step True ?s0 ?s1"
    using connection_step.intros(6) [of ?s0 True] by (simp add: ConnClose_def start_conn_def)
  have 2: "connection_step True ?s1 ?s2"
    by (rule connection_step.intros(3))
      (use conn_step.closed [of ?s1] in \<open>simp_all add: ReaderStop_def start_conn_def\<close>)
  have 3: "connection_step True ?s2 ?s3"
    by (rule connection_step.intros(1)) (use reader_step.fail [of ?s2] in \<open>simp_all add: start_conn_def\<close>)
  have 4: "connection_step True ?s3 ?s4"
    by (rule connection_step.intros(1)) (use reader_step.stop [of ?s3] in \<open>simp_all add: ReaderStop_def start_conn_def\<close>)
  have "connection_run True ?s0 ?s4"
    by (rule connection_run_step [OF connection_run_step [OF connection_run_step [OF connection_run_step [OF connection_run_refl 1] 2] 3] 4])
  then show ?thesis by (intro exI [of _ ?s4]) simp
qed

section \<open>The properties\<close>

text \<open>Some steps of a connection whose peer sends a choke message.\<close>

lemma choke_is_read:
  "connection_run False (start_conn [Choke]) ((start_conn [Choke])\<lparr>c_reader := RSending Choke, c_input := [], c_read := [Choke]\<rparr>)"
  by (rule connection_run_step [OF connection_run_refl])
    (use reader_step.read [of "start_conn [Choke]" Choke "[]"] in \<open>simp add: connection_step.simps start_conn_def\<close>)

lemma choke_is_taken:
  "connection_run False (start_conn [Choke])
     ((start_conn [Choke])\<lparr>c_conn := CForward (FromReader Choke), c_input := [], c_read := [Choke]\<rparr>)" (is "connection_run _ _ ?s")
proof (rule connection_run_step [OF choke_is_read], rule connection_step.intros(3))
  show "conn_step ((start_conn [Choke])\<lparr>c_reader := RSending Choke, c_input := [], c_read := [Choke]\<rparr>) ?s"
    using conn_step.from_reader [of "(start_conn [Choke])\<lparr>c_reader := RSending Choke, c_input := [], c_read := [Choke]\<rparr>" Choke]
    by (simp add: start_conn_def)
qed (simp add: start_conn_def)

lemma choke_is_closed:
  "connection_run False (start_conn [Choke])
     ((start_conn [Choke])\<lparr>c_conn := CForward (FromReader Choke), c_input := [], c_read := [Choke],
        c_torrent := TClosing, peer_closeC := True, stream_closed := True, c_closes := 1\<rparr>)" (is "connection_run _ _ ?s")
proof (rule connection_run_step [OF choke_is_taken], rule connection_step.intros(5))
  show "torrent_step ((start_conn [Choke])\<lparr>c_conn := CForward (FromReader Choke), c_input := [], c_read := [Choke]\<rparr>) ?s"
    using torrent_step.close [of "(start_conn [Choke])\<lparr>c_conn := CForward (FromReader Choke), c_input := [], c_read := [Choke]\<rparr>"]
    by (simp add: start_conn_def PeerClose_def)
qed (simp add: start_conn_def)

lemma choke_is_stuck:
  "connection_run False (start_conn [Choke])
     ((start_conn [Choke])\<lparr>c_conn := CForward (FromReader Choke), c_input := [], c_read := [Choke],
        c_torrent := TClosing, peer_closeC := True, stream_closed := True, c_closes := 1, c_peer := PDone\<rparr>)" (is "connection_run _ _ ?s")
proof (rule connection_run_step [OF choke_is_closed], rule connection_step.intros(4))
  let ?t = "(start_conn [Choke])\<lparr>c_conn := CForward (FromReader Choke), c_input := [], c_read := [Choke],
        c_torrent := TClosing, peer_closeC := True, stream_closed := True, c_closes := 1\<rparr>"
  show "peer_step ?t ?s"
    using peer_step.closed [of ?t] by (simp add: start_conn_def)
qed (simp add: start_conn_def)

lemma quiet_peer_snubbed:
  "connection_run False (start_conn ms) ((start_conn ms)\<lparr>c_peer := PSnubbed\<rparr>)"
  by (rule connection_run_step [OF connection_run_refl], rule connection_step.intros(4), simp add: start_conn_def,
      rule peer_step.snub_timer, simp add: start_conn_def)

lemma conn_inv_closeC: "conn_inv ms s \<Longrightarrow> c_torrent s = TOpen \<longleftrightarrow> \<not> peer_closeC s"
  by (simp add: conn_inv_def chan_inv_def)

lemma conn_inv_closing: "conn_inv ms s \<Longrightarrow> c_torrent s = TClosing \<Longrightarrow> \<not> panicked s"
  by (simp add: conn_inv_def close_inv_def)

lemma conn_inv_panicked: "conn_inv ms s \<Longrightarrow> panicked s \<longleftrightarrow> 1 < c_closes s"
  by (simp add: conn_inv_def close_inv_def)

lemma conn_inv_messages: "conn_inv ms s \<Longrightarrow> c_peer s \<noteq> PDone \<Longrightarrow> ms = of_reader (c_delivered s @ in_flight s) @ c_input s"
  by (auto simp: conn_inv_def chan_inv_def)

lemma closing_peer_ends:
  assumes "conn_inv ms s" "c_torrent s = TClosing"
  shows "\<exists>s'. connection_step False s s' \<and> (c_peer s \<noteq> PDone \<and> c_peer s' = PDone \<or> c_torrent s' = TClosed)"
proof (cases "c_peer s = PDone")
  case True
  have "torrent_step s (s\<lparr>c_torrent := TClosed\<rparr>)" by (rule torrent_step.close_returns [OF assms(2) True])
  then have "connection_step False s (s\<lparr>c_torrent := TClosed\<rparr>)"
    by (rule connection_step.intros(5) [OF conn_inv_closing [OF assms]])
  then show ?thesis by (intro exI [of _ "s\<lparr>c_torrent := TClosed\<rparr>"]) simp
next
  case False
  have "peer_step s (s\<lparr>c_peer := PDone\<rparr>)"
    by (rule peer_step.closed [OF False]) (use conn_inv_closeC [OF assms(1)] assms(2) in simp)
  then have "connection_step False s (s\<lparr>c_peer := PDone\<rparr>)"
    by (rule connection_step.intros(4) [OF conn_inv_closing [OF assms]])
  then show ?thesis by (intro exI [of _ "s\<lparr>c_peer := PDone\<rparr>"]) (simp add: False)
qed

lemma closing_again_panics:
  assumes "conn_inv ms s" "c_torrent s = TClosed" "\<not> panicked s"
  shows "connection_step False s (PeerClose s) \<and> panicked (PeerClose s)"
  using assms connection_step.intros(5) [OF assms(3) torrent_step.close] conn_inv_closeC [OF assms(1)] by (simp add: PeerClose_def)

lemma delivered_in_order:
  assumes "conn_inv ms s"
  shows "\<exists>r. ms = of_reader (c_delivered s) @ r"
proof -
  have "\<exists>r. c_read s = of_reader (c_delivered s) @ r"
    using assms by (auto simp: conn_inv_def chan_inv_def split: if_splits)
  then show ?thesis using assms unfolding conn_inv_def chan_inv_def by (metis append.assoc)
qed

text \<open>
  C14: The channels of a connection.  Whatever the order in which its goroutines run, no channel is closed
  twice but the one of \<open>Peer.Close\<close>: the connection panics exactly when the torrent calls \<open>Peer.Close\<close> a second time, which it
  can do as soon as the first call has returned (the run of \<open>corrupt_piece_of_closed_peer_panics\<close> does).  The torrent receives the messages that the reader took from the stream in their order and none twice; while
  the peer is connected none is lost; and when the torrent closes the peer, the step by which \<open>Peer.Run\<close> ends is
  possible whatever it was doing, so \<open>Close\<close> is not left waiting.
\<close>

theorem connection_is_safe:
  assumes "connection_run False (start_conn (fst (Run c bs))) s"
  shows "(panicked s \<longleftrightarrow> 1 < c_closes s) \<and>
     (c_torrent s = TClosed \<and> \<not> panicked s \<longrightarrow> connection_step False s (PeerClose s) \<and> panicked (PeerClose s)) \<and> (\<exists>r. fst (Run c bs) = of_reader (c_delivered s) @ r) \<and>
     (c_peer s \<noteq> PDone \<longrightarrow> fst (Run c bs) = of_reader (c_delivered s @ in_flight s) @ c_input s) \<and>
     (c_torrent s = TClosing \<longrightarrow>
        (\<exists>s'. connection_step False s s' \<and> (c_peer s \<noteq> PDone \<and> c_peer s' = PDone \<or> c_torrent s' = TClosed)))"
proof -
  have inv: "conn_inv (fst (Run c bs)) s" by (rule conn_inv_reachable [OF assms])
  then show ?thesis
    using delivered_in_order [OF inv] closing_peer_ends [OF inv] closing_again_panics [OF inv] conn_inv_panicked [OF inv] conn_inv_messages [OF inv]
    by simp
qed

lemma Run_choke: "fst (Run no_codec (frame 0 (message_Read no_codec Choke))) = [Choke]"
  using Run_frames [of "[Choke]" no_codec] by (simp add: sendable_def)

theorem connection_is_safe_witness:
  "\<exists>s. connection_run False (start_conn [Choke]) s \<and> c_torrent s = TClosing \<and> c_peer s \<noteq> PDone \<and>
     (\<exists>s'. connection_step False s s' \<and> c_peer s' = PDone)"
proof -
  let ?s = "(start_conn [Choke])\<lparr>c_conn := CForward (FromReader Choke), c_input := [], c_read := [Choke],
        c_torrent := TClosing, peer_closeC := True, stream_closed := True, c_closes := 1\<rparr>"
  have "connection_run False (start_conn (fst (Run no_codec (frame 0 (message_Read no_codec Choke))))) ?s"
    unfolding Run_choke by (rule choke_is_closed)
  from connection_is_safe [OF this] obtain s'
    where "connection_step False ?s s'" "c_peer ?s \<noteq> PDone \<and> c_peer s' = PDone \<or> c_torrent s' = TClosed"
    by auto
  moreover have "c_torrent s' \<noteq> TClosed"
    using calculation(1)
    by (elim connection_stepE) (auto simp: start_conn_def PeerClose_def ReaderStop_def WriterStop_def sender_exit_def split: if_splits
      elim!: conn_stepE peer_stepE torrent_stepE reader_stepE writer_loop_stepE)
  ultimately show ?thesis using choke_is_closed by (intro exI [of _ ?s]) (auto simp: start_conn_def)
qed

text \<open>
  C15: A snubbed peer hangs.  Once the snub timer of a peer has fired between two messages, \<open>Peer.Run\<close>
  waits to report it, and nobody receives the report: until the torrent closes the peer, no message, no uploaded block
  and not even the end of the connection reaches the torrent.
\<close>

theorem snubbed_peer_hangs:
  assumes "connection_run False (start_conn ms) s" "c_peer s = PSnubbed" "connection_run False s s'" "c_torrent s' = TOpen"
  shows "c_peer s' = PSnubbed \<and> c_delivered s' = c_delivered s"
proof -
  have "c_torrent s = TOpen \<longrightarrow> \<not> peer_closeC s"
    using conn_inv_closeC [OF conn_inv_reachable [OF assms(1)]] by simp
  then have "snub_stuck (c_delivered s) s" using assms(2) by (auto simp: snub_stuck_def)
  from snub_stuck_run [OF assms(3) this] show ?thesis using assms(4) by (simp add: snub_stuck_def)
qed

theorem snubbed_peer_hangs_witness:
  "{s'. connection_run False ((start_conn [Choke])\<lparr>c_peer := PSnubbed\<rparr>) s' \<and> c_torrent s' = TOpen}
     \<subseteq> {s'. c_peer s' = PSnubbed \<and> c_delivered s' = []}"
  using snubbed_peer_hangs [OF quiet_peer_snubbed [of "[Choke]"]] by (auto simp: start_conn_def)

text \<open>
  C16: A leak.  When a peer has ended while its connection hands on a message, the connection waits for ever and
  so does its writer: \<open>Peer.Close\<close> closes a channel of the peer, and the \<open>closeC\<close> of the connection, the only other
  way out, belongs to \<open>Conn.Close\<close>, which is shadowed.
\<close>

theorem closed_connection_leaks:
  assumes "connection_run False (start_conn ms) s" "c_peer s = PDone" "c_conn s = CForward x" "connection_run False s s'"
  shows "c_conn s' = CForward x \<and> c_writer s' = WLoop"
proof -
  have "forward_stuck x s"
    using conn_inv_reachable [OF assms(1)] assms(2,3) by (cases "c_writer s") (auto simp: conn_inv_def chan_inv_def forward_stuck_def)
  from forward_stuck_run [OF assms(4) this] show ?thesis by (simp add: forward_stuck_def)
qed

theorem closed_connection_leaks_witness:
  "{s'. connection_run False ((start_conn [Choke])\<lparr>c_conn := CForward (FromReader Choke), c_input := [], c_read := [Choke],
        c_torrent := TClosing, peer_closeC := True, stream_closed := True, c_closes := 1, c_peer := PDone\<rparr>) s'}
     \<subseteq> {s'. c_conn s' = CForward (FromReader Choke) \<and> c_writer s' = WLoop}"
  using closed_connection_leaks [OF choke_is_stuck] by (auto simp: start_conn_def)

end
