(* ===== verification/TorrentInv.thy ===== *)
theory TorrentInv
  imports TorrentHandlers
begin

text \<open>
  The invariant of the torrent's event loop.  \<open>books\<close> relates the map of piece downloads to the peers'
  \<open>Downloading\<close> flags and to the memory taken from \<open>session.ram\<close>, and the map of connected peers to the
  peers that are open; \<open>static_ok\<close> is about the flags of the life cycle.  Operations that touch none of
  this are recognised by \<open>frame\<close>.
\<close>

section \<open>The invariant\<close>

definition keys :: "'t torrent \<Rightarrow> ptr list" where
  "keys t = map fst (pieceDownloaders t)"

definition ram_ok :: "'t env \<Rightarrow> 't torrent \<Rightarrow> bool" where
  "ram_ok env t \<longleftrightarrow> (has_ram (cfg env) \<longrightarrow>
     (case t_info t of None \<Rightarrow> ramHeld t = 0 \<and> pieceDownloaders t = []
      | Some i \<Rightarrow> ramHeld t = int (unat (PieceLength i)) * int (length (pieceDownloaders t))))"

definition dl_ok :: "'t torrent \<Rightarrow> bool" where
  "dl_ok t \<longleftrightarrow> distinct (keys t) \<and> (\<forall>(pe, pd)\<in>set (pieceDownloaders t). pd_Peer pd = pe \<and> pe < t_nextPeer t) \<and>
     (\<forall>pe. Downloading (t_heap t pe) \<longleftrightarrow> pe \<in> set (keys t)) \<and> (t_info t \<noteq> None \<longrightarrow> infoDownloaders t = []) \<and>
     (\<forall>(pe, d)\<in>set (infoDownloaders t). id_Peer d = pe \<and> pe < t_nextPeer t)"

definition conn_ok :: "'t torrent \<Rightarrow> bool" where
  "conn_ok t \<longleftrightarrow> distinct (map fst (connectedPeers t)) \<and>
     (\<forall>(k, pe)\<in>set (connectedPeers t). pe_ID (t_heap t pe) = k \<and> pe < t_nextPeer t) \<and>
     (\<forall>pe<t_nextPeer t. \<not> closed (t_heap t pe) \<longleftrightarrow> (pe_ID (t_heap t pe), pe) \<in> set (connectedPeers t))"

definition books :: "'t env \<Rightarrow> 't torrent \<Rightarrow> bool" where
  "books env t \<longleftrightarrow> dl_ok t \<and> ram_ok env t \<and> conn_ok t"

text \<open>The flags that the life cycle is made of; \<open>t.peers\<close> is never filled and no event sets \<open>doVerify\<close>.\<close>

definition static :: "'t torrent \<Rightarrow> Info option \<times> bool \<times> bool \<times> bool \<times> bool \<times> bool \<times> ptr list \<times> nat option \<times> nat option \<times> bool \<times> bool \<times> bool" where
  "static t = (t_info t, errC t, stopping t, stopC_closed t, completed t, completeC_closed t, peers t, t_allocator t,
     t_verifier t, t_pieces t = None, t_picker t = None, doVerify t)"

definition static_ok :: "'t torrent \<Rightarrow> bool" where
  "static_ok t \<longleftrightarrow> peers t = [] \<and> (completed t \<longleftrightarrow> completeC_closed t) \<and> (errC t \<longrightarrow> \<not> stopC_closed t \<and> \<not> stopping t) \<and> \<not> doVerify t"

definition active :: "'t torrent \<Rightarrow> bool" where
  "active t \<longleftrightarrow> status t = Downloading' \<and> t_pieces t \<noteq> None \<and> t_picker t \<noteq> None"

definition tinv :: "'t env \<Rightarrow> 't torrent \<Rightarrow> bool" where
  "tinv env t \<longleftrightarrow> books env t \<and> static_ok t \<and> (pieceDownloaders t \<noteq> [] \<longrightarrow> active t)"

lemma static_simps:
  assumes "static t' = static t"
  shows "t_info t' = t_info t" "errC t' = errC t" "stopping t' = stopping t" "stopC_closed t' = stopC_closed t"
    "completed t' = completed t" "completeC_closed t' = completeC_closed t" "peers t' = peers t"
    "t_allocator t' = t_allocator t" "t_verifier t' = t_verifier t"
    "t_pieces t' = None \<longleftrightarrow> t_pieces t = None" "t_picker t' = None \<longleftrightarrow> t_picker t = None"
    "status t' = status t" "active t' = active t" "static_ok t' = static_ok t" "doVerify t' = doVerify t"
  using assms by (simp_all add: static_def status_def active_def static_ok_def)

text \<open>What an operation leaves alone.\<close>

definition core :: "'t torrent \<Rightarrow>
    (ptr \<Rightarrow> bool \<times> string \<times> bool) \<times> (ptr \<times> ptr) list \<times> int \<times> (ptr \<times> ptr) list \<times> (string \<times> ptr) list \<times> ptr" where
  "core t = ((\<lambda>pe. (Downloading (t_heap t pe), pe_ID (t_heap t pe), closed (t_heap t pe))),
     map (\<lambda>(k, pd). (k, pd_Peer pd)) (pieceDownloaders t), ramHeld t,
     map (\<lambda>(k, d). (k, id_Peer d)) (infoDownloaders t), connectedPeers t, t_nextPeer t)"

definition frame :: "'t torrent \<Rightarrow> 't torrent \<Rightarrow> bool" where
  "frame t t' \<longleftrightarrow> core t' = core t \<and> static t' = static t"

lemma frame_refl [simp]: "frame t t"
  by (simp add: frame_def)

lemma frame_trans: "frame t t1 \<Longrightarrow> frame t1 t2 \<Longrightarrow> frame t t2"
  by (simp add: frame_def)

lemma keys_core: "keys t = map fst (map (\<lambda>(k, pd). (k, pd_Peer pd)) (pieceDownloaders t))"
  by (simp add: keys_def comp_def split_beta)

lemma downloaders_conv:
  "(\<forall>(pe, pd)\<in>set xs. pd_Peer pd = pe \<and> pe < n) \<longleftrightarrow>
    (\<forall>(k, q)\<in>set (map (\<lambda>(k, pd). (k, pd_Peer pd)) xs). q = k \<and> k < n)"
  by (auto simp: split_beta)

lemma info_downloaders_conv:
  "(\<forall>(pe, d)\<in>set xs. id_Peer d = pe \<and> pe < n) \<longleftrightarrow>
    (\<forall>(k, q)\<in>set (map (\<lambda>(k, d). (k, id_Peer d)) xs). q = k \<and> k < n)"
  by (auto simp: split_beta)

lemma books_core:
  assumes c: "core t' = core t" and inf: "t_info t' = t_info t" and "books env t"
  shows "books env t'" and "keys t' = keys t"
proof -
  show k: "keys t' = keys t" using c unfolding keys_core core_def by simp
  have m: "map (\<lambda>(k, pd). (k, pd_Peer pd)) (pieceDownloaders t') = map (\<lambda>(k, pd). (k, pd_Peer pd)) (pieceDownloaders t)"
    using c by (simp add: core_def)
  have "(\<forall>(pe, pd)\<in>set (pieceDownloaders t'). pd_Peer pd = pe \<and> pe < n) \<longleftrightarrow>
      (\<forall>(pe, pd)\<in>set (pieceDownloaders t). pd_Peer pd = pe \<and> pe < n)" for n
    by (simp only: downloaders_conv m)
  moreover have "\<And>pe. Downloading (t_heap t' pe) = Downloading (t_heap t pe)" "\<And>pe. pe_ID (t_heap t' pe) = pe_ID (t_heap t pe)"
    "\<And>pe. closed (t_heap t' pe) = closed (t_heap t pe)"
    using c by (auto simp: core_def fun_eq_iff)
  moreover have i: "map (\<lambda>(k, d). (k, id_Peer d)) (infoDownloaders t') = map (\<lambda>(k, d). (k, id_Peer d)) (infoDownloaders t)"
    using c by (simp add: core_def)
  have "(\<forall>(pe, d)\<in>set (infoDownloaders t'). id_Peer d = pe \<and> pe < n) \<longleftrightarrow>
      (\<forall>(pe, d)\<in>set (infoDownloaders t). id_Peer d = pe \<and> pe < n)" for n
    by (simp only: info_downloaders_conv i)
  moreover have "infoDownloaders t' = [] \<longleftrightarrow> infoDownloaders t = []" using i by (metis map_is_Nil_conv)
  moreover have "ramHeld t' = ramHeld t" "connectedPeers t' = connectedPeers t" "t_nextPeer t' = t_nextPeer t" using c by (auto simp: core_def)
  moreover from m have len: "length (pieceDownloaders t') = length (pieceDownloaders t)" by (rule map_eq_imp_length_eq)
  moreover from len have "pieceDownloaders t' = [] \<longleftrightarrow> pieceDownloaders t = []" by (metis length_0_conv)
  ultimately show "books env t'"
    using assms(3) k inf by (simp add: books_def dl_ok_def conn_ok_def ram_ok_def split: option.splits)
qed

lemma frame_books:
  assumes "frame t t'" and "books env t"
  shows "books env t'" and "keys t' = keys t" and "static t' = static t"
proof -
  have c: "core t' = core t" and s: "static t' = static t" using assms(1) by (simp_all add: frame_def)
  note b = books_core [OF c static_simps(1) [OF s] assms(2)]
  show "books env t'" and "keys t' = keys t" and "static t' = static t" by fact+
qed

text \<open>\<open>shrinks\<close>: downloads may end, none begins, and the flags stay.\<close>

definition shrinks :: "'t torrent \<Rightarrow> 't torrent \<Rightarrow> bool" where
  "shrinks t t' \<longleftrightarrow> static t' = static t \<and> set (keys t') \<subseteq> set (keys t)"

lemma shrinks_refl [simp]: "shrinks t t"
  by (simp add: shrinks_def)

lemma shrinks_trans: "shrinks t t1 \<Longrightarrow> shrinks t1 t2 \<Longrightarrow> shrinks t t2"
  by (auto simp: shrinks_def)

lemma keys_Nil: "keys t = [] \<longleftrightarrow> pieceDownloaders t = []"
  by (simp add: keys_def)

lemma shrinks_tinv: "tinv env t \<Longrightarrow> books env t' \<Longrightarrow> shrinks t t' \<Longrightarrow> tinv env t'"
  unfolding tinv_def shrinks_def using static_simps [of t' t] keys_Nil by (metis empty_set set_empty subset_empty)

lemma frame_shrinks: "frame t t' \<Longrightarrow> books env t \<Longrightarrow> books env t' \<and> shrinks t t'"
  using frame_books [of t t' env] by (simp add: shrinks_def)

lemma frame_tinv: "frame t t' \<Longrightarrow> tinv env t \<Longrightarrow> tinv env t'"
  using frame_shrinks shrinks_tinv unfolding tinv_def by blast

named_theorems frames \<open>operations that leave the books alone\<close>

lemma frame_at_peer [frames]:
  "(\<And>p. Downloading (f p) = Downloading p \<and> pe_ID (f p) = pe_ID p \<and> closed (f p) = closed p) \<Longrightarrow> frame t (at_peer pe f t)"
  by (simp add: frame_def core_def static_def at_peer_def fun_eq_iff)

lemma send_ID [simp]: "pe_ID (send x p) = pe_ID p"
  by (simp add: send_def)

lemma frame_SendMessage [frames]: "frame t (SendMessage_to m pe t)"
  unfolding SendMessage_to_def by (rule frame_at_peer) simp

lemma frame_send [frames]: "frame t (at_peer pe (send x) t)"
  by (rule frame_at_peer) simp

lemma frame_tick [frames]: "frame t (tick t)"
  by (simp add: frame_def core_def static_def tick_def)

lemma frame_heap:
  "(\<And>p. Downloading (h p) = Downloading (t_heap t p) \<and> pe_ID (h p) = pe_ID (t_heap t p) \<and> closed (h p) = closed (t_heap t p)) \<Longrightarrow>
    frame t (t\<lparr>t_heap := h\<rparr>)"
  by (simp add: frame_def core_def static_def fun_eq_iff)

lemma frame_other [frames]:
  "frame t (t\<lparr>addrList := al\<rparr>)" "frame t (t\<lparr>t_choices := cs\<rparr>)" "frame t (t\<lparr>t_unchoker := u\<rparr>)"
  "frame t (t\<lparr>writers := w\<rparr>)" "frame t (t\<lparr>suspended := b\<rparr>)" "frame t (t\<lparr>lastError := e\<rparr>)" "frame t (t\<lparr>t_bitfield := bf\<rparr>)"
  "frame t (t\<lparr>bytesWasted := n\<rparr>)" "frame t (t\<lparr>bytesDownloaded := n\<rparr>)" "frame t (t\<lparr>bytesUploaded := n\<rparr>)"
  "frame t (t\<lparr>externalIP := ip\<rparr>)" "frame t (t\<lparr>pieceDownloadersChoked := c\<rparr>)" "frame t (t\<lparr>t_files := fs\<rparr>)"
  "frame t (t\<lparr>bytesAllocated := n\<rparr>)" "frame t (t\<lparr>checkedPieces := m\<rparr>)"
  by (simp_all add: frame_def core_def static_def)

lemma frame_picker: "t_picker t \<noteq> None \<Longrightarrow> frame t (t\<lparr>t_picker := Some p\<rparr>)"
  by (simp add: frame_def core_def static_def)

lemma frame_pieces: "t_pieces t \<noteq> None \<Longrightarrow> frame t (t\<lparr>t_pieces := Some tps\<rparr>)"
  by (simp add: frame_def core_def static_def)

lemma map_update_same:
  "map_of xs k = Some x \<Longrightarrow> f y = f x \<Longrightarrow> map (\<lambda>(k, x). (k, f x)) (AList.update k y xs) = map (\<lambda>(k, x). (k, f x)) xs"
  by (induction xs) auto

lemma frame_update_pd:
  "map_of (pieceDownloaders t) pe = Some pd \<Longrightarrow> pd_Peer pd' = pd_Peer pd \<Longrightarrow>
    frame t (t\<lparr>pieceDownloaders := AList.update pe pd' (pieceDownloaders t)\<rparr>)"
  by (simp add: frame_def core_def static_def map_update_same)

section \<open>What the parts do to the heap\<close>

definition same_flags :: "heap \<Rightarrow> heap \<Rightarrow> bool" where
  "same_flags h h' \<longleftrightarrow> (\<forall>p. Downloading (h' p) = Downloading (h p) \<and> pe_ID (h' p) = pe_ID (h p) \<and> closed (h' p) = closed (h p))"

lemma same_flags_refl [simp]: "same_flags h h"
  by (simp add: same_flags_def)

lemma same_flags_trans: "same_flags h h1 \<Longrightarrow> same_flags h1 h2 \<Longrightarrow> same_flags h h2"
  by (simp add: same_flags_def)

lemma same_flags_upd:
  "Downloading p = Downloading (h pe) \<Longrightarrow> pe_ID p = pe_ID (h pe) \<Longrightarrow> closed p = closed (h pe) \<Longrightarrow> same_flags h (h(pe := p))"
  by (simp add: same_flags_def)

lemma frame_same_flags: "same_flags (t_heap t) h \<Longrightarrow> frame t (t\<lparr>t_heap := h\<rparr>)"
  by (rule frame_heap) (simp add: same_flags_def)

lemma request_loop_frame:
  "request_loop pi q is d h = Some (d', h') \<Longrightarrow> same_flags h h' \<and> pd_Peer d' = pd_Peer d \<and> pd_Piece d' = pd_Piece d"
proof (induction "is" arbitrary: d h)
  case (Cons i "is")
  show ?case
  proof (cases "int (length (pending d)) \<ge> q")
    case False
    then obtain b where b: "GetBlock pi i = Some b"
      using Cons.prems by (auto split: Option.bind_splits)
    let ?h = "if i \<notin> set (pd_done d)
      then h(pd_Peer d := RequestPiece (Index pi) (Begin b) (b_Length b) (h (pd_Peer d))) else h"
    have "same_flags h ?h" by (auto intro!: same_flags_upd simp: RequestPiece_def)
    moreover have "request_loop pi q is (d\<lparr>remaining := tl (remaining d), pending := List.insert i (pending d)\<rparr>) ?h = Some (d', h')"
      using Cons.prems False b by (simp add: Let_def)
    from Cons.IH [OF this] have "same_flags ?h h' \<and> pd_Peer d' = pd_Peer d \<and> pd_Piece d' = pd_Piece d" by simp
    ultimately show ?thesis using same_flags_trans by blast
  qed (use Cons.prems in simp)
qed simp

lemma cancel_loop_frame: "cancel_loop pi pe is h = Some h' \<Longrightarrow> same_flags h h'"
proof (induction "is" arbitrary: h)
  case (Cons i "is")
  then obtain b :: Block where "cancel_loop pi pe is (h(pe := CancelPiece (Index pi) (Begin b) (b_Length b) (h pe))) = Some h'"
    by (cases "GetBlock pi i") auto
  moreover have "same_flags h (h(pe := CancelPiece (Index pi) (Begin b) (b_Length b) (h pe)))"
    by (rule same_flags_upd) (simp_all add: CancelPiece_def)
  ultimately show ?case using Cons.IH same_flags_trans by blast
qed simp

lemma PickFor_frame:
  "PickFor cs tps p h pe = Some (pi, af, p', h', cs') \<Longrightarrow> same_flags h h' \<and> (pi \<noteq> None \<longrightarrow> \<not> Downloading (h pe))"
  by (auto simp: PickFor_def findPiece_def Let_def split: prod.splits option.splits if_splits Option.bind_splits
      intro!: same_flags_upd)

lemma id_request_frame:
  assumes "id_request_loop q h d = Some y"
  shows "same_flags h (snd y) \<and> id_Peer (fst y) = id_Peer d"
proof (rule id_request_loop.raw_induct [where P = "\<lambda>q h d y. same_flags h (snd y) \<and> id_Peer (fst y) = id_Peer d", OF _ assms],
    goal_cases)
  case (1 f q h d y)
  show ?case
  proof (cases "nextBlockIndex d < of_nat (length (blocks d)) \<and> id_pending d < q")
    case False
    then show ?thesis using 1(2) by auto
  next
    case True
    then obtain p b where p: "RequestMetadataPiece (nextBlockIndex d) (h (id_Peer d)) = Some p" and
      f: "f q (h(id_Peer d := p)) (d\<lparr>blocks := (blocks d)[unat (nextBlockIndex d) := b\<lparr>requested := True\<rparr>],
         id_pending := id_pending d + 1, nextBlockIndex := nextBlockIndex d + 1\<rparr>) = Some y"
      using 1(2) by (auto split: Option.bind_splits)
    have "same_flags h (h(id_Peer d := p))" using p by (auto simp: RequestMetadataPiece_def intro!: same_flags_upd)
    then show ?thesis using 1(1) [OF f] same_flags_trans by auto
  qed
qed

lemma Rejected_Peer [simp]: "pd_Peer (Rejected b d) = pd_Peer d"
  by (simp add: Rejected_def)

lemma GotBlock_frame: "GotBlock b data d = Some (d', e) \<Longrightarrow> pd_Peer d' = pd_Peer d \<and> pd_Piece d' = pd_Piece d"
  by (auto simp: GotBlock_def Let_def split: if_splits Option.bind_splits)

lemma pd_Choked_frame: "pd_Peer (fst (pd_Choked cs h d)) = pd_Peer d"
  by (simp add: pd_Choked_def split_beta)

lemma FastUnchoke_frame: "same_flags h (fst (FastUnchoke pe (h, u)))"
  by (auto simp: FastUnchoke_def unchokePeer_def optimisticUnchokePeer_def SetOptimistic_def UnchokePeer_def
      same_flags_def Let_def split: prod.splits)

section \<open>Closing\<close>

lemma length_delete: "distinct (map fst xs) \<Longrightarrow> k \<in> fst ` set xs \<Longrightarrow> length (AList.delete k xs) = length xs - 1"
proof -
  assume d: "distinct (map fst xs)" and k: "k \<in> fst ` set xs"
  have "map fst (AList.delete k xs) = remove1 k (map fst xs)"
    by (simp add: AList.delete_keys distinct_remove1_removeAll [OF d])
  then have "length (AList.delete k xs) = length (remove1 k (map fst xs))" by (metis length_map)
  then show ?thesis using k by (simp add: length_remove1)
qed

lemma update_append: "k \<notin> fst ` set xs \<Longrightarrow> AList.update k v xs = xs @ [(k, v)]"
  by (induction xs) auto

lemma set_keys_delete: "fst ` set (AList.delete k xs) = fst ` set xs - {k}"
  by (auto simp: AList.delete_eq)

lemma set_delete_sub: "set (AList.delete k xs) \<subseteq> set xs"
  by (auto simp: AList.delete_eq)

lemma in_keys: "map_of (pieceDownloaders t) pe \<noteq> None \<longleftrightarrow> pe \<in> set (keys t)"
  by (simp add: keys_def map_of_eq_None_iff)

lemma closePieceDownloader_fields:
  assumes "closePieceDownloader env pd t = Some t'" and "map_of (pieceDownloaders t) (pd_Peer pd) = Some pd0"
  shows "pieceDownloaders t' = AList.delete (pd_Peer pd) (pieceDownloaders t)"
    and "t_heap t' = (t_heap t)(pd_Peer pd := (t_heap t (pd_Peer pd))\<lparr>Downloading := False\<rparr>)"
    and "static t' = static t" and "connectedPeers t' = connectedPeers t" and "t_nextPeer t' = t_nextPeer t"
    and "infoDownloaders t' = infoDownloaders t" and "t_pieces t' = t_pieces t" and "t_bitfield t' = t_bitfield t"
    and "has_ram (cfg env) \<Longrightarrow> \<exists>i. t_info t = Some i \<and> ramHeld t' = ramHeld t - int (unat (PieceLength i))"
  using assms
  by (auto simp: closePieceDownloader_def ram_Release_def at_peer_def Let_def static_def
      split: if_splits option.splits Option.bind_splits)

lemma closePieceDownloader_dl:
  assumes "closePieceDownloader env pd t = Some t'" and dl: "dl_ok t" and rm: "ram_ok env t"
  shows "dl_ok t' \<and> ram_ok env t'" and "static t' = static t" and "set (keys t') = set (keys t) - {pd_Peer pd}"
    and "connectedPeers t' = connectedPeers t" and "t_nextPeer t' = t_nextPeer t" and "infoDownloaders t' = infoDownloaders t"
    and "\<And>p. closed (t_heap t' p) = closed (t_heap t p) \<and> pe_ID (t_heap t' p) = pe_ID (t_heap t p)"
    and "t_pieces t' = t_pieces t" and "t_bitfield t' = t_bitfield t"
proof -
  let ?pe = "pd_Peer pd"
  have "(dl_ok t' \<and> ram_ok env t') \<and> static t' = static t \<and> set (keys t') = set (keys t) - {?pe} \<and>
    connectedPeers t' = connectedPeers t \<and> t_nextPeer t' = t_nextPeer t \<and> infoDownloaders t' = infoDownloaders t \<and>
    (\<forall>p. closed (t_heap t' p) = closed (t_heap t p) \<and> pe_ID (t_heap t' p) = pe_ID (t_heap t p)) \<and>
    t_pieces t' = t_pieces t \<and> t_bitfield t' = t_bitfield t"
  proof (cases "map_of (pieceDownloaders t) ?pe")
    case None
    then have "t' = t" "?pe \<notin> set (keys t)" using assms(1) in_keys [of t ?pe] by (auto simp: closePieceDownloader_def)
    then show ?thesis using dl rm by simp
  next
    case (Some pd0)
    note f = closePieceDownloader_fields [OF assms(1) Some]
    have k: "set (keys t') = set (keys t) - {?pe}" by (simp add: keys_def f(1) set_keys_delete)
    have d: "distinct (keys t)" using dl by (simp add: dl_ok_def)
    have "?pe \<in> fst ` set (pieceDownloaders t)" using Some in_keys [of t ?pe] by (simp add: keys_def)
    then have len: "length (pieceDownloaders t') = length (pieceDownloaders t) - 1" "length (pieceDownloaders t) > 0"
      using length_delete [of "pieceDownloaders t" ?pe] d f(1) by (auto simp: keys_def)
    have d': "distinct (keys t')" using d by (simp add: keys_def f(1) distinct_delete)
    have sub: "set (pieceDownloaders t') \<subseteq> set (pieceDownloaders t)" by (simp add: f(1) set_delete_sub)
    have "dl_ok t'" unfolding dl_ok_def
    proof (intro conjI)
      show "\<forall>(pe, pd)\<in>set (pieceDownloaders t'). pd_Peer pd = pe \<and> pe < t_nextPeer t'"
        using dl sub f(5) unfolding dl_ok_def by (auto simp: split_beta)
      show "\<forall>pe. Downloading (t_heap t' pe) = (pe \<in> set (keys t'))"
        using dl k unfolding dl_ok_def by (simp add: f(2))
      show "t_info t' \<noteq> None \<longrightarrow> infoDownloaders t' = []"
        using dl static_simps(1) [OF f(3)] f(6) by (simp add: dl_ok_def)
      show "\<forall>(pe, d)\<in>set (infoDownloaders t'). id_Peer d = pe \<and> pe < t_nextPeer t'"
        using dl f(5,6) by (simp add: dl_ok_def)
    qed (rule d')
    moreover have "ram_ok env t'" unfolding ram_ok_def
    proof
      assume h: "has_ram (cfg env)"
      from f(9) [OF h] obtain i where i: "t_info t = Some i" "ramHeld t' = ramHeld t - int (unat (PieceLength i))" by blast
      then have "ramHeld t = int (unat (PieceLength i)) * int (length (pieceDownloaders t))" using rm h by (simp add: ram_ok_def)
      moreover have "int (length (pieceDownloaders t')) = int (length (pieceDownloaders t)) - 1" using len by linarith
      ultimately show "case t_info t' of None \<Rightarrow> ramHeld t' = 0 \<and> pieceDownloaders t' = []
          | Some i \<Rightarrow> ramHeld t' = int (unat (PieceLength i)) * int (length (pieceDownloaders t'))"
        using i static_simps(1) [OF f(3)] by (simp add: right_diff_distrib)
    qed
    ultimately show ?thesis using k f by simp
  qed
  then show "dl_ok t' \<and> ram_ok env t'" and "static t' = static t" and "set (keys t') = set (keys t) - {?pe}"
    and "connectedPeers t' = connectedPeers t" and "t_nextPeer t' = t_nextPeer t" and "infoDownloaders t' = infoDownloaders t"
    and "\<And>p. closed (t_heap t' p) = closed (t_heap t p) \<and> pe_ID (t_heap t' p) = pe_ID (t_heap t p)"
    and "t_pieces t' = t_pieces t" and "t_bitfield t' = t_bitfield t"
    by blast+
qed

lemma conn_ok_cong:
  "connectedPeers t' = connectedPeers t \<Longrightarrow> t_nextPeer t' = t_nextPeer t \<Longrightarrow>
    (\<And>p. closed (t_heap t' p) = closed (t_heap t p) \<and> pe_ID (t_heap t' p) = pe_ID (t_heap t p)) \<Longrightarrow> conn_ok t' = conn_ok t"
  by (simp add: conn_ok_def)

lemma closePieceDownloader_books:
  assumes "closePieceDownloader env pd t = Some t'" and "books env t"
  shows "books env t'" and "static t' = static t" and "set (keys t') = set (keys t) - {pd_Peer pd}"
    and "\<And>p. closed (t_heap t' p) = closed (t_heap t p) \<and> pe_ID (t_heap t' p) = pe_ID (t_heap t p)" and "t_nextPeer t' = t_nextPeer t"
    and "connectedPeers t' = connectedPeers t" and "t_pieces t' = t_pieces t" and "t_bitfield t' = t_bitfield t"
proof -
  have "dl_ok t" "ram_ok env t" "conn_ok t" using assms(2) by (simp_all add: books_def)
  note d = closePieceDownloader_dl [OF assms(1) this(1,2)] and c = this(3)
  show "books env t'" using d(1) c conn_ok_cong [OF d(4,5,7)] by (simp add: books_def)
  show "static t' = static t" and "set (keys t') = set (keys t) - {pd_Peer pd}"
    and "\<And>p. closed (t_heap t' p) = closed (t_heap t p) \<and> pe_ID (t_heap t' p) = pe_ID (t_heap t p)" and "t_nextPeer t' = t_nextPeer t"
    and "connectedPeers t' = connectedPeers t" and "t_pieces t' = t_pieces t" and "t_bitfield t' = t_bitfield t"
    using d(2-9) by simp_all
qed

lemma closePieceDownloader_shrinks:
  "closePieceDownloader env pd t = Some t' \<Longrightarrow> books env t \<Longrightarrow> books env t' \<and> shrinks t t'"
  using closePieceDownloader_books [of env pd t t'] by (simp add: shrinks_def)

section \<open>New connections\<close>

lemma books_fresh: "books env t \<Longrightarrow> t_nextPeer t \<notin> set (keys t)"
  by (auto simp: books_def dl_ok_def keys_def)

lemma frame_sendFirstMessage: "frame t (sendFirstMessage env pe t)"
  unfolding sendFirstMessage_def Let_def
  by (rule frame_trans [OF _ frame_SendMessage]) (simp add: frame_SendMessage split: option.split)

lemma frame_startPeer: "frame t (startPeer env pe t)"
proof (cases "t_info t")
  case None
  then show ?thesis by (simp add: startPeer_def frame_sendFirstMessage)
next
  case (Some i)
  have "frame t (at_peer pe (pe_Bitfield_update (\<lambda>_. Some (New (NumPieces i)))) t)" by (rule frame_at_peer) simp
  from frame_trans [OF this frame_sendFirstMessage] show ?thesis by (simp add: startPeer_def Some)
qed

lemma addPeer_books:
  assumes "books env t" and "map_of (connectedPeers t) i = None"
  shows "books env (addPeer env i src t) \<and> static (addPeer env i src t) = static t \<and> keys (addPeer env i src t) = keys t \<and>
    (\<forall>p<t_nextPeer t. closed (t_heap (addPeer env i src t) p) = closed (t_heap t p) \<and>
      pe_ID (t_heap (addPeer env i src t) p) = pe_ID (t_heap t p)) \<and>
    t_nextPeer t \<le> t_nextPeer (addPeer env i src t)"
proof -
  let ?pe = "t_nextPeer t"
  define t1 where "t1 = t\<lparr>t_heap := (t_heap t)(?pe := newPeer src i), t_nextPeer := Suc ?pe,
    connectedPeers := AList.update i ?pe (connectedPeers t)\<rparr>"
  have fr: "?pe \<notin> set (keys t)" by (rule books_fresh [OF assms(1)])
  have i: "i \<notin> fst ` set (connectedPeers t)" using assms(2) by (simp add: map_of_eq_None_iff)
  then have up: "AList.update i ?pe (connectedPeers t) = connectedPeers t @ [(i, ?pe)]"
    by (rule update_append)
  have "dl_ok t1" using assms(1) fr unfolding books_def dl_ok_def
    by (auto simp: t1_def keys_def newPeer_def less_SucI)
  moreover have "ram_ok env t1" using assms(1) by (simp add: books_def ram_ok_def t1_def split: option.splits)
  moreover have "conn_ok t1" using assms(1) i unfolding books_def conn_ok_def
    by (auto simp: t1_def up newPeer_def less_Suc_eq)
  ultimately have b1: "books env t1" by (simp add: books_def)
  have f: "frame t1 (addPeer env i src t)" unfolding addPeer_def Let_def t1_def [symmetric] by (rule frame_startPeer)
  have "keys t1 = keys t" "static t1 = static t" by (simp_all add: t1_def keys_def static_def)
  moreover have "core (addPeer env i src t) = core t1" using f by (simp add: frame_def)
  then have "closed (t_heap (addPeer env i src t) p) = closed (t_heap t1 p)" "pe_ID (t_heap (addPeer env i src t) p) = pe_ID (t_heap t1 p)" "t_nextPeer (addPeer env i src t) = t_nextPeer t1" for p
    by (simp_all add: core_def fun_eq_iff)
  ultimately show ?thesis using frame_books [OF f b1] by (simp add: t1_def)
qed

text \<open>\<open>grows\<close>: connections may be added.\<close>

definition grows :: "'t torrent \<Rightarrow> 't torrent \<Rightarrow> bool" where
  "grows t t' \<longleftrightarrow> static t' = static t \<and> keys t' = keys t \<and> t_nextPeer t \<le> t_nextPeer t' \<and>
     (\<forall>p<t_nextPeer t. closed (t_heap t' p) = closed (t_heap t p) \<and> pe_ID (t_heap t' p) = pe_ID (t_heap t p))"

lemma grows_refl [simp]: "grows t t"
  by (simp add: grows_def)

lemma grows_trans: "grows t t1 \<Longrightarrow> grows t1 t2 \<Longrightarrow> grows t t2"
  by (simp add: grows_def)

lemma frame_grows: "frame t t' \<Longrightarrow> books env t \<Longrightarrow> books env t' \<and> grows t t'"
proof -
  assume f: "frame t t'" and b: "books env t"
  then have "core t' = core t" by (simp add: frame_def)
  then have "t_nextPeer t' = t_nextPeer t" "closed (t_heap t' p) = closed (t_heap t p)" "pe_ID (t_heap t' p) = pe_ID (t_heap t p)" for p
    by (auto simp: core_def fun_eq_iff)
  then show ?thesis using frame_books [OF f b] by (simp add: grows_def)
qed

lemma grows_shrinks: "grows t t' \<Longrightarrow> shrinks t t'"
  by (simp add: grows_def shrinks_def)

lemma dial_addr_books: "books env t \<Longrightarrow> books env (dial_addr env addr src t) \<and> grows t (dial_addr env addr src t)"
  unfolding dial_addr_def
  using frame_grows [OF frame_tick, of env t] addPeer_books [of env "tick t" "ai_ID addr" src]
  by (auto simp: grows_def tick_def split: if_splits)

lemma dial_loop_books:
  assumes "dial_loop env t = Some t'"
  shows "books env t \<longrightarrow> books env t' \<and> grows t t'"
proof (rule dial_loop.raw_induct [where P = "\<lambda>env t t'. books env t \<longrightarrow> books env t' \<and> grows t t'", OF _ assms], goal_cases)
  case (1 f env t t')
  show ?case
  proof
    assume b: "books env t"
    show "books env t' \<and> grows t t'"
    proof (cases "int (length (connectedPeers t)) < MaxPeerDial (cfg env)")
      case False
      then show ?thesis using 1(2) b by auto
    next
      case True
      then obtain r al where r: "Pop (bt env) (addrList t) = Some (r, al)"
        using 1(2) by (auto split: Option.bind_splits)
      note al = frame_grows [OF frame_other(1) [of t al] b]
      show ?thesis
      proof (cases r)
        case None
        then show ?thesis using 1(2) True r al by auto
      next
        case (Some a)
        have "f env (dial_addr env (fst a) (snd a) (t\<lparr>addrList := al\<rparr>)) = Some t'"
          using 1(2) True r Some by simp
        from 1(1) [OF this] dial_addr_books [of env "t\<lparr>addrList := al\<rparr>" "fst a" "snd a"] al
        show ?thesis using grows_trans by blast
      qed
    qed
  qed
qed

lemma dialAddresses_books: "dialAddresses env t = Some t' \<Longrightarrow> books env t \<Longrightarrow> books env t' \<and> grows t t'"
  using dial_loop_books by (auto simp: dialAddresses_def split: if_splits)

section \<open>Closing a peer\<close>

definition quits :: "'t torrent \<Rightarrow> 't torrent \<Rightarrow> bool" where
  "quits t t' \<longleftrightarrow> static t' = static t \<and> set (keys t') \<subseteq> set (keys t) \<and> t_nextPeer t \<le> t_nextPeer t' \<and>
     (\<forall>p<t_nextPeer t. (closed (t_heap t p) \<longrightarrow> closed (t_heap t' p)) \<and> pe_ID (t_heap t' p) = pe_ID (t_heap t p))"

lemma quits_refl [simp]: "quits t t"
  by (simp add: quits_def)

lemma quits_trans: "quits t t1 \<Longrightarrow> quits t1 t2 \<Longrightarrow> quits t t2"
  by (auto simp: quits_def)

lemma quits_shrinks: "quits t t' \<Longrightarrow> shrinks t t'"
  by (simp add: quits_def shrinks_def)

lemma grows_quits: "grows t t' \<Longrightarrow> quits t t'"
  by (simp add: grows_def quits_def)

lemma frame_quits: "frame t t' \<Longrightarrow> books env t \<Longrightarrow> books env t' \<and> quits t t'"
  using frame_grows grows_quits by blast

lemma Close_SomeD: "Close p = Some p' \<Longrightarrow> \<not> closed p \<and> p' = p\<lparr>snubTimer := False, closed := True\<rparr>"
  by (simp add: Close_def split: if_splits)

lemma closeInfoDownloader_dl:
  "dl_ok t \<Longrightarrow> dl_ok (closeInfoDownloader idl t)"
  unfolding dl_ok_def closeInfoDownloader_def keys_def
  by (auto dest: set_delete_sub [THEN subsetD])

lemma closeInfoDownloader_simps [simp]:
  "static (closeInfoDownloader idl t) = static t" "t_heap (closeInfoDownloader idl t) = t_heap t"
  "connectedPeers (closeInfoDownloader idl t) = connectedPeers t" "t_nextPeer (closeInfoDownloader idl t) = t_nextPeer t"
  "keys (closeInfoDownloader idl t) = keys t" "ram_ok env (closeInfoDownloader idl t) = ram_ok env t"
  "conn_ok (closeInfoDownloader idl t) = conn_ok t" "t_picker (closeInfoDownloader idl t) = t_picker t"
  by (simp_all add: closeInfoDownloader_def static_def keys_def ram_ok_def conn_ok_def cong: option.case_cong)

text \<open>The peer leaves the map of connected peers.\<close>

lemma conn_ok_leave:
  assumes "conn_ok t" and "pe < t_nextPeer t" and "\<not> closed (t_heap t pe)"
    and "connectedPeers t' = AList.delete (pe_ID (t_heap t pe)) (connectedPeers t)" and "t_nextPeer t' = t_nextPeer t"
    and "\<And>p. pe_ID (t_heap t' p) = pe_ID (t_heap t p)"
    and "\<And>p. closed (t_heap t' p) \<longleftrightarrow> p = pe \<or> closed (t_heap t p)"
  shows "conn_ok t'"
proof -
  let ?c = "connectedPeers t"
  have d: "distinct (map fst ?c)" and e: "\<forall>(k, q)\<in>set ?c. pe_ID (t_heap t q) = k \<and> q < t_nextPeer t"
    and o: "\<forall>q<t_nextPeer t. \<not> closed (t_heap t q) \<longleftrightarrow> (pe_ID (t_heap t q), q) \<in> set ?c"
    using assms(1) by (simp_all add: conn_ok_def)
  have pe: "(pe_ID (t_heap t pe), pe) \<in> set ?c" using o assms(2,3) by blast
  have del: "(k, q) \<in> set (AList.delete (pe_ID (t_heap t pe)) ?c) \<longleftrightarrow> (k, q) \<in> set ?c \<and> k \<noteq> pe_ID (t_heap t pe)" for k q
    by (auto simp: AList.delete_eq)
  have uniq: "q = pe" if "(pe_ID (t_heap t pe), q) \<in> set ?c" for q
    using that pe d by (meson eq_key_imp_eq_value)
  show ?thesis unfolding conn_ok_def assms(4-7)
  proof (intro conjI)
    show "distinct (map fst (AList.delete (pe_ID (t_heap t pe)) ?c))" by (rule distinct_delete [OF d])
    show "\<forall>(k, q)\<in>set (AList.delete (pe_ID (t_heap t pe)) ?c). pe_ID (t_heap t q) = k \<and> q < t_nextPeer t"
      using e del by auto
    show "\<forall>q<t_nextPeer t. \<not> (q = pe \<or> closed (t_heap t q)) \<longleftrightarrow>
        (pe_ID (t_heap t q), q) \<in> set (AList.delete (pe_ID (t_heap t pe)) ?c)"
      using o del uniq by metis
  qed
qed

lemma closePeer_books:
  assumes "closePeer env pe t = Some t'" and b: "books env t" and pe: "pe < t_nextPeer t"
  shows "books env t'" and "quits t t'" and "closed (t_heap t' pe)" and "\<not> closed (t_heap t pe)"
proof -
  define after where "after t2 = (let t3 = (case map_of (infoDownloaders t2) pe of None \<Rightarrow> t2 | Some idl \<Rightarrow> closeInfoDownloader idl t2)
    in t3\<lparr>connectedPeers := AList.delete (pe_ID (t_heap t3 pe)) (connectedPeers t3)\<rparr>)" for t2 :: "'a torrent"
  from assms(1) obtain p t2 t5 where p0: "Close (t_heap t pe) = Some p" and
    t2: "(case map_of (pieceDownloaders t) pe of None \<Rightarrow> Some (t\<lparr>t_heap := (t_heap t)(pe := p)\<rparr>)
      | Some pd \<Rightarrow> closePieceDownloader env pd (t\<lparr>t_heap := (t_heap t)(pe := p)\<rparr>)) = Some t2" and
    t5: "(case t_picker (after t2) of None \<Rightarrow> Some (after t2)
      | Some pp \<Rightarrow> map_option (\<lambda>pp. (after t2)\<lparr>t_picker := Some pp\<rparr>) (HandleDisconnect pp pe)) = Some t5" and
    fin: "dialAddresses env (t5\<lparr>t_unchoker := u_HandleDisconnect pe (t_unchoker t5)\<rparr>) = Some t'"
    unfolding closePeer_def Let_def bind_eq_Some_conv after_def by fastforce
  note p = Close_SomeD [OF p0]
  define t1 where "t1 = t\<lparr>t_heap := (t_heap t)(pe := p)\<rparr>"
  have dl1: "dl_ok t1" "ram_ok env t1" using b p
    by (auto simp: books_def dl_ok_def ram_ok_def t1_def keys_def split: option.splits)
  have t2: "(case map_of (pieceDownloaders t1) pe of None \<Rightarrow> Some t1 | Some pd \<Rightarrow> closePieceDownloader env pd t1) = Some t2"
    using t2 unfolding t1_def by simp
  have 2: "dl_ok t2 \<and> ram_ok env t2 \<and> static t2 = static t1 \<and> set (keys t2) \<subseteq> set (keys t1) \<and> connectedPeers t2 = connectedPeers t1 \<and>
    t_nextPeer t2 = t_nextPeer t1 \<and> (\<forall>q. closed (t_heap t2 q) = closed (t_heap t1 q) \<and> pe_ID (t_heap t2 q) = pe_ID (t_heap t1 q))"
  proof (cases "map_of (pieceDownloaders t1) pe")
    case None
    then show ?thesis using t2 dl1 by simp
  next
    case (Some pd)
    then have "closePieceDownloader env pd t1 = Some t2" using t2 by simp
    from closePieceDownloader_dl [OF this dl1] show ?thesis by blast
  qed
  define t3 where "t3 = (case map_of (infoDownloaders t2) pe of None \<Rightarrow> t2 | Some idl \<Rightarrow> closeInfoDownloader idl t2)"
  have 3: "dl_ok t3" "ram_ok env t3" "static t3 = static t2" "keys t3 = keys t2" "t_heap t3 = t_heap t2"
    "connectedPeers t3 = connectedPeers t2" "t_nextPeer t3 = t_nextPeer t2"
    using 2 by (simp_all add: t3_def closeInfoDownloader_dl split: option.split)
  define t4 where "t4 = t3\<lparr>connectedPeers := AList.delete (pe_ID (t_heap t3 pe)) (connectedPeers t3)\<rparr>"
  have "conn_ok t4"
    by (rule conn_ok_leave [of t pe]) (use b pe p 2 3 in \<open>simp_all add: books_def t4_def t1_def\<close>)
  moreover have "dl_ok t4" "ram_ok env t4" using 3(1,2)
    by (simp_all add: t4_def dl_ok_def ram_ok_def keys_def cong: option.case_cong)
  ultimately have b4: "books env t4" by (simp add: books_def)
  have k4: "static t4 = static t" "set (keys t4) \<subseteq> set (keys t)" "t_nextPeer t4 = t_nextPeer t"
    "\<And>q. closed (t_heap t4 q) \<longleftrightarrow> q = pe \<or> closed (t_heap t q)" "\<And>q. pe_ID (t_heap t4 q) = pe_ID (t_heap t q)"
    using 2 3 p by (simp_all add: t4_def t1_def static_def keys_def)
  have "after t2 = t4" by (simp add: after_def t4_def t3_def Let_def)
  note t5 = t5 [unfolded this]
  have "frame t4 t5" using t5 by (auto intro!: frame_picker split: option.splits)
  then have f: "frame t4 (t5\<lparr>t_unchoker := u_HandleDisconnect pe (t_unchoker t5)\<rparr>)"
    using frame_trans frame_other(3) by blast
  note q5 = frame_grows [OF f b4]
  note d = dialAddresses_books [OF fin conjunct1 [OF q5]]
  have g: "grows t4 t'" using d q5 grows_trans by blast
  show "books env t'" using d by simp
  show "quits t t'" using g k4 by (auto simp: quits_def grows_def)
  show "closed (t_heap t' pe)" using g k4 pe by (simp add: grows_def)
  show "\<not> closed (t_heap t pe)" using p by simp
qed

end
