(* ===== verification/TorrentSafety.thy ===== *)
theory TorrentSafety
  imports TorrentInv
begin

text \<open>
  Every event of the torrent's loop preserves the invariant of \<open>TorrentInv\<close>.  \<open>leads\<close> is the relation that
  the handlers are composed of: the invariant is kept and no peer is forgotten.
\<close>

section \<open>Steps that keep the invariant\<close>

definition leads :: "'t env \<Rightarrow> 't torrent \<Rightarrow> 't torrent \<Rightarrow> bool" where
  "leads env t t' \<longleftrightarrow> (tinv env t \<longrightarrow> tinv env t' \<and> t_nextPeer t \<le> t_nextPeer t')"

lemma leads_refl [simp]: "leads env t t"
  by (simp add: leads_def)

lemma leads_trans [trans]: "leads env t t1 \<Longrightarrow> leads env t1 t2 \<Longrightarrow> leads env t t2"
  by (auto simp: leads_def)

lemma tinv_books: "tinv env t \<Longrightarrow> books env t"
  by (simp add: tinv_def)

lemma quits_leads: "(books env t \<Longrightarrow> books env t' \<and> quits t t') \<Longrightarrow> leads env t t'"
  unfolding leads_def using tinv_books quits_shrinks shrinks_tinv by (metis quits_def)

lemma frame_leads: "frame t t' \<Longrightarrow> leads env t t'"
  by (rule quits_leads) (rule frame_quits)

lemma leads_frame: "leads env t t1 \<Longrightarrow> frame t1 t2 \<Longrightarrow> leads env t t2"
  by (rule leads_trans [OF _ frame_leads])

lemma frame_leads_trans: "frame t t1 \<Longrightarrow> leads env t1 t2 \<Longrightarrow> leads env t t2"
  by (rule leads_trans [OF frame_leads])

lemma closePeer_leads: "closePeer env pe t = Some t' \<Longrightarrow> pe < t_nextPeer t \<Longrightarrow> leads env t t'"
  by (rule quits_leads) (use closePeer_books in blast)

lemma closePieceDownloader_quits:
  "closePieceDownloader env pd t = Some t' \<Longrightarrow> books env t \<Longrightarrow> books env t' \<and> quits t t'"
  using closePieceDownloader_books [of env pd t t'] by (simp add: quits_def)

lemma closePieceDownloader_leads: "closePieceDownloader env pd t = Some t' \<Longrightarrow> leads env t t'"
  by (rule quits_leads) (rule closePieceDownloader_quits)

lemma frame_nextPeer: "frame t t' \<Longrightarrow> t_nextPeer t' = t_nextPeer t"
  by (simp add: frame_def core_def)

section \<open>Loops\<close>

lemma connected_peer: "books env t \<Longrightarrow> map_of (connectedPeers t) k = Some pe \<Longrightarrow> pe < t_nextPeer t"
  unfolding books_def conn_ok_def by (auto dest: map_of_SomeD)

lemma downloading_peer: "books env t \<Longrightarrow> map_of (pieceDownloaders t) pe = Some pd \<Longrightarrow> pd_Peer pd = pe \<and> pe < t_nextPeer t"
  unfolding books_def dl_ok_def by (auto dest: map_of_SomeD)

text \<open>A loop preserves what its body preserves.\<close>

lemma for_peers_keeps:
  assumes "for_peers body ks t = Some t'" and "I t"
    and "\<And>k pe u u'. I u \<Longrightarrow> map_of (connectedPeers u) k = Some pe \<Longrightarrow> body pe u = Some u' \<Longrightarrow> I u'"
  shows "I t'"
  using assms(1,2)
proof (induction ks arbitrary: t)
  case (Cons k ks)
  then show ?case by (auto split: option.splits Option.bind_splits dest: assms(3))
qed simp

lemma range_peers_keeps:
  assumes "range_peers body t = Some t'" and "\<And>cs. I (t\<lparr>t_choices := cs\<rparr>)"
    and "\<And>k pe u u'. I u \<Longrightarrow> map_of (connectedPeers u) k = Some pe \<Longrightarrow> body pe u = Some u' \<Longrightarrow> I u'"
  shows "I t'"
  using assms(1) unfolding range_peers_def
  by (auto split: prod.splits intro: for_peers_keeps [of body _ _ t' I, OF _ assms(2,3)])

lemma range_peers_leads:
  assumes "range_peers body t = Some t'"
    and "\<And>pe u u'. pe < t_nextPeer u \<Longrightarrow> body pe u = Some u' \<Longrightarrow> leads env u u'"
  shows "leads env t t'"
  unfolding leads_def
proof
  assume t: "tinv env t"
  show "tinv env t' \<and> t_nextPeer t \<le> t_nextPeer t'"
  proof (rule range_peers_keeps [OF assms(1), where I = "\<lambda>u. tinv env u \<and> t_nextPeer t \<le> t_nextPeer u"], goal_cases)
    case (1 cs)
    have "leads env t (t\<lparr>t_choices := cs\<rparr>)" by (rule frame_leads [OF frame_other(2)])
    then show ?case using t by (simp add: leads_def)
  next
    case (2 k pe u u')
    then have "pe < t_nextPeer u" using connected_peer tinv_books by blast
    from assms(2) [OF this 2(3)] 2(1) show ?case by (auto simp: leads_def)
  qed
qed

lemma range_peers_quits:
  assumes "range_peers body t = Some t'" and "books env t"
    and "\<And>pe u u'. pe < t_nextPeer u \<Longrightarrow> body pe u = Some u' \<Longrightarrow> books env u \<Longrightarrow> books env u' \<and> quits u u'"
  shows "books env t' \<and> quits t t'"
proof (rule range_peers_keeps [OF assms(1), where I = "\<lambda>u. books env u \<and> quits t u"], goal_cases)
  case (1 cs)
  show ?case using frame_quits [OF frame_other(2), of env t cs] assms(2) by simp
next
  case (2 k pe u u')
  then have "pe < t_nextPeer u" using connected_peer by blast
  from assms(3) [OF this 2(3)] 2(1) show ?case using quits_trans by blast
qed

lemma for_downloaders_keeps:
  assumes "for_downloaders body ks t = Some t'" and "I t"
    and "\<And>k pd u u'. I u \<Longrightarrow> map_of (pieceDownloaders u) k = Some pd \<Longrightarrow> body pd u = Some u' \<Longrightarrow> I u'"
  shows "I t'"
  using assms(1,2)
proof (induction ks arbitrary: t)
  case (Cons k ks)
  then show ?case by (auto split: option.splits Option.bind_splits dest: assms(3))
qed simp

text \<open>Closing the downloader of every entry leaves no entry.\<close>

lemma for_downloaders_close:
  assumes "for_downloaders body ks t = Some t'" and "books env t"
    and "\<And>pd u u'. body pd u = Some u' \<Longrightarrow> books env u \<Longrightarrow> books env u' \<and> quits u u' \<and> set (keys u') = set (keys u) - {pd_Peer pd}"
  shows "books env t' \<and> quits t t' \<and> set (keys t') \<subseteq> set (keys t) - set ks"
  using assms(1,2)
proof (induction ks arbitrary: t)
  case (Cons k ks)
  show ?case
  proof (cases "map_of (pieceDownloaders t) k")
    case None
    then have "k \<notin> set (keys t)" using in_keys [of t k] by simp
    moreover have "books env t' \<and> quits t t' \<and> set (keys t') \<subseteq> set (keys t) - set ks"
      using Cons.IH [of t] Cons.prems None by simp
    ultimately show ?thesis by auto
  next
    case (Some pd)
    then obtain u where u: "body pd t = Some u" "for_downloaders body ks u = Some t'"
      using Cons.prems(1) by (auto split: Option.bind_splits)
    have k: "pd_Peer pd = k" using downloading_peer [OF Cons.prems(2) Some] by simp
    note b = assms(3) [OF u(1) Cons.prems(2)]
    from Cons.IH [OF u(2)] b have "books env t' \<and> quits u t' \<and> set (keys t') \<subseteq> set (keys u) - set ks" by simp
    then show ?thesis using b k quits_trans [of t u t'] by auto
  qed
qed simp

lemma range_downloaders_close:
  assumes "range_downloaders body t = Some t'" and "books env t"
    and "\<And>pd u u'. body pd u = Some u' \<Longrightarrow> books env u \<Longrightarrow> books env u' \<and> quits u u' \<and> set (keys u') = set (keys u) - {pd_Peer pd}"
  shows "books env t' \<and> quits t t' \<and> pieceDownloaders t' = []"
proof -
  obtain ks cs where s: "shuffle (t_choices t) (map fst (pieceDownloaders t)) = (ks, cs)" by fastforce
  note q = frame_quits [OF frame_other(2) [of t cs] assms(2)]
  have ks: "set ks = set (keys t)" using set_shuffle [of "t_choices t" "map fst (pieceDownloaders t)"] s by (simp add: keys_def)
  have "for_downloaders body ks (t\<lparr>t_choices := cs\<rparr>) = Some t'" using assms(1) s by (simp add: range_downloaders_def)
  from for_downloaders_close [OF this conjunct1 [OF q] assms(3)]
  have r: "books env t' \<and> quits (t\<lparr>t_choices := cs\<rparr>) t' \<and> set (keys t') \<subseteq> set (keys (t\<lparr>t_choices := cs\<rparr>)) - set ks" by blast
  then have "set (keys t') = {}" using ks by (simp add: keys_def)
  then have "pieceDownloaders t' = []" by (simp add: keys_def)
  then show ?thesis using r q quits_trans by blast
qed

lemma cancelDownloader_quits:
  assumes "cancelDownloader env pd t = Some t'" and "books env t"
  shows "books env t' \<and> quits t t' \<and> set (keys t') = set (keys t) - {pd_Peer pd}"
proof -
  from assms(1) obtain u tps pi h cs where u: "closePieceDownloader env pd t = Some u" and
    c: "CancelPending (t_choices u) pi (t_heap u) pd = Some (h, cs)" and t': "t' = u\<lparr>t_heap := h, t_choices := cs\<rparr>"
    by (auto simp: cancelDownloader_def split: Option.bind_splits)
  note q = closePieceDownloader_quits [OF u assms(2)] and k = closePieceDownloader_books(3) [OF u assms(2)]
  have "same_flags (t_heap u) h" using c by (auto simp: CancelPending_def split: prod.splits Option.bind_splits dest: cancel_loop_frame)
  from frame_same_flags [OF this] frame_other(2) [of "u\<lparr>t_heap := h\<rparr>" cs]
  have f: "frame u t'" unfolding t' by (rule frame_trans)
  from frame_quits [OF f conjunct1 [OF q]] q frame_books(2) [OF f conjunct1 [OF q]] k
  show ?thesis using quits_trans by metis
qed

lemma closePieceDownloader_all:
  "closePieceDownloader env pd u = Some u' \<Longrightarrow> books env u \<Longrightarrow>
    books env u' \<and> quits u u' \<and> set (keys u') = set (keys u) - {pd_Peer pd}"
  using closePieceDownloader_quits closePieceDownloader_books(3) by blast

section \<open>Starting downloads\<close>

lemma dialAddresses_leads: "dialAddresses env t = Some t' \<Longrightarrow> leads env t t'"
  by (rule quits_leads) (use dialAddresses_books grows_quits in blast)

lemma handleNewIncomingStream_leads: "leads env t (handleNewIncomingStream env i t)"
proof (rule quits_leads)
  assume "books env t"
  from addPeer_books [OF this, of i Incoming] this
  show "books env (handleNewIncomingStream env i t) \<and> quits t (handleNewIncomingStream env i t)"
    by (auto simp: handleNewIncomingStream_def quits_def)
qed

lemma handleNewPeers_leads:
  assumes "handleNewPeers env addrs src t = Some t'" shows "leads env t t'"
proof (cases "t' = t")
  case False
  then obtain al cs where d: "dialAddresses env (tick (t\<lparr>addrList := al, t_choices := cs\<rparr>)) = Some t'"
    using assms by (auto simp: handleNewPeers_def split: if_splits Option.bind_splits)
  have "frame t (t\<lparr>addrList := al, t_choices := cs\<rparr>)"
    using frame_trans [OF frame_other(1) frame_other(2)] by auto
  from frame_trans [OF this frame_tick] dialAddresses_leads [OF d] show ?thesis by (rule frame_leads_trans)
qed simp

text \<open>The memory of one download, as taken by \<open>session.ram.Request\<close>.\<close>

definition unit_of :: "'t env \<Rightarrow> 't torrent \<Rightarrow> int" where
  "unit_of env t = (case t_info t of Some i \<Rightarrow> if has_ram (cfg env) then int (unat (PieceLength i)) else 0 | None \<Rightarrow> 0)"

definition paid :: "'t env \<Rightarrow> 't torrent \<Rightarrow> 't torrent" where
  "paid env t = t\<lparr>ramHeld := ramHeld t - unit_of env t\<rparr>"

lemma frame_ramHeld: "frame t t' \<Longrightarrow> frame (paid env t) (paid env t')"
  unfolding frame_def
  by (auto simp: paid_def core_def static_def unit_of_def fun_eq_iff cong: option.case_cong)

lemma ram_Release_paid: "ram_Release env t = Some t' \<Longrightarrow> t' = paid env t"
  by (auto simp: ram_Release_def paid_def unit_of_def split: if_splits option.splits)

text \<open>A download that starts with its memory already taken.\<close>

definition add_download :: "ptr \<Rightarrow> PieceDownloader \<Rightarrow> 't torrent \<Rightarrow> 't torrent" where
  "add_download pe pd t = at_peer pe (Downloading_update (\<lambda>_. True))
     (tick (t\<lparr>pieceDownloaders := AList.update pe pd (pieceDownloaders t)\<rparr>))"

lemma add_download_tinv:
  assumes t: "tinv env (paid env t)" and a: "active t" and pe: "pe < t_nextPeer t" "pe \<notin> set (keys t)" and pd: "pd_Peer pd = pe"
  shows "tinv env (add_download pe pd t)"
proof -
  obtain i where i: "t_info t = Some i"
    using a by (auto simp: active_def status_def split: if_splits)
  have up: "AList.update pe pd (pieceDownloaders t) = pieceDownloaders t @ [(pe, pd)]"
    by (rule update_append) (use pe in \<open>simp add: keys_def\<close>)
  have s: "static (add_download pe pd t) = static t" "static (paid env t) = static t"
    by (simp_all add: add_download_def static_def at_peer_def tick_def paid_def)
  have "books env (paid env t)" "static_ok (paid env t)" using t by (simp_all add: tinv_def)
  then have b: "dl_ok (paid env t)" "ram_ok env (paid env t)" "conn_ok (paid env t)" by (simp_all add: books_def)
  have "dl_ok (add_download pe pd t)" using b(1) pe pd
    by (auto simp: dl_ok_def add_download_def at_peer_def tick_def keys_def up paid_def)
  moreover have "ram_ok env (add_download pe pd t)" using b(2) i
    by (auto simp: ram_ok_def add_download_def at_peer_def tick_def up paid_def unit_of_def distrib_left)
  moreover have "conn_ok (add_download pe pd t)" using b(3)
    by (subst conn_ok_cong [of _ "paid env t"]) (simp_all add: add_download_def at_peer_def tick_def paid_def)
  moreover have "static_ok (add_download pe pd t)"
    using \<open>static_ok (paid env t)\<close> static_simps(14) [of "add_download pe pd t" "paid env t"] s by simp
  ultimately show ?thesis using static_simps(13) [OF s(1)] a by (simp add: tinv_def books_def)
qed

lemma requestPieceBlocks_frame:
  assumes "requestPieceBlocks env pe pd t = Some t'" and "map_of (pieceDownloaders t) pe = Some pd0" and "pd_Peer pd = pd_Peer pd0"
  shows "frame t t'"
proof -
  from assms(1) obtain tps pi pd' h where r: "RequestBlocks (maxAllowedRequests env (t_heap t pe)) pi (t_heap t) pd = Some (pd', h)"
    and t': "t' = at_peer pe ResetSnubTimer (t\<lparr>t_heap := h, pieceDownloaders := AList.update pe pd' (pieceDownloaders t)\<rparr>)"
    by (auto simp: requestPieceBlocks_def split: Option.bind_splits)
  from r have q: "same_flags (t_heap t) h" "pd_Peer pd' = pd_Peer pd"
    by (auto simp: RequestBlocks_def dest: request_loop_frame)
  have "frame (t\<lparr>t_heap := h\<rparr>) (t\<lparr>t_heap := h, pieceDownloaders := AList.update pe pd' (pieceDownloaders t)\<rparr>)"
    using frame_update_pd [of "t\<lparr>t_heap := h\<rparr>" pe pd0 pd'] assms q by simp
  from frame_trans [OF frame_trans [OF frame_same_flags [OF q(1)] this] frame_at_peer [of ResetSnubTimer]]
  show ?thesis unfolding t' by (simp add: ResetSnubTimer_def)
qed

lemma startSingle_tinv:
  assumes "startSinglePieceDownloader env pe t = Some t'" and t: "tinv env (paid env t)" and pe: "pe < t_nextPeer t"
  shows "tinv env t' \<and> t_nextPeer t' = t_nextPeer t"
proof (cases "status t = Downloading'")
  case False
  then have "t' = paid env t" using assms(1) ram_Release_paid by (auto simp: startSinglePieceDownloader_def)
  then show ?thesis using t by (simp add: paid_def)
next
  case True
  from assms(1) True obtain pp tps r where pp: "t_picker t = Some pp" and tps: "t_pieces t = Some tps" and
    r: "PickFor (t_choices t) tps pp (t_heap t) pe = Some r"
    by (auto simp: startSinglePieceDownloader_def split: Option.bind_splits)
  obtain pi af pp' h cs where r': "r = (pi, af, pp', h, cs)" by (rule prod_cases5)
  note pf = r [unfolded r']
  have rest: "pi = None \<Longrightarrow> ram_Release env (t\<lparr>t_picker := Some pp', t_heap := h, t_choices := cs\<rparr>) = Some t'"
    "\<And>i pd. pi = Some i \<Longrightarrow> pd = NewPD i (tps ! i) pe af (map (pool_data env (t_clock t)) [0..<unat (p_Length (tps ! i))]) \<Longrightarrow>
        map_of (pieceDownloaders t) pe = None \<and>
        requestPieceBlocks env pe pd (add_download pe pd (t\<lparr>t_picker := Some pp', t_heap := h, t_choices := cs\<rparr>)) = Some t'"
    using assms(1) True pp tps pf
    by (auto simp: startSinglePieceDownloader_def Let_def add_download_def split: if_splits)
  let ?u = "t\<lparr>t_picker := Some pp', t_heap := h, t_choices := cs\<rparr>"
  note pfr = PickFor_frame [OF pf]
  have f1: "frame t (t\<lparr>t_picker := Some pp'\<rparr>)" by (rule frame_picker) (simp add: pp)
  have f2: "frame (t\<lparr>t_picker := Some pp'\<rparr>) (t\<lparr>t_picker := Some pp', t_heap := h\<rparr>)"
    using frame_same_flags [of "t\<lparr>t_picker := Some pp'\<rparr>" h] pfr by simp
  have f: "frame t ?u" by (rule frame_trans [OF frame_trans [OF f1 f2] frame_other(2)])
  have u: "tinv env (paid env ?u)" by (rule frame_tinv [OF frame_ramHeld [OF f] t])
  show ?thesis
  proof (cases pi)
    case None
    then have "t' = paid env ?u" using rest(1) ram_Release_paid by auto
    then show ?thesis using u by (simp add: paid_def)
  next
    case (Some i)
    define pd where "pd = NewPD i (tps ! i) pe af (map (pool_data env (t_clock t)) [0..<unat (p_Length (tps ! i))])"
    have r: "map_of (pieceDownloaders ?u) pe = None" "requestPieceBlocks env pe pd (add_download pe pd ?u) = Some t'"
      using rest(2) [OF Some pd_def] by simp_all
    have k: "pe \<notin> set (keys ?u)" using r(1) in_keys [of ?u pe] by simp
    have "active t" using True tps pp by (simp add: active_def)
    moreover have "static ?u = static t" using f by (simp add: frame_def)
    ultimately have a: "active ?u" using static_simps(13) [of ?u t] by blast
    have pd: "pd_Peer pd = pe" by (simp add: pd_def NewPD_def)
    have ad: "tinv env (add_download pe pd ?u)" by (rule add_download_tinv [OF u a _ k pd]) (use pe in simp)
    have m: "map_of (pieceDownloaders (add_download pe pd ?u)) pe = Some pd"
      by (simp add: add_download_def at_peer_def tick_def update_conv')
    have fr: "frame (add_download pe pd ?u) t'" by (rule requestPieceBlocks_frame [OF r(2) m refl])
    have "t_nextPeer t' = t_nextPeer (add_download pe pd ?u)" by (rule frame_nextPeer [OF fr])
    also have "\<dots> = t_nextPeer t" by (simp add: add_download_def at_peer_def tick_def)
    finally show ?thesis using frame_tinv [OF fr ad] by blast
  qed
qed

lemma startPieceDownloaderFor_leads:
  assumes "startPieceDownloaderFor env pe t = Some t'" and pe: "pe < t_nextPeer t"
  shows "leads env t t'"
  unfolding leads_def
proof
  assume t: "tinv env t"
  show "tinv env t' \<and> t_nextPeer t \<le> t_nextPeer t'"
  proof (cases "status t = Downloading'")
    case False
    then show ?thesis using assms(1) t by (simp add: startPieceDownloaderFor_def)
  next
    case True
    then obtain i where i: "t_info t = Some i" by (auto simp: status_def split: if_splits)
    show ?thesis
    proof (cases "has_ram (cfg env)")
      case False
      then have p: "paid env t = t" by (simp add: paid_def unit_of_def i)
      have "startSinglePieceDownloader env pe t = Some t'"
        using assms(1) True False by (simp add: startPieceDownloaderFor_def)
      from startSingle_tinv [OF this _ pe] p t show ?thesis by simp
    next
      case ram: True
      let ?u = "tick (t\<lparr>ramHeld := ramHeld t + int (unat (PieceLength i))\<rparr>)"
      have tk: "tinv env (tick t)" by (rule frame_tinv [OF frame_tick t])
      have p: "paid env ?u = tick t" using ram i by (simp add: paid_def unit_of_def tick_def)
      have "startSinglePieceDownloader env pe ?u = Some t' \<or> t' = tick t"
        using assms(1) True ram i by (auto simp: startPieceDownloaderFor_def split: if_splits)
      then show ?thesis
      proof
        assume "startSinglePieceDownloader env pe ?u = Some t'"
        from startSingle_tinv [OF this] p tk pe show ?thesis by (simp add: tick_def)
      qed (use tk in \<open>simp add: tick_def\<close>)
    qed
  qed
qed

lemma startPieceDownloaders_leads: "startPieceDownloaders env t = Some t' \<Longrightarrow> leads env t t'"
  unfolding startPieceDownloaders_def
  by (auto split: if_splits elim!: range_peers_leads dest: startPieceDownloaderFor_leads)

section \<open>Metadata downloads\<close>

lemma nextInfoDownload_Some:
  assumes "fst (nextInfoDownload t) = Some idl"
  obtains pe cs where "pe \<in> snd ` set (connectedPeers t)" "id_Peer idl = pe" "map_of (infoDownloaders t) pe = None"
    "snd (nextInfoDownload t) = t\<lparr>t_choices := cs\<rparr>"
proof -
  obtain order cs where s: "shuffle (t_choices t) (map snd (connectedPeers t)) = (order, cs)" by fastforce
  then have o: "set order = snd ` set (connectedPeers t)" using set_shuffle [of "t_choices t" "map snd (connectedPeers t)"] by simp
  from assms s obtain pe where f: "List.find (info_candidate (t\<lparr>t_choices := cs\<rparr>)) order = Some pe" and
    n: "NewID (t_heap t) pe = Some idl"
    by (auto simp: nextInfoDownload_def Let_def split: option.splits)
  from f have "pe \<in> set order" "info_candidate (t\<lparr>t_choices := cs\<rparr>) pe" by (auto simp: find_Some_iff)
  moreover have "id_Peer idl = pe" using n by (auto simp: NewID_def split: Option.bind_splits)
  moreover have "snd (nextInfoDownload t) = t\<lparr>t_choices := cs\<rparr>" using s f by (simp add: nextInfoDownload_def Let_def)
  ultimately show ?thesis using that [of pe cs] o by (simp add: info_candidate_def)
qed

lemma snd_nextInfoDownload:
  "snd (nextInfoDownload t) = t\<lparr>t_choices := snd (shuffle (t_choices t) (map snd (connectedPeers t)))\<rparr>"
  by (simp add: nextInfoDownload_def Let_def split_beta split: option.split)

lemma requestInfoBlocks_fields:
  assumes "requestInfoBlocks env idl t = Some t'"
  obtains h idl' where "same_flags (t_heap t) h" "id_Peer idl' = id_Peer idl"
    "t' = t\<lparr>t_heap := h, infoDownloaders := AList.update (id_Peer idl) idl' (infoDownloaders t)\<rparr>"
proof -
  from assms obtain idl' h where r: "id_RequestBlocks (maxAllowedRequests env (t_heap t (id_Peer idl))) (t_heap t) idl = Some (idl', h)"
    and t': "t' = at_peer (id_Peer idl) ResetSnubTimer (t\<lparr>t_heap := h, infoDownloaders := AList.update (id_Peer idl) idl' (infoDownloaders t)\<rparr>)"
    by (auto simp: requestInfoBlocks_def Let_def)
  have q: "same_flags (t_heap t) h" "id_Peer idl' = id_Peer idl"
    using id_request_frame r unfolding id_RequestBlocks_def by fastforce+
  let ?h = "h(id_Peer idl := ResetSnubTimer (h (id_Peer idl)))"
  have "same_flags (t_heap t) ?h"
    by (rule same_flags_trans [OF q(1) same_flags_upd]) (simp_all add: ResetSnubTimer_def)
  then show ?thesis by (rule that [OF _ q(2)]) (cases t, simp add: t' at_peer_def)
qed

lemma requestInfoBlocks_quits:
  assumes "requestInfoBlocks env idl t = Some t'" and "t_info t = None" and "id_Peer idl < t_nextPeer t" and "books env t"
  shows "books env t' \<and> quits t t'"
proof -
  from assms(1) obtain h idl' where h: "same_flags (t_heap t) h" "id_Peer idl' = id_Peer idl"
    and t': "t' = t\<lparr>t_heap := h, infoDownloaders := AList.update (id_Peer idl) idl' (infoDownloaders t)\<rparr>"
    by (rule requestInfoBlocks_fields)
  have "\<forall>(pe, d)\<in>set (AList.update (id_Peer idl) idl' (infoDownloaders t)). id_Peer d = pe \<and> pe < t_nextPeer t"
  proof -
    have "set (AList.update k v xs) \<subseteq> insert (k, v) (set xs)" for k and v :: InfoDownloader and xs
      by (induction xs) auto
    then show ?thesis using assms(3,4) h(2) unfolding books_def dl_ok_def by fastforce
  qed
  then have "dl_ok t'" using assms(2,4) h(1) by (simp add: books_def dl_ok_def t' keys_def same_flags_def)
  moreover have "ram_ok env t'" using assms(4) by (simp add: books_def ram_ok_def t' cong: option.case_cong)
  moreover have "conn_ok t'" using assms(4) conn_ok_cong [of t' t] h(1) by (simp add: books_def t' same_flags_def)
  ultimately show ?thesis using h(1) by (simp add: books_def quits_def t' static_def keys_def same_flags_def)
qed

lemma info_loop_quits:
  assumes "info_loop env t = Some t'" and "t_info t = None" and "books env t"
  shows "books env t' \<and> quits t t'"
proof -
  have "t_info t = None \<longrightarrow> books env t \<longrightarrow> books env t' \<and> quits t t'"
  proof (rule info_loop.raw_induct [where P = "\<lambda>env t t'. t_info t = None \<longrightarrow> books env t \<longrightarrow> books env t' \<and> quits t t'", OF _ assms(1)],
      goal_cases)
    case (1 f env t t')
    show ?case
    proof (intro impI)
      assume i: "t_info t = None" and b: "books env t"
      show "books env t' \<and> quits t t'"
      proof (cases "int (length (infoDownloaders t)) - int (length (infoDownloadersSnubbed t)) < ParallelMetadataDownloads (cfg env)")
        case False
        then show ?thesis using 1(2) b by auto
      next
        case True
        show ?thesis
        proof (cases "fst (nextInfoDownload t)")
          case None
          then have "t' = snd (nextInfoDownload t)" using 1(2) True by simp
          with frame_quits [OF frame_other(2) b] show ?thesis by (simp add: snd_nextInfoDownload)
        next
          case (Some idl)
          then obtain u where u: "requestInfoBlocks env idl (snd (nextInfoDownload t)) = Some u" "f env u = Some t'"
            using 1(2) True by (auto split: Option.bind_splits)
          from nextInfoDownload_Some [OF Some] obtain pe cs where pe: "pe \<in> snd ` set (connectedPeers t)" "id_Peer idl = pe"
            and cs: "snd (nextInfoDownload t) = t\<lparr>t_choices := cs\<rparr>" by blast
          have lt: "pe < t_nextPeer t" using pe(1) b unfolding books_def conn_ok_def by auto
          note q = frame_quits [OF frame_other(2) b, of cs]
          have ru: "books env u \<and> quits (t\<lparr>t_choices := cs\<rparr>) u"
            by (rule requestInfoBlocks_quits [OF u(1) [unfolded cs]]) (use i lt pe(2) q in simp_all)
          then have "t_info u = None" using i static_simps(1) [of u "t\<lparr>t_choices := cs\<rparr>"] by (simp add: quits_def)
          then show ?thesis using 1(1) [OF u(2)] ru q quits_trans by blast
        qed
      qed
    qed
  qed
  then show ?thesis using assms(2,3) by blast
qed

lemma startInfoDownloaders_leads: "startInfoDownloaders env t = Some t' \<Longrightarrow> leads env t t'"
  by (rule quits_leads) (auto simp: startInfoDownloaders_def split: if_splits dest: info_loop_quits)

end
