(* ===== verification/TorrentEvents.thy ===== *)
theory TorrentEvents
  imports TorrentSafety
begin

text \<open>
  The life cycle of a torrent and the events of its loop: each of them keeps the invariant, so it holds in every
  state that the loop reaches.
\<close>

section \<open>Starting and stopping\<close>

lemma idleI: "books env t \<Longrightarrow> static_ok t \<Longrightarrow> pieceDownloaders t = [] \<Longrightarrow> tinv env t"
  by (simp add: tinv_def)

lemma idle: "tinv env t \<Longrightarrow> \<not> active t \<Longrightarrow> pieceDownloaders t = []"
  by (auto simp: tinv_def)

lemma core_fields:
  "core t' = core t \<Longrightarrow> t_nextPeer t' = t_nextPeer t \<and> (pieceDownloaders t' = [] \<longleftrightarrow> pieceDownloaders t = [])"
proof -
  assume c: "core t' = core t"
  then have "map (\<lambda>(k, pd). (k, pd_Peer pd)) (pieceDownloaders t') = map (\<lambda>(k, pd). (k, pd_Peer pd)) (pieceDownloaders t)"
    by (simp add: core_def)
  from map_eq_imp_length_eq [OF this] have "pieceDownloaders t' = [] \<longleftrightarrow> pieceDownloaders t = []" by auto
  then show ?thesis using c by (simp add: core_def)
qed

text \<open>While nothing is downloaded, the flags of the life cycle may change.\<close>

lemma idle_flags:
  assumes "tinv env t" and "pieceDownloaders t = []" and "core t' = core t" and "t_info t' = t_info t" and "static_ok t'"
  shows "tinv env t'" and "pieceDownloaders t' = []" and "t_nextPeer t' = t_nextPeer t"
proof -
  show p: "pieceDownloaders t' = []" "t_nextPeer t' = t_nextPeer t" using core_fields [OF assms(3)] assms(2) by simp_all
  show "tinv env t'" using books_core(1) [OF assms(3,4) tinv_books [OF assms(1)]] assms(5) p(1) by (rule idleI)
qed

lemma frame_idle: "frame t t' \<Longrightarrow> pieceDownloaders t = [] \<Longrightarrow> pieceDownloaders t' = []"
  using core_fields by (auto simp: frame_def)

text \<open>Composition with a peer that the event is about.\<close>

lemma leads_then:
  assumes "leads env t u" and "pe < t_nextPeer t" and "tinv env u \<Longrightarrow> pe < t_nextPeer u \<Longrightarrow> leads env u t'"
  shows "leads env t t'"
  using assms by (auto simp: leads_def)

lemma frame_then:
  assumes "frame t u" and "pe < t_nextPeer t" and "pe < t_nextPeer u \<Longrightarrow> leads env u t'"
  shows "leads env t t'"
  using assms frame_leads_trans frame_nextPeer by metis

lemma startAnnouncers_leads: "startAnnouncers env t = Some t' \<Longrightarrow> leads env t t'"
  unfolding startAnnouncers_def
  by (auto split: option.splits if_splits intro: frame_leads [OF frame_tick] frame_leads_trans [OF frame_tick handleNewPeers_leads])

lemma startVerifier_tinv:
  assumes "startVerifier t = Some t'" and "tinv env t" and "pieceDownloaders t = []"
  shows "tinv env t' \<and> t_nextPeer t' = t_nextPeer t"
proof -
  have t': "t' = t\<lparr>t_verifier := Some (t_workers t), t_workers := Suc (t_workers t)\<rparr>"
    using assms(1) by (auto simp: startVerifier_def split: if_splits)
  have "static_ok t'" using assms(2) by (simp add: tinv_def static_ok_def t')
  from idle_flags [OF assms(2,3) _ _ this] show ?thesis by (simp add: t' core_def)
qed

lemma startAllocator_tinv:
  assumes "startAllocator t = Some t'" and "tinv env t" and "pieceDownloaders t = []"
  shows "tinv env t' \<and> t_nextPeer t' = t_nextPeer t"
proof -
  have t': "t' = t\<lparr>t_allocator := Some (t_workers t), t_workers := Suc (t_workers t)\<rparr>"
    using assms(1) by (auto simp: startAllocator_def split: if_splits)
  have "static_ok t'" using assms(2) by (simp add: tinv_def static_ok_def t')
  from idle_flags [OF assms(2,3) _ _ this] show ?thesis by (simp add: t' core_def)
qed

lemma start_leads:
  assumes "start env t = Some t'" shows "leads env t t'"
  unfolding leads_def
proof
  assume t: "tinv env t"
  show "tinv env t' \<and> t_nextPeer t \<le> t_nextPeer t'"
  proof (cases "errC t")
    case True
    then show ?thesis using assms t by (simp add: start_def)
  next
    case False
    let ?u = "t\<lparr>stopping := False, stopC_closed := False, errC := True, lastError := None\<rparr>"
    have p: "pieceDownloaders t = []" using idle [OF t] False by (simp add: active_def status_def)
    have so: "static_ok ?u" using t by (simp add: tinv_def static_ok_def)
    have u: "tinv env ?u" "pieceDownloaders ?u = []" "t_nextPeer ?u = t_nextPeer t"
      by (rule idle_flags [OF t p _ _ so]; simp add: core_def)+
    from assms False consider
      (run) v where "startAnnouncers env ?u = Some v" "startPieceDownloaders env v = Some t'"
    | (verify) "startVerifier ?u = Some t'"
    | (allocate) "startAllocator ?u = Some t'"
    | (info) v where "startAnnouncers env ?u = Some v" "startInfoDownloaders env v = Some t'"
      by (auto simp: start_def Let_def split: if_splits Option.bind_splits)
    then show ?thesis
    proof cases
      case run
      from leads_trans [OF startAnnouncers_leads [OF run(1)] startPieceDownloaders_leads [OF run(2)]] u
      show ?thesis by (simp add: leads_def)
    next
      case verify
      from startVerifier_tinv [OF this u(1,2)] u(3) show ?thesis by simp
    next
      case allocate
      from startAllocator_tinv [OF this u(1,2)] u(3) show ?thesis by simp
    next
      case info
      from leads_trans [OF startAnnouncers_leads [OF info(1)] startInfoDownloaders_leads [OF info(2)]] u
      show ?thesis by (simp add: leads_def)
    qed
  qed
qed

lemma handleStopped_tinv:
  "handleStopped env t = Some t' \<Longrightarrow> tinv env (t\<lparr>errC := False\<rparr>) \<Longrightarrow> t' = t\<lparr>errC := False\<rparr>"
  by (auto simp: handleStopped_def tinv_def static_ok_def)

text \<open>What is left when every metadata download has been closed.\<close>

lemma fold_closeInfoDownloader:
  "fold closeInfoDownloader ids t = t\<lparr>infoDownloaders := filter (\<lambda>(k, d). k \<notin> id_Peer ` set ids) (infoDownloaders t),
     infoDownloadersSnubbed := filter (\<lambda>p. p \<notin> id_Peer ` set ids) (infoDownloadersSnubbed t)\<rparr>"
proof (induction ids arbitrary: t)
  case (Cons i ids)
  have f: "filter (\<lambda>(k, d). k \<notin> id_Peer ` set ids) (AList.delete (id_Peer i) xs) = filter (\<lambda>(k, d). k \<notin> id_Peer ` set (i # ids)) xs"
    for xs :: "(ptr \<times> InfoDownloader) list"
    by (induction xs) auto
  have g: "filter (\<lambda>p. p \<notin> id_Peer ` set ids) (removeAll (id_Peer i) xs) = filter (\<lambda>p. p \<notin> id_Peer ` set (i # ids)) xs" for xs
    by (induction xs) auto
  have "fold closeInfoDownloader (i # ids) t = fold closeInfoDownloader ids (closeInfoDownloader i t)" by simp
  also have "\<dots> = t\<lparr>infoDownloaders := filter (\<lambda>(k, d). k \<notin> id_Peer ` set ids) (AList.delete (id_Peer i) (infoDownloaders t)),
      infoDownloadersSnubbed := filter (\<lambda>p. p \<notin> id_Peer ` set ids) (removeAll (id_Peer i) (infoDownloadersSnubbed t))\<rparr>"
    unfolding Cons.IH by (simp add: closeInfoDownloader_def)
  finally show ?case unfolding f g .
qed (simp add: split_beta)

lemma stopInfoDownloaders_eq:
  assumes "books env t"
  obtains s where "stopInfoDownloaders t = t\<lparr>infoDownloaders := [], infoDownloadersSnubbed := s\<rparr>"
proof -
  have "\<forall>x\<in>set (infoDownloaders t). \<not> (\<lambda>(k, d). k \<notin> id_Peer ` set (map snd (infoDownloaders t))) x"
  proof
    fix x assume x: "x \<in> set (infoDownloaders t)"
    obtain k d where kd: "x = (k, d)" by fastforce
    have "id_Peer d = k" using assms x kd unfolding books_def dl_ok_def by auto
    moreover have "d \<in> set (map snd (infoDownloaders t))" using x kd by force
    ultimately show "\<not> (\<lambda>(k, d). k \<notin> id_Peer ` set (map snd (infoDownloaders t))) x" using kd by blast
  qed
  then have "filter (\<lambda>(k, d). k \<notin> id_Peer ` set (map snd (infoDownloaders t))) (infoDownloaders t) = []"
    by (simp only: filter_empty_conv)
  then show ?thesis using that unfolding stopInfoDownloaders_def fold_closeInfoDownloader by simp
qed

lemma stopInfoDownloaders_quits: "books env t \<Longrightarrow> books env (stopInfoDownloaders t) \<and> quits t (stopInfoDownloaders t)"
proof -
  assume b: "books env t"
  from stopInfoDownloaders_eq [OF this] obtain s where s: "stopInfoDownloaders t = t\<lparr>infoDownloaders := [], infoDownloadersSnubbed := s\<rparr>" .
  have "dl_ok (t\<lparr>infoDownloaders := [], infoDownloadersSnubbed := s\<rparr>)" using b by (simp add: books_def dl_ok_def keys_def)
  moreover have "ram_ok env (t\<lparr>infoDownloaders := [], infoDownloadersSnubbed := s\<rparr>)"
    using b by (simp add: books_def ram_ok_def cong: option.case_cong)
  moreover have "conn_ok (t\<lparr>infoDownloaders := [], infoDownloadersSnubbed := s\<rparr>)" using b by (simp add: books_def conn_ok_def)
  ultimately show ?thesis unfolding s by (simp add: books_def quits_def static_def keys_def)
qed

lemma closeData_core: "core (stopVerifier (stopAllocator (closeData t))) = core t"
  by (simp add: core_def stopVerifier_def stopAllocator_def closeData_def)

text \<open>The state that \<open>handleStopped\<close> starts from: every download and every metadata download is closed.\<close>

lemma stop_parts:
  assumes "stop env err t = Some t'" and "status t \<noteq> Stopped" and "status t \<noteq> Stopping"
  obtains t1 t2 t3 t4 where "stopPeers env (t\<lparr>lastError := err\<rparr>) = Some t1" and "stopPiecedownloaders env t1 = Some t2"
    and "t3 = (if t_bitfield (stopInfoDownloaders t2) \<noteq> None then tick (stopInfoDownloaders t2) else stopInfoDownloaders t2)"
    and "handleStopped env ((stopVerifier (stopAllocator (closeData t3)))\<lparr>stopping := True, stopC_closed := True\<rparr>) = Some t4"
    and "t' = t4\<lparr>addrList := al_Reset (bt env) (addrList t4)\<rparr>"
proof -
  from assms obtain t1 t2 where a: "stopPeers env (t\<lparr>lastError := err\<rparr>) = Some t1" "stopPiecedownloaders env t1 = Some t2"
    by (auto simp: stop_def split: Option.bind_splits)
  define t3 where "t3 = (if t_bitfield (stopInfoDownloaders t2) \<noteq> None then tick (stopInfoDownloaders t2) else stopInfoDownloaders t2)"
  from assms a have "(if stopC_closed ((stopVerifier (stopAllocator (closeData t3)))\<lparr>stopping := True\<rparr>) then None
      else Option.bind (handleStopped env ((stopVerifier (stopAllocator (closeData t3)))\<lparr>stopping := True, stopC_closed := True\<rparr>))
        (\<lambda>t. Some (t\<lparr>addrList := al_Reset (bt env) (addrList t)\<rparr>))) = Some t'"
    by (simp add: stop_def Let_def writeBitfield_def t3_def split: if_splits)
  then obtain t4 where "handleStopped env ((stopVerifier (stopAllocator (closeData t3)))\<lparr>stopping := True, stopC_closed := True\<rparr>) = Some t4"
    "t' = t4\<lparr>addrList := al_Reset (bt env) (addrList t4)\<rparr>"
    by (auto split: if_splits Option.bind_splits)
  then show ?thesis using that [OF a t3_def] by blast
qed

lemma stopPeers_quits: "stopPeers env t = Some t' \<Longrightarrow> books env t \<Longrightarrow> books env t' \<and> quits t t'"
  unfolding stopPeers_def by (erule range_peers_quits) (use closePeer_books in blast)+

lemma stopPiecedownloaders_quits:
  "stopPiecedownloaders env t = Some t' \<Longrightarrow> books env t \<Longrightarrow> books env t' \<and> quits t t' \<and> pieceDownloaders t' = []"
  unfolding stopPiecedownloaders_def by (erule range_downloaders_close) (use closePieceDownloader_all in blast)+

lemma stop_idle:
  assumes "stopPeers env (t\<lparr>lastError := err\<rparr>) = Some t1" and "stopPiecedownloaders env t1 = Some t2"
    and t3: "t3 = (if t_bitfield (stopInfoDownloaders t2) \<noteq> None then tick (stopInfoDownloaders t2) else stopInfoDownloaders t2)"
    and "tinv env t"
  shows "tinv env t3" and "pieceDownloaders t3 = []" and "quits t t3" and "infoDownloaders t3 = []"
proof -
  note q0 = frame_quits [OF frame_other(6) tinv_books [OF assms(4)], of err]
  note q1 = stopPeers_quits [OF assms(1) conjunct1 [OF q0]]
  note q2 = stopPiecedownloaders_quits [OF assms(2) conjunct1 [OF q1]]
  have b2: "books env t2" and p2: "pieceDownloaders t2 = []" using q2 by simp_all
  from stopInfoDownloaders_eq [OF b2] obtain s where s: "stopInfoDownloaders t2 = t2\<lparr>infoDownloaders := [], infoDownloadersSnubbed := s\<rparr>" .
  note q3 = stopInfoDownloaders_quits [OF b2]
  have f: "frame (stopInfoDownloaders t2) t3" unfolding t3 by (simp add: frame_tick)
  note q4 = frame_quits [OF f conjunct1 [OF q3]]
  show q: "quits t t3" using q0 q1 q2 q3 q4 quits_trans by metis
  show p: "pieceDownloaders t3 = []" by (rule frame_idle [OF f]) (simp add: s p2)
  show "infoDownloaders t3 = []" by (simp add: t3 s tick_def)
  have "static t3 = static t" using q by (simp add: quits_def)
  then have "static_ok t3" using static_simps(14) [of t3 t] assms(4) by (simp add: tinv_def)
  then show "tinv env t3" using idleI [OF conjunct1 [OF q4]] p by blast
qed

lemma stop_leads:
  assumes "stop env err t = Some t'" shows "leads env t t'"
  unfolding leads_def
proof
  assume t: "tinv env t"
  show "tinv env t' \<and> t_nextPeer t \<le> t_nextPeer t'"
  proof (cases "status t = Stopped \<or> status t = Stopping")
    case True
    then show ?thesis using assms t by (auto simp: stop_def)
  next
    case False
    then obtain t1 t2 t3 t4 where s: "stopPeers env (t\<lparr>lastError := err\<rparr>) = Some t1" "stopPiecedownloaders env t1 = Some t2"
      "t3 = (if t_bitfield (stopInfoDownloaders t2) \<noteq> None then tick (stopInfoDownloaders t2) else stopInfoDownloaders t2)"
      and h: "handleStopped env ((stopVerifier (stopAllocator (closeData t3)))\<lparr>stopping := True, stopC_closed := True\<rparr>) = Some t4"
      and t': "t' = t4\<lparr>addrList := al_Reset (bt env) (addrList t4)\<rparr>"
      using stop_parts [OF assms] by blast
    note i = stop_idle [OF s t]
    let ?u = "(stopVerifier (stopAllocator (closeData t3)))\<lparr>stopping := True, stopC_closed := True, errC := False\<rparr>"
    have so: "static_ok ?u" using i(1) by (simp add: tinv_def static_ok_def stopVerifier_def stopAllocator_def closeData_def)
    have "core ?u = core t3" using closeData_core [of t3] by (simp add: core_def)
    moreover have "t_info ?u = t_info t3" by (simp add: stopVerifier_def stopAllocator_def closeData_def)
    ultimately have u: "tinv env ?u" "t_nextPeer ?u = t_nextPeer t3" using idle_flags [OF i(1,2) _ _ so] by blast+
    have "t4 = ?u" using handleStopped_tinv [OF h] u by simp
    then have "tinv env t4 \<and> t_nextPeer t3 \<le> t_nextPeer t4" using u by simp
    moreover have "leads env t4 t'" unfolding t' by (rule frame_leads [OF frame_other(1)])
    ultimately show ?thesis using i(3) by (auto simp: quits_def leads_def)
  qed
qed

text \<open>Completion closes the downloads before it can be observed.\<close>

lemma checkCompletion_tinv:
  assumes "checkCompletion env t = Some (c, t')" and t: "tinv env t"
  shows "tinv env t' \<and> t_nextPeer t \<le> t_nextPeer t'"
proof (cases "t' = t")
  case False
  then obtain t2 t4 where
    r: "range_peers (\<lambda>pe t. if \<not> PeerInterested (t_heap t pe) then closePeer env pe t else Some t)
        (t\<lparr>completed := True, completeC_closed := True\<rparr>) = Some t2" and
    d: "range_downloaders (cancelDownloader env) (t2\<lparr>addrList := al_Reset (bt env) (addrList t2)\<rparr>) = Some t4" and
    t': "t' = t4\<lparr>t_picker := None\<rparr>"
    using assms(1) by (auto simp: checkCompletion_def Let_def split: if_splits Option.bind_splits)
  let ?t1 = "t\<lparr>completed := True, completeC_closed := True\<rparr>"
  have so: "static_ok ?t1" using t by (simp add: tinv_def static_ok_def)
  have b1: "books env ?t1" by (rule books_core [OF _ _ tinv_books [OF t]]) (simp_all add: core_def)
  have q2: "books env t2 \<and> quits ?t1 t2"
    by (rule range_peers_quits [OF r b1]) (auto split: if_splits dest: closePeer_books)
  note q3 = frame_quits [OF frame_other(1) conjunct1 [OF q2], of "al_Reset (bt env) (addrList t2)"]
  have q4: "books env t4 \<and> quits (t2\<lparr>addrList := al_Reset (bt env) (addrList t2)\<rparr>) t4 \<and> pieceDownloaders t4 = []"
    by (rule range_downloaders_close [OF d conjunct1 [OF q3]]) (rule cancelDownloader_quits)
  have q: "quits ?t1 t4" using q2 q3 q4 quits_trans by blast
  then have "static t4 = static ?t1" by (simp add: quits_def)
  then have "static_ok t4" using static_simps(14) [of t4 ?t1] so by simp
  then have i: "tinv env t4" using idleI q4 by blast
  have so': "static_ok t'" using \<open>static_ok t4\<close> by (simp add: static_ok_def t')
  have "core t' = core t4" "t_info t' = t_info t4" by (simp_all add: core_def t')
  then have "tinv env t' \<and> t_nextPeer t' = t_nextPeer t4" using idle_flags [OF i _ _ _ so'] q4 by blast
  then show ?thesis using q by (simp add: quits_def)
qed (use t in simp)

end
