(* ===== verification/TorrentRuns.thy ===== *)
theory TorrentRuns
  imports TorrentEvents
begin

text \<open>
  The handlers of the torrent's events keep the invariant; the states that a run of the loop reaches.
\<close>

section \<open>Messages\<close>

lemma frame_updateInterestedState: "updateInterestedState pe t = Some t' \<Longrightarrow> frame t t'"
proof -
  assume u: "updateInterestedState pe t = Some t'"
  have f: "frame t (SendMessage_to m pe (at_peer pe (ClientInterested_update (\<lambda>_. b)) t))" for m b
    by (rule frame_trans [OF frame_at_peer frame_SendMessage]) simp
  show ?thesis using u by (auto simp: updateInterestedState_def f split: option.splits if_splits Option.bind_splits)
qed

lemma HandleHave_frame: "HandleHave p h pe i = Some (p', h') \<Longrightarrow> same_flags h h'"
  by (auto simp: HandleHave_def Let_def split: Option.bind_splits if_splits intro!: same_flags_upd)

lemma frame_update_picker: "t_picker t \<noteq> None \<Longrightarrow> same_flags (t_heap t) h \<Longrightarrow> frame t (t\<lparr>t_picker := Some pp, t_heap := h\<rparr>)"
  using frame_trans [OF frame_picker frame_same_flags, of t pp h] by simp

lemma frame_picker_have: "picker_have pe i t = Some t' \<Longrightarrow> frame t t'"
  by (auto simp: picker_have_def split: option.splits intro!: frame_update_picker dest: HandleHave_frame)

lemma frame_picker_haves: "picker_haves pe is t = Some t' \<Longrightarrow> frame t t'"
  by (induction "is" arbitrary: t) (auto split: Option.bind_splits intro: frame_trans frame_picker_have)

lemma frame_save_message: "frame t (save_message pe m t)"
  unfolding save_message_def by (rule frame_at_peer) simp

lemma update_and_start_leads:
  assumes "update_and_start env pe t = Some t'" and "pe < t_nextPeer t" shows "leads env t t'"
proof -
  from assms(1) obtain u where "updateInterestedState pe t = Some u" "startPieceDownloaderFor env pe u = Some t'"
    by (auto simp: update_and_start_def split: Option.bind_splits)
  then show ?thesis by (auto intro: frame_then [OF frame_updateInterestedState assms(2)] startPieceDownloaderFor_leads)
qed

lemma have_then_start_leads:
  assumes "Option.bind (picker_haves pe is t) (update_and_start env pe) = Some t'" and "pe < t_nextPeer t"
  shows "leads env t t'"
proof -
  from assms(1) obtain u where "picker_haves pe is t = Some u" "update_and_start env pe u = Some t'"
    by (auto split: Option.bind_splits)
  then show ?thesis by (auto intro: frame_then [OF frame_picker_haves assms(2)] update_and_start_leads)
qed

lemma have_one_leads:
  "Option.bind (picker_have pe i t) (update_and_start env pe) = Some t' \<Longrightarrow> pe < t_nextPeer t \<Longrightarrow> leads env t t'"
  using have_then_start_leads [of pe "[i]" t env t'] by simp

lemma handleHaveMessage_leads:
  assumes "handleHaveMessage env pe i t = Some t'" and "pe < t_nextPeer t" shows "leads env t t'"
proof -
  have "t' = save_message pe (Have i) t \<or> closePeer env pe t = Some t' \<or> Option.bind (picker_have pe i t) (update_and_start env pe) = Some t'"
    using assms(1) by (auto simp: handleHaveMessage_def split: if_splits Option.bind_splits)
  then consider "t' = save_message pe (Have i) t" | "closePeer env pe t = Some t'"
    | "Option.bind (picker_have pe i t) (update_and_start env pe) = Some t'" by blast
  then show ?thesis using assms(2)
    by cases (auto intro: frame_leads [OF frame_save_message] closePeer_leads have_one_leads)
qed

lemma handleBitfieldMessage_leads:
  assumes "handleBitfieldMessage env pe data t = Some t'" and "pe < t_nextPeer t" shows "leads env t t'"
proof -
  have "t' = save_message pe (BitfieldMsg data) t \<or> closePeer env pe t = Some t' \<or> t' = t \<or> (\<exists>is. Option.bind (picker_haves pe is t) (update_and_start env pe) = Some t')"
    using assms(1) by (auto simp: handleBitfieldMessage_def split: if_splits Option.bind_splits sum.splits)
  then consider "t' = save_message pe (BitfieldMsg data) t" | "closePeer env pe t = Some t'" | "t' = t"
    | "is" where "Option.bind (picker_haves pe is t) (update_and_start env pe) = Some t'" by blast
  then show ?thesis using assms(2)
    by cases (auto intro: frame_leads [OF frame_save_message] closePeer_leads have_then_start_leads)
qed

lemma handleHaveAllMessage_leads:
  assumes "handleHaveAllMessage env pe t = Some t'" and "pe < t_nextPeer t" shows "leads env t t'"
proof -
  have "t' = save_message pe HaveAll t \<or> (\<exists>is. Option.bind (picker_haves pe is t) (update_and_start env pe) = Some t')"
    using assms(1) by (auto simp: handleHaveAllMessage_def split: if_splits Option.bind_splits)
  then consider "t' = save_message pe HaveAll t"
    | "is" where "Option.bind (picker_haves pe is t) (update_and_start env pe) = Some t'" by blast
  then show ?thesis using assms(2)
    by cases (auto intro: frame_leads [OF frame_save_message] have_then_start_leads)
qed

lemma HandleAllowedFast_frame: "HandleAllowedFast p h pe i = Some h' \<Longrightarrow> same_flags h h'"
  by (auto simp: HandleAllowedFast_def split: Option.bind_splits if_splits intro!: same_flags_upd)

lemma handleAllowedFastMessage_leads:
  assumes "handleAllowedFastMessage env pe i t = Some t'" and "pe < t_nextPeer t" shows "leads env t t'"
proof -
  have "t' = save_message pe (message.AllowedFast i) t \<or> closePeer env pe t = Some t' \<or> t' = t \<or> (\<exists>h pp. HandleAllowedFast pp (t_heap t) pe i = Some h \<and> t' = t\<lparr>t_heap := h\<rparr>)"
    using assms(1) by (auto simp: handleAllowedFastMessage_def split: if_splits Option.bind_splits option.splits)
  then consider "t' = save_message pe (message.AllowedFast i) t" | "closePeer env pe t = Some t'" | "t' = t"
    | h pp where "HandleAllowedFast pp (t_heap t) pe i = Some h" "t' = t\<lparr>t_heap := h\<rparr>" by blast
  then show ?thesis using assms(2)
  proof cases
    case 4
    from frame_same_flags [OF HandleAllowedFast_frame [OF 4(1)]] show ?thesis unfolding 4(2) by (rule frame_leads)
  qed (auto intro: frame_leads [OF frame_save_message] closePeer_leads)
qed

lemma frame_picker_update:
  "(case t_picker t of None \<Rightarrow> Some t | Some pp \<Rightarrow> map_option (\<lambda>pp. t\<lparr>t_picker := Some pp\<rparr>) (f pp)) = Some t' \<Longrightarrow> frame t t'"
  by (auto split: option.splits intro: frame_picker)

lemma handleUnchokeMessage_leads:
  assumes "handleUnchokeMessage env pe t = Some t'" and pe: "pe < t_nextPeer t" shows "leads env t t'"
proof -
  let ?u = "at_peer pe (PeerChoking_update (\<lambda>_. False)) t"
  have f: "frame t ?u" by (rule frame_at_peer) simp
  show ?thesis
  proof (cases "map_of (pieceDownloaders ?u) pe")
    case None
    then have "startPieceDownloaderFor env pe ?u = Some t'" using assms(1) by (simp add: handleUnchokeMessage_def Let_def)
    then show ?thesis by (rule frame_then [OF f pe startPieceDownloaderFor_leads])
  next
    case (Some pd)
    show ?thesis
    proof (cases "PieceDownloader.AllowedFast pd")
      case True
      then have "t' = ?u" using assms(1) Some by (simp add: handleUnchokeMessage_def Let_def)
      then show ?thesis using frame_leads [OF f] by simp
    next
      case False
      let ?v = "?u\<lparr>pieceDownloadersChoked := removeAll pe (pieceDownloadersChoked ?u)\<rparr>"
      from assms(1) Some False obtain w where w: "requestPieceBlocks env pe pd ?v = Some w" and
        h: "(case t_picker w of None \<Rightarrow> Some w
          | Some pp \<Rightarrow> map_option (\<lambda>pp. w\<lparr>t_picker := Some pp\<rparr>) (HandleUnchoke pp pe (of_nat (pd_Piece pd)))) = Some t'"
        by (auto simp: handleUnchokeMessage_def Let_def split: Option.bind_splits)
      have "frame ?v w" by (rule requestPieceBlocks_frame [OF w]) (use Some in simp_all)
      from frame_trans [OF frame_trans [OF frame_trans [OF f frame_other(12)] this] frame_picker_update [OF h]]
      show ?thesis by (rule frame_leads)
    qed
  qed
qed

lemma handleChokeMessage_leads:
  assumes "handleChokeMessage env pe t = Some t'" and pe: "pe < t_nextPeer t" shows "leads env t t'"
proof -
  let ?u = "at_peer pe (PeerChoking_update (\<lambda>_. True)) t"
  have f: "frame t ?u" by (rule frame_at_peer) simp
  show ?thesis
  proof (cases "t' = ?u")
    case True
    then show ?thesis using frame_leads [OF f] by simp
  next
    case False
    then obtain pd where pd: "map_of (pieceDownloaders ?u) pe = Some pd" "\<not> PieceDownloader.AllowedFast pd"
      using assms(1) by (auto simp: handleChokeMessage_def Let_def split: option.splits if_splits)
    obtain pd' cs where c: "pd_Choked (t_choices ?u) (t_heap ?u) pd = (pd', cs)" by fastforce
    let ?v = "at_peer pe StopSnubTimer (?u\<lparr>t_choices := cs, pieceDownloaders := AList.update pe pd' (pieceDownloaders ?u),
      pieceDownloadersChoked := List.insert pe (pieceDownloadersChoked ?u),
      pieceDownloadersSnubbed := removeAll pe (pieceDownloadersSnubbed ?u)\<rparr>)"
    from assms(1) pd c obtain w where h: "(case t_picker ?v of None \<Rightarrow> Some ?v
        | Some pp \<Rightarrow> map_option (\<lambda>pp. ?v\<lparr>t_picker := Some pp\<rparr>) (HandleChoke pp pe (of_nat (pd_Piece pd')))) = Some w"
      and s: "startPieceDownloaders env w = Some t'"
      by (simp add: handleChokeMessage_def Let_def bind_eq_Some_conv) blast
    have "pd_Peer pd' = pd_Peer pd" using pd_Choked_frame [of "t_choices ?u" "t_heap ?u" pd] c by simp
    then have "frame ?u (?u\<lparr>t_choices := cs, pieceDownloaders := AList.update pe pd' (pieceDownloaders ?u),
      pieceDownloadersChoked := List.insert pe (pieceDownloadersChoked ?u),
      pieceDownloadersSnubbed := removeAll pe (pieceDownloadersSnubbed ?u)\<rparr>)"
      using pd(1) by (simp add: frame_def core_def static_def map_update_same)
    moreover have "frame v (at_peer pe StopSnubTimer v)" for v by (rule frame_at_peer) (simp add: StopSnubTimer_def)
    ultimately have "frame ?u ?v" using frame_trans by blast
    from frame_trans [OF frame_trans [OF f this] frame_picker_update [OF h]] startPieceDownloaders_leads [OF s]
    show ?thesis by (rule frame_leads_trans)
  qed
qed

lemma frame_handleInterestedMessage: "frame t (handleInterestedMessage pe t)"
proof -
  let ?u = "at_peer pe (PeerInterested_update (\<lambda>_. True)) t"
  have f: "frame t ?u" by (rule frame_at_peer) simp
  obtain h u where hu: "FastUnchoke pe (t_heap ?u, t_unchoker ?u) = (h, u)" by fastforce
  have "same_flags (t_heap ?u) h" using FastUnchoke_frame [of "t_heap ?u" pe "t_unchoker ?u"] hu by simp
  from frame_trans [OF f frame_trans [OF frame_same_flags [OF this] frame_other(3)]] hu
  show ?thesis by (simp add: handleInterestedMessage_def)
qed

lemma handleRequestMessage_leads:
  assumes "handleRequestMessage env pe r t = Some t'" and pe: "pe < t_nextPeer t" shows "leads env t t'"
proof -
  have "closePeer env pe t = Some t' \<or> t' = sendReject r pe t \<or> (\<exists>i. t' = sendPiece r i pe t) \<or> t' = t"
    using assms(1) by (auto simp: handleRequestMessage_def split: if_splits Option.bind_splits)
  then consider "closePeer env pe t = Some t'" | "t' = sendReject r pe t" | i where "t' = sendPiece r i pe t" | "t' = t" by blast
  then show ?thesis
    by cases (auto simp: sendReject_def sendPiece_def intro: closePeer_leads [OF _ pe] frame_leads [OF frame_SendMessage]
      frame_leads [OF frame_send])
qed

lemma handleRejectMessage_leads:
  assumes "handleRejectMessage env pe r t = Some t'" and pe: "pe < t_nextPeer t" shows "leads env t t'"
proof -
  have "closePeer env pe t = Some t' \<or> t' = t \<or> (\<exists>pd b. map_of (pieceDownloaders t) pe = Some pd \<and> t' = t\<lparr>pieceDownloaders := AList.update pe (Rejected b pd) (pieceDownloaders t)\<rparr>)"
    using assms(1) by (auto simp: handleRejectMessage_def split: if_splits Option.bind_splits option.splits)
  then consider "closePeer env pe t = Some t'" | "t' = t"
    | pd b where "map_of (pieceDownloaders t) pe = Some pd" "t' = t\<lparr>pieceDownloaders := AList.update pe (Rejected b pd) (pieceDownloaders t)\<rparr>" by blast
  then show ?thesis
    by cases (auto intro: closePeer_leads [OF _ pe] frame_leads [OF frame_update_pd [OF _ Rejected_Peer]])
qed

lemma handleCancelMessage_leads:
  assumes "handleCancelMessage env pe r t = Some t'" and pe: "pe < t_nextPeer t" shows "leads env t t'"
proof -
  have "closePeer env pe t = Some t' \<or> t' = t \<or> t' = at_peer pe (send (CancelRequest r)) t \<or> t' = sendReject r pe (at_peer pe (send (CancelRequest r)) t)"
    using assms(1) by (auto simp: handleCancelMessage_def Let_def split: if_splits Option.bind_splits)
  then consider "closePeer env pe t = Some t'" | "t' = t" | "t' = at_peer pe (send (CancelRequest r)) t"
    | "t' = sendReject r pe (at_peer pe (send (CancelRequest r)) t)" by blast
  then show ?thesis
    by cases (auto simp: sendReject_def intro: closePeer_leads [OF _ pe] frame_leads [OF frame_send]
      frame_leads [OF frame_trans [OF frame_send frame_SendMessage]])
qed

lemma handleExtensionHandshake_leads:
  assumes "handleExtensionHandshake env pe h t = Some t'" shows "leads env t t'"
proof -
  define u where "u = at_peer pe (ExtensionHandshake_update (\<lambda>_. Some h)) t"
  have f: "frame t u" unfolding u_def by (rule frame_at_peer) simp
  define v where "v = (if length (hs_YourIP h) = 4 then u\<lparr>externalIP := hs_YourIP h\<rparr> else u)"
  have g: "frame t v" unfolding v_def using f frame_trans [OF f frame_other(11)] by simp
  have "t' = t \<or> startInfoDownloaders env v = Some t' \<or> t' = v"
    using assms unfolding handleExtensionHandshake_def Let_def u_def [symmetric] v_def [symmetric] by (simp split: if_splits)
  then consider "t' = t" | "startInfoDownloaders env v = Some t'" | "t' = v" by blast
  then show ?thesis by cases (auto intro: frame_leads [OF g] frame_leads_trans [OF g startInfoDownloaders_leads])
qed

section \<open>Metadata\<close>

lemma frame_metadataRequest: "frame t (metadataRequest pe piece t)"
  by (auto simp: metadataRequest_def sendMetadata_def sendMetadataReject_def Let_def frame_SendMessage split: option.split)

lemma id_GotBlock_Peer: "id_GotBlock i data d = Some (Inr d') \<Longrightarrow> id_Peer d' = id_Peer d"
  by (auto simp: id_GotBlock_def Let_def split: if_splits Option.bind_splits)

lemma frame_update_id:
  "map_of (infoDownloaders t) pe = Some d \<Longrightarrow> id_Peer d' = id_Peer d \<Longrightarrow>
    frame t (t\<lparr>infoDownloaders := AList.update pe d' (infoDownloaders t)\<rparr>)"
  by (simp add: frame_def core_def static_def map_update_same)

lemma info_downloader:
  assumes "tinv env t" and "map_of (infoDownloaders t) pe = Some d"
  shows "t_info t = None" and "id_Peer d = pe" and "pe < t_nextPeer t"
  using assms map_of_SomeD [OF assms(2)] unfolding tinv_def books_def dl_ok_def by auto

lemma close_then_info_leads:
  assumes "Option.bind (closePeer env pe t) (startInfoDownloaders env) = Some t'" and "pe < t_nextPeer t"
  shows "leads env t t'"
proof -
  from assms(1) obtain u where u: "closePeer env pe t = Some u" "startInfoDownloaders env u = Some t'"
    by (auto split: Option.bind_splits)
  from leads_trans [OF closePeer_leads [OF u(1) assms(2)] startInfoDownloaders_leads [OF u(2)]] show ?thesis .
qed

text \<open>The info of the torrent arrives: nothing is downloaded yet.\<close>

lemma new_info_tinv:
  assumes "tinv env t" and "t_info t = None" and "infoDownloaders t = []"
  shows "tinv env (tick (t\<lparr>t_info := Some i\<rparr>))" and "pieceDownloaders t = []"
proof -
  show p: "pieceDownloaders t = []" using idle [OF assms(1)] assms(2) by (auto simp: active_def status_def split: if_splits)
  have "books env t" "static_ok t" using assms(1) by (simp_all add: tinv_def)
  then have "books env (tick (t\<lparr>t_info := Some i\<rparr>))" using assms(2,3) p
    by (simp add: books_def dl_ok_def ram_ok_def conn_ok_def keys_def tick_def)
  moreover have "static_ok (tick (t\<lparr>t_info := Some i\<rparr>))" using \<open>static_ok t\<close> by (simp add: static_ok_def tick_def)
  ultimately show "tinv env (tick (t\<lparr>t_info := Some i\<rparr>))" by (rule idleI) (simp add: tick_def p)
qed

lemma metadataComplete_leads:
  assumes "metadataComplete env data t = Some t'" and info: "t_info t = None"
  shows "leads env t t'"
  unfolding leads_def
proof
  assume t: "tinv env t"
  from stopInfoDownloaders_eq [OF tinv_books [OF t]] obtain s
    where s: "stopInfoDownloaders t = t\<lparr>infoDownloaders := [], infoDownloadersSnubbed := s\<rparr>" .
  define u where "u = stopInfoDownloaders t"
  have u: "tinv env u" "t_nextPeer u = t_nextPeer t" "t_info u = None" "infoDownloaders u = []"
    using quits_leads [OF stopInfoDownloaders_quits, of env t] t by (simp_all add: leads_def u_def s info)
  have "(\<exists>e. stop env (Some e) u = Some t') \<or>
    (\<exists>i. stop env (Some ErrWriteInfo) (tick (u\<lparr>t_info := Some i\<rparr>)) = Some t') \<or> (\<exists>i. startAllocator (tick (u\<lparr>t_info := Some i\<rparr>)) = Some t')"
    using assms(1) unfolding metadataComplete_def Let_def u_def [symmetric] by (auto split: sum.splits if_splits)
  then consider e where "stop env (Some e) u = Some t'" | i where "stop env (Some ErrWriteInfo) (tick (u\<lparr>t_info := Some i\<rparr>)) = Some t'"
    | i where "startAllocator (tick (u\<lparr>t_info := Some i\<rparr>)) = Some t'" by blast
  then show "tinv env t' \<and> t_nextPeer t \<le> t_nextPeer t'"
  proof cases
    case 1
    from stop_leads [OF this] u show ?thesis by (simp add: leads_def)
  next
    case 2
    from stop_leads [OF this] new_info_tinv(1) [OF u(1,3,4)] u(2) show ?thesis by (simp add: leads_def tick_def)
  next
    case (3 i)
    have "pieceDownloaders (tick (u\<lparr>t_info := Some i\<rparr>)) = []" using new_info_tinv(2) [OF u(1,3,4)] by (simp add: tick_def)
    from startAllocator_tinv [OF 3 new_info_tinv(1) [OF u(1,3,4)] this] u(2) show ?thesis by (simp add: tick_def)
  qed
qed

lemma metadataData_leads:
  assumes "metadataData env pe piece data t = Some t'" and pe: "pe < t_nextPeer t"
  shows "leads env t t'"
proof (cases "tinv env t")
  case t: True
  show ?thesis
  proof (cases "map_of (infoDownloaders t) pe")
    case None
    then show ?thesis using assms(1) by (simp add: metadataData_def)
  next
    case (Some idl)
    note d = info_downloader [OF t Some]
    from assms(1) Some obtain r where r: "id_GotBlock piece data idl = Some r"
      by (auto simp: metadataData_def split: Option.bind_splits)
    show ?thesis
    proof (cases r)
      case (Inl e)
      then have "Option.bind (closePeer env pe t) (startInfoDownloaders env) = Some t'"
        using assms(1) Some r by (simp add: metadataData_def)
      then show ?thesis by (rule close_then_info_leads [OF _ pe])
    next
      case (Inr idl')
      have p: "id_Peer idl' = pe" using id_GotBlock_Peer [of piece data idl idl'] r Inr d(2) by simp
      define u where "u = t\<lparr>infoDownloaders := AList.update pe idl' (infoDownloaders t)\<rparr>"
      have f: "frame t u" unfolding u_def by (rule frame_update_id [OF Some]) (simp add: p d(2))
      have g: "frame u (at_peer pe StopSnubTimer u)" by (rule frame_at_peer) (simp add: StopSnubTimer_def)
      have i: "t_info u = None" "t_nextPeer u = t_nextPeer t" using d(1) by (simp_all add: u_def)
      have "requestInfoBlocks env idl' u = Some t' \<or>
        Option.bind (closePeer env pe (at_peer pe StopSnubTimer u)) (startInfoDownloaders env) = Some t' \<or>
        metadataComplete env (id_Bytes idl') (at_peer pe StopSnubTimer u) = Some t'"
        using assms(1) Some r Inr p unfolding metadataData_def u_def by (simp add: Let_def split: if_splits)
      then consider "requestInfoBlocks env idl' u = Some t'"
        | "Option.bind (closePeer env pe (at_peer pe StopSnubTimer u)) (startInfoDownloaders env) = Some t'"
        | "metadataComplete env (id_Bytes idl') (at_peer pe StopSnubTimer u) = Some t'" by blast
      then show ?thesis
      proof cases
        case 1
        have "leads env u t'" by (rule quits_leads [OF requestInfoBlocks_quits [OF 1]]) (use i p pe in simp_all)
        with f show ?thesis by (rule frame_leads_trans)
      next
        case 2
        have "leads env (at_peer pe StopSnubTimer u) t'"
          by (rule close_then_info_leads [OF 2]) (use i(2) pe in \<open>simp add: at_peer_def\<close>)
        with frame_trans [OF f g] show ?thesis by (rule frame_leads_trans)
      next
        case 3
        have "leads env (at_peer pe StopSnubTimer u) t'"
          by (rule metadataComplete_leads [OF 3]) (use i(1) in \<open>simp add: at_peer_def\<close>)
        with frame_trans [OF f g] show ?thesis by (rule frame_leads_trans)
      qed
    qed
  qed
qed (simp add: leads_def)

lemma metadataReject_leads:
  assumes "metadataReject env pe t = Some t'" and pe: "pe < t_nextPeer t"
  shows "leads env t t'"
proof (cases "tinv env t")
  case t: True
  show ?thesis
  proof (cases "map_of (infoDownloaders t) pe")
    case None
    then show ?thesis using assms(1) by (simp add: metadataReject_def)
  next
    case (Some idl)
    then have "Option.bind (closePeer env pe t) (startInfoDownloaders env) = Some t'"
      using assms(1) info_downloader(2) [OF t Some] by (simp add: metadataReject_def)
    then show ?thesis by (rule close_then_info_leads [OF _ pe])
  qed
qed (simp add: leads_def)

lemma handleMetadataMessage_leads:
  "handleMetadataMessage env pe m t = Some t' \<Longrightarrow> pe < t_nextPeer t \<Longrightarrow> leads env t t'"
  using metadataData_leads [of env pe "md_Piece m" "md_Data m" t t'] metadataReject_leads [of env pe t t']
    frame_leads [OF frame_metadataRequest, of env t pe "md_Piece m"]
  by (simp add: handleMetadataMessage_def split: if_splits)

section \<open>The dispatch of messages\<close>

lemma handlePeerMessage_leads:
  assumes "handlePeerMessage env pe pm t = Some t'" and pe: "pe < t_nextPeer t"
  shows "leads env t t'"
proof (cases pm)
  case (BlockUploaded len)
  then show ?thesis using assms(1) frame_leads [OF frame_other(10)] by (auto simp: handlePeerMessage_def)
next
  case (FromReader msg)
  have "frame t (at_peer pe (PeerInterested_update (\<lambda>_. False)) t)" by (rule frame_at_peer) simp
  note ni = frame_leads [OF this]
  show ?thesis
  proof (cases msg)
    case (Ext p)
    then show ?thesis using assms FromReader
      by (cases p) (auto simp: handlePeerMessage_def intro: handleExtensionHandshake_leads handleMetadataMessage_leads)
  qed (use assms FromReader ni frame_leads [OF frame_handleInterestedMessage] in
      \<open>auto simp: handlePeerMessage_def intro: handleHaveMessage_leads handleBitfieldMessage_leads handleHaveAllMessage_leads
        handleAllowedFastMessage_leads handleUnchokeMessage_leads handleChokeMessage_leads handleRequestMessage_leads
        handleRejectMessage_leads handleCancelMessage_leads\<close>)
qed

lemma handle_messages_leads:
  "handle_messages env pe ms t = Some t' \<Longrightarrow> pe < t_nextPeer t \<Longrightarrow> leads env t t'"
proof (induction ms arbitrary: t)
  case (Cons m ms)
  then obtain u where u: "handlePeerMessage env pe (FromReader m) t = Some u" "handle_messages env pe ms u = Some t'"
    by (auto split: Option.bind_splits)
  show ?case by (rule leads_then [OF handlePeerMessage_leads [OF u(1) Cons.prems(2)] Cons.prems(2) Cons.IH [OF u(2)]])
qed simp

lemma processQueuedMessages_leads:
  assumes "processQueuedMessages env t = Some t'" shows "leads env t t'"
  using assms unfolding processQueuedMessages_def
proof (rule range_peers_leads, goal_cases)
  case (1 pe u u')
  then obtain v where v: "handle_messages env pe (Messages (t_heap u pe)) u = Some v" "u' = at_peer pe (Messages_update (\<lambda>_. [])) v"
    by auto
  have "frame v u'" unfolding v(2) by (rule frame_at_peer) simp
  with handle_messages_leads [OF v(1) 1(1)] show ?case by (rule leads_frame)
qed

section \<open>Pieces\<close>

lemma frame_waste: "frame t (waste l t)"
  by (simp add: waste_def frame_other(8))

lemma frame_StopSnubTimer: "frame t (at_peer pe StopSnubTimer t)"
  by (rule frame_at_peer) (simp add: StopSnubTimer_def)

lemma pieceComplete_leads:
  assumes "pieceComplete env pe pd t = Some t'" and pe: "pe < t_nextPeer t"
  shows "leads env t t'"
proof -
  from assms(1) obtain u tps pi v where u: "closePieceDownloader env pd t = Some u"
    and p: "t_pieces (at_peer pe StopSnubTimer u) = Some tps"
    and v: "startPieceDownloaderFor env pe ((at_peer pe StopSnubTimer u)\<lparr>t_pieces := Some (tps[pd_Piece pd := pi\<lparr>Writing := True\<rparr>])\<rparr>) = Some v"
    and t': "t' = v\<lparr>suspended := True, writers := writers v @ [\<lparr>pw_generation = t_generation v, pw_Piece = pd_Piece pd,
         pw_Source = pe, pw_Buffer = Buffer pd\<rparr>]\<rparr>"
    by (auto simp: pieceComplete_def Let_def split: Option.bind_splits if_splits)
  have f: "frame u ((at_peer pe StopSnubTimer u)\<lparr>t_pieces := Some (tps[pd_Piece pd := pi\<lparr>Writing := True\<rparr>])\<rparr>)"
    by (rule frame_trans [OF frame_StopSnubTimer frame_pieces]) (simp add: p)
  have "leads env t v"
    by (rule leads_then [OF closePieceDownloader_leads [OF u] pe frame_then [OF f _ startPieceDownloaderFor_leads [OF v]]])
  moreover have "frame v t'" unfolding t' by (rule frame_trans [OF frame_other(5) frame_other(4)])
  ultimately show ?thesis by (rule leads_frame)
qed

lemma handlePieceMessage_leads:
  assumes "handlePieceMessage env pe index bgn data t = Some t'" and pe: "pe < t_nextPeer t"
  shows "leads env t t'"
proof -
  let ?u = "t\<lparr>bytesDownloaded := bytesDownloaded t + int (length data)\<rparr>" and ?w = "waste (int (length data))"
  have fu: "frame t ?u" by (rule frame_other(9))
  have c: "leads env v t'" if "closePeer env pe (?w v) = Some t'" "frame t v" for v
    by (rule frame_leads_trans [OF frame_waste closePeer_leads [OF that(1)]])
       (use pe frame_nextPeer [OF frame_trans [OF that(2) frame_waste], of "int (length data)"] in simp)
  have "closePeer env pe (?w t) = Some t' \<or> closePeer env pe (?w ?u) = Some t' \<or> t' = ?w ?u \<or>
    (\<exists>pd pd' b e. map_of (pieceDownloaders ?u) pe = Some pd \<and> GotBlock b data pd = Some (pd', e) \<and>
      (let v = ?u\<lparr>pieceDownloaders := AList.update pe pd' (pieceDownloaders ?u)\<rparr> in
       requestPieceBlocks env pe pd' v = Some t' \<or> t' = v \<or> pieceComplete env pe pd' v = Some t'))"
    using assms(1) unfolding handlePieceMessage_def Let_def
    by (auto split: if_splits Option.bind_splits option.splits; blast)
  then consider "closePeer env pe (?w t) = Some t'" | "closePeer env pe (?w ?u) = Some t'" | "t' = ?w ?u"
    | pd pd' b e where "map_of (pieceDownloaders ?u) pe = Some pd" "GotBlock b data pd = Some (pd', e)"
      "let v = ?u\<lparr>pieceDownloaders := AList.update pe pd' (pieceDownloaders ?u)\<rparr> in
       requestPieceBlocks env pe pd' v = Some t' \<or> t' = v \<or> pieceComplete env pe pd' v = Some t'"
    by blast
  then show ?thesis
  proof cases
    case 1
    then show ?thesis by (rule c) simp
  next
    case 2
    from frame_leads_trans [OF fu c [OF this fu]] show ?thesis .
  next
    case 3
    show ?thesis unfolding 3 by (rule frame_leads [OF frame_trans [OF fu frame_waste]])
  next
    case 4
    define v where "v = ?u\<lparr>pieceDownloaders := AList.update pe pd' (pieceDownloaders ?u)\<rparr>"
    have "pd_Peer pd' = pd_Peer pd" using GotBlock_frame [OF 4(2)] by simp
    from frame_update_pd [OF 4(1) this] have "frame ?u v" unfolding v_def .
    with fu have f: "frame t v" by (rule frame_trans)
    have m: "map_of (pieceDownloaders v) pe = Some pd'" by (simp add: v_def update_conv')
    from 4(3) have "requestPieceBlocks env pe pd' v = Some t' \<or> t' = v \<or> pieceComplete env pe pd' v = Some t'"
      unfolding Let_def v_def .
    then show ?thesis
    proof (elim disjE)
      assume "requestPieceBlocks env pe pd' v = Some t'"
      from frame_trans [OF f requestPieceBlocks_frame [OF this m refl]] show ?thesis by (rule frame_leads)
    next
      assume "t' = v" then show ?thesis using frame_leads [OF f] by simp
    next
      assume "pieceComplete env pe pd' v = Some t'"
      from frame_then [OF f pe pieceComplete_leads [OF this]] show ?thesis by blast
    qed
  qed
qed

section \<open>Workers\<close>

lemma frame_at_written: "frame t (at_written pw f t)"
  by (auto simp: at_written_def intro: frame_pieces split: option.split)

lemma cancelDownloader_leads: "cancelDownloader env pd t = Some t' \<Longrightarrow> leads env t t'"
  by (rule quits_leads) (use cancelDownloader_quits in blast)

lemma cancel_duplicates_leads: "cancel_duplicates env pes t = Some t' \<Longrightarrow> leads env t t'"
proof (induction pes arbitrary: t)
  case (Cons pe pes)
  then obtain pd u v where d: "map_of (pieceDownloaders t) pe = Some pd" and u: "cancelDownloader env pd t = Some u"
    and v: "startPieceDownloaderFor env pe u = Some v" and r: "cancel_duplicates env pes v = Some t'"
    by (auto split: Option.bind_splits)
  show ?case
  proof (cases "tinv env t")
    case True
    have pe: "pe < t_nextPeer t" using downloading_peer [OF tinv_books [OF True] d] by simp
    have "leads env t v" by (rule leads_then [OF cancelDownloader_leads [OF u] pe startPieceDownloaderFor_leads [OF v]])
    then show ?thesis using Cons.IH [OF r] by (rule leads_trans)
  qed (simp add: leads_def)
qed simp

lemma checkCompletion_leads: "checkCompletion env t = Some (c, t') \<Longrightarrow> leads env t t'"
  unfolding leads_def using checkCompletion_tinv by blast

lemma pieceWritten_leads:
  assumes "pieceWritten env pw t = Some t'" shows "leads env t t'"
proof (cases "tinv env t")
  case t: True
  define u where "u = at_written pw (Done_update (\<lambda>_. True)) t"
  from assms obtain bf bf' v w c x where bf: "t_bitfield u = Some bf"
    and v: "(case t_picker (u\<lparr>t_bitfield := Some bf'\<rparr>) of None \<Rightarrow> Some (u\<lparr>t_bitfield := Some bf'\<rparr>)
      | Some pp \<Rightarrow> Option.bind (RequestedPeers pp (of_nat (pw_Piece pw))) (\<lambda>pes. cancel_duplicates env pes (u\<lparr>t_bitfield := Some bf'\<rparr>))) = Some v"
    and w: "announce_haves (of_nat (pw_Piece pw)) (peers v) v = Some w" and x: "checkCompletion env w = Some (c, x)"
    and r: "(if c then let (ok, t) = writeBitfield env x in
         if \<not> ok then stop env (Some ErrWriteBitfield) t else if stopAfterDownload t then stop env None t else Some t
       else Some x) = Some t'"
    unfolding pieceWritten_def Let_def u_def [symmetric]
    by (auto simp: bind_eq_Some_conv Let_def split: if_splits)
  have f: "frame t (u\<lparr>t_bitfield := Some bf'\<rparr>)" unfolding u_def by (rule frame_trans [OF frame_at_written frame_other(7)])
  have "leads env (u\<lparr>t_bitfield := Some bf'\<rparr>) v"
    using v cancel_duplicates_leads by (auto split: option.splits Option.bind_splits)
  with f have tv: "leads env t v" by (rule frame_leads_trans)
  then have "peers v = []" using t by (simp add: leads_def tinv_def static_ok_def)
  then have "leads env t x" using w checkCompletion_leads [OF x] tv leads_trans by auto
  moreover have "leads env x t'"
    using r frame_leads [OF frame_tick, of env x] leads_trans [OF frame_leads [OF frame_tick] stop_leads]
    by (auto simp: writeBitfield_def Let_def split: if_splits)
  ultimately show ?thesis by (rule leads_trans)
qed (simp add: leads_def)

lemma handlePieceWriteDone_leads:
  assumes "handlePieceWriteDone env pw ok err t = Some t'" and pe: "pw_Source pw < t_nextPeer t"
  shows "leads env t t'"
proof -
  define u where "u = (at_written pw (Writing_update (\<lambda>_. False)) t)\<lparr>suspended := False\<rparr>"
  have f: "frame t u" unfolding u_def by (rule frame_trans [OF frame_at_written frame_other(5)])
  show ?thesis
  proof (cases ok)
    case False
    then obtain v where v: "closePeer env (pw_Source pw) (waste (int (length (pw_Buffer pw))) u) = Some v"
      "startPieceDownloaders env v = Some t'"
      using assms(1) by (auto simp: handlePieceWriteDone_def Let_def u_def split: Option.bind_splits)
    have "leads env t v" by (rule frame_then [OF frame_trans [OF f frame_waste] pe closePeer_leads [OF v(1)]])
    then show ?thesis using startPieceDownloaders_leads [OF v(2)] by (rule leads_trans)
  next
    case True
    then have "(\<exists>e. stop env (Some (ErrPieceWrite e)) u = Some t') \<or> pieceWritten env pw u = Some t'"
      using assms(1) by (auto simp: handlePieceWriteDone_def Let_def u_def split: option.splits)
    then have "leads env u t'" using stop_leads pieceWritten_leads by blast
    with f show ?thesis by (rule frame_leads_trans)
  qed
qed

lemma resume_download_leads:
  assumes "resume_download env t = Some t'" shows "leads env t t'"
proof -
  from assms obtain u v where u: "processQueuedMessages env t = Some u" and v: "startAnnouncers env u = Some v"
    and s: "startPieceDownloaders env v = Some t'"
    by (auto simp: resume_download_def split: Option.bind_splits)
  from leads_trans [OF leads_trans [OF processQueuedMessages_leads [OF u] startAnnouncers_leads [OF v]] startPieceDownloaders_leads [OF s]]
  show ?thesis .
qed

lemma completion_or_resume_leads:
  assumes "completion_or_resume env t = Some t'" shows "leads env t t'"
proof -
  from assms obtain c u where u: "checkCompletion env t = Some (c, u)" and r: "stop env None u = Some t' \<or> resume_download env u = Some t'"
    by (auto simp: completion_or_resume_def split: Option.bind_splits if_splits)
  have "leads env u t'" using r stop_leads resume_download_leads by blast
  with checkCompletion_leads [OF u] show ?thesis by (rule leads_trans)
qed

lemma frame_reset_bitfields: "frame t (reset_bitfields n t)"
proof -
  have "frame t (fold (\<lambda>pe. at_peer pe (pe_Bitfield_update (\<lambda>_. Some (New n)))) pes t)" for pes
  proof (induction pes arbitrary: t)
    case (Cons pe pes)
    have "frame t (at_peer pe (pe_Bitfield_update (\<lambda>_. Some (New n))) t)" by (rule frame_at_peer) simp
    from frame_trans [OF this Cons.IH] show ?case by simp
  qed simp
  then show ?thesis by (simp add: reset_bitfields_def)
qed

lemma handleAllocationDone_leads:
  assumes "handleAllocationDone env wk al t = Some t'" shows "leads env t t'"
  unfolding leads_def
proof
  assume t: "tinv env t"
  have a: "t_allocator t = Some wk" using assms by (auto simp: handleAllocationDone_def split: if_splits)
  then have p: "pieceDownloaders t = []" using idle [OF t] by (auto simp: active_def status_def split: if_splits)
  let ?u = "t\<lparr>t_allocator := None\<rparr>"
  have so: "static_ok ?u" using t by (simp add: tinv_def static_ok_def)
  have u: "tinv env ?u" by (rule idle_flags(1) [OF t p _ _ so]) (simp_all add: core_def)
  show "tinv env t' \<and> t_nextPeer t \<le> t_nextPeer t'"
  proof (cases "al_Failed al")
    case True
    then have "stop env (Some ErrAllocation) ?u = Some t'" using assms a by (simp add: handleAllocationDone_def)
    from stop_leads [OF this] u show ?thesis by (simp add: leads_def)
  next
    case False
    define v where "v = ?u\<lparr>t_files := Some (al_Files al)\<rparr>"
    have fv: "frame ?u v" unfolding v_def by (rule frame_other(13))
    have v: "tinv env v" "pieceDownloaders v = []" "t_nextPeer v = t_nextPeer t"
      using frame_tinv [OF fv u] frame_idle [OF fv] p by (simp_all add: v_def)
    from assms a False obtain info tps where info: "t_info t = Some info" and tps: "NewPieces info (al_Files al) = Some tps"
      by (auto simp: handleAllocationDone_def Let_def split: if_splits Option.bind_splits)
    show ?thesis
    proof (cases "tps = []")
      case True
      then have "stop env (Some ErrNoPieces) v = Some t'" using assms a False info tps
        by (simp add: handleAllocationDone_def Let_def v_def split: if_splits)
      from stop_leads [OF this] v show ?thesis by (simp add: leads_def)
    next
      case ne: False
      let ?w = "v\<lparr>t_pieces := Some tps, t_generation := Suc (t_generation v),
        t_picker := Some (NewPicker tps (EndgameMaxDuplicateDownloads (cfg env)))\<rparr>"
      define w where "w = reset_bitfields (NumPieces info) ?w"
      have sw: "static_ok ?w" using v(1) by (simp add: tinv_def static_ok_def)
      have w0: "tinv env ?w" "pieceDownloaders ?w = []" "t_nextPeer ?w = t_nextPeer v"
        by (rule idle_flags [OF v(1,2) _ _ sw]; simp add: core_def)+
      have fw: "frame ?w w" unfolding w_def by (rule frame_reset_bitfields)
      have w: "tinv env w" "pieceDownloaders w = []" "t_nextPeer w = t_nextPeer t"
        using frame_tinv [OF fw w0(1)] frame_idle [OF fw w0(2)] frame_nextPeer [OF fw] v(3) by simp_all
      have wp: "t_pieces w \<noteq> None" using fw static_simps(10) [of w ?w] by (simp add: frame_def)
      have "(\<exists>tps. completion_or_resume env (w\<lparr>t_pieces := Some tps\<rparr>) = Some t') \<or>
        (\<exists>bf. resume_download env (w\<lparr>t_bitfield := Some bf\<rparr>) = Some t') \<or> startVerifier w = Some t'"
        using assms a False info tps ne unfolding handleAllocationDone_def Let_def
        by (auto simp: w_def v_def split: if_splits option.splits bool.splits Option.bind_splits)
      then consider tps where "completion_or_resume env (w\<lparr>t_pieces := Some tps\<rparr>) = Some t'"
        | bf where "resume_download env (w\<lparr>t_bitfield := Some bf\<rparr>) = Some t'" | "startVerifier w = Some t'" by blast
      then show ?thesis
      proof cases
        case 1
        from frame_leads_trans [OF frame_pieces [OF wp] completion_or_resume_leads [OF 1]] w show ?thesis by (simp add: leads_def)
      next
        case 2
        from frame_leads_trans [OF frame_other(7) resume_download_leads [OF 2]] w show ?thesis by (simp add: leads_def)
      next
        case 3
        from startVerifier_tinv [OF this w(1,2)] w(3) show ?thesis by simp
      qed
    qed
  qed
qed

lemma frame_send_haves: "frame t (send_haves is pe t)"
  by (induction "is" arbitrary: t) (auto intro: frame_trans [OF frame_SendMessage])

end
