(* ===== verification/TorrentProps.thy ===== *)
theory TorrentProps
  imports TorrentRuns
begin

text \<open>
  The states that a run of the torrent's loop reaches, the properties that hold in all of them, and what the
  loop does to uploads, to a stop and to messages that it does not expect.
\<close>

section \<open>Runs\<close>

lemma handleVerificationDone_leads:
  assumes "handleVerificationDone env wk res t = Some t'" shows "leads env t t'"
  unfolding leads_def
proof
  assume t: "tinv env t"
  have a: "t_verifier t = Some wk" using assms by (auto simp: handleVerificationDone_def split: if_splits)
  then have p: "pieceDownloaders t = []" using idle [OF t] by (auto simp: active_def status_def split: if_splits)
  let ?u = "t\<lparr>t_verifier := None\<rparr>"
  have so: "static_ok ?u" using t by (simp add: tinv_def static_ok_def)
  have u: "tinv env ?u" by (rule idle_flags(1) [OF t p _ _ so]) (simp_all add: core_def)
  show "tinv env t' \<and> t_nextPeer t \<le> t_nextPeer t'"
  proof (cases res)
    case None
    then have "stop env (Some ErrVerification) ?u = Some t'" using assms a by (simp add: handleVerificationDone_def)
    from stop_leads [OF this] u show ?thesis by (simp add: leads_def)
  next
    case (Some bf)
    define v where "v tps = (if \<not> All bf then ?u\<lparr>t_bitfield := Some bf, t_pieces := tps, completed := False, completeC_closed := False\<rparr>
      else ?u\<lparr>t_bitfield := Some bf, t_pieces := tps\<rparr>)" for tps
    have v: "tinv env (v tps)" "t_nextPeer (v tps) = t_nextPeer t" for tps
    proof -
      have sv: "static_ok (v tps)" using t by (simp add: v_def tinv_def static_ok_def)
      have "core (v tps) = core t" "t_info (v tps) = t_info t" by (simp_all add: v_def core_def)
      from idle_flags [OF t p this sv] show "tinv env (v tps)" "t_nextPeer (v tps) = t_nextPeer t" by simp_all
    qed
    obtain hs where hs: "bits_of bf (u32_upto (Len bf)) = Some hs"
      using assms a Some by (auto simp: handleVerificationDone_def Let_def split: Option.bind_splits)
    obtain tps where r: "(if doVerify (v tps) then stop env None ((v tps)\<lparr>doVerify := False\<rparr>)
      else Option.bind (range_peers (\<lambda>pe t. updateInterestedState pe (send_haves hs pe t)) (v tps)) (completion_or_resume env)) = Some t'"
    proof (cases "hs = []")
      case True
      from True show ?thesis using assms a Some hs that [of "t_pieces t"]
        by (cases "All bf"; cases "doVerify t"; simp add: handleVerificationDone_def Let_def v_def)
    next
      case False
      then show ?thesis using assms a Some hs that unfolding handleVerificationDone_def Let_def v_def
        by (auto simp: bind_eq_Some_conv)
    qed
    moreover have "\<not> doVerify (v tps)" using v(1) by (simp add: tinv_def static_ok_def)
    ultimately obtain w where w: "range_peers (\<lambda>pe t. updateInterestedState pe (send_haves hs pe t)) (v tps) = Some w"
      "completion_or_resume env w = Some t'" by (auto split: Option.bind_splits)
    have "leads env (v tps) w"
      by (rule range_peers_leads [OF w(1)]) (auto intro: frame_leads frame_trans [OF frame_send_haves frame_updateInterestedState])
    from leads_trans [OF this completion_or_resume_leads [OF w(2)]] v show ?thesis by (simp add: leads_def)
  qed
qed

text \<open>The peer of an event is one that has been connected.\<close>

fun event_ok :: "'t torrent \<Rightarrow> event \<Rightarrow> bool" where
  "event_ok t (EvRamNotify pe) = (pe < t_nextPeer t)"
| "event_ok t (EvPieceWritten pw _ _) = (pw_Source pw < t_nextPeer t)"
| "event_ok t (EvDisconnected pe) = (pe < t_nextPeer t)"
| "event_ok t (EvPiece pe _ _ _) = (pe < t_nextPeer t)"
| "event_ok t (EvMessage pe _) = (pe < t_nextPeer t)"
| "event_ok t _ = True"

lemma run_step_leads:
  assumes "run_step env ev t = Some t'" and "event_ok t ev" shows "leads env t t'"
proof (cases ev)
  case EvStart
  then show ?thesis using assms(1) by (simp add: start_leads)
next
  case EvStop
  then show ?thesis using assms(1) by (simp add: stop_leads)
next
  case (EvAllocatorProgress n)
  then show ?thesis using assms(1) frame_leads [OF frame_other(14)] by auto
next
  case (EvAllocated w al)
  then show ?thesis using assms(1) by (simp add: handleAllocationDone_leads)
next
  case (EvVerifierProgress n)
  then show ?thesis using assms(1) frame_leads [OF frame_other(15)] by auto
next
  case (EvVerified w bf)
  then show ?thesis using assms(1) by (simp add: handleVerificationDone_leads)
next
  case (EvRamNotify pe)
  then obtain i where i: "t_info t = Some i"
    "startSinglePieceDownloader env pe (t\<lparr>ramHeld := ramHeld t + int (unat (PieceLength i))\<rparr>) = Some t'"
    using assms(1) by (auto split: Option.bind_splits)
  show ?thesis unfolding leads_def
  proof
    assume t: "tinv env t"
    have "tinv env (paid env (t\<lparr>ramHeld := ramHeld t + int (unat (PieceLength i))\<rparr>))"
      using t i(1) by (auto simp: paid_def unit_of_def tinv_def books_def dl_ok_def ram_ok_def conn_ok_def static_ok_def active_def status_def keys_def)
    from startSingle_tinv [OF i(2) this] assms(2) EvRamNotify show "tinv env t' \<and> t_nextPeer t \<le> t_nextPeer t'" by simp
  qed
next
  case (EvPieceWritten pw ok err)
  then have "handlePieceWriteDone env pw ok err (t\<lparr>writers := remove1 pw (writers t)\<rparr>) = Some t'" using assms(1) by simp
  from frame_then [OF frame_other(4) _ handlePieceWriteDone_leads [OF this]] assms(2) EvPieceWritten show ?thesis by simp
next
  case (EvDisconnected pe)
  then show ?thesis using assms by (simp add: closePeer_leads)
next
  case (EvPiece pe i b d)
  then show ?thesis using assms by (simp add: handlePieceMessage_leads)
next
  case (EvMessage pe m)
  then show ?thesis using assms by (simp add: handlePeerMessage_leads)
next
  case (EvIncomingStream i)
  then show ?thesis using assms handleNewIncomingStream_leads by auto
next
  case (EvNewPeers addrs)
  then show ?thesis using assms(1) by (simp add: handleNewPeers_leads)
qed

text \<open>A run starts with a new torrent; each step is one event, with its own random choices.\<close>

inductive torrent_reachable :: "'t env \<Rightarrow> 't torrent \<Rightarrow> bool" for env where
  new: "newTorrent2 (bt env) ih info bf stats stopAfter maxAddrs host unchoked optimistic ip = Some t \<Longrightarrow>
    torrent_reachable env t"
| step: "torrent_reachable env t \<Longrightarrow> event_ok t ev \<Longrightarrow> run_step env ev (t\<lparr>t_choices := cs\<rparr>) = Some t' \<Longrightarrow>
    torrent_reachable env t'"

lemma newTorrent2_tinv:
  "newTorrent2 b ih info bf stats stopAfter maxAddrs host unchoked optimistic ip = Some t \<Longrightarrow> tinv env t"
  by (auto simp: newTorrent2_def tinv_def books_def dl_ok_def ram_ok_def conn_ok_def static_ok_def keys_def newPeer_def
      split: if_splits option.splits)

lemma event_ok_choices [simp]: "event_ok (t\<lparr>t_choices := cs\<rparr>) ev = event_ok t ev"
  by (cases ev) simp_all

lemma reachable_tinv: "torrent_reachable env t \<Longrightarrow> tinv env t"
proof (induction rule: torrent_reachable.induct)
  case (step t ev cs t')
  have "leads env (t\<lparr>t_choices := cs\<rparr>) t'" using run_step_leads [OF step(3)] step(2) by simp
  with frame_other(2) have "leads env t t'" by (rule frame_leads_trans)
  then show ?case using step.IH by (simp add: leads_def)
qed (rule newTorrent2_tinv)

section \<open>What stop leaves behind\<close>

lemma connected_iff:
  assumes "books env t"
  shows "map_of (connectedPeers t) k = Some pe \<longleftrightarrow> pe < t_nextPeer t \<and> \<not> closed (t_heap t pe) \<and> pe_ID (t_heap t pe) = k"
proof -
  have d: "distinct (map fst (connectedPeers t))" using assms by (simp add: books_def conn_ok_def)
  show ?thesis using assms map_of_eq_Some_iff [OF d, of k pe] unfolding books_def conn_ok_def by auto
qed

text \<open>Every peer whose key is visited is closed.\<close>

lemma for_peers_close:
  assumes "for_peers (closePeer env) ks t = Some t'" and "books env t"
  shows "books env t' \<and> quits t t' \<and> (\<forall>pe<t_nextPeer t. pe_ID (t_heap t pe) \<in> set ks \<longrightarrow> closed (t_heap t' pe))"
  using assms
proof (induction ks arbitrary: t)
  case (Cons k ks)
  show ?case
  proof (cases "map_of (connectedPeers t) k")
    case None
    then have c: "closed (t_heap t pe)" if "pe < t_nextPeer t" "pe_ID (t_heap t pe) = k" for pe
      using that connected_iff [OF Cons.prems(2), of k pe] by auto
    have "books env t' \<and> quits t t' \<and> (\<forall>pe<t_nextPeer t. pe_ID (t_heap t pe) \<in> set ks \<longrightarrow> closed (t_heap t' pe))"
      using Cons.IH [of t] Cons.prems None by simp
    then show ?thesis using c by (auto simp: quits_def)
  next
    case (Some p)
    then obtain u where u: "closePeer env p t = Some u" "for_peers (closePeer env) ks u = Some t'"
      using Cons.prems(1) by (auto split: Option.bind_splits)
    have p: "p < t_nextPeer t" "pe_ID (t_heap t p) = k" using connected_iff [OF Cons.prems(2), of k p] Some by auto
    note c = closePeer_books [OF u(1) Cons.prems(2) p(1)]
    have r: "books env t' \<and> quits u t' \<and> (\<forall>pe<t_nextPeer u. pe_ID (t_heap u pe) \<in> set ks \<longrightarrow> closed (t_heap t' pe))"
      by (rule Cons.IH [OF u(2) c(1)])
    have n: "t_nextPeer t \<le> t_nextPeer u" using c(2) by (simp add: quits_def)
    have "closed (t_heap t' pe)" if "pe < t_nextPeer t" "pe_ID (t_heap t pe) \<in> set (k # ks)" for pe
    proof (cases "pe_ID (t_heap t pe) = k")
      case True
      then have "pe = p \<or> closed (t_heap t pe)" using connected_iff [OF Cons.prems(2), of k pe] Some that(1) by auto
      then have "closed (t_heap u pe)" using c(2,3) that(1) by (auto simp: quits_def)
      then show ?thesis using r that(1) n by (auto simp: quits_def)
    next
      case False
      then show ?thesis using r that n c(2) by (auto simp: quits_def)
    qed
    then show ?thesis using r c(2) quits_trans by blast
  qed
qed simp

lemma stopPeers_all:
  assumes "stopPeers env t = Some t'" and "books env t"
  shows "books env t' \<and> quits t t' \<and> (\<forall>pe<t_nextPeer t. closed (t_heap t' pe))"
proof -
  obtain ks cs where s: "shuffle (t_choices t) (map fst (connectedPeers t)) = (ks, cs)" by fastforce
  then have ks: "set ks = fst ` set (connectedPeers t)" using set_shuffle [of "t_choices t" "map fst (connectedPeers t)"] by simp
  let ?u = "t\<lparr>t_choices := cs\<rparr>"
  note q = frame_quits [OF frame_other(2) assms(2), of cs]
  have "for_peers (closePeer env) ks ?u = Some t'" using assms(1) s by (simp add: stopPeers_def range_peers_def)
  from for_peers_close [OF this conjunct1 [OF q]]
  have r: "books env t' \<and> quits ?u t' \<and> (\<forall>pe<t_nextPeer t. pe_ID (t_heap t pe) \<in> set ks \<longrightarrow> closed (t_heap t' pe))" by simp
  have "closed (t_heap t' pe)" if "pe < t_nextPeer t" for pe
  proof (cases "closed (t_heap t pe)")
    case True
    then show ?thesis using r that by (auto simp: quits_def)
  next
    case False
    then have "map_of (connectedPeers t) (pe_ID (t_heap t pe)) = Some pe" using connected_iff [OF assms(2)] that by simp
    then have "pe_ID (t_heap t pe) \<in> set ks" unfolding ks by (metis fst_conv image_eqI map_of_SomeD)
    then show ?thesis using r that by simp
  qed
  then show ?thesis using r q quits_trans by blast
qed

lemma stop_result:
  assumes "torrent_reachable env t" and "run_step env EvStop t = Some t'" and "status t \<noteq> Stopped"
    and "has_ram (cfg env)"
  shows "status t' = Stopped" and "\<forall>pe<t_nextPeer t. closed (t_heap t' pe)"
    and "pieceDownloaders t' = [] \<and> infoDownloaders t' = [] \<and> ramHeld t' = 0"
    and "t_files t' = None \<and> t_pieces t' = None \<and> t_picker t' = None \<and> t_allocator t' = None \<and> t_verifier t' = None"
    and "peerByTime (addrList t') = []"
proof -
  have t: "tinv env t" by (rule reachable_tinv [OF assms(1)])
  have ns: "status t \<noteq> Stopping" using t by (simp add: tinv_def static_ok_def status_def)
  have "stop env None t = Some t'" using assms(2) by simp
  from stop_parts [OF this assms(3) ns] obtain t1 t2 t3 t4 where
    s: "stopPeers env (t\<lparr>lastError := None\<rparr>) = Some t1" "stopPiecedownloaders env t1 = Some t2"
      "t3 = (if t_bitfield (stopInfoDownloaders t2) \<noteq> None then tick (stopInfoDownloaders t2) else stopInfoDownloaders t2)" and
    h: "handleStopped env ((stopVerifier (stopAllocator (closeData t3)))\<lparr>stopping := True, stopC_closed := True\<rparr>) = Some t4" and
    t': "t' = t4\<lparr>addrList := al_Reset (bt env) (addrList t4)\<rparr>" by blast
  note i = stop_idle [OF s t]
  let ?u = "(stopVerifier (stopAllocator (closeData t3)))\<lparr>stopping := True, stopC_closed := True, errC := False\<rparr>"
  have "\<not> doVerify t3" using i(1) by (simp add: tinv_def static_ok_def)
  then have t4: "t4 = ?u" using h by (simp add: handleStopped_def stopVerifier_def stopAllocator_def closeData_def)
  have heap: "t_heap t' = t_heap t3" "ramHeld t' = ramHeld t3" by (simp_all add: t' t4 stopVerifier_def stopAllocator_def closeData_def)
  show "status t' = Stopped" by (simp add: t' t4 status_def stopVerifier_def stopAllocator_def closeData_def)
  note q0 = frame_quits [OF frame_other(6) tinv_books [OF t], of None]
  note c = stopPeers_all [OF s(1) conjunct1 [OF q0]]
  note q2 = stopPiecedownloaders_quits [OF s(2) conjunct1 [OF c]]
  have "quits t2 t3" using stopInfoDownloaders_quits [of env t2] q2 frame_quits [OF frame_tick [of "stopInfoDownloaders t2"], of env] s(3)
    quits_trans by (auto split: if_splits)
  then have "quits t1 t3" using q2 quits_trans by blast
  then show "\<forall>pe<t_nextPeer t. closed (t_heap t' pe)" using c unfolding heap by (auto simp: quits_def)
  have "ramHeld t3 = 0" using i(1,2) assms(4) by (auto simp: tinv_def books_def ram_ok_def split: option.splits)
  then show "pieceDownloaders t' = [] \<and> infoDownloaders t' = [] \<and> ramHeld t' = 0"
    using i(2,4) heap by (simp add: t' t4 stopVerifier_def stopAllocator_def closeData_def)
  show "t_files t' = None \<and> t_pieces t' = None \<and> t_picker t' = None \<and> t_allocator t' = None \<and> t_verifier t' = None"
    by (simp add: t' t4 stopVerifier_def stopAllocator_def closeData_def)
  show "peerByTime (addrList t') = []" by (simp add: t' al_Reset_def)
qed

text \<open>
  C2: A stop closes every peer there was, every download and the data, gives all memory back and
  forgets the addresses; the torrent is then \<open>Stopped\<close>.  This is about the peers there were before the stop: each \<open>closePeer\<close> dials
  addresses that are still in the list, and the peers reached by these are new ones, which the stop need not close.
\<close>

theorem stop_closes_everything:
  assumes "torrent_reachable env t" and "run_step env EvStop t = Some t'" and "status t \<noteq> Stopped"
    and "has_ram (cfg env)"
  shows "status t' = Stopped \<and> (\<forall>pe<t_nextPeer t. closed (t_heap t' pe)) \<and>
    pieceDownloaders t' = [] \<and> infoDownloaders t' = [] \<and> ramHeld t' = 0 \<and>
    t_files t' = None \<and> t_pieces t' = None \<and> t_picker t' = None \<and> t_allocator t' = None \<and> t_verifier t' = None \<and>
    peerByTime (addrList t') = []"
  using stop_result [OF assms] by blast

section \<open>The invariants of a run\<close>

text \<open>
  C1: In every state of a run, the memory held is that of one piece for each download, each download has its own peer, whose
  flag \<open>Downloading\<close> says so, and there are downloads only while the torrent is \<open>Downloading\<close>, with its pieces and its picker.
\<close>

theorem downloads_are_accounted:
  assumes "torrent_reachable env t"
  shows "(has_ram (cfg env) \<longrightarrow>
      ramHeld t = (case t_info t of None \<Rightarrow> 0 | Some i \<Rightarrow> int (unat (PieceLength i)) * int (length (pieceDownloaders t)))) \<and>
    distinct (map fst (pieceDownloaders t)) \<and> (\<forall>(pe, pd)\<in>set (pieceDownloaders t). pd_Peer pd = pe) \<and>
    (Downloading (t_heap t pe) \<longleftrightarrow> map_of (pieceDownloaders t) pe \<noteq> None) \<and>
    (pieceDownloaders t \<noteq> [] \<longrightarrow> status t = Downloading' \<and> t_pieces t \<noteq> None \<and> t_picker t \<noteq> None) \<and>
    (infoDownloaders t \<noteq> [] \<longrightarrow> t_info t = None)"
proof -
  have t: "tinv env t" by (rule reachable_tinv [OF assms])
  then have d: "dl_ok t" "ram_ok env t" by (simp_all add: tinv_def books_def)
  have "has_ram (cfg env) \<longrightarrow> ramHeld t =
      (case t_info t of None \<Rightarrow> 0 | Some i \<Rightarrow> int (unat (PieceLength i)) * int (length (pieceDownloaders t)))"
    using d(2) by (simp add: ram_ok_def split: option.splits)
  moreover have "distinct (map fst (pieceDownloaders t)) \<and> (\<forall>(pe, pd)\<in>set (pieceDownloaders t). pd_Peer pd = pe)"
    "Downloading (t_heap t pe) \<longleftrightarrow> map_of (pieceDownloaders t) pe \<noteq> None" "infoDownloaders t \<noteq> [] \<longrightarrow> t_info t = None"
    using d(1) in_keys [of t pe] by (auto simp: dl_ok_def keys_def)
  ultimately show ?thesis using t by (simp add: tinv_def active_def)
qed

text \<open>
  C3: In every state of a run, the connected peers are exactly the peers that are not closed, each under its own id; the
  torrent is never seen \<open>Stopping\<close>, and the peers that are to be told about new pieces are none at all. The comment on
  \<open>Stopping\<close> in torrent_status.go says otherwise: that it is the status from \<open>Stop()\<close> until the trackers have responded. The code
  of today announces nothing: \<open>stop\<close> sets \<open>stopping\<close> and in the same handler \<open>handleStopped\<close> sets \<open>errC\<close> to nil, which \<open>status\<close> tests
  first, so that a stopped torrent is \<open>Stopped\<close> at once. The second conjunct shows the comment to be wrong, and the last one that
  \<open>announce_haves\<close> loops over a list that is never filled.
\<close>

theorem connected_peers_are_open:
  assumes "torrent_reachable env t"
  shows "(map_of (connectedPeers t) k = Some pe \<longleftrightarrow> pe < t_nextPeer t \<and> \<not> closed (t_heap t pe) \<and> pe_ID (t_heap t pe) = k) \<and>
    status t \<noteq> Stopping \<and> announce_haves i (peers t) t = Some t"
proof -
  have t: "tinv env t" by (rule reachable_tinv [OF assms])
  then have "static_ok t" by (simp add: tinv_def)
  then have "status t \<noteq> Stopping" "announce_haves i (peers t) t = Some t" by (simp_all add: static_ok_def status_def)
  then show ?thesis using connected_iff [OF tinv_books [OF t]] by blast
qed

section \<open>Closing twice\<close>

lemma closePeer_closed: "closed (t_heap t pe) \<Longrightarrow> closePeer env pe t = None"
  by (simp add: closePeer_def Close_def)

text \<open>
  C12: A corrupt piece whose peer has disconnected before the piece was checked ends in a panic: the peer is closed a second time.
\<close>

theorem corrupt_piece_of_closed_peer_panics:
  assumes "closed (t_heap t (pw_Source pw))"
  shows "run_step env (EvPieceWritten pw False err) t = None"
proof -
  have "closed (t_heap (waste l ((at_written pw f (t\<lparr>writers := w\<rparr>))\<lparr>suspended := False\<rparr>)) (pw_Source pw))" for l f w
    using assms by (simp add: waste_def at_written_def split: option.split)
  from closePeer_closed [OF this] show ?thesis by (simp add: handlePieceWriteDone_def Let_def)
qed

section \<open>Uploads\<close>

text \<open>
  C4: A peer that is still connected after its request gets the piece only if the piece is verified, the end of the range,
  computed in 32 bits, is inside the piece, and the peer is not choked or was allowed the piece; otherwise it gets a reject or
  nothing. The sum \<open>Begin + Length\<close> may wrap around in the code: the range served is inside the piece unless the sum of the two
  numbers reaches 2^32, and the next property shows what happens then.
\<close>

theorem uploads_are_verified:
  assumes "torrent_reachable env t" and "pe < t_nextPeer t" and "run_step env (EvMessage pe (FromReader (Request r))) t = Some t'"
    and "\<not> closed (t_heap t' pe)"
  shows "t' = t \<or> t' = SendMessage_to (Reject r) pe t \<or>
    (t' = at_peer pe (send (SendPiece r (unat (r_Index r)))) t \<and>
     (\<exists>tps. t_pieces t = Some tps \<and> unat (r_Index r) < length tps \<and> Done (tps ! unat (r_Index r)) \<and>
       unat (r_Begin r + r_Length r) \<le> unat (p_Length (tps ! unat (r_Index r))) \<and>
       (unat (r_Begin r) + unat (r_Length r) \<le> unat (p_Length (tps ! unat (r_Index r))) \<or>
        2 ^ 32 \<le> unat (r_Begin r) + unat (r_Length r))) \<and>
     (ClientChoking (t_heap t pe) \<longrightarrow> FastEnabled (t_heap t pe) \<and> HasPiece (SentAllowedFast (t_heap t pe)) (unat (r_Index r))))"
proof -
  have b: "books env t" by (rule tinv_books [OF reachable_tinv [OF assms(1)]])
  have h: "handleRequestMessage env pe r t = Some t'" using assms(3) by (simp add: handlePeerMessage_def)
  have nc: "closePeer env pe t \<noteq> Some t'" using closePeer_books(3) [OF _ b assms(2)] assms(4) by blast
  have s: "unat (r_Begin r) + unat (r_Length r) \<le> l \<or> 2 ^ 32 \<le> unat (r_Begin r) + unat (r_Length r)"
    if "unat (r_Begin r + r_Length r) \<le> l" for l
    using that by (cases "unat (r_Begin r) + unat (r_Length r) < 2 ^ 32") (auto simp: unat_word_ariths)
  show ?thesis using h nc unfolding handleRequestMessage_def sendReject_def sendPiece_def
    by (auto simp: not_less word_le_nat_alt dest: s split: if_splits Option.bind_splits)
qed

text \<open>
  C13: The check of the range is done in 32 bits: a request whose end wraps around passes it and is served, although it begins
  far outside the piece.
\<close>

theorem wrapped_request_is_served:
  assumes "t_pieces t = Some tps" and "t_bitfield t = Some bf" and "t_info t = Some info" and "r_Index r < NumPieces info"
    and "unat (r_Index r) < length tps" and "Done (tps ! unat (r_Index r))" and "\<not> ClientChoking (t_heap t pe)"
    and "2 ^ 32 \<le> unat (r_Begin r) + unat (r_Length r)"
    and "unat (r_Begin r) + unat (r_Length r) - 2 ^ 32 \<le> unat (p_Length (tps ! unat (r_Index r)))"
  shows "run_step env (EvMessage pe (FromReader (Request r))) t = Some (at_peer pe (send (SendPiece r (unat (r_Index r)))) t)"
proof -
  have "unat (r_Begin r + r_Length r) = unat (r_Begin r) + unat (r_Length r) - 2 ^ 32"
    using assms(8) unsigned_less [of "r_Begin r", where 'a = nat] unsigned_less [of "r_Length r", where 'a = nat]
    by (simp add: unat_word_ariths mod_if)
  then show ?thesis using assms
    by (simp add: handlePeerMessage_def handleRequestMessage_def no_info_def sendPiece_def not_le word_le_nat_alt word_less_nat_alt)
qed

section \<open>Dialling\<close>

lemma addrList_at_peer [simp]: "addrList (at_peer pe f t) = addrList t" "connectedPeers (at_peer pe f t) = connectedPeers t"
  by (simp_all add: at_peer_def)

lemma addrList_addPeer: "addrList (addPeer env i src t) = addrList t"
  by (simp add: addPeer_def startPeer_def sendFirstMessage_def SendMessage_to_def Let_def split: option.split)

lemma connected_addPeer: "connectedPeers (addPeer env i src t) = AList.update i (t_nextPeer t) (connectedPeers t)"
  by (simp add: addPeer_def startPeer_def sendFirstMessage_def SendMessage_to_def Let_def split: option.split)

lemma dial_addr_fields:
  "addrList (dial_addr env addr src t) = addrList t" "length (connectedPeers (dial_addr env addr src t)) \<le> Suc (length (connectedPeers t))"
proof -
  have "length (AList.update k v xs) \<le> Suc (length xs)" for k :: string and v :: ptr and xs
    by (induction xs) auto
  then show "addrList (dial_addr env addr src t) = addrList t" "length (connectedPeers (dial_addr env addr src t)) \<le> Suc (length (connectedPeers t))"
    by (simp_all add: dial_addr_def addrList_addPeer connected_addPeer tick_def)
qed

lemma dial_loop_ends:
  assumes bt: "btree_ok (bt env) items" and "al_inv items (addrList t)"
  shows "\<exists>t'. dial_loop env t = Some t' \<and> al_inv items (addrList t') \<and>
    (MaxPeerDial (cfg env) \<le> int (length (connectedPeers t')) \<or> live (addrList t') = {}) \<and>
    int (length (connectedPeers t')) \<le> max (int (length (connectedPeers t))) (MaxPeerDial (cfg env))"
  using assms(2)
proof (induction "card (live (addrList t))" arbitrary: t rule: less_induct)
  case less
  show ?case
  proof (cases "int (length (connectedPeers t)) < MaxPeerDial (cfg env)")
    case False
    then have "dial_loop env t = Some t" by (subst dial_loop.simps) simp
    then show ?thesis using less.prems False by auto
  next
    case room: True
    obtain r al where p: "Pop (bt env) (addrList t) = Some (r, al)" "al_inv items al" and
      c: "if dom (items (peerByPriority (addrList t))) = {} then r = None \<and> live al = live (addrList t)
        else \<exists>x\<in>live (addrList t). r = Some (pr (al_store (addrList t) x), pa_source (al_store (addrList t) x)) \<and>
          live al = live (addrList t) - {x}"
      using Pop_ok [OF bt less.prems] by (metis (no_types, lifting))
    show ?thesis
    proof (cases "dom (items (peerByPriority (addrList t))) = {}")
      case True
      then have "card (live (addrList t)) = 0" using card_live [OF less.prems] by simp
      then have e: "live al = {}" using c True finite_live [of "addrList t"] by (simp add: card_eq_0_iff)
      have "dial_loop env t = Some (t\<lparr>addrList := al\<rparr>)" using room p c True by (subst dial_loop.simps) simp
      then show ?thesis using p(2) e by auto
    next
      case False
      then obtain x where x: "x \<in> live (addrList t)" "live al = live (addrList t) - {x}" and
        r: "r = Some (pr (al_store (addrList t) x), pa_source (al_store (addrList t) x))" using c by auto
      let ?u = "dial_addr env (pr (al_store (addrList t) x)) (pa_source (al_store (addrList t) x)) (t\<lparr>addrList := al\<rparr>)"
      have d: "dial_loop env t = dial_loop env ?u" using room p r by (subst dial_loop.simps) simp
      have "card (live (addrList ?u)) < card (live (addrList t))"
        unfolding dial_addr_fields(1) using x psubset_card_mono [of "live (addrList t)" "live al"] finite_live [of "addrList t"] by auto
      from less.hyps [OF this] have "\<exists>t'. dial_loop env ?u = Some t' \<and> al_inv items (addrList t') \<and>
        (MaxPeerDial (cfg env) \<le> int (length (connectedPeers t')) \<or> live (addrList t') = {}) \<and>
        int (length (connectedPeers t')) \<le> max (int (length (connectedPeers ?u))) (MaxPeerDial (cfg env))"
        using p(2) by (simp add: dial_addr_fields(1))
      moreover have "length (connectedPeers ?u) \<le> Suc (length (connectedPeers t))"
        using dial_addr_fields(2) [of env "pr (al_store (addrList t) x)" "pa_source (al_store (addrList t) x)" "t\<lparr>addrList := al\<rparr>"] by simp
      then have "int (length (connectedPeers ?u)) \<le> MaxPeerDial (cfg env)" using room by linarith
      ultimately show ?thesis unfolding d by (simp add: max_absorb2) (metis max.absorb2 max.cobounded2 order_trans)
    qed
  qed
qed

text \<open>
  C11: Dialling ends, without a panic: it returns when it has as many connections as it may dial, or no address is left, and it never
  goes over the limit on its own.
\<close>

theorem dialling_ends:
  assumes "btree_ok (bt env) items" and "al_inv items (addrList t)" and "\<not> completed t"
  shows "\<exists>t'. dialAddresses env t = Some t' \<and> al_inv items (addrList t') \<and>
    (MaxPeerDial (cfg env) \<le> int (length (connectedPeers t')) \<or> live (addrList t') = {}) \<and>
    int (length (connectedPeers t')) \<le> max (int (length (connectedPeers t))) (MaxPeerDial (cfg env))"
  using dial_loop_ends [OF assms(1,2)] assms(3) by (simp add: dialAddresses_def)

section \<open>A run\<close>

text \<open>Events in a row, with the pseudo random choices that each of them makes.\<close>

fun run_events :: "'t env \<Rightarrow> event list \<Rightarrow> 't torrent \<Rightarrow> 't torrent option" where
  "run_events env [] t = Some t"
| "run_events env (ev # evs) t =
     (if event_ok t ev then Option.bind (run_step env ev (t\<lparr>t_choices := []\<rparr>)) (run_events env evs) else None)"

lemma run_events_reachable: "torrent_reachable env t \<Longrightarrow> run_events env evs t = Some t' \<Longrightarrow> torrent_reachable env t'"
  by (induction evs arbitrary: t) (auto split: if_splits Option.bind_splits intro: torrent_reachable.step)

declare piece_loop.simps [code] id_request_loop.simps [code] dial_loop.simps [code] info_loop.simps [code]

text \<open>A torrent of two pieces whose files are new: it starts, allocates, a peer connects and has everything.\<close>

definition sample_env :: "item list env" where
  "sample_env = \<lparr>bt = alist_tree, cfg = \<lparr>MaxPeerDial = 2, MaxRequestsIn = 10, MaxRequestsOut = 10, DefaultRequestsOut = 5,
     ParallelMetadataDownloads = 1, EndgameMaxDuplicateDownloads = 2, has_ram = True\<rparr>,
     sha1 = (\<lambda>_. replicate 20 0), decode_info = (\<lambda>_. None), MaxPieces = 100, yourip = '''', now = int, NewStream = (\<lambda>_. False),
     FindProviders = (\<lambda>_. None), ram_Request = (\<lambda>_. True), db_ok = (\<lambda>_. True), pool_data = (\<lambda>_ _. 0)\<rparr>"

definition sample_new :: "item list torrent" where
  "sample_new = the (newTorrent2 alist_tree (replicate 20 0) (Some sample_info) None (0, 0, 0) False 10 (sample_addr ''me'' 9) 2 1 '''')"

definition sample_alloc :: allocation where
  "sample_alloc = \<lparr>al_Files = [\<lparr>Storage = 1, af_Name = ''a''\<rparr>, \<lparr>Storage = 2, af_Name = ''b''\<rparr>], HasExisting = False,
     HasMissing = True, al_Failed = False\<rparr>"

definition sample_events :: "event list" where
  "sample_events = [EvStart, EvAllocated 0 sample_alloc, EvIncomingStream ''p'', EvMessage 0 (FromReader HaveAll)]"

lemma sample_new: "newTorrent2 (bt sample_env) (replicate 20 0) (Some sample_info) None (0, 0, 0) False 10 (sample_addr ''me'' 9) 2 1 '''' =
    Some sample_new"
  by (simp add: sample_new_def newTorrent2_def sample_env_def)

lemma sample_reachable: "run_events sample_env evs sample_new = Some t \<Longrightarrow> torrent_reachable sample_env t"
  by (rule run_events_reachable [OF torrent_reachable.new [OF sample_new]])

lemma sample_bt: "bt sample_env = alist_tree"
  by (simp add: sample_env_def)

text \<open>What the run leads to: one download, then its piece written and verified.\<close>

lemma sample_run:
  "map_option (\<lambda>t. (status t, ramHeld t, map fst (pieceDownloaders t), Downloading (t_heap t 0), map_of (connectedPeers t) ''p'', t_nextPeer t))
     (run_events sample_env sample_events sample_new) = Some (Downloading', 4, [0], True, Some 0, 1)"
  by code_simp

theorem stop_closes_everything_witness:
  "\<exists>t t'. run_events sample_env sample_events sample_new = Some t \<and> run_step sample_env EvStop t = Some t' \<and>
     status t = Downloading' \<and> status t' = Stopped \<and> \<not> closed (t_heap t 0) \<and> closed (t_heap t' 0) \<and> ramHeld t = 4 \<and> ramHeld t' = 0"
proof -
  have "map_option (\<lambda>t. (closed (t_heap t 0), run_step sample_env EvStop t = None)) (run_events sample_env sample_events sample_new)
      = Some (False, False)"
    by code_simp
  then obtain t t' where t: "run_events sample_env sample_events sample_new = Some t" "run_step sample_env EvStop t = Some t'"
    "\<not> closed (t_heap t 0)" by auto
  then have s: "status t = Downloading'" "ramHeld t = 4" "t_nextPeer t = 1" using sample_run by simp_all
  have "has_ram (cfg sample_env)" by (simp add: sample_env_def)
  from stop_closes_everything [OF sample_reachable [OF t(1)] t(2) _ this] s
  have "status t' = Stopped" "closed (t_heap t' 0)" "ramHeld t' = 0" by simp_all
  then show ?thesis using t s by blast
qed

theorem downloads_are_accounted_witness:
  "\<exists>t. run_events sample_env sample_events sample_new = Some t \<and> pieceDownloaders t \<noteq> [] \<and> Downloading (t_heap t 0) \<and>
     status t = Downloading' \<and> ramHeld t = 4"
proof -
  obtain t where t: "run_events sample_env sample_events sample_new = Some t" "map fst (pieceDownloaders t) = [0]" "ramHeld t = 4"
    using sample_run by auto
  have "map_of (pieceDownloaders t) 0 \<noteq> None" using t(2) by (auto simp: map_of_eq_None_iff simp flip: set_map)
  then show ?thesis using downloads_are_accounted [OF sample_reachable [OF t(1)], of 0] t by auto
qed

theorem connected_peers_are_open_witness:
  "\<exists>t. run_events sample_env sample_events sample_new = Some t \<and> \<not> closed (t_heap t 0) \<and> pe_ID (t_heap t 0) = ''p'' \<and> status t \<noteq> Stopping"
proof -
  obtain t where t: "run_events sample_env sample_events sample_new = Some t" "map_of (connectedPeers t) ''p'' = Some 0"
    using sample_run by auto
  then show ?thesis using connected_peers_are_open [OF sample_reachable [OF t(1)], of "''p''" 0] by auto
qed

theorem corrupt_piece_of_closed_peer_panics_witness:
  "\<exists>t. run_events sample_env (sample_events @ [EvPiece 0 0 0 [1, 2, 3, 4], EvDisconnected 0]) sample_new = Some t \<and>
     length (writers t) = 1 \<and> run_step sample_env (EvPieceWritten (hd (writers t)) False None) t = None"
proof -
  have "map_option (\<lambda>t. (length (writers t), pw_Source (hd (writers t)), closed (t_heap t 0)))
      (run_events sample_env (sample_events @ [EvPiece 0 0 0 [1, 2, 3, 4], EvDisconnected 0]) sample_new) = Some (1, 0, True)"
    by code_simp
  then obtain t where "run_events sample_env (sample_events @ [EvPiece 0 0 0 [1, 2, 3, 4], EvDisconnected 0]) sample_new = Some t"
    "length (writers t) = 1" "closed (t_heap t (pw_Source (hd (writers t))))" by auto
  then show ?thesis using corrupt_piece_of_closed_peer_panics by blast
qed

definition sample_upload :: "event list" where
  "sample_upload = sample_events @ [EvPiece 0 0 0 [1, 2, 3, 4],
     EvPieceWritten \<lparr>pw_generation = 1, pw_Piece = 0, pw_Source = 0, pw_Buffer = [1, 2, 3, 4]\<rparr> True None]"

definition sample_request :: "u32 \<Rightarrow> request" where
  "sample_request b = \<lparr>r_Index = 0, r_Begin = b, r_Length = 3\<rparr>"

text \<open>The first piece is now on disk, so its bytes 1 to 3 are served.\<close>

theorem uploads_are_verified_witness:
  "\<exists>t. run_events sample_env sample_upload sample_new = Some t \<and> pieceDownloaders t \<noteq> [] \<and>
     run_step sample_env (EvMessage 0 (FromReader (Request (sample_request 1)))) t = Some (at_peer 0 (send (SendPiece (sample_request 1) 0)) t) \<and>
     (\<exists>tps. t_pieces t = Some tps \<and> Done (tps ! 0))"
proof -
  have "map_option (\<lambda>t. (pieceDownloaders t = [], t_nextPeer t, map_option (\<lambda>u. (closed (t_heap u 0), length (outbox (t_heap u 0)) - length (outbox (t_heap t 0)),
        last (outbox (t_heap u 0))))
      (run_step sample_env (EvMessage 0 (FromReader (Request (sample_request 1)))) t)))
      (run_events sample_env sample_upload sample_new) = Some (False, 1, Some (False, 1, SendPiece (sample_request 1) 0))"
    by code_simp
  then obtain t u where t: "run_events sample_env sample_upload sample_new = Some t" "pieceDownloaders t \<noteq> []" "t_nextPeer t = 1"
    "run_step sample_env (EvMessage 0 (FromReader (Request (sample_request 1)))) t = Some u" "\<not> closed (t_heap u 0)"
    "length (outbox (t_heap u 0)) - length (outbox (t_heap t 0)) = 1" "last (outbox (t_heap u 0)) = SendPiece (sample_request 1) 0"
    by auto
  from uploads_are_verified [OF sample_reachable [OF t(1)] _ t(4,5)] t(3)
  have "u = t \<or> u = SendMessage_to (Reject (sample_request 1)) 0 t \<or>
    u = at_peer 0 (send (SendPiece (sample_request 1) (unat (r_Index (sample_request 1))))) t \<and>
    (\<exists>tps. t_pieces t = Some tps \<and> Done (tps ! unat (r_Index (sample_request 1))))" by auto
  moreover have "u \<noteq> t" using t(6) by auto
  moreover have "u \<noteq> SendMessage_to (Reject (sample_request 1)) 0 t"
    using t(6,7) by (auto simp: SendMessage_to_def at_peer_def send_def split: if_splits)
  ultimately show ?thesis using t by (auto simp: sample_request_def)
qed

theorem wrapped_request_is_served_witness:
  "\<exists>t. run_events sample_env sample_upload sample_new = Some t \<and>
     run_step sample_env (EvMessage 0 (FromReader (Request (sample_request 4294967295)))) t =
       Some (at_peer 0 (send (SendPiece (sample_request 4294967295) 0)) t)"
proof -
  have "map_option (\<lambda>t. (map_option (map (\<lambda>p. (Done p, p_Length p))) (t_pieces t), t_bitfield t = None, map_option NumPieces (t_info t),
        ClientChoking (t_heap t 0)))
      (run_events sample_env sample_upload sample_new) = Some (Some [(True, 4), (False, 3)], False, Some 2, False)"
    by code_simp
  then obtain t tps bf info where t: "run_events sample_env sample_upload sample_new = Some t" "t_pieces t = Some tps"
    "map (\<lambda>p. (Done p, p_Length p)) tps = [(True, 4), (False, 3)]" "t_bitfield t = Some bf" "t_info t = Some info" "NumPieces info = 2"
    "\<not> ClientChoking (t_heap t 0)" by auto
  then obtain p q where "tps = [p, q]" "Done p" "p_Length p = 4" by auto
  then show ?thesis
    using wrapped_request_is_served [OF t(2,4,5), of "sample_request 4294967295" 0 sample_env] t(1,6,7)
    by (simp add: sample_request_def)
qed

theorem dialling_ends_witness:
  "\<exists>al t'. al_Len alist_tree al = 1 \<and> dialAddresses sample_env (sample_new\<lparr>addrList := al\<rparr>) = Some t' \<and>
     (2 \<le> length (connectedPeers t') \<or> live (addrList t') = {})"
proof -
  have mx: "maxItems sample_list = 1" by (simp add: sample_list_def NewAddrList_def)
  have "prio sample_list (sample_addr ''a'' 1) \<in> prios sample_list [sample_addr ''a'' 1, sample_addr ''b'' 2]"
    by (simp add: prios_def wanted_def sample_list_def NewAddrList_def sample_addr_def blocked_def)
  moreover obtain al cs where al: "al_inv map_of al" "al_Len alist_tree al = min (maxItems sample_list)
      (int (card (dom (map_of (peerByPriority sample_list)) \<union> prios sample_list [sample_addr ''a'' 1, sample_addr ''b'' 2])))"
    using Push_ok [OF alist_tree_ok sample_list_ok, of "[]" 0 DHT] mx by auto
  moreover have "finite (dom (map_of (peerByPriority sample_list)) \<union> prios sample_list [sample_addr ''a'' 1, sample_addr ''b'' 2])"
    by (simp add: prios_def finite_dom_map_of)
  ultimately have "al_Len alist_tree al = 1" using mx by (auto simp: Suc_le_eq card_gt_0_iff min_def)
  moreover have "\<not> completed (sample_new\<lparr>addrList := al\<rparr>)" "al_inv map_of (addrList (sample_new\<lparr>addrList := al\<rparr>))"
    using al(1) by (simp_all add: sample_new_def newTorrent2_def)
  then have "\<exists>t'. dialAddresses sample_env (sample_new\<lparr>addrList := al\<rparr>) = Some t' \<and>
      (MaxPeerDial (cfg sample_env) \<le> int (length (connectedPeers t')) \<or> live (addrList t') = {})"
    using dialling_ends [of sample_env map_of] alist_tree_ok sample_bt by metis
  moreover have "MaxPeerDial (cfg sample_env) = 2" by (simp add: sample_env_def)
  ultimately show ?thesis by fastforce
qed

end
