(* ===== verification/TorrentStats.thy ===== *)
theory TorrentStats
  imports TorrentProps
begin

text \<open>
  \<open>filechain/torrent_stats.go\<close>: the statistics of a torrent.  The two speeds are the rates of third-party meters, and
  \<open>printable\<close> says which encoded characters \<open>unicode.IsPrint\<close> accepts.  Times are nanoseconds.
\<close>

section \<open>Model\<close>

record Statistics =
  s_InfoHash :: "byte list"
  s_Status :: Status
  s_Error :: "torrent_error option"
  Pieces_Checked :: u32
  Pieces_Have :: u32
  Pieces_Missing :: u32
  Pieces_Available :: u32
  Pieces_Total :: u32
  Bytes_Completed :: int
  Bytes_Incomplete :: int
  Bytes_Total :: int
  Bytes_Downloaded :: int
  Bytes_Uploaded :: int
  Bytes_Wasted :: int
  Bytes_Allocated :: int
  Peers_Total :: int
  Peers_Incoming :: int
  Peers_Outgoing :: int
  Addresses_Total :: int
  Downloads_Total :: int
  Downloads_Running :: int
  Downloads_Snubbed :: int
  Downloads_Choked :: int
  MetadataDownloads_Total :: int
  MetadataDownloads_Snubbed :: int
  MetadataDownloads_Running :: int
  s_Name :: string
  s_PieceLength :: u32
  s_SeededFor :: int
  Speed_Download :: int
  Speed_Upload :: int
  ETA :: "int option"

text \<open>\<open>seedDurationUpdatedAt\<close>, with the zero time as \<open>None\<close>, and the counter \<open>seededFor\<close>.\<close>

record seed_clock =
  seedDurationUpdatedAt :: "int option"
  seededFor :: int

definition updateSeedDuration :: "'t torrent \<Rightarrow> int \<Rightarrow> seed_clock \<Rightarrow> seed_clock" where
  "updateSeedDuration t tm sc =
     (if status t \<noteq> Seeding then sc\<lparr>seedDurationUpdatedAt := None\<rparr>
      else case seedDurationUpdatedAt sc of
        None \<Rightarrow> sc\<lparr>seedDurationUpdatedAt := Some tm\<rparr>
      | Some at \<Rightarrow> sc\<lparr>seededFor := wrap64 (seededFor sc + (tm - at)), seedDurationUpdatedAt := Some tm\<rparr>)"

definition availablePieceCount :: "'t torrent \<Rightarrow> u32" where
  "availablePieceCount t = (case t_picker t of None \<Rightarrow> 0 | Some pp \<Rightarrow> available pp)"

definition bytesComplete :: "'t torrent \<Rightarrow> int option" where
  "bytesComplete t =
     (case (t_bitfield t, t_pieces t) of
        (Some bf, Some ps) \<Rightarrow>
          if ps = [] then Some 0
          else do {
            info \<leftarrow> t_info t;
            let n = wrap64 (int (unat (PieceLength info)) * int (unat (Count bf)));
            b \<leftarrow> Test bf (Len bf - 1);
            if b then do {
              p \<leftarrow> slice_get ps (unat (Len bf - 1));
              Some (wrap64 (wrap64 (n - int (unat (PieceLength info))) + int (unat (p_Length p))))
            } else Some n
          }
      | _ \<Rightarrow> Some 0)"

text \<open>\<open>Duration.Round\<close> of package \<open>time\<close> for a positive unit: to the nearest multiple, a half away from zero.\<close>

definition Round :: "int \<Rightarrow> int \<Rightarrow> int" where
  "Round m d =
     (if 0 \<le> d then let r = d mod m in if 2 * r < m then d - r else if d + m - r < 2 ^ 63 then d + m - r else 2 ^ 63 - 1
      else let r = (- d) mod m in if 2 * r < m then d + r else if d - m + r \<ge> - (2 ^ 63) then d - m + r else - (2 ^ 63))"

definition second :: int where "second = 1000000000"

definition round_eta :: "int \<Rightarrow> int" where
  "round_eta eta =
     (if eta > 8 * 3600 * second then Round (3600 * second) eta
      else if eta > 4 * 3600 * second then Round (30 * 60 * second) eta
      else if eta > 2 * 3600 * second then Round (15 * 60 * second) eta
      else if eta > 3600 * second then Round (5 * 60 * second) eta
      else if eta > 30 * 60 * second then Round (60 * second) eta
      else if eta > 15 * 60 * second then Round (30 * second) eta
      else if eta > 5 * 60 * second then Round (15 * second) eta
      else if eta > 60 * second then Round (5 * second) eta
      else eta)"

text \<open>Go's division cuts towards zero.\<close>

definition eta_of :: "int \<Rightarrow> int \<Rightarrow> int option" where
  "eta_of incomplete bps =
     (if bps = 0 then None
      else let q = wrap64 (sgn incomplete * sgn bps * (\<bar>incomplete\<bar> div \<bar>bps\<bar>)) in Some (round_eta (wrap64 (q * second))))"

text \<open>\<open>stringutil.Printable\<close>: an invalid byte or an unprintable character becomes the replacement character.\<close>

definition replacement :: string where
  "replacement = map char_of [0xEF :: nat, 0xBF, 0xBD]"

function Printable :: "(string \<Rightarrow> bool) \<Rightarrow> string \<Rightarrow> string" where
  "Printable printable s =
     (if s = [] then []
      else if rune_len s = 0 then replacement @ Printable printable (tl s)
      else (if printable (take (rune_len s) s) then take (rune_len s) s else replacement) @ Printable printable (drop (rune_len s) s))"
  by auto
termination by (relation "measure (length \<circ> snd)") auto

declare Printable.simps [simp del]

text \<open>
  \<open>incomingPeers\<close> and \<open>outgoingPeers\<close> are created empty and only ever deleted from, so they are left out of the torrent's
  state and have no elements.  \<open>nm\<close> is the name that the torrent was added with.
\<close>

definition DataStats ::
  "'t btree \<Rightarrow> (string \<Rightarrow> bool) \<Rightarrow> string \<Rightarrow> int \<Rightarrow> int \<Rightarrow> int \<Rightarrow> 't torrent \<Rightarrow> seed_clock \<Rightarrow> (Statistics \<times> seed_clock) option" where
  "DataStats b printable nm tm down up t sc =
     (let sc = updateSeedDuration t tm sc;
          s = \<lparr>s_InfoHash = infoHash t, s_Status = status t, s_Error = lastError t,
            Pieces_Checked = checkedPieces t, Pieces_Have = 0, Pieces_Missing = 0, Pieces_Available = availablePieceCount t, Pieces_Total = 0,
            Bytes_Completed = 0, Bytes_Incomplete = 0, Bytes_Total = 0,
            Bytes_Downloaded = bytesDownloaded t, Bytes_Uploaded = bytesUploaded t, Bytes_Wasted = bytesWasted t, Bytes_Allocated = bytesAllocated t,
            Peers_Total = int (length (connectedPeers t)), Peers_Incoming = 0, Peers_Outgoing = 0, Addresses_Total = al_Len b (addrList t),
            Downloads_Total = int (length (pieceDownloaders t)),
            Downloads_Running = int (length (pieceDownloaders t)) - int (length (pieceDownloadersChoked t)) - int (length (pieceDownloadersSnubbed t)),
            Downloads_Snubbed = int (length (pieceDownloadersSnubbed t)), Downloads_Choked = int (length (pieceDownloadersChoked t)),
            MetadataDownloads_Total = int (length (infoDownloaders t)), MetadataDownloads_Snubbed = int (length (infoDownloadersSnubbed t)),
            MetadataDownloads_Running = int (length (infoDownloaders t)) - int (length (infoDownloadersSnubbed t)),
            s_Name = nm, s_PieceLength = 0, s_SeededFor = seededFor sc, Speed_Download = down, Speed_Upload = up, ETA = None\<rparr>
      in do {
        s \<leftarrow> (case t_info t of
               None \<Rightarrow> Some s
             | Some info \<Rightarrow> do {
                 n \<leftarrow> bytesComplete t;
                 Some (s\<lparr>Bytes_Total := info_Length info, Bytes_Completed := n, Bytes_Incomplete := wrap64 (info_Length info - n),
                   s_Name := Name info, s_PieceLength := PieceLength info, Pieces_Total := NumPieces info\<rparr>)
               });
        let s = s\<lparr>s_Name := Printable printable (s_Name s)\<rparr>;
        let s = (case t_bitfield t of None \<Rightarrow> s | Some bf \<Rightarrow> s\<lparr>Pieces_Have := Count bf, Pieces_Missing := Pieces_Total s - Count bf\<rparr>);
        let s = (if s_Status s = Downloading' then s\<lparr>ETA := eta_of (Bytes_Incomplete s) (Speed_Download s)\<rparr> else s);
        Some (s, sc)
      })"

section \<open>The time that is left\<close>

lemma Round_near: "0 < m \<Longrightarrow> 0 \<le> d \<Longrightarrow> d + m < 2 ^ 63 \<Longrightarrow> 2 * \<bar>Round m d - d\<bar> \<le> m"
proof -
  assume m: "0 < m" "0 \<le> d" "d + m < 2 ^ 63"
  define r where "r = d mod m"
  have "0 \<le> r" "r < m" using m by (simp_all add: r_def)
  then show ?thesis using m unfolding Round_def r_def [symmetric] Let_def by auto
qed

lemma round_eta_near:
  assumes "0 \<le> eta" and "eta < 2 ^ 62"
  shows "16 * \<bar>round_eta eta - eta\<bar> \<le> eta"
proof -
  have r: "16 * \<bar>Round m eta - eta\<bar> \<le> eta" if "0 < m" "8 * m \<le> eta" "m \<le> 3600000000000" for m
    using Round_near [of m eta] assms that by simp
  show ?thesis unfolding round_eta_def second_def using assms(1) by (auto intro!: r)
qed

lemma eta_near:
  assumes "0 \<le> incomplete" and "0 < bps" and "incomplete div bps < 4000000000"
  shows "\<exists>eta. eta_of incomplete bps = Some eta \<and> 16 * \<bar>eta - incomplete div bps * second\<bar> \<le> incomplete div bps * second"
proof -
  let ?q = "incomplete div bps"
  have q: "0 \<le> ?q" using assms(1,2) by (simp add: pos_imp_zdiv_nonneg_iff)
  then have w: "wrap64 ?q = ?q" "wrap64 (?q * second) = ?q * second" using assms(3) by (simp_all add: wrap64_id second_def)
  have "sgn incomplete * sgn bps * (\<bar>incomplete\<bar> div \<bar>bps\<bar>) = ?q" using assms(1,2) by (cases "incomplete = 0") simp_all
  then have "eta_of incomplete bps = Some (round_eta (?q * second))" using assms(2) w by (simp add: eta_of_def Let_def)
  then show ?thesis using round_eta_near [of "?q * second"] q assms(3) by (simp add: second_def)
qed

text \<open>Ten gigabytes at a byte in a second: the product of the seconds overflows.\<close>

lemma eta_overflows: "eta_of 10000000000 1 = Some (-8446744073709551616)"
  by code_simp

section \<open>What is complete\<close>

lemma sum_PieceLength:
  assumes ps: "length ps = n" "\<forall>k<n. uint (p_Length (ps ! k)) = (if Suc k < n then L else len - int k * L)"
    and A: "A \<subseteq> {..<n}" and n: "0 < n"
  shows "(\<Sum>k\<in>A. uint (p_Length (ps ! k))) =
    (if n - 1 \<in> A then int (card A) * L - L + uint (p_Length (ps ! (n - 1))) else int (card A) * L)"
proof -
  have fin: "finite A" using A finite_subset by blast
  have l: "uint (p_Length (ps ! k)) = L" if "k \<in> A" "k \<noteq> n - 1" for k
  proof -
    have "k < n" "Suc k < n" using that A n by auto
    then show ?thesis using ps(2) by simp
  qed
  show ?thesis
  proof (cases "n - 1 \<in> A")
    case True
    have "(\<Sum>k\<in>A. uint (p_Length (ps ! k))) = uint (p_Length (ps ! (n - 1))) + (\<Sum>k\<in>A - {n - 1}. uint (p_Length (ps ! k)))"
      by (rule sum.remove [OF fin True])
    also have "(\<Sum>k\<in>A - {n - 1}. uint (p_Length (ps ! k))) = (\<Sum>k\<in>A - {n - 1}. L)" by (rule sum.cong) (simp_all add: l)
    also have "\<dots> = int (card A) * L - L"
    proof -
      have "card A = Suc (card (A - {n - 1}))" by (rule card.remove [OF fin True])
      then have "int (card (A - {n - 1})) = int (card A) - 1" by linarith
      then show ?thesis unfolding sum_constant by (simp only: left_diff_distrib mult_1 of_int_of_nat_eq)
    qed
    finally show ?thesis using True by simp
  next
    case False
    have "(\<Sum>k\<in>A. uint (p_Length (ps ! k))) = (\<Sum>k\<in>A. L)" using False l by (intro sum.cong refl) metis
    then show ?thesis using False by simp
  qed
qed

lemma wrap64_wrap64: "wrap64 (wrap64 a + b) = wrap64 (a + b)"
proof -
  have "wrap64 a + b + 2 ^ 63 = (a + 2 ^ 63) mod 2 ^ 64 + b" by (simp add: wrap64_def)
  then show ?thesis unfolding wrap64_def by (simp add: mod_simps algebra_simps)
qed

text \<open>The pieces of a torrent have the lengths that \<open>NewPieces\<close> gave them; only their flags change.\<close>

lemma piece_lengths:
  assumes "layout_ok info files" and "NewPieces info files = Some ps0" and "map p_Length ps = map p_Length ps0"
  shows "length ps = unat (NumPieces info)" and "0 < unat (NumPieces info)" and "0 < uint (PieceLength info)"
    and "\<forall>k<unat (NumPieces info). uint (p_Length (ps ! k)) =
      (if Suc k < unat (NumPieces info) then uint (PieceLength info) else info_Length info - int k * uint (PieceLength info))"
    and "\<forall>k<unat (NumPieces info). 0 < uint (p_Length (ps ! k))"
    and "(\<Sum>k<unat (NumPieces info). uint (p_Length (ps ! k))) = info_Length info"
proof -
  let ?n = "unat (NumPieces info)" and ?L = "uint (PieceLength info)"
  have lo: "int (?n - 1) * ?L < info_Length info" "info_Length info \<le> int ?n * ?L" "PieceLength info \<noteq> 0"
    using assms(1) by (simp_all add: layout_ok_def)
  then show n: "0 < ?n" by (cases "?n = 0") auto
  show L: "0 < ?L" using lo(3) by (simp add: word_neq_0_conv word_less_def)
  have p0: "length ps0 = ?n" "\<forall>k<?n. piece_ok info files k (ps0 ! k)" using NewPieces_spec [OF assms(1)] assms(2) by auto
  show l: "length ps = ?n" using p0(1) assms(3) by (metis length_map)
  have e: "p_Length (ps ! k) = p_Length (ps0 ! k)" if "k < ?n" for k using that p0(1) l assms(3) by (metis nth_map)
  show len: "\<forall>k<?n. uint (p_Length (ps ! k)) = (if Suc k < ?n then ?L else info_Length info - int k * ?L)"
  proof (intro allI impI)
    fix k assume k: "k < ?n"
    then have "piece_ok info files k (ps0 ! k)" using p0(2) by blast
    then show "uint (p_Length (ps ! k)) = (if Suc k < ?n then ?L else info_Length info - int k * ?L)"
      unfolding piece_ok_def e [OF k] by (simp split: if_splits)
  qed
  show "\<forall>k<?n. 0 < uint (p_Length (ps ! k))"
  proof (intro allI impI)
    fix k assume k: "k < ?n"
    show "0 < uint (p_Length (ps ! k))"
    proof (cases "Suc k < ?n")
      case False
      then have "k = ?n - 1" using k by simp
      then show ?thesis using len k False lo(1) by simp
    qed (use len k L in simp)
  qed
  have "(\<Sum>k<?n. uint (p_Length (ps ! k))) = int (card {..<?n}) * ?L - ?L + uint (p_Length (ps ! (?n - 1)))"
    using sum_PieceLength [OF l len subset_refl n] n by simp
  also have "uint (p_Length (ps ! (?n - 1))) = info_Length info - int (?n - 1) * ?L" using len n by simp
  finally show "(\<Sum>k<?n. uint (p_Length (ps ! k))) = info_Length info" using n by (simp add: of_nat_diff algebra_simps)
qed

lemma bytesComplete_eq:
  assumes lay: "layout_ok info files" and np: "NewPieces info files = Some ps0" and eq: "map p_Length ps = map p_Length ps0"
    and t: "t_info t = Some info" "t_pieces t = Some ps" "t_bitfield t = Some bf" and bf: "bf_ok bf" "Len bf = NumPieces info"
    and small: "info_Length info < 2 ^ 63"
  shows "bytesComplete t = Some (\<Sum>k\<in>bf_set bf. uint (p_Length (ps ! k)))"
    and "0 \<le> (\<Sum>k\<in>bf_set bf. uint (p_Length (ps ! k)))" and "(\<Sum>k\<in>bf_set bf. uint (p_Length (ps ! k))) \<le> info_Length info"
    and "(\<Sum>k\<in>bf_set bf. uint (p_Length (ps ! k))) = info_Length info \<longleftrightarrow> All bf"
proof -
  let ?n = "unat (NumPieces info)" and ?L = "uint (PieceLength info)"
  let ?S = "\<Sum>k\<in>bf_set bf. uint (p_Length (ps ! k))"
  note pl = piece_lengths [OF lay np eq]
  have A: "bf_set bf \<subseteq> {..<?n}" using bf(2) by (auto simp: bf_set_def Len_def)
  have fin: "finite (bf_set bf)" using A finite_subset by blast
  show pos: "0 \<le> ?S" by (simp add: sum_nonneg)
  have split: "info_Length info = ?S + (\<Sum>k\<in>{..<?n} - bf_set bf. uint (p_Length (ps ! k)))"
    using sum.subset_diff [OF A, of "\<lambda>k. uint (p_Length (ps ! k))"] pl(6) by simp
  show le: "?S \<le> info_Length info" unfolding split by (simp add: sum_nonneg)
  show "?S = info_Length info \<longleftrightarrow> All bf"
  proof
    assume "?S = info_Length info"
    then have "(\<Sum>k\<in>{..<?n} - bf_set bf. uint (p_Length (ps ! k))) = 0" using split by simp
    then have "\<forall>k\<in>{..<?n} - bf_set bf. uint (p_Length (ps ! k)) = 0" by (subst (asm) sum_nonneg_eq_0_iff) simp_all
    then have "{..<?n} - bf_set bf = {}" using pl(5) by fastforce
    then show "All bf" using A All_eq [OF bf(1)] bf(2) by auto
  next
    assume "All bf"
    then show "?S = info_Length info" using All_eq [OF bf(1)] bf(2) pl(6) by simp
  qed
  have l1: "Len bf - 1 < Len bf" "unat (Len bf - 1) = ?n - 1"
    using pl(2) bf(2) by (simp_all add: word_less_nat_alt unat_minus_one unat_gt_0)
  have T: "Test bf (Len bf - 1) = Some (?n - 1 \<in> bf_set bf)" using Test_eq [OF bf(1) l1(1)] l1(2) by simp
  have c: "int (unat (Count bf)) = int (card (bf_set bf))" using Count_eq [OF bf(1)] by simp
  have S: "?S = (if ?n - 1 \<in> bf_set bf then int (card (bf_set bf)) * ?L - ?L + uint (p_Length (ps ! (?n - 1))) else int (card (bf_set bf)) * ?L)"
    by (rule sum_PieceLength [OF pl(1,4) A pl(2)])
  have w: "wrap64 ?S = ?S" using pos le small by (simp add: wrap64_id)
  have w2: "wrap64 (wrap64 (wrap64 a - b) + d) = wrap64 (a - b + d)" for a b d
    using wrap64_wrap64 [of a "- b"] wrap64_wrap64 [of "a - b" d] by simp
  have g: "slice_get ps (unat (Len bf - 1)) = Some (ps ! (?n - 1))" using l1(2) pl(1,2) by simp
  have ne: "ps \<noteq> []" using pl(1,2) by auto
  show "bytesComplete t = Some ?S"
  proof (cases "?n - 1 \<in> bf_set bf")
    case True
    then show ?thesis using S w w2 T g ne c t by (simp add: bytesComplete_def Let_def mult.commute)
  next
    case False
    then show ?thesis using S w T ne c t by (simp add: bytesComplete_def Let_def mult.commute)
  qed
qed

section \<open>Properties\<close>

text \<open>
  C25: The statistics add up.  For an accepted info dictionary, the pieces that \<open>NewPieces\<close> cuts and a well-formed
  bitfield, \<open>DataStats\<close> returns without a panic; the bytes completed are the lengths of the pieces in the bitfield, they
  and the incomplete bytes make the total, nothing is missing exactly when the bitfield is full, the pieces had and
  missing make the number of pieces, and while downloading the time left is within a sixteenth of bytes over speed unless it exceeds a century.
\<close>

theorem stats_add_up:
  assumes "NewInfo decode sha ib = Inr info" and "sizes_ok info" and "length files = length (Files info)"
    and "NewPieces info files = Some ps0" and "map p_Length ps = map p_Length ps0"
    and "t_info t = Some info" and "t_pieces t = Some ps" and "t_bitfield t = Some bf" and "bf_ok bf" and "Len bf = NumPieces info"
  shows "\<exists>s sc'. DataStats b printable nm tm down up t sc = Some (s, sc') \<and>
    Bytes_Completed s = (\<Sum>k\<in>bf_set bf. int (unat (p_Length (ps ! k)))) \<and>
    Bytes_Total s = info_Length info \<and> 0 \<le> Bytes_Completed s \<and> 0 \<le> Bytes_Incomplete s \<and>
    Bytes_Completed s + Bytes_Incomplete s = Bytes_Total s \<and> (Bytes_Incomplete s = 0 \<longleftrightarrow> All bf) \<and>
    unat (Pieces_Have s) = card (bf_set bf) \<and> unat (Pieces_Have s) + unat (Pieces_Missing s) = unat (Pieces_Total s) \<and>
    (status t = Downloading' \<and> 0 < down \<and> Bytes_Incomplete s div down < 4000000000 \<longrightarrow>
      (\<exists>eta. ETA s = Some eta \<and> 16 * \<bar>eta - Bytes_Incomplete s div down * 1000000000\<bar> \<le> Bytes_Incomplete s div down * 1000000000))"
proof -
  have lay: "layout_ok info files" by (rule layout_of_NewInfo [OF assms(1-3)])
  then have "info_Length info < 2 ^ 63" using assms(2) by (simp add: layout_ok_def sizes_ok_def)
  note bc = bytesComplete_eq [OF lay assms(4-10) this]
  let ?S = "\<Sum>k\<in>bf_set bf. uint (p_Length (ps ! k))"
  let ?inc = "info_Length info - ?S"
  have w: "wrap64 ?inc = ?inc" using bc(2,3) \<open>info_Length info < 2 ^ 63\<close> by (simp add: wrap64_id)
  have "card (bf_set bf) \<le> unat (NumPieces info)"
    using card_mono [of "{..<unat (NumPieces info)}" "bf_set bf"] assms(10) by (auto simp: bf_set_def Len_def)
  then have c: "Count bf \<le> NumPieces info" "unat (Count bf) = card (bf_set bf)"
    using Count_eq [OF assms(9)] by (simp_all add: word_le_nat_alt)
  then have m: "unat (Count bf) + unat (NumPieces info - Count bf) = unat (NumPieces info)"
    by (simp add: unat_sub word_le_nat_alt)
  define eta where "eta = (if status t = Downloading' then eta_of ?inc down else None)"
  obtain s sc' where s: "DataStats b printable nm tm down up t sc = Some (s, sc')" "Bytes_Completed s = ?S" "Bytes_Total s = info_Length info"
    "Bytes_Incomplete s = ?inc" "Pieces_Have s = Count bf" "Pieces_Missing s = NumPieces info - Count bf" "Pieces_Total s = NumPieces info" "ETA s = eta"
    using assms(6,8) bc(1) w by (simp add: DataStats_def Let_def eta_def split: if_splits)
  have "\<exists>e. eta = Some e \<and> 16 * \<bar>e - ?inc div down * 1000000000\<bar> \<le> ?inc div down * 1000000000"
    if "status t = Downloading'" "0 < down" "?inc div down < 4000000000"
    using eta_near [of ?inc down] that bc(3) by (simp add: eta_def second_def)
  then show ?thesis using s bc(2-4) c m by (intro exI [of _ s] exI [of _ sc']) auto
qed

definition sample_full :: "item list torrent" where
  "sample_full = sample_new\<lparr>t_pieces := Some sample_pieces, t_bitfield := Some (the (bf_Set (New 2) 1))\<rparr>"

theorem stats_add_up_witness:
  "\<exists>s sc'. DataStats alist_tree (\<lambda>_. True) ''d'' 5 100 0 sample_full \<lparr>seedDurationUpdatedAt = None, seededFor = 0\<rparr> = Some (s, sc') \<and>
     Bytes_Total s = 7 \<and> Bytes_Completed s + Bytes_Incomplete s = 7"
proof -
  let ?bf = "the (bf_Set (New 2) 1)"
  have bf: "bf_ok ?bf" "Len ?bf = NumPieces sample_info"
    using bf_Set_eq [of "New 2" 1] bf_ok_New by (auto simp: sample_info_def)
  have t: "t_info sample_full = Some sample_info" "t_pieces sample_full = Some sample_pieces" "t_bitfield sample_full = Some ?bf"
    by (simp_all add: sample_full_def sample_new_def newTorrent2_def)
  have len: "length sample_files = length (Files sample_info)" "info_Length sample_info = 7"
    by (simp_all add: sample_files_def sample_info_def)
  show ?thesis
    using stats_add_up [OF NewInfo_sample sizes_ok_sample len(1) NewPieces_sample refl t bf, of alist_tree "\<lambda>_. True" "''d''" 5 100 0
        "\<lparr>seedDurationUpdatedAt = None, seededFor = 0\<rparr>"] unfolding len(2)
    by (elim exE conjE) (intro exI conjI, assumption+, simp)
qed

end
