(* ===== verification/Blocklist.thy ===== *)
theory Blocklist
  imports Metainfo
begin

text \<open>
  \<open>internal/blocklist\<close>: a list of address ranges in CIDR notation, one per line, and the segment
  tree of \<open>internal/blocklist/stree\<close> that answers whether an address is in one of them.  The
  specification is the search through the list of ranges.  \<open>net.ParseCIDR\<close> and the line
  scanner are modelled as the code uses them (Go 1.16, as in \<open>go.mod\<close>); the lock is left out.
\<close>

section \<open>The segment tree\<close>

record segment =
  From :: u32
  To :: u32

record interval =
  iv_ID :: u32
  iv_seg :: segment

datatype node = Node (seg_of: segment) (overlap: "interval list") (left: "node option") (right: "node option")

record Stree =
  st_count :: u32
  root :: "node option"
  base :: "interval list"
  st_min :: u32
  st_max :: u32

definition subsetOf :: "segment \<Rightarrow> segment \<Rightarrow> bool" where
  "subsetOf s other \<longleftrightarrow> From other \<le> From s \<and> To other \<ge> To s"

definition intersectsWith :: "segment \<Rightarrow> segment \<Rightarrow> bool" where
  "intersectsWith s other \<longleftrightarrow> From other \<le> To s \<and> From s \<le> To other \<or> From s \<le> To other \<and> From other \<le> To s"

definition Disjoint :: "segment \<Rightarrow> u32 \<Rightarrow> u32 \<Rightarrow> bool" where
  "Disjoint s frm t \<longleftrightarrow> frm > To s \<or> t < From s"

fun insertInterval :: "node \<Rightarrow> interval \<Rightarrow> node" where
  "insertInterval (Node s ov l r) i =
     (if subsetOf s (iv_seg i) then Node s (ov @ [i]) l r
      else Node s ov
        (case l of None \<Rightarrow> None | Some n \<Rightarrow> Some (if intersectsWith (seg_of n) (iv_seg i) then insertInterval n i else n))
        (case r of None \<Rightarrow> None | Some n \<Rightarrow> Some (if intersectsWith (seg_of n) (iv_seg i) then insertInterval n i else n)))"

text \<open>The result is a map from the identity of an interval to the interval.\<close>

fun querySingle :: "node \<Rightarrow> u32 \<Rightarrow> u32 \<Rightarrow> (u32 \<times> interval) list \<Rightarrow> (u32 \<times> interval) list" where
  "querySingle (Node s ov l r) frm t res =
     (if Disjoint s frm t then res
      else let res = fold (\<lambda>i. AList.update (iv_ID i) i) ov res;
               res = (case r of None \<Rightarrow> res | Some n \<Rightarrow> querySingle n frm t res)
           in case l of None \<Rightarrow> res | Some n \<Rightarrow> querySingle n frm t res)"

definition AddRange :: "u32 \<Rightarrow> u32 \<Rightarrow> Stree \<Rightarrow> Stree" where
  "AddRange frm t st = st\<lparr>base := base st @ [\<lparr>iv_ID = st_count st, iv_seg = \<lparr>From = frm, To = t\<rparr>\<rparr>], st_count := st_count st + 1\<rparr>"

definition empty_tree :: Stree where
  "empty_tree = \<lparr>st_count = 0, root = None, base = [], st_min = 0, st_max = 0\<rparr>"

text \<open>The sorted slice is overwritten from its start; \<open>prev\<close> starts out different from the first element.\<close>

fun dedup_loop :: "u32 \<Rightarrow> u32 list \<Rightarrow> u32 list" where
  "dedup_loop prev [] = []"
| "dedup_loop prev (x # xs) = (if x = prev then dedup_loop prev xs else x # dedup_loop x xs)"

definition dedup :: "u32 list \<Rightarrow> u32 list" where
  "dedup sl = (let sl = sort sl in dedup_loop (sl ! 0 + 1) sl)"

definition endpoints :: "interval list \<Rightarrow> u32 list \<times> u32 \<times> u32" where
  "endpoints b =
     (let result = dedup (map (From \<circ> iv_seg) b @ map (To \<circ> iv_seg) b)
      in (result, result ! 0, result ! (length result - 1)))"

definition elementaryIntervals :: "u32 list \<Rightarrow> segment list" where
  "elementaryIntervals es =
     map (\<lambda>k. if even k then \<lparr>From = es ! (k div 2), To = es ! (k div 2)\<rparr>
              else \<lparr>From = es ! (k div 2), To = es ! (k div 2 + 1)\<rparr>) [0..<length es * 2 - 1]"

text \<open>No leaves is an index out of range.\<close>

function insertNodes :: "segment list \<Rightarrow> node option" where
  "insertNodes [] = None"
| "insertNodes [s] = Some (Node s [] None None)"
| "insertNodes (s # t # ls) =
     (let leaves = s # t # ls; center = length leaves div 2 in
      case (insertNodes (take center leaves), insertNodes (drop center leaves)) of
        (Some l, Some r) \<Rightarrow> Some (Node \<lparr>From = From s, To = To (leaves ! (length leaves - 1))\<rparr> [] (Some l) (Some r))
      | _ \<Rightarrow> None)"
  by pat_completeness auto
termination
  by (relation "measure length") auto

definition Build :: "Stree \<Rightarrow> Stree option" where
  "Build st =
     (if base st = [] then Some st
      else let (es, mn, mx) = endpoints (base st) in
        case insertNodes (elementaryIntervals es) of None \<Rightarrow> None
        | Some n \<Rightarrow> Some (st\<lparr>st_min := mn, st_max := mx, root := Some (foldl insertInterval n (base st))\<rparr>))"

definition query :: "Stree \<Rightarrow> u32 \<Rightarrow> u32 \<Rightarrow> interval list" where
  "query st frm t = (case root st of None \<Rightarrow> [] | Some n \<Rightarrow> map snd (querySingle n frm t []))"

definition Contains :: "Stree \<Rightarrow> u32 \<Rightarrow> bool" where
  "Contains st v \<longleftrightarrow> length (query st v v) > 0"

section \<open>Reading the list\<close>

definition is_digit :: "char \<Rightarrow> bool" where
  "is_digit c \<longleftrightarrow> 48 \<le> (of_char c :: nat) \<and> (of_char c :: nat) \<le> 57"

text \<open>\<open>dtoi\<close> of \<open>net\<close>: leading digits below the bound \<open>0xFFFFFF\<close>, and what follows them.\<close>

fun dtoi_loop :: "int \<Rightarrow> string \<Rightarrow> (int \<times> string) option" where
  "dtoi_loop n [] = Some (n, [])"
| "dtoi_loop n (c # s) =
     (if is_digit c
      then let n = n * 10 + (of_char c - 48) in if n \<ge> 0xFFFFFF then None else dtoi_loop n s
      else Some (n, c # s))"

definition dtoi :: "string \<Rightarrow> (int \<times> string) option" where
  "dtoi s = (case s of [] \<Rightarrow> None | c # _ \<Rightarrow> if is_digit c then dtoi_loop 0 s else None)"

fun parse_fields :: "nat \<Rightarrow> string \<Rightarrow> (int list \<times> string) option" where
  "parse_fields 0 s = Some ([], s)"
| "parse_fields (Suc k) s =
     (case dtoi s of None \<Rightarrow> None
      | Some (n, rest) \<Rightarrow>
        if n > 255 then None
        else if k = 0 then Some ([n], rest)
        else case rest of c # rest' \<Rightarrow>
            (if c = CHR ''.'' then map_option (\<lambda>(ns, r). (n # ns, r)) (parse_fields k rest') else None)
          | [] \<Rightarrow> None)"

definition parseIPv4 :: "string \<Rightarrow> byte list option" where
  "parseIPv4 s = (case parse_fields 4 s of Some (ns, []) \<Rightarrow> Some (map word_of_int ns) | _ \<Rightarrow> None)"

definition CIDRMask :: "nat \<Rightarrow> u32" where
  "CIDRMask n = push_bit (32 - n) (2 ^ n - 1)"

definition u32_of_bytes :: "byte list \<Rightarrow> u32" where
  "u32_of_bytes bs = foldl (\<lambda>acc b. acc * 256 + ucast b) 0 bs"

text \<open>
  \<open>parseCIDR\<close>.  An IPv6 range, which \<open>net.ParseCIDR\<close> also takes, ends in the same error
  as a text that is no range: its address does not have four bytes.
\<close>

record ipRange =
  first :: u32
  last_ip :: u32

definition parseCIDR :: "string \<Rightarrow> ipRange option" where
  "parseCIDR b =
     (case (takeWhile (\<lambda>c. c \<noteq> CHR ''/'') b, dropWhile (\<lambda>c. c \<noteq> CHR ''/'') b) of
        (addr, _ # m) \<Rightarrow>
          (case (parseIPv4 addr, dtoi m) of
             (Some ip, Some (n, [])) \<Rightarrow>
               if n < 0 \<or> n > 32 then None
               else let m = CIDRMask (nat n); f = u32_of_bytes ip AND m in Some \<lparr>first = f, last_ip = f OR NOT m\<rparr>
           | _ \<Rightarrow> None)
      | _ \<Rightarrow> None)"

text \<open>\<open>bufio.ScanLines\<close>: lines without their end; a line that fills the buffer of 64 KiB ends the scan with an error.\<close>

definition dropCR :: "string \<Rightarrow> string" where
  "dropCR l = (if l \<noteq> [] \<and> last l = CHR 13 then butlast l else l)"

lemma shorter_rest: "s \<noteq> [] \<Longrightarrow> length (drop 1 (dropWhile P s)) < length s"
  using length_dropWhile_le [of P s] by (cases s) (auto simp del: dropWhile.simps)

function scan_lines :: "string \<Rightarrow> string list \<times> bool" where
  "scan_lines s =
     (if s = [] then ([], False)
      else let l = takeWhile (\<lambda>c. c \<noteq> CHR 10) s; rest = dropWhile (\<lambda>c. c \<noteq> CHR 10) s in
        if int (length l) \<ge> 65536 then ([], True)
        else let (ls, e) = scan_lines (drop 1 rest) in (dropCR l # ls, e))"
  by pat_completeness auto
termination
  by (relation "measure length") (use shorter_rest in auto)

declare scan_lines.simps [simp del]

record load_state =
  ld_tree :: Stree
  ld_n :: nat
  ld_hasError :: bool

definition load_line :: "load_state \<Rightarrow> string \<Rightarrow> load_state" where
  "load_line st line =
     (let l = TrimSpace line in
      if l = [] then st
      else if l ! 0 = CHR ''#'' then st
      else case parseCIDR l of
        None \<Rightarrow> st\<lparr>ld_hasError := True\<rparr>
      | Some r \<Rightarrow> st\<lparr>ld_tree := AddRange (first r) (last_ip r) (ld_tree st), ld_n := ld_n st + 1\<rparr>)"

datatype load_error = ErrScanner | ErrNoValidRules

text \<open>\<open>load\<close>; the outer option is a panic.\<close>

definition load :: "string \<Rightarrow> (load_error + Stree \<times> nat) option" where
  "load r =
     (let (ls, err) = scan_lines r;
          st = foldl load_line \<lparr>ld_tree = empty_tree, ld_n = 0, ld_hasError = False\<rparr> ls
      in if err then Some (Inl ErrScanner)
         else if ld_n st = 0 \<and> ld_hasError st then Some (Inl ErrNoValidRules)
         else map_option (\<lambda>t. Inr (t, ld_n st)) (Build (ld_tree st)))"

record Blocklist =
  bl_tree :: Stree
  bl_count :: nat

definition NewBlocklist :: Blocklist where
  "NewBlocklist = \<lparr>bl_tree = empty_tree, bl_count = 0\<rparr>"

definition Reload :: "string \<Rightarrow> Blocklist \<Rightarrow> ((load_error + nat) \<times> Blocklist) option" where
  "Reload r b =
     (case load r of None \<Rightarrow> None
      | Some (Inl e) \<Rightarrow> Some (Inl e, b)
      | Some (Inr (t, n)) \<Rightarrow> Some (Inr n, b\<lparr>bl_tree := t, bl_count := n\<rparr>))"

definition To4 :: "byte list \<Rightarrow> byte list option" where
  "To4 ip =
     (if length ip = 4 then Some ip
      else if length ip = 16 \<and> take 12 ip = replicate 10 0 @ [255, 255] then Some (drop 12 ip) else None)"

definition Blocked :: "Blocklist \<Rightarrow> byte list \<Rightarrow> bool" where
  "Blocked b ip = (case To4 ip of None \<Rightarrow> False | Some ip \<Rightarrow> Contains (bl_tree b) (u32_of_bytes ip))"

section \<open>The tree finds what the list of ranges has\<close>

text \<open>The intervals a query of a value passes.\<close>

fun stored :: "node \<Rightarrow> u32 \<Rightarrow> interval set" where
  "stored (Node s ov l r) v =
     (if Disjoint s v v then {}
      else set ov \<union> (case l of None \<Rightarrow> {} | Some n \<Rightarrow> stored n v) \<union> (case r of None \<Rightarrow> {} | Some n \<Rightarrow> stored n v))"

definition covers :: "segment \<Rightarrow> u32 \<Rightarrow> bool" where
  "covers s v \<longleftrightarrow> From s \<le> v \<and> v \<le> To s"

lemma Disjoint_covers: "Disjoint s v v \<longleftrightarrow> \<not> covers s v"
  by (auto simp: Disjoint_def covers_def)

lemma keys_updates: "fst ` set (fold (\<lambda>i. AList.update (iv_ID i) i) ov res) = iv_ID ` set ov \<union> fst ` set res"
  by (induction ov arbitrary: res) (auto simp: dom_update)

lemma keys_query: "fst ` set (querySingle n v v res) = iv_ID ` stored n v \<union> fst ` set res"
proof (induction n arbitrary: res)
  case (Node s ov l r)
  then show ?case by (cases l; cases r) (simp_all add: keys_updates image_Un Let_def Un_ac)
qed

lemma Contains_stored: "Contains st v \<longleftrightarrow> (case root st of None \<Rightarrow> False | Some n \<Rightarrow> stored n v \<noteq> {})"
proof (cases "root st")
  case (Some n)
  have "querySingle n v v [] = [] \<longleftrightarrow> stored n v = {}" using keys_query [of n v "[]"] by (metis Un_empty_right empty_set image_is_empty set_empty)
  then show ?thesis using Some by (simp add: Contains_def query_def)
qed (simp add: Contains_def query_def)

text \<open>Its leaves, and that every node spans the leaves below it.\<close>

fun leaves :: "node \<Rightarrow> segment list" where
  "leaves (Node s ov l r) =
     (case (l, r) of (None, None) \<Rightarrow> [s]
      | _ \<Rightarrow> (case l of None \<Rightarrow> [] | Some n \<Rightarrow> leaves n) @ (case r of None \<Rightarrow> [] | Some n \<Rightarrow> leaves n))"

fun spans :: "node \<Rightarrow> bool" where
  "spans (Node s ov l r) \<longleftrightarrow> (\<forall>t\<in>set (leaves (Node s ov l r)). subsetOf t s) \<and>
     (case l of None \<Rightarrow> True | Some n \<Rightarrow> spans n) \<and> (case r of None \<Rightarrow> True | Some n \<Rightarrow> spans n)"

lemma insertInterval_seg [simp]: "seg_of (insertInterval n i) = seg_of n"
  by (cases n) simp

lemma insertInterval_leaves [simp]: "leaves (insertInterval n i) = leaves n"
  by (induction n i rule: insertInterval.induct) (auto split: option.splits)

lemma insertInterval_spans: "spans n \<Longrightarrow> spans (insertInterval n i)"
  by (induction n i rule: insertInterval.induct) (auto split: option.splits)

lemma stored_insert_mono: "stored n v \<subseteq> stored (insertInterval n i) v"
  by (induction n i rule: insertInterval.induct) (auto split: option.splits)

lemma stored_insert_sound: "stored (insertInterval n i) v \<subseteq> stored n v \<union> (if covers (iv_seg i) v then {i} else {})"
proof (induction n i rule: insertInterval.induct)
  case (1 s ov l r i)
  show ?case
  proof (cases "covers s v")
    case True
    then have "subsetOf s (iv_seg i) \<Longrightarrow> covers (iv_seg i) v" by (auto simp: subsetOf_def covers_def)
    then show ?thesis using 1 by (cases l; cases r) (auto split: if_splits)
  qed (simp add: Disjoint_covers)
qed

lemma covers_subset: "covers s v \<Longrightarrow> subsetOf s t \<Longrightarrow> covers t v"
  by (auto simp: subsetOf_def covers_def)

lemma covers_intersects: "covers s v \<Longrightarrow> covers t v \<Longrightarrow> intersectsWith s t"
  by (auto simp: covers_def intersectsWith_def)

lemma stored_insert_complete:
  "spans n \<Longrightarrow> s \<in> set (leaves n) \<Longrightarrow> covers s v \<Longrightarrow> subsetOf s (iv_seg i) \<Longrightarrow> i \<in> stored (insertInterval n i) v"
proof (induction n i rule: insertInterval.induct)
  case (1 t ov l r i)
  have "subsetOf s t" using "1.prems"(1,2) by simp
  then have t: "covers t v" using "1.prems"(3) by (rule covers_subset [rotated])
  show ?case
  proof (cases "subsetOf t (iv_seg i)")
    case True
    then show ?thesis using t by (simp add: Disjoint_covers)
  next
    case False
    have "\<not> (l = None \<and> r = None)" using False "1.prems"(2,4) by (cases l; cases r) auto
    then have "(\<exists>n. l = Some n \<and> s \<in> set (leaves n)) \<or> (\<exists>n. r = Some n \<and> s \<in> set (leaves n))"
      using "1.prems"(2) by (cases l; cases r) auto
    moreover have "intersectsWith (seg_of n) (iv_seg i)" if "s \<in> set (leaves n)" "spans n" for n
    proof (rule covers_intersects)
      show "covers (seg_of n) v" using that "1.prems"(3) by (cases n) (auto intro: covers_subset)
      show "covers (iv_seg i) v" using "1.prems"(3,4) by (rule covers_subset)
    qed
    ultimately show ?thesis using 1 False t by (auto simp: Disjoint_covers)
  qed
qed

lemma stored_inserts:
  assumes "spans n" and "\<forall>i\<in>set ivs. \<forall>v. covers (iv_seg i) v \<longrightarrow> (\<exists>s\<in>set (leaves n). covers s v \<and> subsetOf s (iv_seg i))"
  shows "stored (foldl insertInterval n ivs) v = stored n v \<union> {i \<in> set ivs. covers (iv_seg i) v}"
  using assms
proof (induction ivs arbitrary: n)
  case (Cons i ivs)
  have "stored (foldl insertInterval (insertInterval n i) ivs) v = stored (insertInterval n i) v \<union> {i \<in> set ivs. covers (iv_seg i) v}"
    using Cons.prems insertInterval_spans by (intro Cons.IH) auto
  moreover have "i \<in> stored (insertInterval n i) v" if "covers (iv_seg i) v"
    using Cons.prems that stored_insert_complete by fastforce
  then have "stored (insertInterval n i) v = stored n v \<union> {j. j = i \<and> covers (iv_seg i) v}"
    using stored_insert_mono [of n v i] stored_insert_sound [of n i v] by (auto split: if_splits)
  ultimately show ?case by auto
qed simp

text \<open>The elementary intervals are in order, so the tree over them spans them.\<close>

definition in_order :: "segment list \<Rightarrow> bool" where
  "in_order ss \<longleftrightarrow> sorted (map From ss) \<and> sorted (map To ss)"

lemma insertNodes_ok:
  "in_order ss \<Longrightarrow> ss \<noteq> [] \<Longrightarrow> \<exists>n. insertNodes ss = Some n \<and> leaves n = ss \<and> spans n \<and> (\<forall>v. stored n v = {})"
proof (induction ss rule: insertNodes.induct)
  case (2 s)
  then show ?case by (simp add: subsetOf_def)
next
  case (3 s t ls)
  let ?ss = "s # t # ls" and ?c = "length (s # t # ls) div 2"
  have "in_order (take ?c ?ss)" "in_order (drop ?c ?ss)"
    using "3.prems"(1) unfolding in_order_def take_map [symmetric] drop_map [symmetric]
    by (blast intro: sorted_wrt_take sorted_wrt_drop)+
  moreover have "take ?c ?ss \<noteq> []" "drop ?c ?ss \<noteq> []" by auto
  ultimately obtain l r where
    l: "insertNodes (take ?c ?ss) = Some l" "leaves l = take ?c ?ss" "spans l" "\<forall>v. stored l v = {}" and
    r: "insertNodes (drop ?c ?ss) = Some r" "leaves r = drop ?c ?ss" "spans r" "\<forall>v. stored r v = {}"
    using "3.IH" [OF refl refl] by metis
  let ?n = "Node \<lparr>From = From s, To = To (?ss ! (length ?ss - 1))\<rparr> [] (Some l) (Some r)"
  have "leaves ?n = ?ss" using l r by simp
  moreover have span: "From s \<le> From x \<and> To x \<le> To (?ss ! (length ?ss - 1))" if x: "x \<in> set ?ss" for x
  proof -
    obtain k where k: "k < length ?ss" "x = ?ss ! k" using x unfolding in_set_conv_nth by blast
    have "map From ?ss ! 0 \<le> map From ?ss ! k" "map To ?ss ! k \<le> map To ?ss ! (length ?ss - 1)"
      using "3.prems"(1) k(1) unfolding in_order_def by (intro sorted_nth_mono; simp)+
    moreover have "map From ?ss ! k = From x" "map To ?ss ! k = To x" unfolding k(2) by (rule nth_map [OF k(1)])+
    moreover have "map From ?ss ! 0 = From s" by simp
    moreover have "map To ?ss ! (length ?ss - 1) = To (?ss ! (length ?ss - 1))" by (rule nth_map) simp
    ultimately show ?thesis by metis
  qed
  moreover have "insertNodes ?ss = Some ?n" using l(1) r(1) by (simp add: Let_def)
  moreover have "\<forall>t\<in>set (leaves ?n). subsetOf t \<lparr>From = From s, To = To (?ss ! (length ?ss - 1))\<rparr>"
    unfolding \<open>leaves ?n = ?ss\<close> by (intro ballI) (simp only: subsetOf_def segment.simps span simp_thms)
  then have "spans ?n" using l(3) r(3) by (simp only: spans.simps option.case simp_thms)
  moreover have "stored ?n v = {}" for v using l(4) r(4) by simp
  ultimately show ?case by (intro exI [of _ ?n]) blast
qed simp

lemma set_dedup_loop: "set (dedup_loop p xs) \<subseteq> set xs"
  by (induction p xs rule: dedup_loop.induct) auto

lemma sorted_dedup_loop:
  "sorted xs \<Longrightarrow> set (dedup_loop p xs) \<union> {p} = set xs \<union> {p} \<and> sorted (dedup_loop p xs)"
proof (induction p xs rule: dedup_loop.induct)
  case (2 p x xs)
  then show ?case using set_dedup_loop [of x xs] by auto
qed simp

lemma dedup_ok: "xs \<noteq> [] \<Longrightarrow> set (dedup xs) = set xs \<and> sorted (dedup xs)"
proof -
  assume "xs \<noteq> []"
  then obtain y ys where ys: "sort xs = y # ys" by (metis list.exhaust set_empty set_sort)
  have "y \<noteq> y + 1" by simp
  then have d: "dedup xs = y # dedup_loop y ys" using ys by (simp add: dedup_def Let_def)
  have s: "sorted (y # ys)" unfolding ys [symmetric] by simp
  have e: "set (dedup_loop y ys) \<union> {y} = set ys \<union> {y}" "sorted (dedup_loop y ys)" using sorted_dedup_loop [of ys y] s by auto
  have "set xs = set (y # ys)" unfolding ys [symmetric] by simp
  then show ?thesis using d e s by auto
qed

lemma elementary_nth: "k < length (elementaryIntervals es) \<Longrightarrow>
  elementaryIntervals es ! k = \<lparr>From = es ! (k div 2), To = es ! (Suc k div 2)\<rparr>"
  by (auto simp: elementaryIntervals_def elim: oddE evenE)

lemma length_elementary: "length (elementaryIntervals es) = length es * 2 - 1"
  by (simp add: elementaryIntervals_def)

lemma elementary_in_order: "sorted es \<Longrightarrow> in_order (elementaryIntervals es)"
  unfolding in_order_def sorted_iff_nth_mono
  by (auto simp: elementary_nth length_elementary intro!: div_le_mono)

lemma elementary_cover:
  assumes s: "sorted es" and ab: "a \<in> set es" "b \<in> set es" and v: "a \<le> v" "v \<le> b"
  shows "\<exists>e\<in>set (elementaryIntervals es). covers e v \<and> subsetOf e \<lparr>From = a, To = b\<rparr>"
proof -
  have mem: "elementaryIntervals es ! k \<in> set (elementaryIntervals es)" if "k < length es * 2 - 1" for k
    using that by (simp add: length_elementary)
  show ?thesis
  proof (cases "v \<in> set es")
    case True
    then obtain j where j: "j < length es" "es ! j = v" by (metis in_set_conv_nth)
    then have "2 * j < length es * 2 - 1" by simp
    from mem [OF this] elementary_nth [of "2 * j" es] this j v show ?thesis
      by (intro bexI [of _ "elementaryIntervals es ! (2 * j)"]) (simp_all add: length_elementary covers_def subsetOf_def)
  next
    case False
    obtain i where i: "i < length es" "es ! i = a" using ab(1) by (metis in_set_conv_nth)
    obtain m where m: "m < length es" "es ! m = b" using ab(2) by (metis in_set_conv_nth)
    define P where "P j \<longleftrightarrow> j < length es \<and> es ! j < v" for j
    have "P i" using i v False nth_mem [OF i(1)] by (auto simp: P_def order_less_le)
    moreover have bound: "\<forall>j. P j \<longrightarrow> j \<le> length es" by (simp add: P_def)
    ultimately have g: "P (Greatest P)" "\<And>j. P j \<Longrightarrow> j \<le> Greatest P"
      using GreatestI_nat [of P i "length es"] Greatest_le_nat [of P _ "length es"] by auto
    let ?j = "Greatest P"
    have "v < b" using v m(2) False nth_mem [OF m(1)] by (auto simp: order_less_le)
    have jm: "?j < m"
    proof (rule ccontr)
      assume "\<not> ?j < m"
      then have "es ! m \<le> es ! ?j" using s g(1) by (auto simp: P_def intro: sorted_nth_mono)
      then show False using g(1) m(2) \<open>v < b\<close> by (auto simp: P_def)
    qed
    then have "\<not> P (Suc ?j)" using g(2) by fastforce
    then have up: "v \<le> es ! Suc ?j" using jm m(1) by (simp add: P_def linorder_not_less)
    have k: "2 * ?j + 1 < length es * 2 - 1" using jm m(1) by simp
    have "a \<le> es ! ?j" using g(2) [OF \<open>P i\<close>] g(1) i s by (auto simp: P_def intro: sorted_nth_mono)
    moreover have "es ! Suc ?j \<le> b" using jm m s by (auto intro: sorted_nth_mono)
    ultimately show ?thesis using elementary_nth [of "2 * ?j + 1" es] k up g(1)
      by (intro bexI [OF _ mem [OF k]]) (auto simp: length_elementary covers_def subsetOf_def P_def)
  qed
qed

lemma Build_ok:
  assumes "\<forall>i\<in>set (base st). From (iv_seg i) \<le> To (iv_seg i)" and "root st = None"
  shows "\<exists>t. Build st = Some t \<and> (\<forall>v. Contains t v \<longleftrightarrow> (\<exists>i\<in>set (base st). covers (iv_seg i) v))"
proof (cases "base st = []")
  case True
  then show ?thesis using assms(2) by (simp add: Build_def Contains_stored)
next
  case False
  let ?ps = "map (From \<circ> iv_seg) (base st) @ map (To \<circ> iv_seg) (base st)"
  let ?es = "dedup ?ps"
  have es: "set ?es = set ?ps" "sorted ?es" using dedup_ok [of ?ps] False by simp_all
  have "elementaryIntervals ?es \<noteq> []"
  proof -
    have "?es \<noteq> []" using es(1) False by force
    then have "length ?es * 2 - 1 > 0" by (cases ?es) simp_all
    then show ?thesis by (simp flip: length_greater_0_conv add: length_elementary)
  qed
  then obtain n where n: "insertNodes (elementaryIntervals ?es) = Some n" "leaves n = elementaryIntervals ?es" "spans n"
    "\<forall>v. stored n v = {}" using insertNodes_ok [OF elementary_in_order [OF es(2)]] by blast
  have "\<exists>s\<in>set (leaves n). covers s v \<and> subsetOf s (iv_seg i)" if "i \<in> set (base st)" "covers (iv_seg i) v" for i v
  proof -
    have "From (iv_seg i) \<in> set ?es" "To (iv_seg i) \<in> set ?es" using es(1) that(1) by auto
    from elementary_cover [OF es(2) this, of v] that(2) show ?thesis by (simp add: n(2) covers_def subsetOf_def)
  qed
  then have "stored (foldl insertInterval n (base st)) v = {i \<in> set (base st). covers (iv_seg i) v}" for v
    using stored_inserts [OF n(3), of "base st" v] n(4) by auto
  then show ?thesis using n(1) False by (auto simp: Build_def endpoints_def Contains_stored Let_def)
qed

section \<open>A range in CIDR notation is a prefix\<close>

text \<open>The address and the number of prefix bits of a line, if it is a valid one.\<close>

definition rule_of :: "string \<Rightarrow> (u32 \<times> nat) option" where
  "rule_of b =
     (case (parseIPv4 (takeWhile (\<lambda>c. c \<noteq> CHR ''/'') b), dropWhile (\<lambda>c. c \<noteq> CHR ''/'') b) of
        (Some ip, _ # m) \<Rightarrow>
          (case dtoi m of Some (n, []) \<Rightarrow> if n < 0 \<or> n > 32 then None else Some (u32_of_bytes ip, nat n) | _ \<Rightarrow> None)
      | _ \<Rightarrow> None)"

definition has_prefix :: "u32 \<Rightarrow> u32 \<times> nat \<Rightarrow> bool" where
  "has_prefix v r \<longleftrightarrow> drop_bit (32 - snd r) v = drop_bit (32 - snd r) (fst r)"

lemma parseCIDR_rule: "parseCIDR b =
  map_option (\<lambda>(ip, n). \<lparr>first = ip AND CIDRMask n, last_ip = (ip AND CIDRMask n) OR NOT (CIDRMask n)\<rparr>) (rule_of b)"
proof -
  obtain a d where ad: "takeWhile (\<lambda>c. c \<noteq> CHR ''/'') b = a" "dropWhile (\<lambda>c. c \<noteq> CHR ''/'') b = d" by blast
  show ?thesis unfolding parseCIDR_def rule_of_def ad by (simp add: Let_def split: list.split option.split prod.split)
qed

lemma rule_of_bound: "rule_of b = Some (ip, n) \<Longrightarrow> n \<le> 32"
  by (auto simp: rule_of_def split: list.splits option.splits prod.splits if_splits)

lemma CIDRMask_bit: "n \<le> 32 \<Longrightarrow> bit (CIDRMask n) k \<longleftrightarrow> 32 - n \<le> k \<and> k < 32"
proof -
  assume n: "n \<le> 32"
  have "(2 ^ n - 1 :: u32) = mask n" by (simp add: mask_eq_exp_minus_1)
  then show ?thesis using n by (auto simp: CIDRMask_def bit_simps)
qed

lemma and_CIDRMask: "n \<le> 32 \<Longrightarrow> ip AND CIDRMask n = push_bit (32 - n) (drop_bit (32 - n) ip)"
  by (rule bit_word_eqI) (auto simp: bit_simps CIDRMask_bit)

lemma not_CIDRMask: "n \<le> 32 \<Longrightarrow> NOT (CIDRMask n) = mask (32 - n)"
  by (rule bit_word_eqI) (auto simp: bit_simps CIDRMask_bit)

lemma prefix_range:
  fixes v ip :: u32
  assumes m: "m \<le> 32"
  shows "push_bit m (drop_bit m ip) \<le> v \<and> v \<le> push_bit m (drop_bit m ip) OR mask m \<longleftrightarrow> drop_bit m v = drop_bit m ip"
proof -
  have d: "w = push_bit m (drop_bit m w) OR take_bit m w" for w :: u32
    by (rule bit_word_eqI) (auto simp: bit_simps)
  have dis: "push_bit m (drop_bit m w) AND mask m = 0" for w :: u32
    by (rule bit_word_eqI) (auto simp: bit_simps)
  have p: "unat (push_bit m (drop_bit m w)) = unat w div 2 ^ m * 2 ^ m" for w :: u32
  proof -
    have "unat w div 2 ^ m * 2 ^ m < 2 ^ 32" using unat_u32_less [of w] by (simp add: le_less_trans [OF div_times_less_eq_dividend])
    moreover have "push_bit m (drop_bit m (unat w)) = unat w div 2 ^ m * 2 ^ m"
      unfolding push_bit_eq_mult drop_bit_eq_div by (rule refl)
    moreover have "unat (push_bit m (drop_bit m w)) = take_bit 32 (push_bit m (drop_bit m (unat w)))"
      unfolding unsigned_push_bit_eq unsigned_drop_bit_eq using unat_u32_less [of w] by (simp add: take_bit_nat_eq_self)
    ultimately show ?thesis by (simp only: take_bit_nat_eq_self)
  qed
  have "unat (mask m :: u32) = mask m" using m by (intro bit_eqI) (auto simp: bit_simps)
  then have k: "unat (mask m :: u32) = 2 ^ m - 1" by (simp add: mask_eq_exp_minus_1)
  have "push_bit m (drop_bit m ip) OR mask m = push_bit m (drop_bit m ip) + mask m"
    by (rule disjunctive_add [symmetric]) (auto simp: bit_simps)
  moreover have "unat ip div 2 ^ m * 2 ^ m + (2 ^ m - 1) < 2 ^ 32"
  proof -
    have "unat ip div 2 ^ m < 2 ^ (32 - m)" using unat_u32_less [of ip] m
      by (simp add: less_mult_imp_div_less flip: power_add)
    then have "Suc (unat ip div 2 ^ m) * 2 ^ m \<le> 2 ^ (32 - m) * 2 ^ m" by (intro mult_le_mono1) simp
    also have "2 ^ (32 - m) * 2 ^ m = (2 :: nat) ^ 32" using m by (simp flip: power_add)
    finally show ?thesis by simp
  qed
  ultimately have q: "unat (push_bit m (drop_bit m ip) OR mask m) = unat ip div 2 ^ m * 2 ^ m + (2 ^ m - 1)"
    by (simp add: unat_plus_u32 p k)
  have "push_bit m (drop_bit m ip) \<le> v \<and> v \<le> push_bit m (drop_bit m ip) OR mask m \<longleftrightarrow>
      unat ip div 2 ^ m * 2 ^ m \<le> unat v \<and> unat v \<le> unat ip div 2 ^ m * 2 ^ m + (2 ^ m - 1)"
    by (simp add: word_le_nat_alt p q)
  also have "\<dots> \<longleftrightarrow> unat v div 2 ^ m = unat ip div 2 ^ m"
  proof
    assume a: "unat ip div 2 ^ m * 2 ^ m \<le> unat v \<and> unat v \<le> unat ip div 2 ^ m * 2 ^ m + (2 ^ m - 1)"
    moreover have "(0 :: nat) < 2 ^ m" by simp
    ultimately have "unat v < unat ip div 2 ^ m * 2 ^ m + 2 ^ m" by linarith
    then have "unat v < Suc (unat ip div 2 ^ m) * 2 ^ m" by simp
    with a show "unat v div 2 ^ m = unat ip div 2 ^ m" by (intro div_nat_eqI) (simp_all add: mult.commute)
  next
    assume "unat v div 2 ^ m = unat ip div 2 ^ m"
    then have "unat v = unat ip div 2 ^ m * 2 ^ m + unat v mod 2 ^ m" by (metis div_mult_mod_eq)
    moreover have "unat v mod 2 ^ m < 2 ^ m" by simp
    ultimately show "unat ip div 2 ^ m * 2 ^ m \<le> unat v \<and> unat v \<le> unat ip div 2 ^ m * 2 ^ m + (2 ^ m - 1)" by linarith
  qed
  also have "\<dots> \<longleftrightarrow> drop_bit m v = drop_bit m ip"
  proof -
    have "unat (drop_bit m w) = unat w div 2 ^ m" for w :: u32
      unfolding unsigned_drop_bit_eq using unat_u32_less [of w] by (simp add: take_bit_nat_eq_self drop_bit_eq_div)
    then show ?thesis by (metis word_unat_eq_iff)
  qed
  finally show ?thesis .
qed

lemma parseCIDR_covers:
  assumes "rule_of b = Some r" and "parseCIDR b = Some rg"
  shows "first rg \<le> v \<and> v \<le> last_ip rg \<longleftrightarrow> has_prefix v r" and "first rg \<le> last_ip rg"
proof -
  obtain ip n where r: "r = (ip, n)" by fastforce
  have n: "n \<le> 32" using rule_of_bound assms(1) r by blast
  have rg: "first rg = push_bit (32 - n) (drop_bit (32 - n) ip)"
    "last_ip rg = push_bit (32 - n) (drop_bit (32 - n) ip) OR mask (32 - n)"
    using assms n by (auto simp: parseCIDR_rule r and_CIDRMask not_CIDRMask)
  show "first rg \<le> v \<and> v \<le> last_ip rg \<longleftrightarrow> has_prefix v r" for v
    unfolding rg has_prefix_def r fst_conv snd_conv by (rule prefix_range) simp
  from this [of ip] have "first rg \<le> ip \<and> ip \<le> last_ip rg" by (simp add: has_prefix_def r)
  then show "first rg \<le> last_ip rg" by (blast intro: order_trans)
qed

section \<open>What a list blocks\<close>

text \<open>The rules of a list: of its lines that are neither empty nor comments, those that parse; and whether all of these parse.\<close>

definition rule_lines :: "string \<Rightarrow> string list" where
  "rule_lines r = filter (\<lambda>l. l \<noteq> [] \<and> l ! 0 \<noteq> CHR ''#'') (map TrimSpace (fst (scan_lines r)))"

definition rules :: "string \<Rightarrow> (u32 \<times> nat) list" where
  "rules r = List.map_filter rule_of (rule_lines r)"

lemma load_lines:
  assumes "\<forall>i\<in>set (base (ld_tree st)). From (iv_seg i) \<le> To (iv_seg i)"
  defines "ls' ls \<equiv> filter (\<lambda>l. l \<noteq> [] \<and> l ! 0 \<noteq> CHR ''#'') (map TrimSpace ls)"
  shows "let st' = foldl load_line st ls in root (ld_tree st') = root (ld_tree st) \<and>
    ld_n st' = ld_n st + length (List.map_filter rule_of (ls' ls)) \<and>
    (ld_hasError st' \<longleftrightarrow> ld_hasError st \<or> (\<exists>l\<in>set (ls' ls). rule_of l = None)) \<and>
    (\<forall>i\<in>set (base (ld_tree st')). From (iv_seg i) \<le> To (iv_seg i)) \<and>
    (\<forall>v. (\<exists>i\<in>set (base (ld_tree st')). covers (iv_seg i) v) \<longleftrightarrow>
      (\<exists>i\<in>set (base (ld_tree st)). covers (iv_seg i) v) \<or> (\<exists>r\<in>set (List.map_filter rule_of (ls' ls)). has_prefix v r))"
  using assms(1)
proof (induction ls arbitrary: st)
  case Nil
  then show ?case by (simp add: ls'_def map_filter_simps)
next
  case (Cons line ls)
  let ?l = "TrimSpace line"
  consider (skip) "?l = [] \<or> ?l ! 0 = CHR ''#''" | (bad) "?l \<noteq> []" "?l ! 0 \<noteq> CHR ''#''" "rule_of ?l = None"
    | (rule) r where "?l \<noteq> []" "?l ! 0 \<noteq> CHR ''#''" "rule_of ?l = Some r" by fastforce
  then show ?case
  proof cases
    case skip
    then show ?thesis using Cons.IH [OF Cons.prems] by (auto simp: load_line_def ls'_def Let_def)
  next
    case bad
    let ?st = "st\<lparr>ld_hasError := True\<rparr>"
    have "load_line st line = ?st" using bad by (simp add: load_line_def parseCIDR_rule)
    moreover have "\<forall>i\<in>set (base (ld_tree ?st)). From (iv_seg i) \<le> To (iv_seg i)" using Cons.prems by simp
    from Cons.IH [OF this] have "let st' = foldl load_line ?st ls in root (ld_tree st') = root (ld_tree ?st) \<and>
      ld_n st' = ld_n ?st + length (List.map_filter rule_of (ls' ls)) \<and>
      (ld_hasError st' \<longleftrightarrow> ld_hasError ?st \<or> (\<exists>l\<in>set (ls' ls). rule_of l = None)) \<and>
      (\<forall>i\<in>set (base (ld_tree st')). From (iv_seg i) \<le> To (iv_seg i)) \<and>
      (\<forall>v. (\<exists>i\<in>set (base (ld_tree st')). covers (iv_seg i) v) \<longleftrightarrow>
        (\<exists>i\<in>set (base (ld_tree ?st)). covers (iv_seg i) v) \<or> (\<exists>r\<in>set (List.map_filter rule_of (ls' ls)). has_prefix v r))" .
    ultimately show ?thesis using bad by (simp add: ls'_def Let_def map_filter_simps)
  next
    case (rule r)
    obtain rg where rg: "parseCIDR ?l = Some rg" using rule(3) by (cases r) (simp add: parseCIDR_rule)
    let ?st = "st\<lparr>ld_tree := AddRange (first rg) (last_ip rg) (ld_tree st), ld_n := ld_n st + 1\<rparr>"
    note c = parseCIDR_covers [OF rule(3) rg]
    have "load_line st line = ?st" using rule rg by (simp add: load_line_def)
    moreover have "\<forall>i\<in>set (base (ld_tree ?st)). From (iv_seg i) \<le> To (iv_seg i)" using Cons.prems c(2) by (simp add: AddRange_def)
    from Cons.IH [OF this] have "let st' = foldl load_line ?st ls in root (ld_tree st') = root (ld_tree ?st) \<and>
      ld_n st' = ld_n ?st + length (List.map_filter rule_of (ls' ls)) \<and>
      (ld_hasError st' \<longleftrightarrow> ld_hasError ?st \<or> (\<exists>l\<in>set (ls' ls). rule_of l = None)) \<and>
      (\<forall>i\<in>set (base (ld_tree st')). From (iv_seg i) \<le> To (iv_seg i)) \<and>
      (\<forall>v. (\<exists>i\<in>set (base (ld_tree st')). covers (iv_seg i) v) \<longleftrightarrow>
        (\<exists>i\<in>set (base (ld_tree ?st)). covers (iv_seg i) v) \<or> (\<exists>r\<in>set (List.map_filter rule_of (ls' ls)). has_prefix v r))" .
    moreover have "(\<exists>i\<in>set (base (ld_tree ?st)). covers (iv_seg i) v) \<longleftrightarrow> (\<exists>i\<in>set (base (ld_tree st)). covers (iv_seg i) v) \<or> has_prefix v r" for v
      using c(1) [of v] by (auto simp: AddRange_def covers_def)
    moreover have "root (ld_tree ?st) = root (ld_tree st)" by (simp add: AddRange_def)
    ultimately show ?thesis using rule by (simp add: ls'_def Let_def map_filter_simps)
  qed
qed

section \<open>Properties\<close>

text \<open>
  C9: The blocklist answers like a search through its rules.  Loading a list never panics.  It fails, and
  leaves the old list in place, exactly when a line is too long for the scanner or there are rules but none
  parses.  Otherwise \<open>Len\<close> is the number of valid rules, and an address is blocked exactly
  if it is an IPv4 address that shares the prefix of one of them.
\<close>

theorem blocklist_is_linear_search:
  "case Reload r b of
     None \<Rightarrow> False
   | Some (Inl e, b') \<Rightarrow> b' = b \<and> (e = ErrScanner \<longleftrightarrow> snd (scan_lines r)) \<and>
       (e = ErrNoValidRules \<longleftrightarrow> \<not> snd (scan_lines r) \<and> rule_lines r \<noteq> [] \<and> rules r = [])
   | Some (Inr n, b') \<Rightarrow> n = length (rules r) \<and> bl_count b' = n \<and>
       (\<forall>ip. Blocked b' ip \<longleftrightarrow> (\<exists>a. To4 ip = Some a \<and> (\<exists>rl\<in>set (rules r). has_prefix (u32_of_bytes a) rl)))"
proof -
  let ?st0 = "\<lparr>ld_tree = empty_tree, ld_n = 0, ld_hasError = False\<rparr>"
  obtain ls err where ls: "scan_lines r = (ls, err)" by fastforce
  define st where "st = foldl load_line ?st0 ls"
  have rl: "rule_lines r = filter (\<lambda>l. l \<noteq> [] \<and> l ! 0 \<noteq> CHR ''#'') (map TrimSpace ls)" by (simp add: rule_lines_def ls)
  have st: "root (ld_tree st) = None" "ld_n st = length (rules r)"
    "ld_hasError st \<longleftrightarrow> (\<exists>l\<in>set (rule_lines r). rule_of l = None)"
    "\<forall>i\<in>set (base (ld_tree st)). From (iv_seg i) \<le> To (iv_seg i)"
    "\<And>v. (\<exists>i\<in>set (base (ld_tree st)). covers (iv_seg i) v) \<longleftrightarrow> (\<exists>rl\<in>set (rules r). has_prefix v rl)"
    using load_lines [of ?st0 ls] unfolding rules_def rl st_def by (simp_all add: empty_tree_def Let_def)
  obtain t where t: "Build (ld_tree st) = Some t" "\<And>v. Contains t v \<longleftrightarrow> (\<exists>rl\<in>set (rules r). has_prefix v rl)"
    using Build_ok [OF st(4,1)] st(5) by auto
  have none: "rules r = [] \<Longrightarrow> ld_hasError st \<longleftrightarrow> rule_lines r \<noteq> []"
    unfolding st(3) rules_def by (cases "rule_lines r") (auto simp: map_filter_simps split: option.splits)
  have l: "load r = (if err then Some (Inl ErrScanner) else if rules r = [] \<and> rule_lines r \<noteq> [] then Some (Inl ErrNoValidRules)
      else Some (Inr (t, length (rules r))))"
    using none t(1) st(2) by (auto simp: load_def ls st_def [symmetric])
  show ?thesis
  proof (cases "err \<or> (rules r = [] \<and> rule_lines r \<noteq> [])")
    case True
    then show ?thesis using l ls by (auto simp: Reload_def)
  next
    case False
    then show ?thesis using l ls t(2) by (auto simp: Reload_def Blocked_def split: option.splits)
  qed
qed

theorem blocklist_is_linear_search_witness:
  "case Reload (''# a list'' @ [CHR 10] @ ''10.0.0.0/8'' @ [CHR 13, CHR 10] @ ''x'' @ [CHR 10] @ ''192.168.1.7/32'') NewBlocklist of
     Some (Inr n, b) \<Rightarrow> n = 2 \<and> Blocked b [10, 1, 2, 3] \<and> \<not> Blocked b [192, 168, 1, 8] \<and>
       Blocked b (replicate 10 0 @ [255, 255, 192, 168, 1, 7])
   | _ \<Rightarrow> False"
  by code_simp

end
