(* ===== verification/Trackers.thy ===== *)
theory Trackers
  imports Blocklist
begin

text \<open>
  The formats of \<open>internal/tracker\<close>: compact addresses, tiers of trackers, the messages of the UDP protocol of
  \<open>udptracker\<close> and the matching of answers to transactions; the lists of addresses for peer exchange, \<open>external/pexlist\<close>; and
  the fast set of \<open>internal/fast\<close>.  The session creates no tracker; the code is kept for them.  Sockets and the bencoded errors of
  a tracker are parameters.
\<close>

section \<open>Compact addresses\<close>

text \<open>An address of package \<open>net\<close> is an IP address, of 4 or 16 bytes, and a port.\<close>

type_synonym tcp_addr = "byte list \<times> int"

record CompactPeer =
  cpeer_IP :: "byte list"
  cpeer_Port :: u16

text \<open>Copying a nil slice leaves the zeros of the array.\<close>

definition NewCompactPeer :: "tcp_addr \<Rightarrow> CompactPeer" where
  "NewCompactPeer a = \<lparr>cpeer_IP = (case To4 (fst a) of Some ip \<Rightarrow> ip | None \<Rightarrow> [0, 0, 0, 0]), cpeer_Port = of_int (snd a)\<rparr>"

definition cpeer_Addr :: "CompactPeer \<Rightarrow> tcp_addr" where
  "cpeer_Addr p = (cpeer_IP p, uint (cpeer_Port p))"

definition cpeer_MarshalBinary :: "CompactPeer \<Rightarrow> byte list" where
  "cpeer_MarshalBinary p = cpeer_IP p @ put_u16 (cpeer_Port p)"

definition cpeer_UnmarshalBinary :: "byte list \<Rightarrow> CompactPeer option" where
  "cpeer_UnmarshalBinary data =
     (if length data \<noteq> 6 then None else Some \<lparr>cpeer_IP = take 4 data, cpeer_Port = be16 (drop 4 data)\<rparr>)"

text \<open>\<open>None\<close> is the error.\<close>

function decode_loop :: "byte list \<Rightarrow> tcp_addr list option" where
  "decode_loop b =
     (if b = [] then Some []
      else do {
        p \<leftarrow> cpeer_UnmarshalBinary (take 6 b);
        ps \<leftarrow> decode_loop (drop 6 b);
        Some (cpeer_Addr p # ps)
      })"
  by pat_completeness auto
termination by (relation "measure length") auto

declare decode_loop.simps [simp del]

definition DecodePeersCompact :: "byte list \<Rightarrow> tcp_addr list option" where
  "DecodePeersCompact b = (if length b mod 6 \<noteq> 0 then None else decode_loop b)"

definition cpeer_ok :: "CompactPeer \<Rightarrow> bool" where
  "cpeer_ok p \<longleftrightarrow> length (cpeer_IP p) = 4"

lemma NewCompactPeer_ok: "cpeer_ok (NewCompactPeer a)"
  by (auto simp: cpeer_ok_def NewCompactPeer_def To4_def split: option.splits if_splits)

lemma length_Marshal: "cpeer_ok p \<Longrightarrow> length (cpeer_MarshalBinary p) = 6"
  by (simp add: cpeer_ok_def cpeer_MarshalBinary_def)

lemma Unmarshal_Marshal: "cpeer_ok p \<Longrightarrow> cpeer_UnmarshalBinary (cpeer_MarshalBinary p) = Some p"
  by (simp add: cpeer_UnmarshalBinary_def length_Marshal) (simp add: cpeer_ok_def cpeer_MarshalBinary_def)

lemma compact_roundtrip:
  assumes "\<forall>p\<in>set ps. cpeer_ok p"
  shows "DecodePeersCompact (concat (map cpeer_MarshalBinary ps)) = Some (map cpeer_Addr ps)"
proof -
  have "decode_loop (concat (map cpeer_MarshalBinary ps)) = Some (map cpeer_Addr ps) \<and>
      length (concat (map cpeer_MarshalBinary ps)) = 6 * length ps"
    using assms
  proof (induction ps)
    case Nil
    show ?case by (subst decode_loop.simps) simp
  next
    case (Cons p ps)
    then have l: "length (cpeer_MarshalBinary p) = 6" by (simp add: length_Marshal)
    then have "cpeer_MarshalBinary p \<noteq> []" by auto
    then show ?case using Cons l by (subst decode_loop.simps) (simp add: Unmarshal_Marshal)
  qed
  then show ?thesis by (simp add: DecodePeersCompact_def)
qed

section \<open>Tiers and events\<close>

record 'a Tier =
  Trackers :: "'a list"
  tier_index :: nat

definition NewTier :: "choices \<Rightarrow> 'a list \<Rightarrow> 'a Tier \<times> choices" where
  "NewTier cs ts = (let (ts, cs) = shuffle cs ts in (\<lparr>Trackers = ts, tier_index = 0\<rparr>, cs))"

text \<open>\<open>announce\<close> is the answer of a tracker; an empty tier is an index out of range.\<close>

definition tier_Announce :: "('a \<Rightarrow> 'e + 'r) \<Rightarrow> 'a Tier \<Rightarrow> (('e + 'r) \<times> 'a Tier) option" where
  "tier_Announce announce t = do {
     tr \<leftarrow> slice_get (Trackers t) (tier_index t);
     Some (case announce tr of
       Inr r \<Rightarrow> (Inr r, t)
     | Inl e \<Rightarrow> (Inl e, t\<lparr>tier_index := (tier_index t + 1) mod length (Trackers t)\<rparr>))
   }"

text \<open>Repeated announces; the tracker that answers stays the current one, and every tracker is asked before one is asked again.\<close>

fun tier_rounds :: "('a \<Rightarrow> 'e + 'r) \<Rightarrow> nat \<Rightarrow> 'a Tier \<Rightarrow> 'a Tier option" where
  "tier_rounds announce 0 t = Some t"
| "tier_rounds announce (Suc n) t = do { (_, t) \<leftarrow> tier_Announce announce t; tier_rounds announce n t }"

lemma tier_rounds_fail:
  assumes "tier_index t < length (Trackers t)" "\<And>m. m < n \<Longrightarrow> \<exists>e. announce (Trackers t ! ((tier_index t + m) mod length (Trackers t))) = Inl e"
  shows "tier_rounds announce n t = Some (t\<lparr>tier_index := (tier_index t + n) mod length (Trackers t)\<rparr>)"
  using assms
proof (induction n arbitrary: t)
  case (Suc n)
  obtain e where e: "announce (Trackers t ! tier_index t) = Inl e" using Suc.prems(1) Suc.prems(2) [of 0] by auto
  let ?t = "t\<lparr>tier_index := (tier_index t + 1) mod length (Trackers t)\<rparr>"
  have pos: "0 < length (Trackers t)" using Suc.prems(1) by linarith
  have "tier_rounds announce n ?t = Some (?t\<lparr>tier_index := (tier_index ?t + n) mod length (Trackers ?t)\<rparr>)"
  proof (rule Suc.IH)
    show "tier_index ?t < length (Trackers ?t)" using pos by simp
    fix m
    assume "m < n"
    then show "\<exists>e. announce (Trackers ?t ! ((tier_index ?t + m) mod length (Trackers ?t))) = Inl e"
      using Suc.prems(2) [of "Suc m"] by (simp add: mod_simps)
  qed
  then show ?case using e Suc.prems(1) by (simp add: tier_Announce_def mod_simps)
qed simp

text \<open>A tier with a tracker that answers reaches it.\<close>

lemma tier_reaches_working:
  assumes "tier_index t < length (Trackers t)" "tr \<in> set (Trackers t)" "announce tr = Inr r"
  shows "\<exists>n t' r'. n < length (Trackers t) \<and> tier_rounds announce n t = Some t' \<and> tier_Announce announce t' = Some (Inr r', t')"
proof -
  let ?L = "length (Trackers t)"
  let ?P = "\<lambda>m. \<exists>r. announce (Trackers t ! ((tier_index t + m) mod ?L)) = Inr r"
  obtain k where k: "k < ?L" "Trackers t ! k = tr" using assms(2) by (auto simp: in_set_conv_nth)
  have "(tier_index t + (k + ?L - tier_index t) mod ?L) mod ?L = k"
    using k(1) assms(1) by (simp add: mod_simps)
  moreover have "(k + ?L - tier_index t) mod ?L < ?L" using k(1) by (intro mod_less_divisor) linarith
  ultimately have "\<exists>m<?L. ?P m" using k assms(3) by (intro exI [of _ "(k + ?L - tier_index t) mod ?L"]) auto
  then have ex: "\<exists>m. m < ?L \<and> ?P m" .
  define m where "m = (LEAST m. m < ?L \<and> ?P m)"
  have m: "m < ?L" "?P m" using LeastI_ex [OF ex] by (simp_all add: m_def)
  have least: "\<not> ?P j" if "j < m" for j
    using not_less_Least [OF that [unfolded m_def]] that m(1) by auto
  have "\<exists>e. announce (Trackers t ! ((tier_index t + j) mod ?L)) = Inl e" if "j < m" for j
    using least [OF that] by (cases "announce (Trackers t ! ((tier_index t + j) mod ?L))") auto
  then have "tier_rounds announce m t = Some (t\<lparr>tier_index := (tier_index t + m) mod ?L\<rparr>)"
    by (intro tier_rounds_fail assms(1))
  moreover have "(tier_index t + m) mod ?L < ?L" using m(1) by (intro mod_less_divisor) linarith
  ultimately show ?thesis using m(1,2) by (intro exI [of _ m]) (auto simp: tier_Announce_def)
qed

definition event_String :: "nat \<Rightarrow> string option" where
  "event_String e = slice_get [''empty'', ''completed'', ''started'', ''stopped''] e"

section \<open>The UDP protocol\<close>

definition put_u64 :: "u64 \<Rightarrow> byte list" where
  "put_u64 x = put_u32 (ucast (drop_bit 32 x)) @ put_u32 (ucast x)"

record udp_header =
  h_Action :: u32
  h_TransactionID :: u32

definition put_header :: "udp_header \<Rightarrow> byte list" where
  "put_header h = put_u32 (h_Action h) @ put_u32 (h_TransactionID h)"

definition actionConnect :: u32 where "actionConnect = 0"
definition actionAnnounce :: u32 where "actionAnnounce = 1"
definition actionError :: u32 where "actionError = 3"

definition connectRequest_WriteTo :: "u64 \<Rightarrow> udp_header \<Rightarrow> byte list" where
  "connectRequest_WriteTo conn h = put_u64 conn @ put_header h"

record announceRequest =
  a_ConnectionID :: u64
  a_header :: udp_header
  a_InfoHash :: "byte list"
  a_PeerID :: "byte list"
  a_Downloaded :: u64
  a_Left :: u64
  a_Uploaded :: u64
  a_Event :: u32
  a_IP :: u32
  a_Key :: u32
  a_NumWant :: u32
  a_Port :: u16
  a_Extensions :: u16

text \<open>The URL follows in options of at most 255 bytes.\<close>

function url_options :: "byte list \<Rightarrow> byte list" where
  "url_options d = (if d = [] then [] else 2 # of_nat (min 255 (length d)) # take 255 d @ url_options (drop 255 d))"
  by pat_completeness auto
termination by (relation "measure length") auto

declare url_options.simps [simp del]

definition announce_WriteTo :: "announceRequest \<Rightarrow> byte list \<Rightarrow> byte list" where
  "announce_WriteTo r urlData =
     put_u64 (a_ConnectionID r) @ put_header (a_header r) @ a_InfoHash r @ a_PeerID r @ put_u64 (a_Downloaded r) @
     put_u64 (a_Left r) @ put_u64 (a_Uploaded r) @ put_u32 (a_Event r) @ put_u32 (a_IP r) @ put_u32 (a_Key r) @
     put_u32 (a_NumWant r) @ put_u16 (a_Port r) @ put_u16 (a_Extensions r) @ url_options urlData"

text \<open>
  The request of \<open>UDPTracker.Announce\<close>, before its transaction and connection are set.  The zero \<open>Key\<close> is written over the end of the peer id.
\<close>

definition announce_request ::
  "byte list \<Rightarrow> byte list \<Rightarrow> int \<Rightarrow> int \<Rightarrow> int \<Rightarrow> u32 \<Rightarrow> int \<Rightarrow> int \<Rightarrow> announceRequest" where
  "announce_request infoHash peerID downloaded remaining uploaded event numWant port =
     (let r = \<lparr>a_ConnectionID = 0, a_header = \<lparr>h_Action = actionAnnounce, h_TransactionID = 0\<rparr>, a_InfoHash = infoHash, a_PeerID = peerID,
        a_Downloaded = of_int downloaded, a_Left = of_int remaining, a_Uploaded = of_int uploaded, a_Event = event, a_IP = 0, a_Key = 0,
        a_NumWant = of_int numWant, a_Port = of_int port, a_Extensions = 0\<rparr>
      in r\<lparr>a_PeerID := take 16 (a_PeerID r) @ put_u32 (a_Key r)\<rparr>)"

record udpAnnounceResponse =
  r_header :: udp_header
  r_Interval :: u32
  r_Leechers :: u32
  r_Seeders :: u32

text \<open>\<open>None\<close> is the error: too short, another action, or no list of compact addresses.\<close>

definition parseAnnounceResponse :: "byte list \<Rightarrow> (udpAnnounceResponse \<times> tcp_addr list) option" where
  "parseAnnounceResponse data =
     (if length data < 20 then None
      else if be32 data \<noteq> actionAnnounce then None
      else do {
        peers \<leftarrow> DecodePeersCompact (drop 20 data);
        Some (\<lparr>r_header = \<lparr>h_Action = be32 data, h_TransactionID = be32 (drop 4 data)\<rparr>, r_Interval = be32 (drop 8 data),
          r_Leechers = be32 (drop 12 data), r_Seeders = be32 (drop 16 data)\<rparr>, peers)
      })"

definition connect_response :: "byte list \<Rightarrow> u64 option" where
  "connect_response data =
     (if length data < 16 then None
      else if be32 data \<noteq> actionConnect then None
      else Some (push_bit 32 (ucast (be32 (drop 8 data))) OR ucast (be32 (drop 12 data))))"

text \<open>\<open>2^*b\<close> is an exclusive or, in seconds.\<close>

definition NextBackOff :: "int \<Rightarrow> int \<times> int" where
  "NextBackOff b = (let b = (if 8 < b then 8 else b) in (15 * (2 XOR b), b + 1))"

text \<open>An answer: the transaction it belongs to is taken out of the map; \<open>bencoded\<close> decodes the error of a tracker.\<close>

definition readLoop_step ::
  "(byte list \<Rightarrow> 'e) \<Rightarrow> byte list \<Rightarrow> (u32 \<rightharpoonup> 't) \<Rightarrow> ('t \<times> ('e + byte list)) option \<times> (u32 \<rightharpoonup> 't)" where
  "readLoop_step bencoded buf trxs =
     (if length buf < 8 then (None, trxs)
      else let tid = be32 (drop 4 buf); trxs' = trxs(tid := None) in
        case trxs tid of
          None \<Rightarrow> (None, trxs')
        | Some trx \<Rightarrow> (Some (trx, if be32 buf = actionError then Inl (bencoded (drop 8 buf)) else Inr buf), trxs'))"

text \<open>The options carry the URL: a reader of options that joins their contents gets it back.\<close>

fun join_options :: "nat \<Rightarrow> byte list \<Rightarrow> byte list" where
  "join_options 0 b = []"
| "join_options (Suc k) b = (case b of t # n # r \<Rightarrow> take (unat n) r @ join_options k (drop (unat n) r) | _ \<Rightarrow> [])"

lemma url_options_joined: "length d \<le> k \<Longrightarrow> join_options k (url_options d) = d"
proof (induction k arbitrary: d)
  case (Suc k)
  show ?case
  proof (cases "d = []")
    case True
    then show ?thesis by (simp add: url_options.simps)
  next
    case False
    have "unat (of_nat (min 255 (length d)) :: byte) = min 255 (length d)"
      by (simp add: unat_of_nat take_bit_nat_eq_self)
    moreover have "join_options k (url_options (drop 255 d)) = drop 255 d"
      using Suc.prems False by (intro Suc.IH) (cases d; simp)
    ultimately show ?thesis using False by (subst url_options.simps) (simp add: min_def)
  qed
qed (simp add: url_options.simps)

lemma length_announce:
  "length (a_InfoHash r) = 20 \<Longrightarrow> length (a_PeerID r) = 20 \<Longrightarrow> length (announce_WriteTo r []) = 100"
  by (simp add: announce_WriteTo_def put_header_def put_u64_def url_options.simps)

text \<open>The identity of the client loses its last four bytes, and the third retry follows at once.\<close>

lemma announced_peer_id: "length p = 20 \<Longrightarrow> a_PeerID (announce_request h p d l u e n pt) = take 16 p @ [0, 0, 0, 0]"
  by (simp add: announce_request_def put_u32_def)

lemma back_off_xor: "map (fst \<circ> NextBackOff) [0, 1, 2, 3, 4] = [30, 45, 0, 15, 90]"
  by code_simp

text \<open>An answer completes at most one transaction, the one with its id, and no later answer completes it again.\<close>

lemma answered_once:
  assumes "readLoop_step bencoded buf trxs = (Some (trx, r), trxs')"
  shows "trxs (be32 (drop 4 buf)) = Some trx \<and> trxs' = trxs(be32 (drop 4 buf) := None)"
  using assms by (auto simp: readLoop_step_def Let_def split: if_splits option.splits)

section \<open>Peer exchange\<close>

text \<open>The last 25 addresses, in a ring.\<close>

record RecentlySeen =
  rs_peers :: "CompactPeer list"
  rs_offset :: nat
  rs_length :: nat

definition NewRecentlySeen :: RecentlySeen where
  "NewRecentlySeen = \<lparr>rs_peers = [], rs_offset = 0, rs_length = 0\<rparr>"

definition rs_Add :: "tcp_addr \<Rightarrow> RecentlySeen \<Rightarrow> RecentlySeen option" where
  "rs_Add addr l =
     (let cp = NewCompactPeer addr in
      if cp \<in> set (rs_peers l) then Some l
      else do {
        l \<leftarrow> (if 25 \<le> rs_length l then
               (if rs_offset l < length (rs_peers l) then Some (l\<lparr>rs_peers := (rs_peers l)[rs_offset l := cp]\<rparr>) else None)
             else Some (l\<lparr>rs_peers := rs_peers l @ [cp], rs_length := rs_length l + 1\<rparr>));
        Some (l\<lparr>rs_offset := (rs_offset l + 1) mod 25\<rparr>)
      })"

text \<open>The list with the oldest address first.\<close>

definition oldest_first :: "RecentlySeen \<Rightarrow> CompactPeer list" where
  "oldest_first l = (if rs_length l < 25 then rs_peers l else drop (rs_offset l) (rs_peers l) @ take (rs_offset l) (rs_peers l))"

definition rs_inv :: "RecentlySeen \<Rightarrow> bool" where
  "rs_inv l \<longleftrightarrow> rs_length l = length (rs_peers l) \<and> rs_length l \<le> 25 \<and> distinct (rs_peers l) \<and> rs_offset l < 25 \<and>
     (rs_length l < 25 \<longrightarrow> rs_offset l = rs_length l)"

lemma rs_inv_New: "rs_inv NewRecentlySeen"
  by (simp add: rs_inv_def NewRecentlySeen_def)

text \<open>Adding never panics; a new address goes to the end, and the oldest of 25 makes room for it.\<close>

lemma rs_Add_queue:
  assumes inv: "rs_inv l"
  shows "\<exists>l'. rs_Add addr l = Some l' \<and> rs_inv l' \<and>
    oldest_first l' = (let cp = NewCompactPeer addr; q = oldest_first l in
      if cp \<in> set q then q else (if length q < 25 then q else tl q) @ [cp])"
proof -
  let ?cp = "NewCompactPeer addr"
  have "set (drop (rs_offset l) (rs_peers l) @ take (rs_offset l) (rs_peers l)) = set (rs_peers l)"
    by (metis append_take_drop_id set_append sup_commute)
  then have set: "set (oldest_first l) = set (rs_peers l)" by (simp add: oldest_first_def)
  have "length (drop (rs_offset l) (rs_peers l) @ take (rs_offset l) (rs_peers l)) = length (rs_peers l)"
    by simp
  then have qlen: "length (oldest_first l) = length (rs_peers l)" by (simp add: oldest_first_def del: length_append)
  show ?thesis
  proof (cases "?cp \<in> set (rs_peers l)")
    case True
    then show ?thesis using inv set by (simp add: rs_Add_def Let_def)
  next
    case new: False
    show ?thesis
    proof (cases "rs_length l < 25")
      case True
      let ?l = "l\<lparr>rs_peers := rs_peers l @ [?cp], rs_length := rs_length l + 1, rs_offset := (rs_offset l + 1) mod 25\<rparr>"
      have "rs_Add addr l = Some ?l" using True new by (simp add: rs_Add_def Let_def)
      moreover have "rs_inv ?l" using inv True new by (auto simp: rs_inv_def)
      moreover have "oldest_first ?l = rs_peers l @ [?cp]"
        using inv True by (cases "rs_length l = 24") (auto simp: oldest_first_def rs_inv_def)
      moreover have "oldest_first l = rs_peers l" "length (rs_peers l) < 25" using True inv by (simp_all add: oldest_first_def rs_inv_def)
      ultimately show ?thesis using new by (simp add: Let_def)
    next
      case False
      then have len: "length (rs_peers l) = 25" "rs_length l = 25" "rs_offset l < 25" using inv by (simp_all add: rs_inv_def)
      let ?o = "rs_offset l"
      let ?l = "l\<lparr>rs_peers := (rs_peers l)[?o := ?cp], rs_offset := (?o + 1) mod 25\<rparr>"
      have "rs_Add addr l = Some ?l" using new len by (simp add: rs_Add_def Let_def)
      moreover have "rs_inv ?l" using inv new len by (simp add: rs_inv_def distinct_list_update)
      moreover have "oldest_first ?l = tl (oldest_first l) @ [?cp]"
      proof -
        define a where "a = take ?o (rs_peers l)"
        define z where "z = drop (Suc ?o) (rs_peers l)"
        have p: "rs_peers l = a @ (rs_peers l ! ?o) # z" "(rs_peers l)[?o := ?cp] = a @ ?cp # z"
          unfolding a_def z_def using len by (simp_all add: id_take_nth_drop [symmetric] upd_conv_take_nth_drop)
        have la: "length a = ?o" "length z = 24 - ?o" using len by (simp_all add: a_def z_def)
        have "oldest_first l = (rs_peers l ! ?o) # z @ a"
          using len la by (simp add: oldest_first_def) (subst (1 2) p(1), simp)
        moreover have "oldest_first ?l = drop ((?o + 1) mod 25) (a @ ?cp # z) @ take ((?o + 1) mod 25) (a @ ?cp # z)"
          using len by (simp add: oldest_first_def p(2))
        moreover have "\<dots> = z @ a @ [?cp]"
          using len la by (cases "?o = 24") simp_all
        ultimately show ?thesis by simp
      qed
      ultimately show ?thesis using new len set qlen by (simp add: Let_def)
    qed
  qed
qed

text \<open>The addresses to announce as added and dropped; the order of a map is a choice.\<close>

record PEXList =
  px_added :: "CompactPeer list"
  px_dropped :: "CompactPeer list"
  px_flushed :: bool

definition NewPEX :: PEXList where
  "NewPEX = \<lparr>px_added = [], px_dropped = [], px_flushed = False\<rparr>"

definition NewWithRecentlySeen :: "CompactPeer list \<Rightarrow> PEXList" where
  "NewWithRecentlySeen rs = fold (\<lambda>cp l. l\<lparr>px_dropped := List.insert cp (px_dropped l)\<rparr>) rs NewPEX"

definition px_Add :: "tcp_addr \<Rightarrow> PEXList \<Rightarrow> PEXList" where
  "px_Add a l = (let p = NewCompactPeer a in l\<lparr>px_added := List.insert p (px_added l), px_dropped := remove1 p (px_dropped l)\<rparr>)"

definition px_Drop :: "tcp_addr \<Rightarrow> PEXList \<Rightarrow> PEXList" where
  "px_Drop a l = (let p = NewCompactPeer a in l\<lparr>px_dropped := List.insert p (px_dropped l), px_added := remove1 p (px_added l)\<rparr>)"

text \<open>What is sent of a map, and what stays.\<close>

definition flush_map :: "choices \<Rightarrow> bool \<Rightarrow> CompactPeer list \<Rightarrow> byte list \<times> CompactPeer list \<times> choices" where
  "flush_map cs limit m =
     (let count = (if limit \<and> 50 < length m then 50 else length m); (order, cs) = shuffle cs m
      in (concat (map cpeer_MarshalBinary (take count order)), drop count order, cs))"

definition px_Flush :: "choices \<Rightarrow> PEXList \<Rightarrow> (byte list \<times> byte list) \<times> PEXList \<times> choices" where
  "px_Flush cs l =
     (let (added, a, cs) = flush_map cs (px_flushed l) (px_added l);
          (dropped, d, cs) = flush_map cs (px_flushed l) (px_dropped l)
      in ((added, dropped), l\<lparr>px_added := a, px_dropped := d, px_flushed := True\<rparr>, cs))"

definition px_inv :: "PEXList \<Rightarrow> bool" where
  "px_inv l \<longleftrightarrow> distinct (px_added l) \<and> distinct (px_dropped l) \<and> set (px_added l) \<inter> set (px_dropped l) = {} \<and>
     (\<forall>p\<in>set (px_added l) \<union> set (px_dropped l). cpeer_ok p)"

lemma px_inv_ops: "px_inv l \<Longrightarrow> px_inv (px_Add a l)" "px_inv l \<Longrightarrow> px_inv (px_Drop a l)"
  by (auto simp: px_inv_def px_Add_def px_Drop_def Let_def NewCompactPeer_ok)

text \<open>Every entry is sent or stays, not both; from the second message on at most 50 of each kind are sent.\<close>

lemma flush_map_spec:
  assumes "distinct m" "\<forall>p\<in>set m. cpeer_ok p" "flush_map cs limit m = (b, m', cs')"
  shows "\<exists>sent. DecodePeersCompact b = Some (map cpeer_Addr sent) \<and> set m = set sent \<union> set m' \<and> set sent \<inter> set m' = {} \<and>
    distinct m' \<and> (limit \<longrightarrow> length sent \<le> 50) \<and> (\<not> limit \<longrightarrow> m' = [])"
proof -
  define count where "count = (if limit \<and> 50 < length m then 50 else length m)"
  obtain order where o: "shuffle cs m = (order, cs')" "b = concat (map cpeer_MarshalBinary (take count order))" "m' = drop count order"
    using assms(3) by (auto simp: flush_map_def Let_def count_def split: prod.splits)
  have so: "set order = set m" "length order = length m" "distinct order"
    using o(1) set_shuffle [of cs m] length_shuffle [of cs m] distinct_shuffle [of cs m] assms(1) by simp_all
  have "DecodePeersCompact b = Some (map cpeer_Addr (take count order))"
    unfolding o(2) by (rule compact_roundtrip) (use assms(2) so in_set_takeD in fastforce)
  moreover have "set order = set (take count order) \<union> set (drop count order)"
    using set_append [of "take count order" "drop count order"] by simp
  moreover have "set (take count order) \<inter> set (drop count order) = {}"
    using so(3) distinct_append [of "take count order" "drop count order"] by simp
  ultimately show ?thesis using so o(3) by (intro exI [of _ "take count order"]) (auto simp: count_def)
qed

section \<open>The fast set\<close>

text \<open>One digest: up to five indices; \<open>numPieces\<close> zero is a division by zero.\<close>

fun fast_words :: "nat \<Rightarrow> u32 \<Rightarrow> u32 list \<Rightarrow> u32 list \<Rightarrow> u32 list" where
  "fast_words k n [] a = a"
| "fast_words k n (y # ys) a =
     (if length a < k then (let index = y mod n in fast_words k n ys (if index \<in> set a then a else a @ [index])) else a)"

definition digest_words :: "byte list \<Rightarrow> u32 list" where
  "digest_words x = map (\<lambda>i. be32 (drop (4 * i) x)) [0..<5]"

fun fast_rounds :: "(byte list \<Rightarrow> byte list) \<Rightarrow> nat \<Rightarrow> nat \<Rightarrow> u32 \<Rightarrow> byte list \<Rightarrow> u32 list \<Rightarrow> u32 list" where
  "fast_rounds sha1 0 k n x a = a"
| "fast_rounds sha1 (Suc j) k n x a =
     (if length a < k then (let x = sha1 x in fast_rounds sha1 j k n x (fast_words k n (digest_words x) a)) else a)"

text \<open>\<open>None\<close> is the panic; an address that is not of version 4 has no fast set.\<close>

definition GenerateFastSet :: "(byte list \<Rightarrow> byte list) \<Rightarrow> nat \<Rightarrow> u32 \<Rightarrow> byte list \<Rightarrow> byte list \<Rightarrow> u32 list option" where
  "GenerateFastSet sha1 k numPieces infoHash ip =
     (case To4 ip of
        None \<Rightarrow> Some []
      | Some ip \<Rightarrow>
        if numPieces = 0 \<and> 0 < k then None
        else Some (fast_rounds sha1 k k numPieces (take 3 ip @ [0] @ infoHash) []))"

lemma fast_words_ok:
  assumes "distinct a" "length a \<le> k" "\<forall>i\<in>set a. i < n" "0 < n"
  shows "distinct (fast_words k n ys a) \<and> length (fast_words k n ys a) \<le> k \<and> (\<forall>i\<in>set (fast_words k n ys a). i < n)"
  using assms
proof (induction ys arbitrary: a)
  case (Cons y ys)
  have y: "y mod n < n" by (rule word_mod_less_divisor [OF Cons.prems(4)])
  show ?case
  proof (cases "length a < k")
    case True
    let ?a = "if y mod n \<in> set a then a else a @ [y mod n]"
    have "distinct ?a" "length ?a \<le> k" "\<forall>i\<in>set ?a. i < n" using Cons.prems(1-3) True y by simp_all
    then show ?thesis unfolding fast_words.simps Let_def if_P [OF True] by (rule Cons.IH [OF _ _ _ Cons.prems(4)])
  next
    case False
    then show ?thesis using Cons.prems(1-3) by simp
  qed
qed simp

lemma fast_rounds_ok:
  assumes "distinct a" "length a \<le> k" "\<forall>i\<in>set a. i < n" "0 < n"
  shows "distinct (fast_rounds sha1 j k n x a) \<and> length (fast_rounds sha1 j k n x a) \<le> k \<and> (\<forall>i\<in>set (fast_rounds sha1 j k n x a). i < n)"
  using assms
proof (induction j arbitrary: x a)
  case (Suc j)
  show ?case
  proof (cases "length a < k")
    case True
    let ?a = "fast_words k n (digest_words (sha1 x)) a"
    have "distinct ?a" "length ?a \<le> k" "\<forall>i\<in>set ?a. i < n" using fast_words_ok [OF Suc.prems] by blast+
    then show ?thesis unfolding fast_rounds.simps Let_def if_P [OF True] by (rule Suc.IH [OF _ _ _ Suc.prems(4)])
  next
    case False
    then show ?thesis using Suc.prems(1-3) by simp
  qed
qed simp

text \<open>The set is at most \<open>k\<close> different pieces of the torrent.\<close>

lemma fast_set_ok:
  assumes "GenerateFastSet sha1 k n h ip = Some s" "0 < n"
  shows "distinct s \<and> length s \<le> k \<and> (\<forall>i\<in>set s. i < n)"
proof (cases "To4 ip")
  case None
  then show ?thesis using assms(1) by (simp add: GenerateFastSet_def)
next
  case (Some ip4)
  then have "s = fast_rounds sha1 k k n (take 3 ip4 @ [0] @ h) []"
    using assms by (simp add: GenerateFastSet_def split: if_splits)
  then show ?thesis using fast_rounds_ok [of "[]" k n sha1 k "take 3 ip4 @ [0] @ h"] assms(2) by simp
qed

end
