(* ===== verification/Encoding.thy ===== *)
theory Encoding
  imports Metainfo
begin

text \<open>
  The text encodings of the standard library that the resume database uses: \<open>strconv.FormatInt\<close> and
  \<open>ParseInt\<close>, \<open>FormatBool\<close> and \<open>ParseBool\<close>, and \<open>encoding/json\<close> for lists of strings, with their round trips.
\<close>

section \<open>Integers and booleans\<close>

definition digit :: "nat \<Rightarrow> char" where
  "digit n = ''0123456789'' ! n"

fun format_nat :: "nat \<Rightarrow> string" where
  "format_nat n = (if n < 10 then [digit n] else format_nat (n div 10) @ [digit (n mod 10)])"

declare format_nat.simps [simp del]

definition FormatInt :: "int \<Rightarrow> string" where
  "FormatInt i = (if i < 0 then CHR ''-'' # format_nat (nat (- i)) else format_nat (nat i))"

definition digit_value :: "char \<Rightarrow> nat option" where
  "digit_value c = (let n = (of_char c :: nat) in if 48 \<le> n \<and> n \<le> 57 then Some (n - 48) else None)"

fun parse_digits :: "nat \<Rightarrow> string \<Rightarrow> nat option" where
  "parse_digits acc [] = Some acc"
| "parse_digits acc (c # s) = (case digit_value c of None \<Rightarrow> None | Some d \<Rightarrow> parse_digits (acc * 10 + d) s)"

text \<open>\<open>ParseInt(s, 10, 64)\<close>: an optional sign, at least one digit, and a value of 64 bits.\<close>

definition ParseInt :: "string \<Rightarrow> int option" where
  "ParseInt s =
     (case s of [] \<Rightarrow> None
      | c # r \<Rightarrow>
        let neg = (c = CHR ''-''); ds = (if c = CHR ''-'' \<or> c = CHR ''+'' then r else s) in
        if ds = [] then None
        else case parse_digits 0 ds of None \<Rightarrow> None
          | Some n \<Rightarrow>
            if neg then (if int n > 2 ^ 63 then None else Some (- int n))
            else if int n \<ge> 2 ^ 63 then None else Some (int n))"

definition FormatBool :: "bool \<Rightarrow> string" where
  "FormatBool b = (if b then ''true'' else ''false'')"

definition ParseBool :: "string \<Rightarrow> bool option" where
  "ParseBool s =
     (if s \<in> {''1'', ''t'', ''T'', ''TRUE'', ''true'', ''True''} then Some True
      else if s \<in> {''0'', ''f'', ''F'', ''FALSE'', ''false'', ''False''} then Some False else None)"

lemma digit_value_digit: "n < 10 \<Longrightarrow> digit_value (digit n) = Some n"
proof -
  have "\<forall>n\<in>{..<10}. digit_value (digit n) = Some n" by code_simp
  then show "n < 10 \<Longrightarrow> digit_value (digit n) = Some n" by blast
qed

lemma parse_digits_append:
  "parse_digits acc (s @ t) = (case parse_digits acc s of None \<Rightarrow> None | Some n \<Rightarrow> parse_digits n t)"
  by (induction acc s rule: parse_digits.induct) (auto split: option.splits)

lemma parse_format_nat: "parse_digits 0 (format_nat n) = Some n"
proof (induction n rule: format_nat.induct)
  case (1 n)
  show ?case
  proof (cases "n < 10")
    case True
    then show ?thesis by (subst format_nat.simps) (simp add: digit_value_digit)
  next
    case False
    then have "parse_digits 0 (format_nat (n div 10)) = Some (n div 10)" by (rule "1.IH")
    then show ?thesis using False
      by (subst format_nat.simps) (simp add: parse_digits_append digit_value_digit div_mult_mod_eq)
  qed
qed

lemma format_nat_first: "\<exists>n s. format_nat m = digit n # s \<and> n < 10"
proof (induction m rule: format_nat.induct)
  case (1 m)
  show ?case
  proof (cases "m < 10")
    case True
    then show ?thesis by (subst format_nat.simps) auto
  next
    case False
    then obtain n s where "format_nat (m div 10) = digit n # s" "n < 10" using 1 by blast
    then show ?thesis using False by (subst format_nat.simps) auto
  qed
qed

lemma length_format_nat: "n < 10 ^ Suc k \<Longrightarrow> length (format_nat n) \<le> Suc k"
proof (induction k arbitrary: n)
  case (Suc k)
  show ?case
  proof (cases "n < 10")
    case False
    have "n div 10 < 10 ^ Suc k" using Suc.prems by (simp add: less_mult_imp_div_less mult.commute)
    then show ?thesis using Suc.IH [of "n div 10"] False by (subst format_nat.simps) simp
  qed (subst format_nat.simps, simp)
qed (subst format_nat.simps, simp)

lemma length_FormatInt: "- (2 ^ 63) \<le> i \<Longrightarrow> i < 2 ^ 63 \<Longrightarrow> length (FormatInt i) < 64"
proof -
  assume i: "- (2 ^ 63) \<le> i" "i < 2 ^ 63"
  then have "nat (- i) < 10 ^ Suc 18" "nat i < 10 ^ Suc 18" by (simp_all add: nat_less_iff)
  then show ?thesis using length_format_nat [of "nat (- i)" 18] length_format_nat [of "nat i" 18]
    by (auto simp: FormatInt_def)
qed

lemma digit_no_sign: "n < 10 \<Longrightarrow> digit n \<noteq> CHR ''-'' \<and> digit n \<noteq> CHR ''+''"
proof -
  have "\<forall>n\<in>{..<10}. digit n \<noteq> CHR ''-'' \<and> digit n \<noteq> CHR ''+''" by code_simp
  then show "n < 10 \<Longrightarrow> digit n \<noteq> CHR ''-'' \<and> digit n \<noteq> CHR ''+''" by blast
qed

lemma ParseInt_FormatInt:
  assumes "- (2 ^ 63) \<le> i" and "i < 2 ^ 63"
  shows "ParseInt (FormatInt i) = Some i"
proof (cases "i < 0")
  case True
  obtain n s where "format_nat (nat (- i)) = digit n # s" using format_nat_first by blast
  moreover have "parse_digits 0 (format_nat (nat (- i))) = Some (nat (- i))" by (rule parse_format_nat)
  ultimately show ?thesis using True assms by (auto simp: ParseInt_def FormatInt_def Let_def)
next
  case False
  obtain n s where f: "format_nat (nat i) = digit n # s" "n < 10" using format_nat_first by blast
  moreover have "parse_digits 0 (format_nat (nat i)) = Some (nat i)" by (rule parse_format_nat)
  ultimately show ?thesis using False assms digit_no_sign [OF f(2)] by (auto simp: ParseInt_def FormatInt_def Let_def)
qed

lemma ParseBool_FormatBool: "ParseBool (FormatBool b) = Some b"
  by (cases b) (simp_all add: ParseBool_def FormatBool_def)

section \<open>Lists of strings in JSON\<close>

text \<open>
  A string as \<open>json.Marshal\<close> writes it: control characters and \<open><\<close>, \<open>>\<close>, \<open>&\<close> escaped, invalid
  UTF-8 as the replacement character, the two line separators of Unicode escaped.
\<close>

definition escape_char :: "char \<Rightarrow> string" where
  "escape_char c =
     (let n = (of_char c :: nat) in
      if c = CHR 34 \<or> c = CHR 92 then [CHR 92, c]
      else if n = 10 then [CHR 92, CHR ''n'']
      else if n = 13 then [CHR 92, CHR ''r'']
      else if n = 9 then [CHR 92, CHR ''t'']
      else if n < 32 \<or> c = CHR ''<'' \<or> c = CHR ''>'' \<or> c = CHR ''&''
      then [CHR 92] @ ''u00'' @ [hex_digit (n div 16), hex_digit (n mod 16)]
      else [c])"

function json_body :: "string \<Rightarrow> string" where
  "json_body s =
     (case s of [] \<Rightarrow> []
      | c # r \<Rightarrow>
        if (of_char c :: nat) < 128 then escape_char c @ json_body r
        else if rune_len s = 0 then CHR 92 # ''ufffd'' @ json_body r
        else if take 2 s = [char_of (226 :: nat), char_of (128 :: nat)] \<and> 3 \<le> length s \<and> (of_char (s ! 2) :: nat) \<in> {168, 169}
        then CHR 92 # ''u202'' @ [hex_digit (of_char (s ! 2) mod 16)] @ json_body (drop (rune_len s) s)
        else take (rune_len s) s @ json_body (drop (rune_len s) s))"
  by pat_completeness auto
termination
  by (relation "measure length") auto

declare json_body.simps [simp del]

definition json_string :: "string \<Rightarrow> string" where
  "json_string s = CHR 34 # json_body s @ [CHR 34]"

fun json_elems :: "string list \<Rightarrow> string" where
  "json_elems [] = []"
| "json_elems [s] = json_string s"
| "json_elems (s # t # ss) = json_string s @ CHR '','' # json_elems (t # ss)"

text \<open>A nil list is \<open>null\<close>.\<close>

definition json_Marshal :: "string list option \<Rightarrow> string" where
  "json_Marshal ss = (case ss of None \<Rightarrow> ''null'' | Some ss \<Rightarrow> CHR ''['' # json_elems ss @ '']'')"

text \<open>\<open>json.Unmarshal\<close> into a list of strings.  An element that is \<open>null\<close> stays the empty string; anything else is an error.\<close>

definition hex_value :: "char \<Rightarrow> nat option" where
  "hex_value c =
     (let n = (of_char c :: nat) in
      if 48 \<le> n \<and> n \<le> 57 then Some (n - 48)
      else if 97 \<le> n \<and> n \<le> 102 then Some (n - 87)
      else if 65 \<le> n \<and> n \<le> 70 then Some (n - 55) else None)"

fun getu4 :: "string \<Rightarrow> nat option" where
  "getu4 (a # b # c # d # s) = do {
     a \<leftarrow> hex_value a; b \<leftarrow> hex_value b; c \<leftarrow> hex_value c; d \<leftarrow> hex_value d;
     Some (((a * 16 + b) * 16 + c) * 16 + d) }"
| "getu4 s = None"

text \<open>\<open>utf8.EncodeRune\<close>; a surrogate becomes the replacement character.\<close>

definition EncodeRune :: "nat \<Rightarrow> string" where
  "EncodeRune r =
     (if r < 128 then [char_of r]
      else if r < 2048 then [char_of (192 + r div 64), char_of (128 + r mod 64)]
      else if (55296 \<le> r \<and> r < 57344) \<or> r > 1114111 then replacement_char
      else if r < 65536 then [char_of (224 + r div 4096), char_of (128 + r div 64 mod 64), char_of (128 + r mod 64)]
      else [char_of (240 + r div 262144), char_of (128 + r div 4096 mod 64), char_of (128 + r div 64 mod 64), char_of (128 + r mod 64)])"

definition simple_escape :: "char \<Rightarrow> char option" where
  "simple_escape c =
     (if c \<in> {CHR 34, CHR 92, CHR ''/''} then Some c
      else if c = CHR ''b'' then Some (CHR 8)
      else if c = CHR ''f'' then Some (CHR 12)
      else if c = CHR ''n'' then Some (CHR 10)
      else if c = CHR ''r'' then Some (CHR 13)
      else if c = CHR ''t'' then Some (CHR 9) else None)"

text \<open>What follows an opening quote: the string and what comes after its closing quote.\<close>

function unquote :: "string \<Rightarrow> (string \<times> string) option" where
  "unquote [] = None"
| "unquote (c # r) =
     (if c = CHR 34 then Some ([], r)
      else if c = CHR 92 then
        (case r of [] \<Rightarrow> None
         | e # r' \<Rightarrow>
           if e = CHR ''u'' then
             (case getu4 r' of None \<Rightarrow> None
              | Some u \<Rightarrow>
                let r2 = drop 4 r';
                    low = (case r2 of b # u' # r3 \<Rightarrow> if b = CHR 92 \<and> u' = CHR ''u'' then getu4 r3 else None | _ \<Rightarrow> None)
                in case low of
                     Some v \<Rightarrow>
                       if 55296 \<le> u \<and> u < 56320 \<and> 56320 \<le> v \<and> v < 57344
                       then map_option (\<lambda>(s, t). (EncodeRune (65536 + (u - 55296) * 1024 + (v - 56320)) @ s, t)) (unquote (drop 6 r2))
                       else map_option (\<lambda>(s, t). (EncodeRune u @ s, t)) (unquote r2)
                   | None \<Rightarrow> map_option (\<lambda>(s, t). (EncodeRune u @ s, t)) (unquote r2))
           else case simple_escape e of None \<Rightarrow> None
             | Some x \<Rightarrow> map_option (\<lambda>(s, t). (x # s, t)) (unquote r'))
      else if (of_char c :: nat) < 32 then None
      else if (of_char c :: nat) < 128 then map_option (\<lambda>(s, t). (c # s, t)) (unquote r)
      else let k = rune_len (c # r) in
        if k = 0 then map_option (\<lambda>(s, t). (replacement_char @ s, t)) (unquote r)
        else map_option (\<lambda>(s, t). (take k (c # r) @ s, t)) (unquote (drop k (c # r))))"
  by pat_completeness auto
termination
  by (relation "measure length") auto

definition skip_space :: "string \<Rightarrow> string" where
  "skip_space s = dropWhile (\<lambda>c. c \<in> {CHR '' '', CHR 9, CHR 10, CHR 13}) s"

text \<open>One element and what follows it, then the rest of the list up to the end of the text.\<close>

definition json_element :: "string \<Rightarrow> (string \<times> string) option" where
  "json_element s =
     (case s of c # r \<Rightarrow> if c = CHR 34 then unquote r else if take 4 s = ''null'' then Some ([], drop 4 s) else None
      | [] \<Rightarrow> None)"

fun json_rest :: "nat \<Rightarrow> string \<Rightarrow> string list option" where
  "json_rest 0 s = None"
| "json_rest (Suc fuel) s = do {
     (x, r) \<leftarrow> json_element (skip_space s);
     case skip_space r of
       c # r' \<Rightarrow>
         if c = CHR '','' then map_option (Cons x) (json_rest fuel r')
         else if c = CHR '']'' \<and> skip_space r' = [] then Some [x] else None
     | [] \<Rightarrow> None
   }"

definition json_Unmarshal :: "string \<Rightarrow> string list option option" where
  "json_Unmarshal s =
     (let s = skip_space s in
      if take 4 s = ''null'' \<and> skip_space (drop 4 s) = [] then Some None
      else case s of c # r \<Rightarrow>
          if c = CHR ''['' then
            (case skip_space r of
               d # r' \<Rightarrow> if d = CHR '']'' then (if skip_space r' = [] then Some (Some []) else None)
                 else map_option Some (json_rest (length s) r)
             | [] \<Rightarrow> None)
          else None
        | [] \<Rightarrow> None)"

section \<open>The round trip\<close>

definition ascii :: "string \<Rightarrow> bool" where
  "ascii s \<longleftrightarrow> (\<forall>c\<in>set s. (of_char c :: nat) < 128)"

lemma hex_value_digit: "n < 16 \<Longrightarrow> hex_value (hex_digit n) = Some n"
proof -
  have "\<forall>n\<in>{..<16}. hex_value (hex_digit n) = Some n" by code_simp
  then show "n < 16 \<Longrightarrow> hex_value (hex_digit n) = Some n" by blast
qed

lemma getu4_digits: "n < 256 \<Longrightarrow> getu4 (CHR ''0'' # CHR ''0'' # hex_digit (n div 16) # hex_digit (n mod 16) # r) = Some n"
proof -
  assume "n < 256"
  then have "hex_value (hex_digit (n div 16)) = Some (n div 16)" "hex_value (hex_digit (n mod 16)) = Some (n mod 16)"
    by (simp_all add: hex_value_digit)
  moreover have "hex_value CHR ''0'' = Some 0" by code_simp
  ultimately show ?thesis by (simp add: div_mult_mod_eq)
qed

lemma unquote_escape:
  assumes "(of_char c :: nat) < 128"
  shows "unquote (escape_char c @ r) = map_option (\<lambda>(s, t). (c # s, t)) (unquote r)"
proof -
  let ?n = "of_char c :: nat"
  have c: "char_of ?n = c" by simp
  have ctrl: "char_of (10 :: nat) = CHR 10" "char_of (13 :: nat) = CHR 13" "char_of (9 :: nat) = CHR 9" by code_simp+
  consider "c = CHR 34 \<or> c = CHR 92" | "?n = 10" | "?n = 13" | "?n = 9"
    | (u) "c \<noteq> CHR 34" "c \<noteq> CHR 92" "?n \<noteq> 10" "?n \<noteq> 13" "?n \<noteq> 9" "?n < 32 \<or> c = CHR ''<'' \<or> c = CHR ''>'' \<or> c = CHR ''&''"
    | (plain) "c \<noteq> CHR 34" "c \<noteq> CHR 92" "?n \<ge> 32" "c \<noteq> CHR ''<''" "c \<noteq> CHR ''>''" "c \<noteq> CHR ''&''" by fastforce
  then show ?thesis
  proof cases
    case u
    have e: "escape_char c = CHR 92 # CHR ''u'' # CHR ''0'' # CHR ''0'' # [hex_digit (?n div 16), hex_digit (?n mod 16)]"
      using u by (simp add: escape_char_def Let_def)
    have g: "getu4 (CHR ''0'' # CHR ''0'' # hex_digit (?n div 16) # hex_digit (?n mod 16) # r) = Some ?n"
      using assms by (intro getu4_digits) simp
    have "EncodeRune ?n = [c]" using assms c by (simp add: EncodeRune_def)
    then show ?thesis unfolding e using assms g by (simp add: Let_def split: option.split list.split)
  next
    case plain
    then have "escape_char c = [c]" by (auto simp: escape_char_def Let_def)
    then show ?thesis using plain assms by simp
  qed (use c ctrl in \<open>auto simp: escape_char_def simple_escape_def Let_def\<close>)
qed

lemma unquote_body: "ascii s \<Longrightarrow> unquote (json_body s @ CHR 34 # r) = Some (s, r)"
proof (induction s)
  case Nil
  show ?case by (subst json_body.simps) simp
next
  case (Cons c s)
  then have "(of_char c :: nat) < 128" "unquote (json_body s @ CHR 34 # r) = Some (s, r)" by (simp_all add: ascii_def)
  moreover from this have "json_body (c # s) = escape_char c @ json_body s" by (subst json_body.simps) simp
  ultimately show ?case using unquote_escape [of c "json_body s @ CHR 34 # r"] by simp
qed

lemma json_element_string: "ascii s \<Longrightarrow> json_element (skip_space (json_string s @ r)) = Some (s, r)"
  using unquote_body [of s r] by (simp add: json_element_def json_string_def skip_space_def)

lemma json_rest_elems:
  "ss \<noteq> [] \<Longrightarrow> \<forall>s\<in>set ss. ascii s \<Longrightarrow> length ss \<le> fuel \<Longrightarrow> json_rest fuel (json_elems ss @ '']'') = Some ss"
proof (induction ss arbitrary: fuel rule: json_elems.induct)
  case (2 s)
  then obtain f where "fuel = Suc f" by (cases fuel) auto
  then show ?case using json_element_string [of s "'']''"] "2.prems" by (simp add: skip_space_def)
next
  case (3 s t ss)
  then obtain f where f: "fuel = Suc f" by (cases fuel) auto
  then have "json_rest f (json_elems (t # ss) @ '']'') = Some (t # ss)" using 3 by (intro "3.IH") auto
  then show ?case using json_element_string [of s "CHR '','' # json_elems (t # ss) @ '']''"] "3.prems" f
    by (simp add: skip_space_def)
qed simp

lemma length_json_elems: "length ss \<le> length (json_elems ss)"
  by (induction ss rule: json_elems.induct) (auto simp: json_string_def)

lemma json_roundtrip: "\<forall>s\<in>set (case ss of None \<Rightarrow> [] | Some ss \<Rightarrow> ss). ascii s \<Longrightarrow> json_Unmarshal (json_Marshal ss) = Some ss"
proof (cases ss)
  case None
  then show ?thesis by (simp add: json_Marshal_def json_Unmarshal_def skip_space_def)
next
  case (Some xs)
  assume a: "\<forall>s\<in>set (case ss of None \<Rightarrow> [] | Some ss \<Rightarrow> ss). ascii s"
  show ?thesis
  proof (cases xs)
    case Nil
    then show ?thesis using Some by (simp add: json_Marshal_def json_Unmarshal_def skip_space_def)
  next
    case (Cons y ys)
    obtain r where r: "json_elems xs @ '']'' = CHR 34 # r"
      using Cons by (cases ys) (simp_all add: json_string_def)
    have "json_rest (length (CHR ''['' # json_elems xs @ '']'')) (json_elems xs @ '']'') = Some xs"
      using a Some Cons length_json_elems [of xs] by (intro json_rest_elems) auto
    then show ?thesis using Some r
      by (simp add: json_Marshal_def json_Unmarshal_def skip_space_def Let_def)
  qed
qed

end
