(* ===== verification/Magnet.thy ===== *)
theory Magnet
  imports Encoding
begin

text \<open>
  \<open>internal/magnet\<close>: links to torrents, read and written.  Of the standard library, \<open>url.Parse\<close> is modelled for
  links without an authority, which is what a magnet link is; for a link whose rest begins with a slash,
  \<open>hier_ok\<close> says whether its authority and path parse.  \<open>ParseQuery\<close> cuts at \<open>&\<close> and \<open>;\<close> as in Go 1.16.
  The multihash decoder is a parameter.
\<close>

section \<open>Links of the standard library\<close>

fun unescape :: "bool \<Rightarrow> string \<Rightarrow> string option" where
  "unescape qry [] = Some []"
| "unescape qry (c # s) =
     (if c = CHR ''%'' then
        (case s of
           a # b # r \<Rightarrow>
             (case (hex_value a, hex_value b) of
                (Some x, Some y) \<Rightarrow> map_option ((#) (char_of (16 * x + y))) (unescape qry r)
              | _ \<Rightarrow> None)
         | _ \<Rightarrow> None)
      else map_option ((#) (if qry \<and> c = CHR ''+'' then CHR '' '' else c)) (unescape qry s))"

definition unreserved :: "char \<Rightarrow> bool" where
  "unreserved c \<longleftrightarrow> (let n = (of_char c :: nat) in
     48 \<le> n \<and> n \<le> 57 \<or> 65 \<le> n \<and> n \<le> 90 \<or> 97 \<le> n \<and> n \<le> 122 \<or> c \<in> {CHR ''-'', CHR ''_'', CHR ''.'', CHR ''~''})"

definition upper_hex :: "nat \<Rightarrow> char" where
  "upper_hex n = ''0123456789ABCDEF'' ! n"

definition escape_query_char :: "char \<Rightarrow> string" where
  "escape_query_char c =
     (if unreserved c then [c] else if c = CHR '' '' then ''+''
      else [CHR ''%'', upper_hex (of_char c div 16), upper_hex (of_char c mod 16)])"

definition QueryEscape :: "string \<Rightarrow> string" where
  "QueryEscape s = concat (map escape_query_char s)"

text \<open>One setting of a query; settings that do not unescape are skipped.\<close>

definition parse_setting :: "string \<Rightarrow> (string \<times> string) list" where
  "parse_setting f =
     (if f = [] then []
      else let k = takeWhile (\<lambda>c. c \<noteq> CHR ''='') f; v = drop (Suc (length k)) f in
        case (unescape True k, unescape True v) of (Some k, Some v) \<Rightarrow> [(k, v)] | _ \<Rightarrow> [])"

definition no_sep :: "char \<Rightarrow> bool" where
  "no_sep c \<longleftrightarrow> c \<noteq> CHR ''&'' \<and> c \<noteq> CHR '';''"

function ParseQuery :: "string \<Rightarrow> (string \<times> string) list" where
  "ParseQuery q =
     (if q = [] then []
      else let f = takeWhile no_sep q in parse_setting f @ ParseQuery (drop (Suc (length f)) q))"
  by auto
termination by (relation "measure length") auto

declare ParseQuery.simps [simp del]

definition letter :: "char \<Rightarrow> bool" where
  "letter c \<longleftrightarrow> (let n = (of_char c :: nat) in 65 \<le> n \<and> n \<le> 90 \<or> 97 \<le> n \<and> n \<le> 122)"

text \<open>The scheme and what follows its colon; no scheme is \<open>None\<close>.\<close>

fun getScheme :: "bool \<Rightarrow> string \<Rightarrow> (string \<times> string) option" where
  "getScheme start [] = None"
| "getScheme start (c # s) =
     (if letter c then map_option (apfst ((#) c)) (getScheme False s)
      else if 48 \<le> (of_char c :: nat) \<and> (of_char c :: nat) \<le> 57 \<or> c \<in> {CHR ''+'', CHR ''-'', CHR ''.''}
        then (if start then None else map_option (apfst ((#) c)) (getScheme False s))
      else if c = CHR '':'' then (if start then None else Some ([], s))
      else None)"

definition lower_char :: "char \<Rightarrow> char" where
  "lower_char c = (let n = (of_char c :: nat) in if 65 \<le> n \<and> n \<le> 90 then char_of (n + 32) else c)"

definition control :: "char \<Rightarrow> bool" where
  "control c \<longleftrightarrow> (of_char c :: nat) < 32 \<or> (of_char c :: nat) = 127"

definition url_Parse :: "(string \<Rightarrow> bool) \<Rightarrow> string \<Rightarrow> (string \<times> string) option" where
  "url_Parse hier_ok s =
     (let u = takeWhile (\<lambda>c. c \<noteq> CHR ''#'') s; frag = drop (Suc (length u)) s in
      if \<exists>c\<in>set u. control c then None
      else case getScheme True u of
        None \<Rightarrow> None
      | Some (scheme, rest) \<Rightarrow>
        let path = takeWhile (\<lambda>c. c \<noteq> CHR ''?'') rest; query = drop (Suc (length path)) rest in
        if (\<exists>p. path = CHR ''/'' # p) \<and> \<not> hier_ok path then None
        else if unescape False frag = None then None
        else Some (map lower_char scheme, query))"

section \<open>The hash\<close>

fun hex_Decode :: "string \<Rightarrow> byte list option" where
  "hex_Decode [] = Some []"
| "hex_Decode [c] = None"
| "hex_Decode (a # b # s) =
     (case (hex_value a, hex_value b) of
        (Some x, Some y) \<Rightarrow> map_option ((#) (of_nat (16 * x + y))) (hex_Decode s)
      | _ \<Rightarrow> None)"

text \<open>\<open>base32.StdEncoding\<close>: groups of eight characters of five bits, the last one may be padded.\<close>

definition base32_value :: "char \<Rightarrow> nat option" where
  "base32_value c = (let n = (of_char c :: nat) in
     if 65 \<le> n \<and> n \<le> 90 then Some (n - 65) else if 50 \<le> n \<and> n \<le> 55 then Some (n - 24) else None)"

fun base32_values :: "string \<Rightarrow> nat list option" where
  "base32_values [] = Some []"
| "base32_values (c # s) = do { v \<leftarrow> base32_value c; vs \<leftarrow> base32_values s; Some (v # vs) }"

text \<open>The bits of a group, cut to whole bytes.\<close>

definition base32_pack :: "nat list \<Rightarrow> byte list" where
  "base32_pack vs =
     (let n = foldl (\<lambda>acc v. 32 * acc + v) 0 (vs @ replicate (8 - length vs) 0)
      in map (\<lambda>k. of_nat (n div 256 ^ (4 - k))) [0..<5 * length vs div 8])"

text \<open>
  Padding begins at the third character of a group or later, with fewer than eight characters left, and fills the group;
  one, three or six characters do not make whole bytes.  Padding ends the decoding, whatever follows the group.
\<close>

function base32_Decode :: "string \<Rightarrow> byte list option" where
  "base32_Decode s =
     (if s = [] then Some []
      else let p = takeWhile (\<lambda>c. c \<noteq> CHR ''='') (take 8 s); j = length p in
        if j = 8 then do { vs \<leftarrow> base32_values p; r \<leftarrow> base32_Decode (drop 8 s); Some (base32_pack vs @ r) }
        else if j < length s \<and> 2 \<le> j \<and> length s - j \<le> 8 \<and> 8 \<le> length s \<and> j \<notin> {3, 6} \<and>
            (\<forall>c\<in>set (drop (Suc j) (take 8 s)). c = CHR ''='')
          then map_option base32_pack (base32_values p)
          else None)"
  by auto
termination by (relation "measure length") auto

declare base32_Decode.simps [simp del]

definition base32_DecodeString :: "string \<Rightarrow> byte list option" where
  "base32_DecodeString s = base32_Decode (filter (\<lambda>c. (of_char c :: nat) \<noteq> 10 \<and> (of_char c :: nat) \<noteq> 13) s)"

datatype magnet_error = ErrURL | ErrNotMagnet | ErrMissingXt | ErrHashLength | ErrHashDecode | ErrMultihash | ErrMultihashLength | ErrXt

text \<open>\<open>copy(ih[:], b)\<close> into twenty zero bytes.\<close>

definition copy20 :: "byte list \<Rightarrow> byte list" where
  "copy20 b = take 20 b @ replicate (20 - length b) 0"

definition infoHashString :: "(string \<Rightarrow> byte list option) \<Rightarrow> string \<Rightarrow> magnet_error + byte list" where
  "infoHashString multihash xt =
     (let p = take 9 xt; s = drop 9 xt in
      if p = ''urn:btih:'' then
        (case (if length s = 40 then Inr (hex_Decode s) else if length s = 32 then Inr (base32_DecodeString s) else Inl ErrHashLength) of
           Inl e \<Rightarrow> Inl e
         | Inr None \<Rightarrow> Inl ErrHashDecode
         | Inr (Some b) \<Rightarrow> Inr (copy20 b))
      else if p = ''urn:btmh:'' then
        (case multihash s of None \<Rightarrow> Inl ErrMultihash
         | Some b \<Rightarrow> if length b \<noteq> 20 then Inl ErrMultihashLength else Inr (copy20 b))
      else Inl ErrXt)"

section \<open>Magnet links\<close>

record Magnet =
  ma_InfoHash :: "byte list"
  ma_Name :: string
  ma_Trackers :: "string list list"
  ma_Peers :: "string list"

record trackerTier =
  tt_trackers :: "string list"
  tt_index :: int

text \<open>\<open>params[k]\<close>, and the keys of the map.\<close>

definition values_of :: "(string \<times> string) list \<Rightarrow> string \<Rightarrow> string list" where
  "values_of ps k = map snd (filter (\<lambda>p. fst p = k) ps)"

definition keys_of :: "(string \<times> string) list \<Rightarrow> string list" where
  "keys_of ps = remdups (map fst ps)"

definition tiers_of :: "(string \<times> string) list \<Rightarrow> string \<Rightarrow> trackerTier list" where
  "tiers_of ps k =
     (let tier = values_of ps k in
      if k = ''tr'' then map (\<lambda>(i, tr). \<lparr>tt_trackers = [tr], tt_index = int i - int (length tier)\<rparr>) (enumerate 0 tier)
      else if take 3 k = ''tr.'' then
        (case ParseInt (drop 3 k) of Some i \<Rightarrow> if 0 \<le> i then [\<lparr>tt_trackers = tier, tt_index = i\<rparr>] else [] | None \<Rightarrow> [])
      else [])"

definition NewMagnet :: "(string \<Rightarrow> bool) \<Rightarrow> (string \<Rightarrow> byte list option) \<Rightarrow> choices \<Rightarrow> string \<Rightarrow> magnet_error + Magnet" where
  "NewMagnet hier_ok multihash ch s =
     (case url_Parse hier_ok s of
        None \<Rightarrow> Inl ErrURL
      | Some (scheme, query) \<Rightarrow>
        if scheme \<noteq> ''magnet'' then Inl ErrNotMagnet
        else let ps = ParseQuery query in
          case values_of ps ''xt'' of
            [] \<Rightarrow> Inl ErrMissingXt
          | xt # _ \<Rightarrow>
            (case infoHashString multihash xt of
               Inl e \<Rightarrow> Inl e
             | Inr ih \<Rightarrow>
               let (ks, ch) = shuffle ch (keys_of ps);
                   tiers = fst (sort_slice tt_index ch (concat (map (tiers_of ps) ks)))
               in Inr \<lparr>ma_InfoHash = ih, ma_Name = (case values_of ps ''dn'' of [] \<Rightarrow> [] | n # _ \<Rightarrow> n),
                    ma_Trackers = map tt_trackers tiers, ma_Peers = values_of ps ''x.pe''\<rparr>))"

definition MagnetString :: "Magnet \<Rightarrow> string" where
  "MagnetString m =
     ''magnet:?xt=urn:btih:'' @ EncodeToString (ma_InfoHash m) @
     (if ma_Name m \<noteq> [] then ''&dn='' @ QueryEscape (ma_Name m) else []) @
     concat (map (\<lambda>(i, ti). if length ti = 1 then ''&tr='' @ QueryEscape (ti ! 0)
       else concat (map (\<lambda>t. ''&tr.'' @ FormatInt (int i) @ ''='' @ QueryEscape t) ti)) (enumerate 0 (ma_Trackers m))) @
     concat (map (\<lambda>p. ''&x.pe='' @ p) (ma_Peers m))"

section \<open>Escapes\<close>

lemma char_escape: "of_char c div 16 < (16 :: nat)" "of_char c mod 16 < (16 :: nat)" "16 * (of_char c div 16) + of_char c mod 16 = (of_char c :: nat)"
proof -
  have "(of_char c :: nat) < 256" by simp
  then show "of_char c div 16 < (16 :: nat)" by (simp add: less_mult_imp_div_less)
qed simp_all

lemma upper_hex: "n < 16 \<Longrightarrow> hex_value (upper_hex n) = Some n \<and> unreserved (upper_hex n)"
proof -
  have "\<forall>n\<in>{..<16}. hex_value (upper_hex n) = Some n \<and> unreserved (upper_hex n)" by code_simp
  then show "n < 16 \<Longrightarrow> hex_value (upper_hex n) = Some n \<and> unreserved (upper_hex n)" by blast
qed

lemma unescape_unreserved: "unreserved c \<Longrightarrow> c \<noteq> CHR ''%'' \<and> c \<noteq> CHR ''+'' \<and> c \<noteq> CHR ''&'' \<and> c \<noteq> CHR '';'' \<and> c \<noteq> CHR ''#'' \<and> c \<noteq> CHR ''='' \<and> \<not> control c"
  by (auto simp: unreserved_def control_def Let_def)

lemma unescape_escape: "unescape True (escape_query_char c @ s) = map_option ((#) c) (unescape True s)"
proof -
  note h = upper_hex [of "of_char c div 16"] upper_hex [of "of_char c mod 16"] char_escape [of c]
  show ?thesis
    using h unescape_unreserved [of c] by (auto simp: escape_query_char_def)
qed

lemma unescape_QueryEscape: "unescape True (QueryEscape s) = Some s"
proof (induction s)
  case (Cons c s)
  then show ?case using unescape_escape [of c "QueryEscape s"] by (simp add: QueryEscape_def)
qed (simp add: QueryEscape_def)

text \<open>Characters that stay in one setting of a query of a link.\<close>

definition inner :: "char \<Rightarrow> bool" where
  "inner c \<longleftrightarrow> no_sep c \<and> c \<noteq> CHR ''#'' \<and> \<not> control c"

lemma inner_unreserved: "unreserved c \<Longrightarrow> inner c"
  using unescape_unreserved [of c] by (simp add: inner_def no_sep_def)

lemma inner_escape: "c \<in> set (QueryEscape s) \<Longrightarrow> inner c"
proof -
  assume "c \<in> set (QueryEscape s)"
  then obtain d where d: "c \<in> set (escape_query_char d)" by (auto simp: QueryEscape_def)
  have p: "inner (CHR ''%'')" "inner (CHR ''+'')" by (simp_all add: inner_def no_sep_def control_def)
  from d show "inner c"
    using upper_hex [of "of_char d div 16"] upper_hex [of "of_char d mod 16"] char_escape [of d] p inner_unreserved
    by (auto simp: escape_query_char_def split: if_splits)
qed

lemma unreserved_hex: "c \<in> set (EncodeToString b) \<Longrightarrow> unreserved c"
proof -
  have d: "\<forall>n\<in>{..<16}. unreserved (hex_digit n)" by code_simp
  have "unat x < 256" for x :: byte using unsigned_less [of x] by simp
  then have "unat x div 16 < 16" "unat x mod 16 < 16" for x :: byte by (simp_all add: less_mult_imp_div_less)
  then show "c \<in> set (EncodeToString b) \<Longrightarrow> unreserved c" using d by (auto simp: EncodeToString_def)
qed

lemma unreserved_format_nat: "c \<in> set (format_nat n) \<Longrightarrow> unreserved c"
proof (induction n rule: format_nat.induct)
  case (1 n)
  have d: "\<forall>n\<in>{..<10}. unreserved (digit n)" by code_simp
  show ?case using 1 d by (subst (asm) (2) format_nat.simps) (auto split: if_splits)
qed

lemma unescape_plain: "\<forall>c\<in>set s. c \<noteq> CHR ''%'' \<and> c \<noteq> CHR ''+'' \<Longrightarrow> unescape True s = Some s"
  by (induction s) auto

lemma hex_Decode_Encode: "hex_Decode (EncodeToString b) = Some b"
proof (induction b)
  case (Cons x b)
  have "unat x < 256" using unsigned_less [of x] by simp
  then have "unat x div 16 < 16" "unat x mod 16 < 16" by (simp_all add: less_mult_imp_div_less)
  then have "hex_value (hex_digit (unat x div 16)) = Some (unat x div 16)" "hex_value (hex_digit (unat x mod 16)) = Some (unat x mod 16)"
    by (simp_all add: hex_value_digit)
  moreover have "16 * (unat x div 16) + unat x mod 16 = unat x" by simp
  ultimately show ?case using Cons by (simp add: EncodeToString_def)
qed (simp add: EncodeToString_def)

lemma length_hex: "length (EncodeToString b) = 2 * length b"
  by (induction b) (simp_all add: EncodeToString_def)

section \<open>A query is read back\<close>

text \<open>A key, the text written for its value, and the value.\<close>

definition setting_ok :: "string \<times> string \<times> string \<Rightarrow> bool" where
  "setting_ok t \<longleftrightarrow> (case t of (k, e, v) \<Rightarrow> k \<noteq> [] \<and> (\<forall>c\<in>set k. unreserved c) \<and> (\<forall>c\<in>set e. inner c) \<and> unescape True e = Some v)"

definition written :: "(string \<times> string \<times> string) list \<Rightarrow> string" where
  "written ts = concat (map (\<lambda>(k, e, v). CHR ''&'' # k @ CHR ''='' # e) ts)"

lemma parse_written_setting:
  assumes "setting_ok (k, e, v)"
  shows "parse_setting (k @ CHR ''='' # e) = [(k, v)]" "\<forall>c\<in>set (k @ CHR ''='' # e). inner c"
proof -
  have k: "\<forall>c\<in>set k. c \<noteq> CHR ''=''" "\<forall>c\<in>set k. inner c" "unescape True k = Some k"
    using assms unescape_unreserved inner_unreserved by (auto simp: setting_ok_def intro: unescape_plain)
  have "inner (CHR ''='')" by (simp add: inner_def no_sep_def control_def)
  then show "\<forall>c\<in>set (k @ CHR ''='' # e). inner c" using assms k(2) by (auto simp: setting_ok_def)
  have t: "takeWhile (\<lambda>c. c \<noteq> CHR ''='') (k @ CHR ''='' # e) = k" using k(1) by (simp add: takeWhile_append2)
  show "parse_setting (k @ CHR ''='' # e) = [(k, v)]"
    unfolding parse_setting_def Let_def t using k(3) assms by (simp add: setting_ok_def)
qed

lemma ParseQuery_written: "\<forall>t\<in>set ts. setting_ok t \<Longrightarrow> ParseQuery (tl (written ts)) = map (\<lambda>(k, e, v). (k, v)) ts"
proof (induction ts)
  case Nil
  then show ?case by (simp add: written_def ParseQuery.simps)
next
  case (Cons t ts)
  obtain k e v where t: "t = (k, e, v)" by (metis prod_cases3)
  let ?f = "k @ CHR ''='' # e"
  have ok: "setting_ok (k, e, v)" using Cons.prems t by simp
  have w: "written (t # ts) = CHR ''&'' # ?f @ written ts" by (simp add: written_def t)
  have "\<forall>c\<in>set ?f. no_sep c" using parse_written_setting(2) [OF ok] by (simp add: inner_def)
  moreover have "written ts = [] \<or> (\<exists>r. written ts = CHR ''&'' # r)" by (cases ts) (auto simp: written_def)
  moreover have "\<not> no_sep (CHR ''&'')" by (simp add: no_sep_def)
  ultimately have tw: "takeWhile no_sep (?f @ written ts) = ?f" by (auto simp: takeWhile_append2)
  have "ParseQuery (?f @ written ts) = parse_setting ?f @ ParseQuery (drop (Suc (length ?f)) (?f @ written ts))"
    using tw by (subst ParseQuery.simps) (simp add: Let_def)
  also have "drop (Suc (length ?f)) (?f @ written ts) = tl (written ts)" by (simp add: drop_Suc)
  finally show ?case using Cons parse_written_setting(1) [OF ok] w by (simp add: t)
qed

section \<open>What a link says is what is written in it\<close>

definition tier_settings :: "nat \<times> string list \<Rightarrow> (string \<times> string \<times> string) list" where
  "tier_settings p = (case p of (i, ti) \<Rightarrow>
     if length ti = 1 then [(''tr'', QueryEscape (ti ! 0), ti ! 0)]
     else map (\<lambda>t. (''tr.'' @ FormatInt (int i), QueryEscape t, t)) ti)"

definition settings :: "Magnet \<Rightarrow> (string \<times> string \<times> string) list" where
  "settings m =
     (let xt = ''urn:btih:'' @ EncodeToString (ma_InfoHash m) in [(''xt'', xt, xt)]) @
     (if ma_Name m \<noteq> [] then [(''dn'', QueryEscape (ma_Name m), ma_Name m)] else []) @
     concat (map tier_settings (enumerate 0 (ma_Trackers m))) @ map (\<lambda>p. (''x.pe'', p, p)) (ma_Peers m)"

lemma written_append: "written (a @ b) = written a @ written b"
  by (simp add: written_def)

lemma String_written: "MagnetString m = ''magnet:?'' @ tl (written (settings m))"
proof -
  have t: "written (concat (map tier_settings ts)) = concat (map (\<lambda>(i, ti). if length ti = 1 then ''&tr='' @ QueryEscape (ti ! 0)
       else concat (map (\<lambda>t. ''&tr.'' @ FormatInt (int i) @ ''='' @ QueryEscape t) ti)) ts)" for ts
    by (induction ts) (auto simp: written_append tier_settings_def written_def comp_def)
  have p: "written (map (\<lambda>p. (''x.pe'', p, p)) ps) = concat (map (\<lambda>p. ''&x.pe='' @ p) ps)" for ps
    by (induction ps) (simp_all add: written_def)
  show ?thesis unfolding MagnetString_def settings_def written_append t p by (simp add: written_def Let_def)
qed

text \<open>A peer is written as it is, so it must not have a character with a meaning of its own.\<close>

definition peers_plain :: "string list \<Rightarrow> bool" where
  "peers_plain ps \<longleftrightarrow> (\<forall>p\<in>set ps. \<forall>c\<in>set p. inner c \<and> c \<noteq> CHR ''%'' \<and> c \<noteq> CHR ''+'')"

lemma FormatInt_nat: "FormatInt (int i) = format_nat i"
  by (simp add: FormatInt_def)

lemma settings_ok: "peers_plain (ma_Peers m) \<Longrightarrow> \<forall>t\<in>set (settings m). setting_ok t"
proof -
  assume p: "peers_plain (ma_Peers m)"
  let ?xt = "''urn:btih:'' @ EncodeToString (ma_InfoHash m)"
  have u: "\<forall>c\<in>set ''urn:btih:''. inner c \<and> c \<noteq> CHR ''%'' \<and> c \<noteq> CHR ''+''" "\<forall>k\<in>set [''xt'', ''dn'', ''tr'', ''tr.'', ''x.pe'']. \<forall>c\<in>set k. unreserved c"
    by code_simp+
  have "\<forall>c\<in>set ?xt. inner c \<and> c \<noteq> CHR ''%'' \<and> c \<noteq> CHR ''+''"
    using u(1) unreserved_hex inner_unreserved unescape_unreserved by fastforce
  then have "setting_ok (''xt'', ?xt, ?xt)" using u(2) by (simp add: setting_ok_def unescape_plain)
  moreover have "setting_ok (''dn'', QueryEscape n, n)" for n
    using u(2) inner_escape by (simp add: setting_ok_def unescape_QueryEscape)
  moreover have "setting_ok t" if "t \<in> set (tier_settings q)" for t q
    using that u(2) inner_escape unreserved_format_nat
    by (auto simp: tier_settings_def setting_ok_def unescape_QueryEscape FormatInt_nat split: prod.splits if_splits)
  moreover have "setting_ok (''x.pe'', a, a)" if "a \<in> set (ma_Peers m)" for a
    using that p u(2) by (simp add: setting_ok_def peers_plain_def unescape_plain)
  ultimately show ?thesis by (auto simp: settings_def Let_def)
qed

lemma MagnetString_chars:
  assumes "peers_plain (ma_Peers m)"
  shows "\<forall>c\<in>set (MagnetString m). c \<noteq> CHR ''#'' \<and> \<not> control c"
proof -
  let ?q = "tl (written (settings m))"
  have "\<forall>c\<in>set (written ts). inner c \<or> c = CHR ''&''" if "\<forall>t\<in>set ts. setting_ok t" for ts
    using that
  proof (induction ts)
    case (Cons t ts)
    obtain k e v where t: "t = (k, e, v)" by (metis prod_cases3)
    have ok: "setting_ok (k, e, v)" using Cons.prems t by simp
    have w: "written (t # ts) = CHR ''&'' # (k @ CHR ''='' # e) @ written ts" by (simp add: written_def t)
    have "\<forall>c\<in>set (written ts). inner c \<or> c = CHR ''&''" using Cons by simp
    then show ?case unfolding w using parse_written_setting(2) [OF ok] by auto
  qed (simp add: written_def)
  from this [OF settings_ok [OF assms]] have "\<forall>c\<in>set ?q. inner c \<or> c = CHR ''&''"
    by (cases "written (settings m)") simp_all
  moreover have "inner c \<or> c = CHR ''&'' \<Longrightarrow> c \<noteq> CHR ''#'' \<and> \<not> control c" for c
    by (auto simp: inner_def control_def)
  ultimately have "\<forall>c\<in>set ?q. c \<noteq> CHR ''#'' \<and> \<not> control c" by blast
  moreover have "\<forall>c\<in>set ''magnet:?''. c \<noteq> CHR ''#'' \<and> \<not> control c" by code_simp
  ultimately show ?thesis unfolding String_written by auto
qed

lemma url_Parse_String:
  assumes "peers_plain (ma_Peers m)"
  shows "url_Parse hier_ok (MagnetString m) = Some (''magnet'', tl (written (settings m)))"
proof -
  let ?q = "tl (written (settings m))"
  have all: "\<forall>c\<in>set (''magnet:?'' @ ?q). c \<noteq> CHR ''#'' \<and> \<not> control c"
    using MagnetString_chars [OF assms] unfolding String_written .
  then have u: "takeWhile (\<lambda>c. c \<noteq> CHR ''#'') (''magnet:?'' @ ?q) = ''magnet:?'' @ ?q" by (simp add: takeWhile_eq_all_conv)
  have g: "getScheme True (''magnet:?'' @ ?q) = Some (''magnet'', CHR ''?'' # ?q)" by (simp add: letter_def)
  have l: "map lower_char ''magnet'' = ''magnet''" by code_simp
  show ?thesis unfolding String_written url_Parse_def Let_def u using all g l by (auto simp del: getScheme.simps)
qed

section \<open>The tiers of trackers\<close>

abbreviation pairs :: "Magnet \<Rightarrow> (string \<times> string) list" where
  "pairs m \<equiv> map (\<lambda>(k, e, v). (k, v)) (settings m)"

lemma values_append: "values_of (a @ b) k = values_of a k @ values_of b k"
  by (simp add: values_of_def)

definition tier_pairs :: "nat \<times> string list \<Rightarrow> (string \<times> string) list" where
  "tier_pairs p = map (\<lambda>(k, e, v). (k, v)) (tier_settings p)"

lemma tier_pairs_eq: "tier_pairs (i, ti) = (if length ti = 1 then [(''tr'', ti ! 0)] else map (\<lambda>t. (''tr.'' @ FormatInt (int i), t)) ti)"
  by (simp add: tier_pairs_def tier_settings_def)

lemma pairs_eq:
  "pairs m = (''xt'', ''urn:btih:'' @ EncodeToString (ma_InfoHash m)) #
     (if ma_Name m \<noteq> [] then [(''dn'', ma_Name m)] else []) @
     concat (map tier_pairs (enumerate 0 (ma_Trackers m))) @ map (\<lambda>p. (''x.pe'', p)) (ma_Peers m)"
  by (simp add: settings_def Let_def tier_pairs_def [abs_def] map_concat comp_def)

lemma tier_keys: "(k, v) \<in> set (concat (map tier_pairs ts)) \<Longrightarrow> k = ''tr'' \<or> take 3 k = ''tr.''"
  by (auto simp: tier_pairs_eq split: if_splits)

lemma values_none: "\<forall>p\<in>set ps. fst p \<noteq> k \<Longrightarrow> values_of ps k = []"
  by (simp add: values_of_def filter_empty_conv)

lemma values_map: "values_of (map (\<lambda>p. (l, p)) ps) k = (if k = l then ps else [])"
  by (induction ps) (auto simp: values_of_def)

lemma values_fixed:
  "values_of (pairs m) ''xt'' = [''urn:btih:'' @ EncodeToString (ma_InfoHash m)]"
  "values_of (pairs m) ''dn'' = (if ma_Name m \<noteq> [] then [ma_Name m] else [])"
  "values_of (pairs m) ''x.pe'' = ma_Peers m"
proof -
  let ?T = "concat (map tier_pairs (enumerate 0 (ma_Trackers m)))"
  have t: "values_of ?T k = []" if "k \<noteq> ''tr''" "take 3 k \<noteq> ''tr.''" for k
    using that tier_keys [of k] by (intro values_none) fastforce
  have p: "values_of (map (\<lambda>p. (''x.pe'', p)) (ma_Peers m)) k = (if k = ''x.pe'' then ma_Peers m else [])" for k
    by (auto simp: values_map)
  have c: "values_of (x # a) k = (if fst x = k then [snd x] else []) @ values_of a k" for x a k
    by (simp add: values_of_def)
  show "values_of (pairs m) ''xt'' = [''urn:btih:'' @ EncodeToString (ma_InfoHash m)]"
    unfolding pairs_eq c values_append p by (simp add: t) (simp add: values_of_def)
  show "values_of (pairs m) ''dn'' = (if ma_Name m \<noteq> [] then [ma_Name m] else [])"
    unfolding pairs_eq c values_append p by (simp add: t) (simp add: values_of_def)
  show "values_of (pairs m) ''x.pe'' = ma_Peers m"
    unfolding pairs_eq c values_append p by (simp add: t) (simp add: values_of_def)
qed

lemma values_tr: "values_of (concat (map tier_pairs (enumerate n ts))) ''tr'' = map hd (filter (\<lambda>ti. length ti = 1) ts)"
proof (induction ts arbitrary: n)
  case (Cons ti ts)
  have "values_of (tier_pairs (n, ti)) ''tr'' = (if length ti = 1 then [hd ti] else [])"
  proof (cases "length ti = 1")
    case True
    then show ?thesis by (cases ti) (simp_all add: tier_pairs_eq values_of_def)
  qed (auto simp: tier_pairs_eq intro: values_none)
  then show ?case using Cons by (simp add: values_append)
qed (simp add: values_of_def)

lemma FormatInt_inj: "FormatInt (int i) = FormatInt (int j) \<longleftrightarrow> i = j"
  unfolding FormatInt_nat using parse_format_nat by (metis option.inject)

lemma values_tr_i:
  "values_of (concat (map tier_pairs (enumerate n ts))) (''tr.'' @ FormatInt (int i)) =
    (if n \<le> i \<and> i < n + length ts \<and> length (ts ! (i - n)) \<noteq> 1 then ts ! (i - n) else [])"
proof (induction ts arbitrary: n)
  case (Cons ti ts)
  have "values_of (tier_pairs (n, ti)) (''tr.'' @ FormatInt (int i)) = (if i = n \<and> length ti \<noteq> 1 then ti else [])"
    by (auto simp: tier_pairs_eq FormatInt_inj values_map) (simp_all add: values_of_def)
  then show ?case using Cons [of "Suc n"] by (auto simp: values_append nth_Cons')
qed (auto simp: values_of_def)

lemma sort_slice_unique:
  assumes "mset xs = mset ys" and "sorted (map k ys)" and "distinct (map k ys)"
  shows "fst (sort_slice k ch xs) = ys"
proof -
  let ?zs = "fst (sort_slice k ch xs)"
  have m: "mset ?zs = mset ys" using assms(1) by simp
  then have s: "set ?zs = set ys" by (rule mset_eq_setD)
  have "map k ?zs = map k ys"
    using assms(2) m by (intro sorted_distinct_set_unique) (simp_all add: mset_eq_setD [OF assms(1)] assms(3) mset_eq_imp_distinct_iff [of "map k ?zs" "map k ys"])
  moreover have "inj_on k (set ?zs \<union> set ys)" using assms(3) s by (simp add: distinct_map)
  ultimately show ?thesis by (simp add: inj_on_map_eq_map)
qed

lemma distinct_concat_map:
  "distinct ks \<Longrightarrow> \<forall>k\<in>set ks. distinct (h k) \<Longrightarrow> (\<And>k l. k \<in> set ks \<Longrightarrow> l \<in> set ks \<Longrightarrow> k \<noteq> l \<Longrightarrow> set (h k) \<inter> set (h l) = {}) \<Longrightarrow>
    distinct (concat (map h ks))"
  by (induction ks) fastforce+

text \<open>The tiers of a link, by their indices.\<close>

definition singles :: "string list list \<Rightarrow> string list" where
  "singles T = map hd (filter (\<lambda>ti. length ti = 1) T)"

definition expected :: "string list list \<Rightarrow> trackerTier list" where
  "expected T =
     map (\<lambda>(i, tr). \<lparr>tt_trackers = [tr], tt_index = int i - int (length (singles T))\<rparr>) (enumerate 0 (singles T)) @
     map (\<lambda>(i, ti). \<lparr>tt_trackers = ti, tt_index = int i\<rparr>) (filter (\<lambda>p. 2 \<le> length (snd p)) (enumerate 0 T))"

lemma expected_index:
  "map tt_index (expected T) = map (\<lambda>i. int i - int (length (singles T))) [0..<length (singles T)] @
     map int (map fst (filter (\<lambda>p. 2 \<le> length (snd p)) (enumerate 0 T)))"
proof -
  have "map tt_index (map (\<lambda>(i, tr). \<lparr>tt_trackers = [tr], tt_index = int i - int n\<rparr>) es) = map (\<lambda>i. int i - int n) (map fst es)"
    for es :: "(nat \<times> string) list" and n
    by (induction es) auto
  moreover have "map tt_index (map (\<lambda>(i, ti). \<lparr>tt_trackers = ti, tt_index = int i\<rparr>) es) = map int (map fst es)" for es
    by (induction es) auto
  ultimately show ?thesis by (simp add: expected_def del: map_map)
qed

lemma expected_sorted: "sorted (map tt_index (expected T))" "distinct (map tt_index (expected T))"
proof -
  let ?m = "map fst (filter (\<lambda>p. 2 \<le> length (snd p)) (enumerate 0 T))"
  have "sorted (map fst (enumerate 0 T))" "distinct (map fst (enumerate 0 T))" by simp_all
  then have m: "sorted ?m" "distinct ?m" by (simp_all only: sorted_filter distinct_map_filter)
  have a: "sorted (map (\<lambda>i. int i - int n) [0..<k])" "distinct (map (\<lambda>i. int i - int n) [0..<k])" for n k
    by (auto simp: sorted_iff_nth_mono distinct_map inj_on_def)
  have b: "sorted (map int ?m)" "distinct (map int ?m)"
    using m by (auto simp: sorted_map intro: sorted_wrt_mono_rel simp: distinct_map inj_on_def)
  show "sorted (map tt_index (expected T))" unfolding expected_index sorted_append using a b(1) by auto
  show "distinct (map tt_index (expected T))" unfolding expected_index distinct_append using a b(2) by auto
qed

lemma values_pairs_tr: "values_of (pairs m) ''tr'' = singles (ma_Trackers m)"
proof -
  have "values_of (map (\<lambda>p. (''x.pe'', p)) (ma_Peers m)) ''tr'' = []" "values_of (if ma_Name m \<noteq> [] then [(''dn'', ma_Name m)] else []) ''tr'' = []"
    by (simp_all add: values_of_def)
  moreover have "values_of (x # a) k = (if fst x = k then [snd x] else []) @ values_of a k" for x a k by (simp add: values_of_def)
  ultimately show ?thesis unfolding pairs_eq by (simp add: values_append values_tr singles_def del: if_image_distrib)
qed

lemma values_pairs_tr_i:
  "values_of (pairs m) (''tr.'' @ FormatInt (int i)) =
    (if i < length (ma_Trackers m) \<and> length (ma_Trackers m ! i) \<noteq> 1 then ma_Trackers m ! i else [])"
proof -
  let ?k = "''tr.'' @ FormatInt (int i)"
  have "values_of (map (\<lambda>p. (''x.pe'', p)) (ma_Peers m)) ?k = []" "values_of (if ma_Name m \<noteq> [] then [(''dn'', ma_Name m)] else []) ?k = []"
    by (simp_all add: values_of_def)
  moreover have "values_of (x # a) k = (if fst x = k then [snd x] else []) @ values_of a k" for x a k by (simp add: values_of_def)
  ultimately show ?thesis unfolding pairs_eq using values_tr_i [of 0 "ma_Trackers m" i] by (simp add: values_append del: append_Cons)
qed

lemma key_values: "k \<in> set (keys_of ps) \<longleftrightarrow> values_of ps k \<noteq> []"
  by (force simp: keys_of_def values_of_def filter_empty_conv)

lemma keys_ofD: "k \<in> set (keys_of ps) \<Longrightarrow> \<exists>v. (k, v) \<in> set ps"
  by (auto simp: keys_of_def)

lemma pair_keys:
  assumes "k \<in> set (keys_of (pairs m))"
  shows "k \<in> {''xt'', ''dn'', ''x.pe'', ''tr''} \<or> (\<exists>i<length (ma_Trackers m). k = ''tr.'' @ FormatInt (int i))"
proof -
  obtain v where "(k, v) \<in> set (pairs m)" using keys_ofD [OF assms] by blast
  then consider "k \<in> {''xt'', ''dn'', ''x.pe''}" | p where "p \<in> set (enumerate 0 (ma_Trackers m))" "(k, v) \<in> set (tier_pairs p)"
    unfolding pairs_eq by (auto split: if_splits)
  then show ?thesis
  proof cases
    case 2
    obtain i ti where p: "p = (i, ti)" by fastforce
    then have "i < length (ma_Trackers m)" using 2(1) by (simp add: in_set_enumerate_eq)
    then show ?thesis using 2(2) unfolding p by (auto simp: tier_pairs_eq split: if_splits)
  qed auto
qed

lemma tiers_of_key:
  "tiers_of (pairs m) ''xt'' = []" "tiers_of (pairs m) ''dn'' = []" "tiers_of (pairs m) ''x.pe'' = []"
  "tiers_of (pairs m) ''tr'' = map (\<lambda>(i, tr). \<lparr>tt_trackers = [tr], tt_index = int i - int (length (singles (ma_Trackers m)))\<rparr>)
     (enumerate 0 (singles (ma_Trackers m)))"
  "i < 2 ^ 63 \<Longrightarrow> tiers_of (pairs m) (''tr.'' @ FormatInt (int i)) =
     [\<lparr>tt_trackers = values_of (pairs m) (''tr.'' @ FormatInt (int i)), tt_index = int i\<rparr>]"
proof -
  show "tiers_of (pairs m) ''tr'' = map (\<lambda>(i, tr). \<lparr>tt_trackers = [tr], tt_index = int i - int (length (singles (ma_Trackers m)))\<rparr>)
     (enumerate 0 (singles (ma_Trackers m)))"
    by (simp add: tiers_of_def Let_def values_pairs_tr del: map_map)
  assume "i < 2 ^ 63"
  then have "int i < 2 ^ 63" by simp
  then have "ParseInt (FormatInt (int i)) = Some (int i)" by (intro ParseInt_FormatInt) simp_all
  then show "tiers_of (pairs m) (''tr.'' @ FormatInt (int i)) =
     [\<lparr>tt_trackers = values_of (pairs m) (''tr.'' @ FormatInt (int i)), tt_index = int i\<rparr>]"
    by (simp add: tiers_of_def Let_def)
qed (simp_all add: tiers_of_def Let_def)

text \<open>The index of a tier tells its key.\<close>

lemma tier_tr_i:
  "length (ma_Trackers m) < 2 ^ 63 \<Longrightarrow> i < length (ma_Trackers m) \<Longrightarrow> tiers_of (pairs m) (''tr.'' @ FormatInt (int i)) =
    [\<lparr>tt_trackers = values_of (pairs m) (''tr.'' @ FormatInt (int i)), tt_index = int i\<rparr>]"
  by (rule tiers_of_key(5)) simp

lemma tier_index:
  assumes n: "length (ma_Trackers m) < 2 ^ 63" and x: "x \<in> set (tiers_of (pairs m) k)" and k: "k \<in> set (keys_of (pairs m))"
    and i: "i = nat (tt_index x)"
  shows "tt_index x = int i \<and> k = ''tr.'' @ FormatInt (int i) \<or> tt_index x < 0 \<and> k = ''tr''"
proof -
  consider "k \<in> {''xt'', ''dn'', ''x.pe''}" | "k = ''tr''" | j where "j < length (ma_Trackers m)" "k = ''tr.'' @ FormatInt (int j)"
    using pair_keys [OF k] by blast
  then show ?thesis
  proof cases
    case 2
    then show ?thesis using x tiers_of_key(4) [of m] by (auto simp: in_set_enumerate_eq)
  next
    case 3
    then show ?thesis using x i tier_tr_i [OF n 3(1)] by auto
  qed (use x tiers_of_key(1-3) [of m] in auto)
qed

lemma tiers_distinct:
  assumes n: "length (ma_Trackers m) < 2 ^ 63"
  shows "distinct (concat (map (tiers_of (pairs m)) (keys_of (pairs m))))"
proof (rule distinct_concat_map)
  let ?T = "ma_Trackers m" and ?t = "tiers_of (pairs m)" and ?ks = "keys_of (pairs m)"
  let ?neg = "map (\<lambda>(i, tr). \<lparr>tt_trackers = [tr], tt_index = int i - int (length (singles ?T))\<rparr>) (enumerate 0 (singles ?T))"

  show "distinct ?ks" by (simp add: keys_of_def)
  show "\<forall>k\<in>set ?ks. distinct (?t k)"
  proof
    fix k assume "k \<in> set ?ks"
    from pair_keys [OF this] consider "k \<in> {''xt'', ''dn'', ''x.pe''}" | "k = ''tr''" | j where "j < length ?T" "k = ''tr.'' @ FormatInt (int j)" by blast
    then show "distinct (?t k)"
    proof cases
      case 2
      have "distinct (map tt_index ?neg)" using expected_sorted(2) [of ?T] unfolding expected_def map_append distinct_append by blast
      then have "distinct ?neg" by (simp only: distinct_map)
      then show ?thesis using 2 tiers_of_key(4) [of m] by simp
    qed (use tiers_of_key(1-3) [of m] tier_tr_i [OF n] in auto)
  qed
  fix k l assume kl: "k \<in> set ?ks" "l \<in> set ?ks" "k \<noteq> l"
  show "set (?t k) \<inter> set (?t l) = {}"
  proof (rule ccontr)
    assume "set (?t k) \<inter> set (?t l) \<noteq> {}"
    then obtain x where "x \<in> set (?t k)" "x \<in> set (?t l)" by blast
    from tier_index [OF n this(1) kl(1) refl] tier_index [OF n this(2) kl(2) refl] kl(3) show False by auto
  qed
qed

lemma tiers_are_expected:
  assumes n: "length (ma_Trackers m) < 2 ^ 63"
  shows "mset (concat (map (tiers_of (pairs m)) (keys_of (pairs m)))) = mset (expected (ma_Trackers m))"
proof -
  let ?T = "ma_Trackers m" and ?t = "tiers_of (pairs m)" and ?ks = "keys_of (pairs m)"
  let ?neg = "map (\<lambda>(i, tr). \<lparr>tt_trackers = [tr], tt_index = int i - int (length (singles ?T))\<rparr>) (enumerate 0 (singles ?T))"
  note ti = tier_tr_i [OF n]
  have de: "distinct (expected ?T)" using expected_sorted(2) by (simp only: distinct_map)
  have "x \<in> set (concat (map ?t ?ks)) \<longleftrightarrow> x \<in> set (expected ?T)" for x
  proof
    assume "x \<in> set (concat (map ?t ?ks))"
    then obtain k where k: "k \<in> set ?ks" "x \<in> set (?t k)" by auto
    from pair_keys [OF k(1)] consider "k \<in> {''xt'', ''dn'', ''x.pe''}" | "k = ''tr''" | j where "j < length ?T" "k = ''tr.'' @ FormatInt (int j)" by blast
    then show "x \<in> set (expected ?T)"
    proof cases
      case 2
      then have "x \<in> set ?neg" using k(2) tiers_of_key(4) [of m] by simp
      then show ?thesis unfolding expected_def set_append by blast
    next
      case 3
      then have v: "values_of (pairs m) k \<noteq> []" using k(1) key_values by blast
      then have l: "length (?T ! j) \<noteq> 1" "values_of (pairs m) k = ?T ! j" "?T ! j \<noteq> []"
        using values_pairs_tr_i [of m j] 3 by (simp_all split: if_splits)
      then have "2 \<le> length (?T ! j)" by (cases "?T ! j"; cases "tl (?T ! j)") auto
      then have "(j, ?T ! j) \<in> set (filter (\<lambda>p. 2 \<le> length (snd p)) (enumerate 0 ?T))" using 3(1) by (simp add: in_set_enumerate_eq)
      then show ?thesis using k(2) ti [OF 3(1)] 3(2) l(2) unfolding expected_def by force
    qed (use k(2) tiers_of_key(1-3) [of m] in auto)
  next
    assume "x \<in> set (expected ?T)"
    then consider "x \<in> set ?neg" | "x \<in> set (map (\<lambda>(i, ti). \<lparr>tt_trackers = ti, tt_index = int i\<rparr>) (filter (\<lambda>p. 2 \<le> length (snd p)) (enumerate 0 ?T)))"
      unfolding expected_def set_append by blast
    then show "x \<in> set (concat (map ?t ?ks))"
    proof cases
      case 1
      then have "singles ?T \<noteq> []" by auto
      then have "''tr'' \<in> set ?ks" by (simp add: key_values values_pairs_tr)
      moreover have "x \<in> set (?t ''tr'')" using 1 tiers_of_key(4) [of m] by simp
      ultimately show ?thesis unfolding set_concat set_map by blast
    next
      case 2
      then obtain p where "p \<in> set (enumerate 0 ?T)" "2 \<le> length (snd p)" and x: "x = \<lparr>tt_trackers = snd p, tt_index = int (fst p)\<rparr>"
        unfolding set_map set_filter split_beta by blast
      then obtain j where 2: "j < length ?T" "2 \<le> length (?T ! j)" "x = \<lparr>tt_trackers = ?T ! j, tt_index = int j\<rparr>"
        unfolding in_set_enumerate_eq by (metis add.right_neutral diff_zero)
      then have v: "values_of (pairs m) (''tr.'' @ FormatInt (int j)) = ?T ! j"
        unfolding values_pairs_tr_i using 2(1,2) by simp
      moreover have "?T ! j \<noteq> []" using 2(2) by auto
      ultimately have "''tr.'' @ FormatInt (int j) \<in> set ?ks" unfolding key_values by (simp only: not_False_eq_True)
      moreover have "x \<in> set (?t (''tr.'' @ FormatInt (int j)))" unfolding ti [OF 2(1)] v 2(3) by (simp only: list.set insertI1)
      ultimately show ?thesis unfolding set_concat set_map by blast
    qed
  qed
  then have "set (concat (map ?t ?ks)) = set (expected ?T)" by blast
  with set_eq_iff_mset_eq_distinct [OF tiers_distinct [OF n] de] show ?thesis by (rule iffD1)
qed

lemma expected_trackers: "map tt_trackers (expected T) = filter (\<lambda>ti. length ti = 1) T @ filter (\<lambda>ti. 2 \<le> length ti) T"
proof -
  have a: "map tt_trackers (map (\<lambda>(i, tr). \<lparr>tt_trackers = [tr], tt_index = f i\<rparr>) (enumerate n ss)) = map (\<lambda>s. [s]) ss" for f n ss
    by (induction ss arbitrary: n) auto
  have b: "map tt_trackers (map (\<lambda>(i, ti). \<lparr>tt_trackers = ti, tt_index = int i\<rparr>) (filter (\<lambda>p. 2 \<le> length (snd p)) (enumerate n ts))) =
      filter (\<lambda>ti. 2 \<le> length ti) ts" for n ts
    by (induction ts arbitrary: n) auto
  have c: "map (\<lambda>s. [s]) (singles T) = filter (\<lambda>ti. length ti = 1) T"
  proof (induction T)
    case (Cons ti T)
    then show ?case by (cases ti) (auto simp: singles_def)
  qed (simp add: singles_def)
  show ?thesis unfolding expected_def map_append a b c by (rule refl)
qed

lemma NewMagnet_String:
  assumes "length (ma_InfoHash m) = 20" and "peers_plain (ma_Peers m)" and "length (ma_Trackers m) < 2 ^ 63"
  shows "NewMagnet hier_ok multihash ch (MagnetString m) =
    Inr (m\<lparr>ma_Trackers := filter (\<lambda>ti. length ti = 1) (ma_Trackers m) @ filter (\<lambda>ti. 2 \<le> length ti) (ma_Trackers m)\<rparr>)"
proof -
  let ?ks = "fst (shuffle ch (keys_of (pairs m)))" and ?ch = "snd (shuffle ch (keys_of (pairs m)))"
  have q: "ParseQuery (tl (written (settings m))) = pairs m" by (rule ParseQuery_written [OF settings_ok [OF assms(2)]])
  have "mset (concat (map (tiers_of (pairs m)) ?ks)) = mset (concat (map (tiers_of (pairs m)) (keys_of (pairs m))))"
    unfolding mset_concat map_map [symmetric] sum_mset_sum_list [symmetric] mset_map mset_shuffle by (rule refl)
  then have "mset (concat (map (tiers_of (pairs m)) ?ks)) = mset (expected (ma_Trackers m))" using tiers_are_expected [OF assms(3)] by simp
  from sort_slice_unique [OF this expected_sorted] have t: "fst (sort_slice tt_index ?ch (concat (map (tiers_of (pairs m)) ?ks))) = expected (ma_Trackers m)" .
  have "infoHashString multihash (''urn:btih:'' @ EncodeToString (ma_InfoHash m)) = Inr (ma_InfoHash m)"
    using assms(1) by (simp add: infoHashString_def Let_def length_hex hex_Decode_Encode copy20_def)
  then show ?thesis
    unfolding NewMagnet_def url_Parse_String [OF assms(2)] option.case prod.case q Let_def values_fixed
    by (simp add: split_beta t expected_trackers)
qed

lemma NewMagnet_hash: "NewMagnet hier_ok multihash ch s = Inr m \<Longrightarrow> length (ma_InfoHash m) = 20"
  by (auto simp: NewMagnet_def infoHashString_def copy20_def Let_def split_beta split: option.splits list.splits sum.splits if_splits)

section \<open>Properties\<close>

text \<open>
  C30: A magnet link is read as it was written.  \<open>New\<close> applied to \<open>String\<close> of a magnet with a hash of twenty
  bytes gives back the hash, the name with whatever characters it has, and the peers, in whatever order the parameters are
  visited; of the trackers, the tiers of one come first, then those of several, and empty tiers are dropped.  This is under the
  condition that the peers are plain: \<open>String\<close> escapes the name and the trackers but not the peers, so that a peer must not have
  one of the characters \<open>&\<close>, \<open>;\<close>, \<open>#\<close>, \<open>%\<close> and \<open>+\<close> or a control character.  Without it the statement is false: a peer with
  \<open>&x.pe=\<close> in it is written exactly as two peers are, and is read as the two.
\<close>

theorem magnet_roundtrip:
  assumes "length (ma_InfoHash m) = 20" and "peers_plain (ma_Peers m)" and "length (ma_Trackers m) < 2 ^ 63"
  shows "NewMagnet hier_ok multihash ch (MagnetString m) =
      Inr (m\<lparr>ma_Trackers := filter (\<lambda>ti. length ti = 1) (ma_Trackers m) @ filter (\<lambda>ti. 2 \<le> length ti) (ma_Trackers m)\<rparr>) \<and>
    MagnetString (m\<lparr>ma_Peers := [p @ ''&x.pe='' @ q]\<rparr>) = MagnetString (m\<lparr>ma_Peers := [p, q]\<rparr>)"
  using NewMagnet_String [OF assms] by (simp add: MagnetString_def)

theorem magnet_roundtrip_witness:
  "NewMagnet (\<lambda>_. True) (\<lambda>_. None) [3, 1] (MagnetString \<lparr>ma_InfoHash = replicate 20 7, ma_Name = ''a&b c'',
      ma_Trackers = [[''x'', ''y''], [''u:2''], []], ma_Peers = [''p:1'']\<rparr>) =
    Inr \<lparr>ma_InfoHash = replicate 20 7, ma_Name = ''a&b c'', ma_Trackers = [[''u:2''], [''x'', ''y'']], ma_Peers = [''p:1'']\<rparr>"
proof -
  have "peers_plain [''p:1'']" by code_simp
  then show ?thesis
    using magnet_roundtrip [of "\<lparr>ma_InfoHash = replicate 20 7, ma_Name = ''a&b c'',
      ma_Trackers = [[''x'', ''y''], [''u:2''], []], ma_Peers = [''p:1'']\<rparr>" "\<lambda>_. True" "\<lambda>_. None" "[3, 1]"] by simp
qed

text \<open>A padded hash of sixteen bytes is accepted and filled with zeros.\<close>

lemma base32_AAAAAAAA: "base32_Decode (''AAAAAAAA'' @ r) = map_option ((@) [0, 0, 0, 0, 0]) (base32_Decode r)"
proof -
  have v: "base32_values ''AAAAAAAA'' = Some [0, 0, 0, 0, 0, 0, 0, 0]" by (simp add: base32_value_def)
  have p: "base32_pack [0, 0, 0, 0, 0, 0, 0, 0] = [0, 0, 0, 0, 0]" by (simp add: base32_pack_def upt_rec)
  have t: "takeWhile (\<lambda>c. c \<noteq> CHR ''='') (take 8 (''AAAAAAAA'' @ r)) = ''AAAAAAAA''" "drop 8 (''AAAAAAAA'' @ r) = r" "''AAAAAAAA'' @ r \<noteq> []"
    by simp_all
  have "base32_Decode (''AAAAAAAA'' @ r) = Option.bind (Some [0, 0, 0, 0, 0, 0, 0, 0]) (\<lambda>vs. Option.bind (base32_Decode r) (\<lambda>r. Some (base32_pack vs @ r)))"
    by (subst base32_Decode.simps) (simp only: t v Let_def if_False list.size if_True, simp)
  then show ?thesis unfolding p by (cases "base32_Decode r") (simp_all add: p)
qed

lemma short_hash_accepted:
  "infoHashString multihash (''urn:btih:'' @ ''AAAAAAAA'' @ ''AAAAAAAA'' @ ''AAAAAAAA'' @ ''AA======'') = Inr (replicate 20 0)"
proof -
  have v: "base32_values ''AA'' = Some [0, 0]" by (simp add: base32_value_def)
  have "replicate 6 (0 :: nat) = [0, 0, 0, 0, 0, 0]" by (simp add: numeral_eq_Suc)
  then have p: "base32_pack [0, 0] = [0]" by (simp add: base32_pack_def upt_rec)
  have "base32_Decode ''AA======'' = Some [0]" using v p by (subst base32_Decode.simps) (simp add: Let_def)
  then have "base32_Decode (''AAAAAAAA'' @ ''AAAAAAAA'' @ ''AAAAAAAA'' @ ''AA======'') = Some ([0, 0, 0, 0, 0] @ [0, 0, 0, 0, 0] @ [0, 0, 0, 0, 0] @ [0])"
    by (simp only: base32_AAAAAAAA option.map)
  moreover have "filter (\<lambda>c. (of_char c :: nat) \<noteq> 10 \<and> (of_char c :: nat) \<noteq> 13) (''AAAAAAAA'' @ ''AAAAAAAA'' @ ''AAAAAAAA'' @ ''AA======'') =
      ''AAAAAAAA'' @ ''AAAAAAAA'' @ ''AAAAAAAA'' @ ''AA======''" by simp
  ultimately have d: "base32_DecodeString (''AAAAAAAA'' @ ''AAAAAAAA'' @ ''AAAAAAAA'' @ ''AA======'') =
      Some ([0, 0, 0, 0, 0] @ [0, 0, 0, 0, 0] @ [0, 0, 0, 0, 0] @ [0])" by (simp only: base32_DecodeString_def)
  have c: "copy20 ([0, 0, 0, 0, 0] @ [0, 0, 0, 0, 0] @ [0, 0, 0, 0, 0] @ [0]) = replicate 20 0" by code_simp
  have p: "take 9 (''urn:btih:'' @ r) = ''urn:btih:''" "drop 9 (''urn:btih:'' @ r) = r" for r by simp_all
  have l: "length (''AAAAAAAA'' @ ''AAAAAAAA'' @ ''AAAAAAAA'' @ ''AA======'') = 32" by simp
  show ?thesis unfolding infoHashString_def Let_def p l d by (simp add: c [simplified])
qed

end
