(* ===== verification/Resumer.thy ===== *)
theory Resumer
  imports Encoding
begin

text \<open>
  \<open>external/resumer/boltdbresumer\<close>: what is kept of a torrent and of a session between runs.  The database,
  \<open>go.etcd.io/bbolt\<close>, is a parameter: a record of its functions on an abstract state, of which
  \<open>bolt_ok\<close> states the documented behaviour of nested buckets.  So are the formats of package
  \<open>time\<close>.  A transaction that ends with an error leaves the state as it was; failures of the disk are left out.
\<close>

section \<open>The database\<close>

record 's bolt =
  bo_has :: "'s \<Rightarrow> string list \<Rightarrow> bool"
  bo_create :: "string list \<Rightarrow> 's \<Rightarrow> 's option"
  bo_delete :: "string list \<Rightarrow> 's \<Rightarrow> 's option"
  bo_get :: "'s \<Rightarrow> string list \<Rightarrow> string \<Rightarrow> byte list option"
  bo_put :: "string list \<Rightarrow> string \<Rightarrow> byte list \<Rightarrow> 's \<Rightarrow> 's"

definition below :: "string list \<Rightarrow> string list \<Rightarrow> bool" where
  "below p q \<longleftrightarrow> take (length p) q = p"

definition bolt_ok :: "'s bolt \<Rightarrow> bool" where
  "bolt_ok bo \<longleftrightarrow>
     (\<forall>s p k v. bo_has bo s p \<and> k \<noteq> [] \<and> length v < 2147483647 \<longrightarrow> bo_get bo (bo_put bo p k v s) p k = Some v) \<and>
     (\<forall>s p k v q l. (q, l) \<noteq> (p, k) \<longrightarrow> bo_get bo (bo_put bo p k v s) q l = bo_get bo s q l) \<and>
     (\<forall>s p k v q. bo_has bo (bo_put bo p k v s) q = bo_has bo s q) \<and>
     (\<forall>s p k. \<not> bo_has bo s p \<longrightarrow> bo_get bo s p k = None) \<and>
     (\<forall>s p n. (p = [] \<or> bo_has bo s p) \<and> n \<noteq> [] \<and> length n \<le> 32768 \<and> bo_get bo s p n = None \<longrightarrow> bo_create bo (p @ [n]) s \<noteq> None) \<and>
     (\<forall>s p s'. bo_create bo p s = Some s' \<longrightarrow> (\<forall>q. bo_has bo s' q \<longleftrightarrow> q = p \<or> bo_has bo s q) \<and> (\<forall>q k. bo_get bo s' q k = bo_get bo s q k)) \<and>
     (\<forall>s p. bo_has bo s p \<longrightarrow> bo_delete bo p s \<noteq> None) \<and>
     (\<forall>s p s'. bo_delete bo p s = Some s' \<longrightarrow> (\<forall>q. bo_has bo s' q \<longleftrightarrow> bo_has bo s q \<and> \<not> below p q) \<and>
       (\<forall>q k. bo_get bo s' q k = (if below p q then None else bo_get bo s q k)))"

text \<open>Times are nanoseconds since 1970; RFC 3339 keeps whole seconds.\<close>

record time_format =
  FormatTime :: "int \<Rightarrow> string"
  ParseTime :: "string \<Rightarrow> int option"
  DurationString :: "int \<Rightarrow> string"
  ParseDuration :: "string \<Rightarrow> int option"

definition to_second :: "int \<Rightarrow> int" where
  "to_second t = t div 1000000000 * 1000000000"

definition time_ok :: "time_format \<Rightarrow> bool" where
  "time_ok tf \<longleftrightarrow>
     (\<forall>t. 0 \<le> t \<and> t < 253402300800 * 1000000000 \<longrightarrow> ParseTime tf (FormatTime tf t) = Some (to_second t) \<and> length (FormatTime tf t) < 64) \<and>
     (\<forall>d. - (2 ^ 63) \<le> d \<and> d < 2 ^ 63 \<longrightarrow> ParseDuration tf (DurationString tf d) = Some d \<and> length (DurationString tf d) < 64)"

definition to_bytes :: "string \<Rightarrow> byte list" where
  "to_bytes s = map (\<lambda>c. of_nat (of_char c)) s"

definition of_bytes :: "byte list \<Rightarrow> string" where
  "of_bytes b = map (\<lambda>x. char_of (unat x)) b"

section \<open>The specification of a torrent\<close>

record Spec =
  sp_InfoHash :: "byte list"
  sp_Name :: string
  sp_FixedPeers :: "string list option"
  sp_Info :: "byte list"
  sp_Bitfield :: "byte list"
  sp_AddedAt :: int
  sp_BytesDownloaded :: int
  sp_BytesUploaded :: int
  sp_BytesWasted :: int
  sp_SeededFor :: int
  sp_Started :: bool
  sp_StopAfterDownload :: bool
  sp_DataDir :: string

datatype resume_error = ErrCreateBucket | ErrNoBucket | ErrNoKey string | ErrValue string | ErrReadPanic

definition spec_values :: "time_format \<Rightarrow> Spec \<Rightarrow> (string \<times> byte list) list" where
  "spec_values tf sp =
     [(''info_hash'', sp_InfoHash sp),
      (''name'', to_bytes (sp_Name sp)),
      (''fixed_peers'', to_bytes (json_Marshal (sp_FixedPeers sp))),
      (''info'', sp_Info sp),
      (''bitfield'', sp_Bitfield sp),
      (''added_at'', to_bytes (FormatTime tf (sp_AddedAt sp))),
      (''bytes_downloaded'', to_bytes (FormatInt (sp_BytesDownloaded sp))),
      (''bytes_uploaded'', to_bytes (FormatInt (sp_BytesUploaded sp))),
      (''bytes_wasted'', to_bytes (FormatInt (sp_BytesWasted sp))),
      (''seeded_for'', to_bytes (DurationString tf (sp_SeededFor sp))),
      (''started'', to_bytes (FormatBool (sp_Started sp))),
      (''data_dir'', to_bytes (sp_DataDir sp))]"

text \<open>\<open>tx.Bucket(user).Bucket(bucket)\<close>: a missing bucket is a nil pointer, and using it panics.\<close>

definition bucket_of :: "'s bolt \<Rightarrow> string \<Rightarrow> string \<Rightarrow> 's \<Rightarrow> string list option" where
  "bucket_of bo user bucket s = (if bo_has bo s [user] \<and> bo_has bo s [user, bucket] then Some [user, bucket] else None)"

definition NewTorrentResumer :: "'s bolt \<Rightarrow> string \<Rightarrow> string \<Rightarrow> 's \<Rightarrow> resume_error + 's" where
  "NewTorrentResumer bo bucket user s =
     (case bo_create bo [user] s of None \<Rightarrow> Inl ErrCreateBucket
      | Some s' \<Rightarrow> (case bo_create bo [user, bucket] s' of None \<Rightarrow> Inl ErrCreateBucket | Some s'' \<Rightarrow> Inr s''))"

definition tr_Write ::
  "'s bolt \<Rightarrow> time_format \<Rightarrow> string \<Rightarrow> string \<Rightarrow> string \<Rightarrow> Spec \<Rightarrow> 's \<Rightarrow> (resume_error option \<times> 's) option" where
  "tr_Write bo tf user bucket tid sp s = do {
     p \<leftarrow> bucket_of bo user bucket s;
     Some (case bo_create bo (p @ [tid]) s of
         None \<Rightarrow> (Some ErrCreateBucket, s)
       | Some s \<Rightarrow> (None, fold (\<lambda>(k, v). bo_put bo (p @ [tid]) k v) (spec_values tf sp) s))
   }"

text \<open>\<open>WriteInfo\<close>, \<open>WriteBitfield\<close> and \<open>WriteStarted\<close>: one key, if the torrent is there.\<close>

definition tr_write_key :: "'s bolt \<Rightarrow> string \<Rightarrow> string \<Rightarrow> string \<Rightarrow> string \<Rightarrow> byte list \<Rightarrow> 's \<Rightarrow> 's option" where
  "tr_write_key bo user bucket tid k v s = do {
     p \<leftarrow> bucket_of bo user bucket s;
     Some (if bo_has bo s (p @ [tid]) then bo_put bo (p @ [tid]) k v s else s)
   }"

definition WriteInfo :: "'s bolt \<Rightarrow> string \<Rightarrow> string \<Rightarrow> string \<Rightarrow> byte list \<Rightarrow> 's \<Rightarrow> 's option" where
  "WriteInfo bo user bucket tid v s = tr_write_key bo user bucket tid ''info'' v s"

definition WriteBitfield :: "'s bolt \<Rightarrow> string \<Rightarrow> string \<Rightarrow> string \<Rightarrow> byte list \<Rightarrow> 's \<Rightarrow> 's option" where
  "WriteBitfield bo user bucket tid v s = tr_write_key bo user bucket tid ''bitfield'' v s"

definition WriteStarted :: "'s bolt \<Rightarrow> string \<Rightarrow> string \<Rightarrow> string \<Rightarrow> bool \<Rightarrow> 's \<Rightarrow> 's option" where
  "WriteStarted bo user bucket tid v s = tr_write_key bo user bucket tid ''started'' (to_bytes (FormatBool v)) s"

text \<open>A key of \<open>Read\<close>: left at its zero value when absent, an error when it does not parse.\<close>

definition field :: "(string \<rightharpoonup> byte list) \<Rightarrow> string \<Rightarrow> (byte list \<Rightarrow> 'a option) \<Rightarrow> 'a \<Rightarrow> ('a \<Rightarrow> resume_error + 'b) \<Rightarrow> resume_error + 'b" where
  "field g k parse d f =
     (case g k of None \<Rightarrow> f d
      | Some v \<Rightarrow> (case parse v of None \<Rightarrow> Inl (ErrValue k) | Some x \<Rightarrow> f x))"

definition read_spec :: "time_format \<Rightarrow> (string \<rightharpoonup> byte list) \<Rightarrow> resume_error + Spec" where
  "read_spec tf g =
     (case g ''info_hash'' of None \<Rightarrow> Inl (ErrNoKey ''info_hash'')
      | Some ih \<Rightarrow>
        field g ''name'' (\<lambda>v. Some (of_bytes v)) [] (\<lambda>nm.
        field g ''fixed_peers'' (\<lambda>v. json_Unmarshal (of_bytes v)) None (\<lambda>fp.
        field g ''info'' Some [] (\<lambda>inf.
        field g ''bitfield'' Some [] (\<lambda>bf.
        field g ''added_at'' (\<lambda>v. ParseTime tf (of_bytes v)) 0 (\<lambda>at.
        field g ''bytes_downloaded'' (\<lambda>v. ParseInt (of_bytes v)) 0 (\<lambda>bd.
        field g ''bytes_uploaded'' (\<lambda>v. ParseInt (of_bytes v)) 0 (\<lambda>bu.
        field g ''bytes_wasted'' (\<lambda>v. ParseInt (of_bytes v)) 0 (\<lambda>bw.
        field g ''seeded_for'' (\<lambda>v. ParseDuration tf (of_bytes v)) 0 (\<lambda>sf.
        field g ''started'' (\<lambda>v. ParseBool (of_bytes v)) False (\<lambda>st.
        field g ''data_dir'' (\<lambda>v. Some (of_bytes v)) [] (\<lambda>dd.
          Inr \<lparr>sp_InfoHash = ih, sp_Name = nm, sp_FixedPeers = fp, sp_Info = inf, sp_Bitfield = bf, sp_AddedAt = at,
            sp_BytesDownloaded = bd, sp_BytesUploaded = bu, sp_BytesWasted = bw, sp_SeededFor = sf,
            sp_Started = st, sp_StopAfterDownload = False, sp_DataDir = dd\<rparr>))))))))))))"

text \<open>A panic in \<open>Read\<close> is recovered and becomes an error.\<close>

definition tr_Read :: "'s bolt \<Rightarrow> time_format \<Rightarrow> string \<Rightarrow> string \<Rightarrow> string \<Rightarrow> 's \<Rightarrow> resume_error + Spec" where
  "tr_Read bo tf user bucket tid s =
     (case bucket_of bo user bucket s of
        None \<Rightarrow> Inl ErrReadPanic
      | Some p \<Rightarrow> if bo_has bo s (p @ [tid]) then read_spec tf (bo_get bo s (p @ [tid])) else Inl ErrNoBucket)"

definition tr_Del :: "'s bolt \<Rightarrow> string \<Rightarrow> string \<Rightarrow> 's \<Rightarrow> 's option" where
  "tr_Del bo user bucket s =
     (if \<not> bo_has bo s [user] then None
      else Some (case bo_delete bo [user, bucket] s of None \<Rightarrow> s | Some s' \<Rightarrow> s'))"

section \<open>The specification of a session\<close>

record SessionSpec =
  ss_UserPrivk :: "byte list option"
  ss_TorrentIds :: "string list"

definition sr_Read :: "'s bolt \<Rightarrow> string \<Rightarrow> string \<Rightarrow> 's \<Rightarrow> (SessionSpec \<times> resume_error option) option" where
  "sr_Read bo user bucket s =
     (let sp = \<lparr>ss_UserPrivk = None, ss_TorrentIds = []\<rparr> in
      if \<not> bo_has bo s [user] then None
      else if \<not> bo_has bo s [user, bucket] then Some (sp, None)
      else case bo_get bo s [user, bucket] ''user_privk'' of
        None \<Rightarrow> Some (sp, Some (ErrNoKey ''user_privk''))
      | Some v \<Rightarrow>
        let sp = sp\<lparr>ss_UserPrivk := Some v\<rparr> in
        case bo_get bo s [user, bucket] ''torrentIds'' of
          None \<Rightarrow> Some (sp, Some (ErrNoKey ''torrentIds''))
        | Some v \<Rightarrow>
          (case json_Unmarshal (of_bytes v) of
             None \<Rightarrow> Some (sp, Some (ErrValue ''torrentIds''))
           | Some ids \<Rightarrow> Some (sp\<lparr>ss_TorrentIds := (case ids of None \<Rightarrow> [] | Some ids \<Rightarrow> ids)\<rparr>, None)))"

definition sr_WriteTorrentIds :: "'s bolt \<Rightarrow> string \<Rightarrow> string \<Rightarrow> string list \<Rightarrow> 's \<Rightarrow> 's option" where
  "sr_WriteTorrentIds bo user bucket ids s =
     map_option (\<lambda>p. bo_put bo p ''torrentIds'' (to_bytes (json_Marshal (Some ids))) s) (bucket_of bo user bucket s)"

definition sr_Write :: "'s bolt \<Rightarrow> string \<Rightarrow> string \<Rightarrow> SessionSpec \<Rightarrow> 's \<Rightarrow> 's option" where
  "sr_Write bo user bucket sp s =
     map_option (\<lambda>p. bo_put bo p ''torrentIds'' (to_bytes (json_Marshal (Some (ss_TorrentIds sp))))
       (bo_put bo p ''user_privk'' (case ss_UserPrivk sp of None \<Rightarrow> [] | Some v \<Rightarrow> v) s)) (bucket_of bo user bucket s)"

section \<open>What is read back\<close>

lemma of_bytes_to_bytes [simp]: "of_bytes (to_bytes s) = s"
proof -
  have "char_of (unat (of_nat (of_char c :: nat) :: byte)) = c" for c :: char
    by (simp add: unat_of_nat take_bit_nat_eq_self)
  then show ?thesis by (simp add: of_bytes_def to_bytes_def comp_def)
qed

lemma length_to_bytes [simp]: "length (to_bytes s) = length s"
  by (simp add: to_bytes_def)

named_theorems bolt \<open>laws of the database\<close>

lemma bolt_put [bolt]:
  assumes "bolt_ok bo"
  shows "bo_has bo s p \<Longrightarrow> k \<noteq> [] \<Longrightarrow> length v < 2147483647 \<Longrightarrow> bo_get bo (bo_put bo p k v s) p k = Some v"
    and "q \<noteq> p \<Longrightarrow> bo_get bo (bo_put bo p k v s) q l = bo_get bo s q l"
    and "l \<noteq> k \<Longrightarrow> bo_get bo (bo_put bo p k v s) q l = bo_get bo s q l"
    and "bo_has bo (bo_put bo p k v s) q = bo_has bo s q"
  using assms unfolding bolt_ok_def by simp_all

lemma bolt_none: "bolt_ok bo \<Longrightarrow> \<not> bo_has bo s p \<Longrightarrow> bo_get bo s p k = None"
  unfolding bolt_ok_def by simp

lemma bolt_create:
  assumes "bolt_ok bo"
  shows "(p = [] \<or> bo_has bo s p) \<Longrightarrow> n \<noteq> [] \<Longrightarrow> length n \<le> 32768 \<Longrightarrow> bo_get bo s p n = None \<Longrightarrow> \<exists>s'. bo_create bo (p @ [n]) s = Some s'"
    and "bo_create bo p s = Some s' \<Longrightarrow> bo_has bo s' q \<longleftrightarrow> q = p \<or> bo_has bo s q"
    and "bo_create bo p s = Some s' \<Longrightarrow> bo_get bo s' q k = bo_get bo s q k"
  using assms unfolding bolt_ok_def by blast+

lemma bolt_delete:
  assumes "bolt_ok bo"
  shows "bo_has bo s p \<Longrightarrow> \<exists>s'. bo_delete bo p s = Some s'"
    and "bo_delete bo p s = Some s' \<Longrightarrow> bo_has bo s' q \<longleftrightarrow> bo_has bo s q \<and> \<not> below p q"
  using assms unfolding bolt_ok_def by blast+

text \<open>A list of keys and values put into a bucket.\<close>

lemma puts_has: "bolt_ok bo \<Longrightarrow> bo_has bo (fold (\<lambda>(k, v). bo_put bo p k v) kvs s) q = bo_has bo s q"
  by (induction kvs arbitrary: s) (simp_all add: bolt_put(4) split_beta)

lemma puts_other: "bolt_ok bo \<Longrightarrow> q \<noteq> p \<Longrightarrow> bo_get bo (fold (\<lambda>(k, v). bo_put bo p k v) kvs s) q l = bo_get bo s q l"
  by (induction kvs arbitrary: s) (simp_all add: bolt_put(2) split_beta)

lemma puts_get:
  assumes "bolt_ok bo" and "bo_has bo s p" and "\<forall>(k, v)\<in>set kvs. k \<noteq> [] \<and> length v < 2147483647" and "distinct (map fst kvs)"
  shows "bo_get bo (fold (\<lambda>(k, v). bo_put bo p k v) kvs s) p l = (case map_of kvs l of None \<Rightarrow> bo_get bo s p l | Some v \<Rightarrow> Some v)"
  using assms(2-)
proof (induction kvs arbitrary: s)
  case (Cons kv kvs)
  obtain k v where kv: "kv = (k, v)" by fastforce
  let ?s = "bo_put bo p k v s"
  have IH: "bo_get bo (fold (\<lambda>(k, v). bo_put bo p k v) kvs ?s) p l = (case map_of kvs l of None \<Rightarrow> bo_get bo ?s p l | Some v \<Rightarrow> Some v)"
    using Cons.prems assms(1) by (intro Cons.IH) (simp_all add: bolt_put(4))
  show ?case
  proof (cases "l = k")
    case True
    then have "map_of kvs l = None" using Cons.prems(3) kv by (simp add: map_of_eq_None_iff)
    then show ?thesis using IH True kv Cons.prems(1,2) assms(1) by (simp add: bolt_put(1))
  next
    case False
    then have "bo_get bo ?s p l = bo_get bo s p l" using assms(1) by (simp add: bolt_put(3))
    then show ?thesis using IH kv False by (cases "map_of kvs l") simp_all
  qed
qed simp

text \<open>What a specification must satisfy to be written and read back: sizes of 64 bits, and no more.\<close>

definition spec_ok :: "Spec \<Rightarrow> bool" where
  "spec_ok sp \<longleftrightarrow>
     (\<forall>s\<in>set (case sp_FixedPeers sp of None \<Rightarrow> [] | Some ps \<Rightarrow> ps). ascii s) \<and>
     length (json_Marshal (sp_FixedPeers sp)) < 2147483647 \<and>
     length (sp_InfoHash sp) < 2147483647 \<and> length (sp_Info sp) < 2147483647 \<and> length (sp_Bitfield sp) < 2147483647 \<and>
     length (sp_Name sp) < 2147483647 \<and> length (sp_DataDir sp) < 2147483647 \<and>
     0 \<le> sp_AddedAt sp \<and> sp_AddedAt sp < 253402300800 * 1000000000 \<and>
     (\<forall>i\<in>{sp_BytesDownloaded sp, sp_BytesUploaded sp, sp_BytesWasted sp, sp_SeededFor sp}. - (2 ^ 63) \<le> i \<and> i < 2 ^ 63)"

definition saved :: "Spec \<Rightarrow> Spec" where
  "saved sp = sp\<lparr>sp_AddedAt := to_second (sp_AddedAt sp), sp_StopAfterDownload := False\<rparr>"

lemma read_spec_values:
  assumes "time_ok tf" and "spec_ok sp" and "\<forall>(k, v)\<in>set (spec_values tf sp). g k = Some v"
  shows "read_spec tf g = Inr (saved sp)"
proof -
  have g: "g ''info_hash'' = Some (sp_InfoHash sp)" "g ''name'' = Some (to_bytes (sp_Name sp))"
    "g ''fixed_peers'' = Some (to_bytes (json_Marshal (sp_FixedPeers sp)))" "g ''info'' = Some (sp_Info sp)"
    "g ''bitfield'' = Some (sp_Bitfield sp)" "g ''added_at'' = Some (to_bytes (FormatTime tf (sp_AddedAt sp)))"
    "g ''bytes_downloaded'' = Some (to_bytes (FormatInt (sp_BytesDownloaded sp)))"
    "g ''bytes_uploaded'' = Some (to_bytes (FormatInt (sp_BytesUploaded sp)))"
    "g ''bytes_wasted'' = Some (to_bytes (FormatInt (sp_BytesWasted sp)))"
    "g ''seeded_for'' = Some (to_bytes (DurationString tf (sp_SeededFor sp)))"
    "g ''started'' = Some (to_bytes (FormatBool (sp_Started sp)))" "g ''data_dir'' = Some (to_bytes (sp_DataDir sp))"
    using assms(3) by (simp_all add: spec_values_def)
  have "json_Unmarshal (json_Marshal (sp_FixedPeers sp)) = Some (sp_FixedPeers sp)"
    using assms(2) by (intro json_roundtrip) (simp add: spec_ok_def)
  moreover have "ParseInt (FormatInt (sp_BytesDownloaded sp)) = Some (sp_BytesDownloaded sp)"
    "ParseInt (FormatInt (sp_BytesUploaded sp)) = Some (sp_BytesUploaded sp)"
    "ParseInt (FormatInt (sp_BytesWasted sp)) = Some (sp_BytesWasted sp)"
    using assms(2) by (intro ParseInt_FormatInt; simp add: spec_ok_def)+
  moreover have "ParseTime tf (FormatTime tf (sp_AddedAt sp)) = Some (to_second (sp_AddedAt sp))"
    "ParseDuration tf (DurationString tf (sp_SeededFor sp)) = Some (sp_SeededFor sp)"
    using assms(1,2) by (simp_all add: time_ok_def spec_ok_def)
  ultimately show ?thesis
    by (simp add: read_spec_def field_def g ParseBool_FormatBool saved_def)
qed

definition writable :: "'s bolt \<Rightarrow> string \<Rightarrow> string \<Rightarrow> string \<Rightarrow> 's \<Rightarrow> bool" where
  "writable bo user bucket tid s \<longleftrightarrow> bo_has bo s [user] \<and> bo_has bo s [user, bucket] \<and>
     tid \<noteq> [] \<and> length tid \<le> 32768 \<and> bo_get bo s [user, bucket] tid = None"

lemma Write_puts:
  assumes "bolt_ok bo" and "time_ok tf" and "spec_ok sp" and "writable bo user bucket tid s"
  shows "\<exists>s'. tr_Write bo tf user bucket tid sp s = Some (None, s') \<and>
    (\<forall>q. bo_has bo s' q \<longleftrightarrow> q = [user, bucket, tid] \<or> bo_has bo s q) \<and>
    (\<forall>q l. q \<noteq> [user, bucket, tid] \<longrightarrow> bo_get bo s' q l = bo_get bo s q l) \<and>
    (\<forall>(k, v)\<in>set (spec_values tf sp). bo_get bo s' [user, bucket, tid] k = Some v)"
proof -
  let ?p = "[user, bucket]" and ?q = "[user, bucket, tid]"
  have w: "bo_has bo s [user]" "bo_has bo s ?p" "tid \<noteq> []" "length tid \<le> 32768" "bo_get bo s ?p tid = None"
    using assms(4) by (simp_all add: writable_def)
  obtain s1 where s1: "bo_create bo ?q s = Some s1" using bolt_create(1) [OF assms(1), of ?p s tid] w by auto
  let ?s' = "fold (\<lambda>(k, v). bo_put bo ?q k v) (spec_values tf sp) s1"
  have "tr_Write bo tf user bucket tid sp s = Some (None, ?s')" using w(1,2) s1 by (simp add: tr_Write_def bucket_of_def)
  moreover have h: "bo_has bo ?s' q \<longleftrightarrow> q = ?q \<or> bo_has bo s q" for q
    by (simp add: puts_has [OF assms(1)] bolt_create(2) [OF assms(1) s1])
  moreover have "bo_get bo ?s' q l = bo_get bo s q l" if "q \<noteq> ?q" for q l
    using that by (simp add: puts_other [OF assms(1)] bolt_create(3) [OF assms(1) s1])
  moreover have "bo_get bo ?s' ?q k = Some v" if kv: "(k, v) \<in> set (spec_values tf sp)" for k v
  proof -
    have "length (FormatTime tf (sp_AddedAt sp)) < 64" "length (DurationString tf (sp_SeededFor sp)) < 64"
      using assms(2,3) by (simp_all add: time_ok_def spec_ok_def)
    then have FT: "length (FormatTime tf (sp_AddedAt sp)) < 2147483647" "length (DurationString tf (sp_SeededFor sp)) < 2147483647"
      by linarith+
    have "\<forall>(k, v)\<in>set (spec_values tf sp). k \<noteq> [] \<and> length v < 2147483647"
      using FT assms(3) length_FormatInt [of "sp_BytesDownloaded sp"] length_FormatInt [of "sp_BytesUploaded sp"]
        length_FormatInt [of "sp_BytesWasted sp"]
      by (simp add: spec_values_def spec_ok_def FormatBool_def)
    moreover have "distinct (map fst (spec_values tf sp))" by (simp add: spec_values_def)
    moreover from this have "map_of (spec_values tf sp) k = Some v" using kv by simp
    moreover have "bo_has bo s1 ?q" by (simp add: bolt_create(2) [OF assms(1) s1])
    ultimately show ?thesis using puts_get [OF assms(1), of s1 ?q "spec_values tf sp" k] by simp
  qed
  ultimately show ?thesis by blast
qed

lemma write_key_Read:
  assumes "bolt_ok bo" and "bucket_of bo user bucket s = Some [user, bucket]" and "bo_has bo s [user, bucket, tid]"
    and "k \<noteq> []" and "length v < 2147483647"
  shows "\<exists>s'. tr_write_key bo user bucket tid k v s = Some s' \<and> bo_get bo s' [user, bucket, tid] = (bo_get bo s [user, bucket, tid])(k \<mapsto> v) \<and>
    (\<forall>q. bo_has bo s' q = bo_has bo s q) \<and> (\<forall>q. q \<noteq> [user, bucket, tid] \<longrightarrow> bo_get bo s' q = bo_get bo s q)"
  using assms by (auto simp: tr_write_key_def bolt fun_eq_iff)

section \<open>Properties\<close>

text \<open>
  C18: What is saved of a torrent is what is read at the next start.  Writing a specification succeeds, reading it gives it
  back with the time of adding cut to seconds and the flag to stop after the download cleared, which \<open>Write\<close>
  does not store; no other torrent changes.  A later write of the bitfield or of the started flag is seen, and nothing else changes.
\<close>

theorem resume_roundtrip:
  assumes "bolt_ok bo" and "time_ok tf" and "spec_ok sp" and "writable bo user bucket tid s"
  shows "\<exists>s'. tr_Write bo tf user bucket tid sp s = Some (None, s') \<and>
    tr_Read bo tf user bucket tid s' = Inr (sp\<lparr>sp_AddedAt := to_second (sp_AddedAt sp), sp_StopAfterDownload := False\<rparr>) \<and>
    (\<forall>t. t \<noteq> tid \<longrightarrow> tr_Read bo tf user bucket t s' = tr_Read bo tf user bucket t s) \<and>
    (\<forall>bf. length bf < 2147483647 \<longrightarrow> (\<exists>s''. WriteBitfield bo user bucket tid bf s' = Some s'' \<and>
       tr_Read bo tf user bucket tid s'' =
         Inr (sp\<lparr>sp_Bitfield := bf, sp_AddedAt := to_second (sp_AddedAt sp), sp_StopAfterDownload := False\<rparr>))) \<and>
    (\<forall>st. \<exists>s''. WriteStarted bo user bucket tid st s' = Some s'' \<and>
       tr_Read bo tf user bucket tid s'' =
         Inr (sp\<lparr>sp_Started := st, sp_AddedAt := to_second (sp_AddedAt sp), sp_StopAfterDownload := False\<rparr>))"
proof -
  let ?q = "[user, bucket, tid]"
  obtain s' where s': "tr_Write bo tf user bucket tid sp s = Some (None, s')"
    "\<And>q. bo_has bo s' q \<longleftrightarrow> q = ?q \<or> bo_has bo s q" "\<And>q l. q \<noteq> ?q \<Longrightarrow> bo_get bo s' q l = bo_get bo s q l"
    "\<forall>(k, v)\<in>set (spec_values tf sp). bo_get bo s' ?q k = Some v"
    using Write_puts [OF assms] by blast
  have b: "bucket_of bo user bucket s = Some [user, bucket]" "bucket_of bo user bucket s' = Some [user, bucket]"
    using assms(4) s'(2) by (auto simp: bucket_of_def writable_def)
  have rd: "tr_Read bo tf user bucket tid s' = Inr (saved sp)"
    using read_spec_values [OF assms(2,3) s'(4)] b(2) s'(2) by (simp add: tr_Read_def)
  have other: "tr_Read bo tf user bucket t s' = tr_Read bo tf user bucket t s" if "t \<noteq> tid" for t
  proof -
    have "bo_get bo s' [user, bucket, t] = bo_get bo s [user, bucket, t]" using s'(3) that by (auto simp: fun_eq_iff)
    then show ?thesis using that b s'(2) by (simp add: tr_Read_def)
  qed
  have upd: "\<exists>s''. tr_write_key bo user bucket tid k v s' = Some s'' \<and> tr_Read bo tf user bucket tid s'' = Inr (saved sp')"
    if u: "spec_ok sp'" "k \<noteq> []" "length v < 2147483647"
      "\<forall>(l, w)\<in>set (spec_values tf sp'). l = k \<and> w = v \<or> l \<noteq> k \<and> (l, w) \<in> set (spec_values tf sp)" for k v sp'
  proof -
    obtain s'' where s'': "tr_write_key bo user bucket tid k v s' = Some s''" "bo_get bo s'' ?q = (bo_get bo s' ?q)(k \<mapsto> v)"
      "\<forall>q. bo_has bo s'' q = bo_has bo s' q"
      using write_key_Read [OF assms(1) b(2) _ u(2,3)] s'(2) by blast
    have "\<forall>(l, w)\<in>set (spec_values tf sp'). bo_get bo s'' ?q l = Some w"
      using u(4) s'(4) unfolding s''(2) by fastforce
    from read_spec_values [OF assms(2) u(1) this] s''(1,3) b(2) s'(2) show ?thesis
      by (auto simp: tr_Read_def bucket_of_def)
  qed
  have "spec_ok (sp\<lparr>sp_Bitfield := bf\<rparr>)" if "length bf < 2147483647" for bf using assms(3) that by (simp add: spec_ok_def)
  from upd [OF this, of _ "''bitfield''"] have "\<exists>s''. WriteBitfield bo user bucket tid bf s' = Some s'' \<and>
      tr_Read bo tf user bucket tid s'' = Inr (saved (sp\<lparr>sp_Bitfield := bf\<rparr>))" if "length bf < 2147483647" for bf
    using that by (simp add: WriteBitfield_def spec_values_def)
  moreover have "spec_ok (sp\<lparr>sp_Started := st\<rparr>)" for st using assms(3) by (simp add: spec_ok_def)
  from upd [OF this, of "''started''"] have "\<exists>s''. WriteStarted bo user bucket tid st s' = Some s'' \<and>
      tr_Read bo tf user bucket tid s'' = Inr (saved (sp\<lparr>sp_Started := st\<rparr>))" for st
    by (simp add: WriteStarted_def spec_values_def FormatBool_def)
  ultimately show ?thesis using s'(1) rd other by (auto simp: saved_def)
qed

text \<open>A database kept as lists and a format of times as numbers, on which the laws hold.\<close>

definition list_bolt :: "(string list list \<times> ((string list \<times> string) \<times> byte list) list) bolt" where
  "list_bolt = \<lparr>bo_has = (\<lambda>s p. p \<in> set (fst s)),
     bo_create = (\<lambda>p s. Some (if p \<in> set (fst s) then s else (p # fst s, filter (\<lambda>e. fst (fst e) \<noteq> p) (snd s)))),
     bo_delete = (\<lambda>p s. if p \<in> set (fst s) then Some (filter (\<lambda>q. \<not> below p q) (fst s), snd s) else None),
     bo_get = (\<lambda>s p k. if p \<in> set (fst s) then map_of (snd s) (p, k) else None),
     bo_put = (\<lambda>p k v s. if p \<in> set (fst s) then (fst s, ((p, k), v) # snd s) else s)\<rparr>"

definition number_time :: time_format where
  "number_time = \<lparr>FormatTime = (\<lambda>t. FormatInt (t div 1000000000)), ParseTime = (\<lambda>s. map_option ((*) 1000000000) (ParseInt s)),
     DurationString = FormatInt, ParseDuration = ParseInt\<rparr>"

lemma list_bolt_ok: "bolt_ok list_bolt"
proof -
  have f: "map_of (filter (\<lambda>e. fst (fst e) \<noteq> p) es) (q, k) = (if q = p then None else map_of es (q, k))"
    for p q :: "string list" and k :: string and es :: "((string list \<times> string) \<times> byte list) list"
    by (induction es) auto
  show ?thesis unfolding bolt_ok_def list_bolt_def by (auto simp: f)
qed

lemma number_time_ok: "time_ok number_time"
proof -
  have "ParseInt (FormatInt (t div 1000000000)) = Some (t div 1000000000) \<and> length (FormatInt (t div 1000000000)) < 64"
    if "0 \<le> t" "t < 253402300800 * 1000000000" for t
    using that ParseInt_FormatInt [of "t div 1000000000"] length_FormatInt [of "t div 1000000000"] by simp
  then show ?thesis using ParseInt_FormatInt length_FormatInt
    by (auto simp: time_ok_def number_time_def to_second_def mult.commute)
qed

definition sample_spec :: Spec where
  "sample_spec = \<lparr>sp_InfoHash = replicate 20 7, sp_Name = ''d'', sp_FixedPeers = Some [''a<b''], sp_Info = [], sp_Bitfield = [],
     sp_AddedAt = 1234567890123, sp_BytesDownloaded = - 5, sp_BytesUploaded = 12, sp_BytesWasted = 0, sp_SeededFor = 0,
     sp_Started = True, sp_StopAfterDownload = True, sp_DataDir = ''home''\<rparr>"

definition sample_db :: "string list list \<times> ((string list \<times> string) \<times> byte list) list" where
  "sample_db = ([[''me''], [''me'', ''torrents''], [''me'', ''session'']], [])"

lemma sample_spec_ok: "spec_ok sample_spec"
proof -
  have "length (json_Marshal (Some [''a<b''])) = 12" by code_simp
  then show ?thesis by (simp add: spec_ok_def sample_spec_def ascii_def)
qed

theorem resume_roundtrip_witness:
  "\<exists>s'. tr_Write list_bolt number_time ''me'' ''torrents'' ''t1'' sample_spec sample_db = Some (None, s') \<and>
     tr_Read list_bolt number_time ''me'' ''torrents'' ''t1'' s' =
       Inr (sample_spec\<lparr>sp_AddedAt := 1234000000000, sp_StopAfterDownload := False\<rparr>)"
proof -
  have "writable list_bolt ''me'' ''torrents'' ''t1'' sample_db" by (simp add: writable_def list_bolt_def sample_db_def)
  moreover have "to_second (sp_AddedAt sample_spec) = 1234000000000" by (simp add: sample_spec_def to_second_def)
  ultimately show ?thesis using resume_roundtrip [OF list_bolt_ok number_time_ok sample_spec_ok] by metis
qed

end
