(* ===== verification/Session.thy ===== *)
theory Session
  imports Resumer Magnet TorrentProps
begin

text \<open>
  \<open>filechain/session.go\<close>, \<open>session_add.go\<close> and \<open>session_load.go\<close>: the torrents of a session, how they are
  added, created from files and saved, and what a later session loads.  The host of the peer network, its
  key and the event loops of the torrents are not part of this model: starting a torrent is a result of the operation.
\<close>

section \<open>The session\<close>

record 't session_env =
  se_env :: "'t env"
  se_encode :: "created_dict \<Rightarrow> byte list"
  se_time :: time_format
  se_User :: string
  se_DataDir :: string
  se_ResumeOnStartup :: bool
  se_maxAddrs :: int
  se_host :: AddrInfo
  se_unchoked :: int
  se_optimistic :: int
  se_externalIP :: string
  se_hier_ok :: "string \<Rightarrow> bool"
  se_multihash :: "string \<Rightarrow> byte list option"

text \<open>A torrent with the fields that its event loop does not use.\<close>

record 't session_torrent =
  st_torrent :: "'t torrent"
  st_name :: string
  st_addedAt :: int
  st_dataDir :: string

text \<open>No list of torrents is the nil map of a closed session.\<close>

record ('t, 's) session =
  ses_torrents :: "(string \<times> 't session_torrent) list option"
  ses_spec :: SessionSpec
  ses_db :: 's

datatype session_error = ErrTorrent | ErrInfo info_error | ErrBitfield bitfield_error | ErrResume resume_error
  | ErrNoDataDir | ErrNoInfoHash | ErrNoUser
  | ErrInput magnet_error
  | ErrCreateFile create_error

definition make_torrent ::
  "'t session_env \<Rightarrow> byte list \<Rightarrow> string \<Rightarrow> Info option \<Rightarrow> bitfield option \<Rightarrow> int \<times> int \<times> int \<Rightarrow> bool \<Rightarrow> int \<Rightarrow> string \<Rightarrow>
    't session_torrent option" where
  "make_torrent se ih nm info bf stats stopAfter addedAt dataDir =
     map_option (\<lambda>t. \<lparr>st_torrent = t, st_name = nm, st_addedAt = addedAt, st_dataDir = dataDir\<rparr>)
       (newTorrent2 (bt (se_env se)) ih info bf stats stopAfter (se_maxAddrs se) (se_host se) (se_unchoked se) (se_optimistic se) (se_externalIP se))"

definition existTorrent :: "string \<Rightarrow> ('t, 's) session \<Rightarrow> 't session_torrent option" where
  "existTorrent tid s = (case ses_torrents s of None \<Rightarrow> None | Some ts \<Rightarrow> map_of ts tid)"

text \<open>A write to the nil map panics.  The keys are listed in some order.\<close>

definition insertTorrent ::
  "'s bolt \<Rightarrow> 't session_env \<Rightarrow> choices \<Rightarrow> string \<Rightarrow> 't session_torrent \<Rightarrow> ('t, 's) session \<Rightarrow> ('t, 's) session option" where
  "insertTorrent bo se ch tid t s = do {
     ts \<leftarrow> ses_torrents s;
     let ts = AList.update tid t ts;
     let keys = fst (shuffle ch (map fst ts));
     db \<leftarrow> sr_WriteTorrentIds bo (se_User se) ''session'' keys (ses_db s);
     Some (s\<lparr>ses_torrents := Some ts, ses_spec := (ses_spec s)\<lparr>ss_TorrentIds := keys\<rparr>, ses_db := db\<rparr>)
   }"

section \<open>Adding a torrent\<close>

record AddTorrentOptions =
  ao_Stopped :: bool
  ao_StopAfterDownload :: bool
  ao_DataDir :: string

definition filterOutControlChars :: "string \<Rightarrow> string" where
  "filterOutControlChars s = filter (\<lambda>c. \<not> control c) s"

text \<open>The result: an error, or the torrent's id and whether it is started.\<close>

definition addMagnet ::
  "'s bolt \<Rightarrow> 't session_env \<Rightarrow> Magnet \<Rightarrow> AddTorrentOptions \<Rightarrow> int \<Rightarrow> choices \<Rightarrow> ('t, 's) session \<Rightarrow>
    ((session_error + string \<times> bool) \<times> ('t, 's) session) option" where
  "addMagnet bo se ma opt time ch s =
     (let tid = EncodeToString (ma_InfoHash ma);
          dataDir = (if ao_DataDir opt = [] then se_DataDir se else ao_DataDir opt)
      in case existTorrent tid s of
           Some _ \<Rightarrow> Some (Inr (tid, False), s)
         | None \<Rightarrow>
           (case make_torrent se (ma_InfoHash ma) (ma_Name ma) None None (0, 0, 0) (ao_StopAfterDownload opt) time dataDir of
              None \<Rightarrow> Some (Inl ErrTorrent, s)
            | Some t \<Rightarrow> do {
                (e, db) \<leftarrow> tr_Write bo (se_time se) (se_User se) ''torrents'' tid
                  \<lparr>sp_InfoHash = ma_InfoHash ma, sp_Name = ma_Name ma, sp_FixedPeers = Some [], sp_Info = [], sp_Bitfield = [],
                   sp_AddedAt = time, sp_BytesDownloaded = 0, sp_BytesUploaded = 0, sp_BytesWasted = 0, sp_SeededFor = 0,
                   sp_Started = False, sp_StopAfterDownload = ao_StopAfterDownload opt, sp_DataDir = dataDir\<rparr> (ses_db s);
                case e of
                  Some e \<Rightarrow> Some (Inl (ErrResume e), s\<lparr>ses_db := db\<rparr>)
                | None \<Rightarrow> do {
                    s \<leftarrow> insertTorrent bo se ch tid t (s\<lparr>ses_db := db\<rparr>);
                    Some (Inr (tid, \<not> ao_Stopped opt), s)
                  }
              }))"

definition addFileId ::
  "'s bolt \<Rightarrow> 't session_env \<Rightarrow> string \<Rightarrow> AddTorrentOptions \<Rightarrow> int \<Rightarrow> choices \<Rightarrow> ('t, 's) session \<Rightarrow>
    ((session_error + string \<times> bool) \<times> ('t, 's) session) option" where
  "addFileId bo se link opt time ch s =
     (case NewMagnet (se_hier_ok se) (se_multihash se) ch link of
        Inl e \<Rightarrow> Some (Inl (ErrInput e), s)
      | Inr ma \<Rightarrow> addMagnet bo se ma opt time ch s)"

definition AddFileId ::
  "'s bolt \<Rightarrow> 't session_env \<Rightarrow> string \<Rightarrow> AddTorrentOptions \<Rightarrow> int \<Rightarrow> choices \<Rightarrow> ('t, 's) session \<Rightarrow>
    ((session_error + string \<times> bool) \<times> ('t, 's) session) option" where
  "AddFileId bo se uri opt time ch s = addFileId bo se (filterOutControlChars uri) opt time ch s"

text \<open>\<open>for i := uint32(0); i < info.NumPieces; i++ { bf.Set(i) }\<close>\<close>

fun set_bits :: "u32 list \<Rightarrow> bitfield \<Rightarrow> bitfield option" where
  "set_bits [] bf = Some bf"
| "set_bits (i # is) bf = Option.bind (bf_Set bf i) (set_bits is)"

text \<open>\<open>CreateFile\<close> for the file or directory \<open>pa\<close> in the directory \<open>parent\<close>.\<close>

definition CreateFile ::
  "'s bolt \<Rightarrow> 't session_env \<Rightarrow> path_arg \<Rightarrow> string \<Rightarrow> int \<Rightarrow> choices \<Rightarrow> ('t, 's) session \<Rightarrow>
    ((session_error + string \<times> bool) \<times> ('t, 's) session) option" where
  "CreateFile bo se pa parent time ch s =
     (let env = se_env se in
      case NewInfoBytes (sha1 env) [] [pa] False 0 [] of
        Inl e \<Rightarrow> Some (Inl (ErrCreateFile e), s)
      | Inr cd \<Rightarrow>
        (case NewInfo (decode_info env) (sha1 env) (se_encode se cd) of
           Inl e \<Rightarrow> Some (Inl (ErrInfo e), s)
         | Inr info \<Rightarrow> do {
             let tid = EncodeToString (Hash info);
             bf \<leftarrow> set_bits (u32_upto (NumPieces info)) (New (NumPieces info));
             case existTorrent tid s of
               Some _ \<Rightarrow> Some (Inr (tid, False), s)
             | None \<Rightarrow>
               (case make_torrent se (Hash info) (Name info) (Some info) (Some bf) (0, 0, 0) False time parent of
                  None \<Rightarrow> Some (Inl ErrTorrent, s)
                | Some t \<Rightarrow> do {
                    (e, db) \<leftarrow> tr_Write bo (se_time se) (se_User se) ''torrents'' tid
                      \<lparr>sp_InfoHash = Hash info, sp_Name = Name info, sp_FixedPeers = None, sp_Info = Bytes info, sp_Bitfield = bytes bf,
                       sp_AddedAt = time, sp_BytesDownloaded = 0, sp_BytesUploaded = 0, sp_BytesWasted = 0, sp_SeededFor = 0,
                       sp_Started = False, sp_StopAfterDownload = False, sp_DataDir = parent\<rparr> (ses_db s);
                    case e of
                      Some e \<Rightarrow> Some (Inl (ErrResume e), s\<lparr>ses_db := db\<rparr>)
                    | None \<Rightarrow> do {
                        s \<leftarrow> insertTorrent bo se ch tid t (s\<lparr>ses_db := db\<rparr>);
                        Some (Inr (tid, True), s)
                      }
                  })
           }))"

section \<open>Loading\<close>

text \<open>\<open>loadExistingTorrent\<close> up to the insertion: from the saved specification to the torrent and whether it was started.\<close>

definition load_spec :: "'t session_env \<Rightarrow> Spec \<Rightarrow> session_error + 't session_torrent \<times> bool" where
  "load_spec se sp =
     (case (if sp_Info sp = [] then Inr (None, None)
            else case parseInfo (decode_info (se_env se)) (sha1 (se_env se)) (MaxPieces (se_env se)) (sp_Info sp) of
              Inl e \<Rightarrow> Inl (ErrInfo e)
            | Inr info \<Rightarrow>
              if sp_Bitfield sp = [] then Inr (Some info, None)
              else case NewBytes (sp_Bitfield sp) (NumPieces info) of
                Inl e \<Rightarrow> Inl (ErrBitfield e)
              | Inr bf \<Rightarrow> Inr (Some info, Some bf)) of
        Inl e \<Rightarrow> Inl e
      | Inr (info, bf) \<Rightarrow>
        if sp_DataDir sp = [] then Inl ErrNoDataDir
        else if sp_InfoHash sp = [] then Inl ErrNoInfoHash
        else case make_torrent se (sp_InfoHash sp) (sp_Name sp) info bf
            (sp_BytesDownloaded sp, sp_BytesUploaded sp, sp_BytesWasted sp) (sp_StopAfterDownload sp) (sp_AddedAt sp) (sp_DataDir sp) of
          None \<Rightarrow> Inl ErrTorrent
        | Some t \<Rightarrow> Inr (t, sp_Started sp))"

definition read_torrent :: "'s bolt \<Rightarrow> 't session_env \<Rightarrow> 's \<Rightarrow> string \<Rightarrow> session_error + 't session_torrent \<times> bool" where
  "read_torrent bo se db tid =
     (case tr_Read bo (se_time se) (se_User se) ''torrents'' tid db of Inl e \<Rightarrow> Inl (ErrResume e) | Inr sp \<Rightarrow> load_spec se sp)"

definition loadExistingTorrent ::
  "'s bolt \<Rightarrow> 't session_env \<Rightarrow> choices \<Rightarrow> string \<Rightarrow> ('t, 's) session \<Rightarrow> ((session_error + bool) \<times> ('t, 's) session) option" where
  "loadExistingTorrent bo se ch tid s =
     (case read_torrent bo se (ses_db s) tid of
        Inl e \<Rightarrow> Some (Inl e, s)
      | Inr (t, st) \<Rightarrow> map_option (\<lambda>s. (Inr st, s)) (insertTorrent bo se ch tid t s))"

text \<open>The started torrents are started again when the configuration says so.\<close>

fun load_loop ::
  "'s bolt \<Rightarrow> 't session_env \<Rightarrow> choices list \<Rightarrow> string list \<Rightarrow> ('t, 's) session \<Rightarrow> string list \<Rightarrow> (string list \<times> ('t, 's) session) option" where
  "load_loop bo se chs [] s started = Some (started, s)"
| "load_loop bo se chs (tid # ids) s started = do {
     (r, s) \<leftarrow> loadExistingTorrent bo se (case chs of [] \<Rightarrow> [] | c # _ \<Rightarrow> c) tid s;
     load_loop bo se (tl chs) ids s (case r of Inr True \<Rightarrow> started @ [tid] | _ \<Rightarrow> started)
   }"

definition loadExistingTorrents ::
  "'s bolt \<Rightarrow> 't session_env \<Rightarrow> choices list \<Rightarrow> string list \<Rightarrow> ('t, 's) session \<Rightarrow> (string list \<times> ('t, 's) session) option" where
  "loadExistingTorrents bo se chs ids s =
     map_option (\<lambda>(started, s). (if se_ResumeOnStartup se then started else [], s)) (load_loop bo se chs ids s [])"

text \<open>
  \<open>NewSession\<close> on a database: the two resumers, the specification, the user's key and the torrents.  \<open>key\<close>
  is the key that is generated when none is saved; a saved one is taken to be readable.
\<close>

definition getCurrentUserKey :: "'s bolt \<Rightarrow> 't session_env \<Rightarrow> byte list \<Rightarrow> ('t, 's) session \<Rightarrow> ('t, 's) session option" where
  "getCurrentUserKey bo se key s =
     (case ss_UserPrivk (ses_spec s) of
        Some (_ # _) \<Rightarrow> Some s
      | _ \<Rightarrow>
        let sp = (ses_spec s)\<lparr>ss_UserPrivk := Some key\<rparr> in
        map_option (\<lambda>db. s\<lparr>ses_spec := sp, ses_db := db\<rparr>) (sr_Write bo (se_User se) ''session'' sp (ses_db s)))"

definition NewSession ::
  "'s bolt \<Rightarrow> 't session_env \<Rightarrow> byte list \<Rightarrow> choices list \<Rightarrow> 's \<Rightarrow> (session_error + string list \<times> ('t, 's) session) option" where
  "NewSession bo se key chs db =
     (if se_User se = [] then Some (Inl ErrNoUser)
      else case NewTorrentResumer bo ''session'' (se_User se) db of
        Inl e \<Rightarrow> Some (Inl (ErrResume e))
      | Inr db \<Rightarrow>
        (case NewTorrentResumer bo ''torrents'' (se_User se) db of
           Inl e \<Rightarrow> Some (Inl (ErrResume e))
         | Inr db \<Rightarrow> do {
             (sp, _) \<leftarrow> sr_Read bo (se_User se) ''session'' db;
             s \<leftarrow> getCurrentUserKey bo se key \<lparr>ses_torrents = Some [], ses_spec = sp, ses_db = db\<rparr>;
             (started, s) \<leftarrow> loadExistingTorrents bo se chs (ss_TorrentIds sp) s;
             Some (Inr (started, s))
           }))"

text \<open>\<open>Close\<close> and \<open>RemoveData\<close>; the torrents are closed by their own event loops.\<close>

definition CloseSession :: "('t, 's) session \<Rightarrow> ('t, 's) session" where
  "CloseSession s = s\<lparr>ses_torrents := None\<rparr>"

definition RemoveData :: "'s bolt \<Rightarrow> 't session_env \<Rightarrow> ('t, 's) session \<Rightarrow> ('t, 's) session option" where
  "RemoveData bo se s = do {
     let s = (CloseSession s)\<lparr>ses_torrents := Some []\<rparr>;
     db \<leftarrow> tr_Del bo (se_User se) ''session'' (ses_db s);
     db \<leftarrow> tr_Del bo (se_User se) ''torrents'' db;
     Some (s\<lparr>ses_db := db\<rparr>)
   }"

section \<open>Names and buckets\<close>

lemma hex_digit_ascii: "n < 16 \<Longrightarrow> (of_char (hex_digit n) :: nat) < 128"
proof -
  have "\<forall>n\<in>{..<16}. (of_char (hex_digit n) :: nat) < 128" by code_simp
  then show "n < 16 \<Longrightarrow> (of_char (hex_digit n) :: nat) < 128" by blast
qed

lemma hex_id: "ascii (EncodeToString b)" "length (EncodeToString b) = 2 * length b"
proof -
  have "unat x < 256" for x :: byte using unsigned_less [of x] by simp
  then have "unat x div 16 < 16" "unat x mod 16 < 16" for x :: byte by (simp_all add: less_mult_imp_div_less)
  then show "ascii (EncodeToString b)" by (auto simp: ascii_def EncodeToString_def hex_digit_ascii)
  show "length (EncodeToString b) = 2 * length b" by (induction b) (simp_all add: EncodeToString_def)
qed

definition id_ok :: "string \<Rightarrow> bool" where
  "id_ok tid \<longleftrightarrow> ascii tid \<and> length tid = 40"

lemma length_json_ascii: "ascii s \<Longrightarrow> length (json_body s) \<le> 6 * length s"
proof (induction s)
  case (Cons c s)
  then have "(of_char c :: nat) < 128" "length (json_body s) \<le> 6 * length s" by (simp_all add: ascii_def)
  moreover from this have "json_body (c # s) = escape_char c @ json_body s" by (subst json_body.simps) simp
  moreover have "length (escape_char c) \<le> 6" by (simp add: escape_char_def Let_def)
  ultimately show ?case by simp
qed (subst json_body.simps, simp)

lemma length_json_ids: "\<forall>i\<in>set ids. id_ok i \<Longrightarrow> length (json_elems ids) \<le> 243 * length ids"
proof (induction ids rule: json_elems.induct)
  case (2 s)
  then show ?case using length_json_ascii [of s] by (simp add: json_string_def id_ok_def)
next
  case (3 s t ss)
  then show ?case using length_json_ascii [of s] by (simp add: json_string_def id_ok_def)
qed simp

text \<open>Two states of the database that differ only in what the session itself keeps.\<close>

definition same_torrents :: "'s bolt \<Rightarrow> 't session_env \<Rightarrow> 's \<Rightarrow> 's \<Rightarrow> bool" where
  "same_torrents bo se db db' \<longleftrightarrow> (\<forall>q. bo_has bo db' q = bo_has bo db q) \<and>
     (\<forall>q. q \<noteq> [se_User se, ''session''] \<longrightarrow> bo_get bo db' q = bo_get bo db q)"

lemma same_torrents_read: "same_torrents bo se db db' \<Longrightarrow> read_torrent bo se db' tid = read_torrent bo se db tid"
  by (simp add: same_torrents_def read_torrent_def tr_Read_def bucket_of_def)

lemma same_torrents_trans: "same_torrents bo se a b \<Longrightarrow> same_torrents bo se b c \<Longrightarrow> same_torrents bo se a c"
  by (simp add: same_torrents_def)

definition buckets :: "'s bolt \<Rightarrow> 't session_env \<Rightarrow> 's \<Rightarrow> bool" where
  "buckets bo se db \<longleftrightarrow> bo_has bo db [se_User se] \<and> bo_has bo db [se_User se, ''session''] \<and> bo_has bo db [se_User se, ''torrents'']"

text \<open>The identities that the database lists.\<close>

definition saved_ids :: "'s bolt \<Rightarrow> 't session_env \<Rightarrow> 's \<Rightarrow> string list" where
  "saved_ids bo se db = (case sr_Read bo (se_User se) ''session'' db of None \<Rightarrow> [] | Some (sp, _) \<Rightarrow> ss_TorrentIds sp)"

lemma WriteTorrentIds_ok:
  assumes bo: "bolt_ok bo" and b: "buckets bo se db" and ids: "\<forall>i\<in>set ids. id_ok i" "length ids \<le> 1000000"
    and key: "bo_get bo db [se_User se, ''session''] ''user_privk'' \<noteq> None"
  shows "\<exists>db'. sr_WriteTorrentIds bo (se_User se) ''session'' ids db = Some db' \<and> same_torrents bo se db db' \<and>
    buckets bo se db' \<and> saved_ids bo se db' = ids \<and>
    bo_get bo db' [se_User se, ''session''] ''user_privk'' = bo_get bo db [se_User se, ''session''] ''user_privk''"
proof -
  let ?p = "[se_User se, ''session'']" and ?v = "to_bytes (json_Marshal (Some ids))"
  let ?db = "bo_put bo ?p ''torrentIds'' ?v db"
  have "length ?v < 2147483647" using length_json_ids [OF ids(1)] ids(2) by (simp add: json_Marshal_def)
  then have g: "bo_get bo ?db ?p ''torrentIds'' = Some ?v" using bolt_put(1) [OF bo, of db ?p "''torrentIds''" ?v] b by (simp add: buckets_def)
  have j: "json_Unmarshal (json_Marshal (Some ids)) = Some (Some ids)"
    using ids(1) by (intro json_roundtrip) (simp add: id_ok_def)
  have k: "bo_get bo ?db ?p ''user_privk'' = bo_get bo db ?p ''user_privk''" by (rule bolt_put(3) [OF bo]) simp
  have h: "bo_has bo ?db q = bo_has bo db q" for q by (rule bolt_put(4) [OF bo])
  have "saved_ids bo se ?db = ids"
    using key g j k h b by (auto simp: saved_ids_def sr_Read_def buckets_def Let_def)
  moreover have "same_torrents bo se db ?db" using h bolt_put(2) [OF bo] by (auto simp: same_torrents_def fun_eq_iff)
  ultimately show ?thesis using b h k by (simp add: sr_WriteTorrentIds_def bucket_of_def buckets_def)
qed

text \<open>The state of a session that can be saved: at most a million torrents under their hashes.\<close>

definition running :: "'s bolt \<Rightarrow> 't session_env \<Rightarrow> ('t, 's) session \<Rightarrow> (string \<times> 't session_torrent) list \<Rightarrow> bool" where
  "running bo se s ts \<longleftrightarrow> ses_torrents s = Some ts \<and> distinct (map fst ts) \<and> (\<forall>i\<in>fst ` set ts. id_ok i) \<and>
     buckets bo se (ses_db s) \<and> bo_get bo (ses_db s) [se_User se, ''session''] ''user_privk'' \<noteq> None"

lemma insertTorrent_ok:
  assumes bo: "bolt_ok bo" and s: "running bo se s ts" and i: "id_ok tid" and n: "length ts < 1000000"
  shows "\<exists>s'. insertTorrent bo se ch tid t s = Some s' \<and> running bo se s' (AList.update tid t ts) \<and>
    same_torrents bo se (ses_db s) (ses_db s') \<and> mset (saved_ids bo se (ses_db s')) = mset (map fst (AList.update tid t ts)) \<and>
    bo_get bo (ses_db s') [se_User se, ''session''] ''user_privk'' = bo_get bo (ses_db s) [se_User se, ''session''] ''user_privk''"
proof -
  let ?ts = "AList.update tid t ts" and ?keys = "fst (shuffle ch (map fst (AList.update tid t ts)))"
  have k: "set ?keys = insert tid (fst ` set ts)" by (simp add: dom_update)
  have l: "length ?ts \<le> Suc (length ts)" by (induction ts) auto
  have ids: "\<forall>i\<in>set ?keys. id_ok i" using s i unfolding k by (simp add: running_def)
  have "length ?keys \<le> 1000000" using l n by simp
  from WriteTorrentIds_ok [OF bo _ ids this] s obtain db where
    db: "sr_WriteTorrentIds bo (se_User se) ''session'' ?keys (ses_db s) = Some db" "same_torrents bo se (ses_db s) db"
      "buckets bo se db" "saved_ids bo se db = ?keys"
      "bo_get bo db [se_User se, ''session''] ''user_privk'' = bo_get bo (ses_db s) [se_User se, ''session''] ''user_privk''"
    unfolding running_def by blast
  let ?s = "s\<lparr>ses_torrents := Some ?ts, ses_spec := (ses_spec s)\<lparr>ss_TorrentIds := ?keys\<rparr>, ses_db := db\<rparr>"
  have "insertTorrent bo se ch tid t s = Some ?s" using db(1) s by (simp add: insertTorrent_def running_def Let_def)
  moreover have "running bo se ?s ?ts" using s i db(3,5) by (auto simp: running_def dom_update distinct_update)
  moreover have "mset ?keys = mset (map fst ?ts)" by (rule mset_shuffle)
  ultimately show ?thesis using db(2,4,5) by auto
qed

section \<open>What is saved is loaded\<close>

text \<open>A bitfield is determined by its length and its set, so it survives its bytes.\<close>

lemma bitfield_ext:
  assumes a: "bf_ok a" and b: "bf_ok b" and len: "Len a = Len b" and set: "bf_set a = bf_set b"
  shows "a = b"
proof -
  have l: "bf_length a = bf_length b" using len by (simp add: Len_def)
  have bits: "bit_at (bytes a) i \<longleftrightarrow> bit_at (bytes b) i" if "i < 8 * NumBytes (bf_length b)" for i
  proof (cases "i < unat (bf_length b)")
    case True
    then show ?thesis using set l by (auto simp: bf_set_def)
  next
    case False
    then show ?thesis using a b l that by (simp add: bf_ok_def)
  qed
  have "bytes a = bytes b"
  proof (rule nth_equalityI)
    show "length (bytes a) = length (bytes b)" using a b l by (simp add: bf_ok_def)
    fix k assume "k < length (bytes a)"
    then have k: "k < NumBytes (bf_length b)" using a l by (simp add: bf_ok_def)
    show "bytes a ! k = bytes b ! k"
    proof (rule bit_word_eqI)
      fix n assume n: "n < LENGTH(8)"
      have "(8 * k + m) div 8 = k \<and> (8 * k + m) mod 8 = m" if "m < 8" for m using that by simp
      from this [of "7 - n"] have "(8 * k + (7 - n)) div 8 = k" "(8 * k + (7 - n)) mod 8 = 7 - n" by simp_all
      then show "bit (bytes a ! k) n \<longleftrightarrow> bit (bytes b ! k) n"
        using bits [of "8 * k + (7 - n)"] k n by (simp add: bit_at_def)
    qed
  qed
  then show ?thesis using l by simp
qed

lemma NewBytes_bytes: "bf_ok b \<Longrightarrow> NewBytes (bytes b) (bf_length b) = Inr b"
proof -
  assume b: "bf_ok b"
  then have l: "length (bytes b) = NumBytes (bf_length b)" by (simp add: bf_ok_def)
  have "NumBytes (bf_length b) < 4294967296" using unat_u32_less [of "bf_length b"] by (simp add: NumBytes_eq)
  then obtain f where f: "NewBytes (bytes b) (bf_length b) = Inr f" "bf_ok f" "Len f = bf_length b"
    "bf_set f = {i. i < unat (bf_length b) \<and> bit_at (bytes b) i}"
    using NewBytes_eq [OF _ l] l by auto
  then have "f = b" using bitfield_ext [OF f(2) b] by (simp add: Len_def bf_set_def)
  then show ?thesis using f(1) by simp
qed

lemma set_bits_put_list: "set_bits is = bf.put_list is"
  by (induction "is") (rule ext, simp)+

lemma set_bits_all: "\<exists>b. set_bits (u32_upto n) (New n) = Some b \<and> bf_ok b \<and> bf_length b = n \<and> All b"
  using bf.put_all_full [of n] by (auto simp: set_bits_put_list Len_def)

text \<open>What is lost of a torrent: the flag to stop after the download, and the part of a second of its time.\<close>

definition forget :: "'t session_torrent \<Rightarrow> 't session_torrent" where
  "forget t = t\<lparr>st_torrent := (st_torrent t)\<lparr>stopAfterDownload := False\<rparr>, st_addedAt := to_second (st_addedAt t)\<rparr>"

lemma make_torrent_forget:
  "make_torrent se ih nm info bf stats sa at dd = Some t \<Longrightarrow>
    make_torrent se ih nm info bf stats False (to_second at) dd = Some (forget t)"
  by (auto simp: make_torrent_def newTorrent2_def forget_def split: if_splits)

lemma make_torrent_hash: "make_torrent se ih nm info bf stats sa at dd \<noteq> None \<longleftrightarrow> length ih = 20"
  by (simp add: make_torrent_def newTorrent2_def)

text \<open>Loading a list of identities: the torrents that load are in the session, and the list on disk is theirs.\<close>

definition loads :: "'s bolt \<Rightarrow> 't session_env \<Rightarrow> 's \<Rightarrow> string \<Rightarrow> bool" where
  "loads bo se db tid \<longleftrightarrow> (case read_torrent bo se db tid of Inl _ \<Rightarrow> False | Inr _ \<Rightarrow> True)"

definition was_started :: "'s bolt \<Rightarrow> 't session_env \<Rightarrow> 's \<Rightarrow> string \<Rightarrow> bool" where
  "was_started bo se db tid \<longleftrightarrow> (case read_torrent bo se db tid of Inl _ \<Rightarrow> False | Inr (_, st) \<Rightarrow> st)"

lemma load_loop_spec:
  assumes "bolt_ok bo" and "running bo se s ts" and "\<forall>i\<in>set ids. id_ok i" and "length ts + length ids \<le> 1000000"
  shows "\<exists>s' ts'. load_loop bo se chs ids s started = Some (started @ filter (was_started bo se (ses_db s)) ids, s') \<and>
    running bo se s' ts' \<and> length ts' \<le> length ts + length ids \<and> same_torrents bo se (ses_db s) (ses_db s') \<and>
    (\<forall>i. map_of ts' i = (case read_torrent bo se (ses_db s) i of
       Inl _ \<Rightarrow> map_of ts i | Inr (t, _) \<Rightarrow> if i \<in> set ids then Some t else map_of ts i)) \<and>
    (if filter (loads bo se (ses_db s)) ids = [] then saved_ids bo se (ses_db s') = saved_ids bo se (ses_db s)
     else mset (saved_ids bo se (ses_db s')) = mset (map fst ts')) \<and>
    bo_get bo (ses_db s') [se_User se, ''session''] ''user_privk'' = bo_get bo (ses_db s) [se_User se, ''session''] ''user_privk''"
  using assms(2-)
proof (induction ids arbitrary: s ts chs started)
  case Nil
  then show ?case by (force simp: same_torrents_def split: sum.split)
next
  case (Cons i ids)
  let ?ch = "case chs of [] \<Rightarrow> [] | c # _ \<Rightarrow> c"
  show ?case
  proof (cases "read_torrent bo se (ses_db s) i")
    case (Inl e)
    then have "loadExistingTorrent bo se ?ch i s = Some (Inl e, s)" by (simp add: loadExistingTorrent_def)
    moreover obtain s' ts' where IH: "load_loop bo se (tl chs) ids s started = Some (started @ filter (was_started bo se (ses_db s)) ids, s')"
      "running bo se s' ts'" "length ts' \<le> length ts + length ids" "same_torrents bo se (ses_db s) (ses_db s')"
      "\<forall>j. map_of ts' j = (case read_torrent bo se (ses_db s) j of
         Inl _ \<Rightarrow> map_of ts j | Inr (t, _) \<Rightarrow> if j \<in> set ids then Some t else map_of ts j)"
      "if filter (loads bo se (ses_db s)) ids = [] then saved_ids bo se (ses_db s') = saved_ids bo se (ses_db s)
       else mset (saved_ids bo se (ses_db s')) = mset (map fst ts')"
      "bo_get bo (ses_db s') [se_User se, ''session''] ''user_privk'' = bo_get bo (ses_db s) [se_User se, ''session''] ''user_privk''"
      using Cons.IH [of s ts "tl chs" started] Cons.prems by auto
    moreover have "\<not> was_started bo se (ses_db s) i" "\<not> loads bo se (ses_db s) i" using Inl by (simp_all add: was_started_def loads_def)
    moreover have "\<forall>j. map_of ts' j = (case read_torrent bo se (ses_db s) j of
         Inl _ \<Rightarrow> map_of ts j | Inr (t', _) \<Rightarrow> if j \<in> set (i # ids) then Some t' else map_of ts j)"
      using IH(5) Inl by (auto split: sum.splits)
    ultimately show ?thesis by (intro exI [of _ s'] exI [of _ ts'] conjI) simp_all
  next
    case (Inr r)
    obtain t st where r: "r = (t, st)" by fastforce
    obtain s1 where s1: "insertTorrent bo se ?ch i t s = Some s1" "running bo se s1 (AList.update i t ts)"
      "same_torrents bo se (ses_db s) (ses_db s1)" "mset (saved_ids bo se (ses_db s1)) = mset (map fst (AList.update i t ts))"
      "bo_get bo (ses_db s1) [se_User se, ''session''] ''user_privk'' = bo_get bo (ses_db s) [se_User se, ''session''] ''user_privk''"
      using insertTorrent_ok [OF assms(1) Cons.prems(1), of i ?ch t] Cons.prems(2,3) by fastforce
    have L: "loadExistingTorrent bo se ?ch i s = Some (Inr st, s1)" using Inr r s1(1) by (simp add: loadExistingTorrent_def)
    have l: "length (AList.update i t ts) \<le> Suc (length ts)" by (induction ts) auto
    have same: "read_torrent bo se (ses_db s1) = read_torrent bo se (ses_db s)"
      using same_torrents_read [OF s1(3)] by (simp add: fun_eq_iff)
    then have ws: "was_started bo se (ses_db s1) = was_started bo se (ses_db s)" "loads bo se (ses_db s1) = loads bo se (ses_db s)"
      by (simp_all add: was_started_def loads_def fun_eq_iff)
    let ?started = "if st then started @ [i] else started"
    obtain s' ts' where IH: "load_loop bo se (tl chs) ids s1 ?started = Some (?started @ filter (was_started bo se (ses_db s)) ids, s')"
      "running bo se s' ts'" "length ts' \<le> length (AList.update i t ts) + length ids" "same_torrents bo se (ses_db s1) (ses_db s')"
      "\<forall>j. map_of ts' j = (case read_torrent bo se (ses_db s) j of
         Inl _ \<Rightarrow> map_of (AList.update i t ts) j | Inr (t', _) \<Rightarrow> if j \<in> set ids then Some t' else map_of (AList.update i t ts) j)"
      "if filter (loads bo se (ses_db s)) ids = [] then saved_ids bo se (ses_db s') = saved_ids bo se (ses_db s1)
       else mset (saved_ids bo se (ses_db s')) = mset (map fst ts')"
      "bo_get bo (ses_db s') [se_User se, ''session''] ''user_privk'' = bo_get bo (ses_db s1) [se_User se, ''session''] ''user_privk''"
      using Cons.IH [OF s1(2), of "tl chs" ?started] Cons.prems(2,3) l unfolding ws same by auto
    have m: "\<forall>j. map_of ts' j = (case read_torrent bo se (ses_db s) j of
         Inl _ \<Rightarrow> map_of ts j | Inr (t', _) \<Rightarrow> if j \<in> set (i # ids) then Some t' else map_of ts j)"
      using IH(5) Inr r by (auto simp: update_conv' split: sum.splits)
    have sv: "mset (saved_ids bo se (ses_db s')) = mset (map fst ts')"
    proof (cases "filter (loads bo se (ses_db s)) ids = []")
      case True
      have "map_of ts' = map_of (AList.update i t ts)"
        using IH(5) True by (auto simp: fun_eq_iff loads_def filter_empty_conv split: sum.splits)
      then have "fst ` set ts' = fst ` set (AList.update i t ts)" by (metis dom_map_of_conv_image_fst)
      moreover have "distinct (map fst ts')" "distinct (map fst (AList.update i t ts))"
        using IH(2) s1(2) by (simp_all add: running_def)
      ultimately have "mset (map fst ts') = mset (map fst (AList.update i t ts))"
        by (metis list.set_map set_eq_iff_mset_eq_distinct)
      then show ?thesis using True IH(6) s1(4) by simp
    next
      case False
      then show ?thesis using IH(6) by simp
    qed
    have "load_loop bo se chs (i # ids) s started = Some (started @ filter (was_started bo se (ses_db s)) (i # ids), s')"
      using L IH(1) Inr r by (simp add: was_started_def split: if_splits)
    moreover have "length ts' \<le> length ts + length (i # ids)" using IH(3) l by simp
    moreover have "loads bo se (ses_db s) i" using Inr by (simp add: loads_def)
    ultimately show ?thesis
      using IH(2,7) m sv s1(5) same_torrents_trans [OF s1(3) IH(4)]
      by (intro exI [of _ s'] exI [of _ ts'] conjI) auto
  qed
qed

section \<open>A session over its life\<close>

text \<open>
  What the user does, with the write of a torrent's event loop when it starts (\<open>filechain/torrent_start.go\<close>).
  The set collects the torrents that have started.
\<close>

datatype session_op =
    Adding string AddTorrentOptions int choices
  | Creating path_arg string int choices
  | Starting string

definition start_torrent ::
  "'s bolt \<Rightarrow> 't session_env \<Rightarrow> string \<Rightarrow> ('t, 's) session \<times> string set \<Rightarrow> (('t, 's) session \<times> string set) option" where
  "start_torrent bo se tid p =
     map_option (\<lambda>db. ((fst p)\<lparr>ses_db := db\<rparr>, insert tid (snd p))) (WriteStarted bo (se_User se) ''torrents'' tid True (ses_db (fst p)))"

definition after ::
  "'s bolt \<Rightarrow> 't session_env \<Rightarrow> string set \<Rightarrow> ((session_error + string \<times> bool) \<times> ('t, 's) session) option \<Rightarrow> (('t, 's) session \<times> string set) option" where
  "after bo se S r = (case r of None \<Rightarrow> None
     | Some (Inr (tid, True), s) \<Rightarrow> start_torrent bo se tid (s, S)
     | Some (_, s) \<Rightarrow> Some (s, S))"

fun perform :: "'s bolt \<Rightarrow> 't session_env \<Rightarrow> session_op \<Rightarrow> ('t, 's) session \<times> string set \<Rightarrow> (('t, 's) session \<times> string set) option" where
  "perform bo se (Adding uri opt time ch) (s, S) = after bo se S (AddFileId bo se uri opt time ch s)"
| "perform bo se (Creating pa parent time ch) (s, S) = after bo se S (CreateFile bo se pa parent time ch s)"
| "perform bo se (Starting tid) (s, S) = (if existTorrent tid s = None then Some (s, S) else start_torrent bo se tid (s, S))"

fun performs :: "'s bolt \<Rightarrow> 't session_env \<Rightarrow> session_op list \<Rightarrow> ('t, 's) session \<times> string set \<Rightarrow> (('t, 's) session \<times> string set) option" where
  "performs bo se [] p = Some p"
| "performs bo se (op # ops) p = Option.bind (perform bo se op p) (performs bo se ops)"

text \<open>Names and paths of a usual size, a time before the year 10000, and a created torrent that the session would load.\<close>

definition entry_ok :: "string \<Rightarrow> int \<Rightarrow> string \<Rightarrow> bool" where
  "entry_ok nm time dataDir \<longleftrightarrow> length nm < 2147483647 \<and> 0 \<le> time \<and> time < 253402300800 * 1000000000 \<and>
     dataDir \<noteq> [] \<and> length dataDir < 2147483647"

fun op_ok :: "'t session_env \<Rightarrow> session_op \<Rightarrow> bool" where
  "op_ok se (Adding uri opt time ch) \<longleftrightarrow>
     (case NewMagnet (se_hier_ok se) (se_multihash se) ch (filterOutControlChars uri) of Inl _ \<Rightarrow> True
      | Inr ma \<Rightarrow> entry_ok (ma_Name ma) time (if ao_DataDir opt = [] then se_DataDir se else ao_DataDir opt))"
| "op_ok se (Creating pa parent time ch) \<longleftrightarrow>
     (case NewInfoBytes (sha1 (se_env se)) [] [pa] False 0 [] of Inl _ \<Rightarrow> True
      | Inr cd \<Rightarrow> se_encode se cd \<noteq> [] \<and> length (se_encode se cd) < 2147483647 \<and>
          (case NewInfo (decode_info (se_env se)) (sha1 (se_env se)) (se_encode se cd) of Inl _ \<Rightarrow> True
           | Inr i \<Rightarrow> entry_ok (Name i) time parent \<and> 0 < NumPieces i \<and> NumPieces i \<le> MaxPieces (se_env se)))"
| "op_ok se (Starting tid) \<longleftrightarrow> True"

text \<open>No name of a bucket is taken by a value.\<close>

definition tidy :: "'s bolt \<Rightarrow> 't session_env \<Rightarrow> 's \<Rightarrow> bool" where
  "tidy bo se db \<longleftrightarrow> bo_get bo db [] (se_User se) = None \<and> bo_get bo db [se_User se] ''session'' = None \<and>
     bo_get bo db [se_User se] ''torrents'' = None \<and> (\<forall>k. bo_get bo db [se_User se, ''torrents''] k = None)"

text \<open>The invariant of a session: every torrent of it would be loaded from its database.\<close>

definition kept :: "'s bolt \<Rightarrow> 't session_env \<Rightarrow> ('t, 's) session \<Rightarrow> (string \<times> 't session_torrent) list \<Rightarrow> string set \<Rightarrow> byte list \<Rightarrow> bool" where
  "kept bo se s ts S key \<longleftrightarrow> running bo se s ts \<and> tidy bo se (ses_db s) \<and>
     mset (saved_ids bo se (ses_db s)) = mset (map fst ts) \<and>
     bo_get bo (ses_db s) [se_User se, ''session''] ''user_privk'' = Some key \<and> key \<noteq> [] \<and> S \<subseteq> fst ` set ts \<and>
     (\<forall>(i, t)\<in>set ts. read_torrent bo se (ses_db s) i = Inr (forget t, i \<in> S))"

lemma kept_insert:
  assumes bo: "bolt_ok bo" and tf: "time_ok (se_time se)" and k: "kept bo se s ts S key" and n: "length ts < 1000000"
    and sp: "spec_ok sp" and i: "id_ok tid" "tid \<notin> fst ` set ts" and ld: "load_spec se (saved sp) = Inr (forget t, False)"
  shows "\<exists>db s'. tr_Write bo (se_time se) (se_User se) ''torrents'' tid sp (ses_db s) = Some (None, db) \<and>
    insertTorrent bo se ch tid t (s\<lparr>ses_db := db\<rparr>) = Some s' \<and> kept bo se s' (AList.update tid t ts) S key"
proof -
  let ?u = "se_User se" and ?ts = "AList.update tid t ts"
  note r = k [unfolded kept_def running_def buckets_def tidy_def]
  have "tid \<noteq> []" "length tid \<le> 32768" using i(1) by (auto simp: id_ok_def)
  then have w: "writable bo ?u ''torrents'' tid (ses_db s)" using r by (simp add: writable_def)
  obtain db where db: "tr_Write bo (se_time se) ?u ''torrents'' tid sp (ses_db s) = Some (None, db)"
    "\<And>q. bo_has bo db q \<longleftrightarrow> q = [?u, ''torrents'', tid] \<or> bo_has bo (ses_db s) q"
    "\<And>q l. q \<noteq> [?u, ''torrents'', tid] \<Longrightarrow> bo_get bo db q l = bo_get bo (ses_db s) q l"
    "\<forall>(k, v)\<in>set (spec_values (se_time se) sp). bo_get bo db [?u, ''torrents'', tid] k = Some v"
    using Write_puts [OF bo tf sp w] by blast
  have run: "running bo se (s\<lparr>ses_db := db\<rparr>) ts" using r db(2,3) by (simp add: running_def buckets_def)
  obtain s' where s': "insertTorrent bo se ch tid t (s\<lparr>ses_db := db\<rparr>) = Some s'" "running bo se s' ?ts"
    "same_torrents bo se db (ses_db s')" "mset (saved_ids bo se (ses_db s')) = mset (map fst ?ts)"
    "bo_get bo (ses_db s') [?u, ''session''] ''user_privk'' = bo_get bo db [?u, ''session''] ''user_privk''"
    using insertTorrent_ok [OF bo run i(1) n, of ch t] by auto
  have new: "read_torrent bo se db tid = Inr (forget t, False)"
    using read_spec_values [OF tf sp db(4)] r ld db(2) by (simp add: read_torrent_def tr_Read_def bucket_of_def)
  have old: "read_torrent bo se db j = read_torrent bo se (ses_db s) j" if "j \<noteq> tid" for j
  proof -
    have "bo_get bo db [?u, ''torrents'', j] = bo_get bo (ses_db s) [?u, ''torrents'', j]" using db(3) that by (simp add: fun_eq_iff)
    then show ?thesis using that by (simp add: read_torrent_def tr_Read_def bucket_of_def db(2))
  qed
  have "tidy bo se (ses_db s')" using r s'(3) db(3) by (simp add: tidy_def same_torrents_def)
  moreover have "tid \<notin> S" using r i(2) by auto
  moreover have ts: "?ts = ts @ [(tid, t)]" using i(2) by (induction ts) auto
  moreover have "read_torrent bo se (ses_db s') j = Inr (forget t', j \<in> S)" if "(j, t') \<in> set ts" for j t'
    using that r old [of j] i(2) same_torrents_read [OF s'(3), of j] by force
  ultimately have "kept bo se s' ?ts S key"
    using s'(2,4,5) r db(3) new same_torrents_read [OF s'(3), of tid] by (auto simp: kept_def)
  then show ?thesis using db(1) s'(1) by blast
qed

text \<open>The two operations that add, and the start of a torrent.\<close>

lemma addMagnet_kept:
  assumes bo: "bolt_ok bo" and tf: "time_ok (se_time se)" and k: "kept bo se s ts S key" and n: "length ts < 1000000"
    and h: "length (ma_InfoHash ma) = 20" and ok: "entry_ok (ma_Name ma) time (if ao_DataDir opt = [] then se_DataDir se else ao_DataDir opt)"
  shows "\<exists>r s' ts'. addMagnet bo se ma opt time ch s = Some (r, s') \<and> kept bo se s' ts' S key \<and> length ts' \<le> Suc (length ts) \<and>
    (case r of Inr (tid, True) \<Rightarrow> existTorrent tid s' \<noteq> None | _ \<Rightarrow> True)"
proof -
  let ?tid = "EncodeToString (ma_InfoHash ma)" and ?dd = "if ao_DataDir opt = [] then se_DataDir se else ao_DataDir opt"
  have T: "ses_torrents s = Some ts" using k by (simp add: kept_def running_def)
  show ?thesis
  proof (cases "existTorrent ?tid s")
    case (Some t)
    then show ?thesis using k by (intro exI [of _ "Inr (?tid, False)"] exI [of _ s] exI [of _ ts]) (simp add: addMagnet_def Let_def)
  next
    case None
    then have new: "?tid \<notin> fst ` set ts" using T by (simp add: existTorrent_def map_of_eq_None_iff)
    let ?make = "\<lambda>sa at. make_torrent se (ma_InfoHash ma) (ma_Name ma) None None (0, 0, 0) sa at ?dd"
    obtain t where t: "?make (ao_StopAfterDownload opt) time = Some t"
      using h make_torrent_hash [of se "ma_InfoHash ma"] by fastforce
    let ?sp = "\<lparr>sp_InfoHash = ma_InfoHash ma, sp_Name = ma_Name ma, sp_FixedPeers = Some [], sp_Info = [], sp_Bitfield = [],
       sp_AddedAt = time, sp_BytesDownloaded = 0, sp_BytesUploaded = 0, sp_BytesWasted = 0, sp_SeededFor = 0,
       sp_Started = False, sp_StopAfterDownload = ao_StopAfterDownload opt, sp_DataDir = ?dd\<rparr>"
    have "spec_ok ?sp" using h ok by (simp add: spec_ok_def entry_ok_def json_Marshal_def)
    moreover have "load_spec se (saved ?sp) = Inr (forget t, False)"
      using make_torrent_forget [OF t] h ok by (auto simp: load_spec_def saved_def entry_ok_def)
    moreover have "id_ok ?tid" using h by (simp add: id_ok_def hex_id)
    ultimately obtain db s' where w: "tr_Write bo (se_time se) (se_User se) ''torrents'' ?tid ?sp (ses_db s) = Some (None, db)"
      "insertTorrent bo se ch ?tid t (s\<lparr>ses_db := db\<rparr>) = Some s'" "kept bo se s' (AList.update ?tid t ts) S key"
      using kept_insert [OF bo tf k n _ _ new, of ?sp t ch] by blast
    have "addMagnet bo se ma opt time ch s = Some (Inr (?tid, \<not> ao_Stopped opt), s')"
      using None t w(1,2) by (simp add: addMagnet_def Let_def)
    moreover have "existTorrent ?tid s' \<noteq> None"
      using w(3) by (simp add: kept_def running_def existTorrent_def update_conv')
    moreover have "length (AList.update ?tid t ts) \<le> Suc (length ts)" by (induction ts) auto
    ultimately show ?thesis using w(3) by (intro exI conjI) (auto split: bool.split)
  qed
qed

lemma Adding_kept:
  assumes bo: "bolt_ok bo" and tf: "time_ok (se_time se)" and k: "kept bo se s ts S key" and n: "length ts < 1000000"
    and ok: "op_ok se (Adding uri opt time ch)"
  shows "\<exists>r s' ts'. AddFileId bo se uri opt time ch s = Some (r, s') \<and> kept bo se s' ts' S key \<and> length ts' \<le> Suc (length ts) \<and>
    (case r of Inr (tid, True) \<Rightarrow> existTorrent tid s' \<noteq> None | _ \<Rightarrow> True)"
proof (cases "NewMagnet (se_hier_ok se) (se_multihash se) ch (filterOutControlChars uri)")
  case (Inl e)
  then show ?thesis using k by (intro exI [of _ "Inl (ErrInput e)"] exI [of _ s] exI [of _ ts]) (simp add: AddFileId_def addFileId_def)
next
  case (Inr ma)
  then show ?thesis using addMagnet_kept [OF bo tf k n NewMagnet_hash [OF Inr], of time opt ch] ok by (simp add: AddFileId_def addFileId_def)
qed

lemma Creating_kept:
  assumes bo: "bolt_ok bo" and tf: "time_ok (se_time se)" and sha: "\<forall>b. length (sha1 (se_env se) b) = 20"
    and k: "kept bo se s ts S key" and n: "length ts < 1000000"
    and ok: "op_ok se (Creating pa parent time ch)"
  shows "\<exists>r s' ts'. CreateFile bo se pa parent time ch s = Some (r, s') \<and> kept bo se s' ts' S key \<and> length ts' \<le> Suc (length ts) \<and>
    (case r of Inr (tid, True) \<Rightarrow> existTorrent tid s' \<noteq> None | _ \<Rightarrow> True)"
proof -
  let ?env = "se_env se"
  have T: "ses_torrents s = Some ts" using k by (simp add: kept_def running_def)
  show ?thesis
  proof (cases "NewInfoBytes (sha1 ?env) [] [pa] False 0 []")
    case (Inl e)
    then show ?thesis using k by (intro exI [of _ "Inl (ErrCreateFile e)"] exI [of _ s] exI [of _ ts]) (simp add: CreateFile_def Let_def)
  next
    case cd: (Inr cd)
    let ?b = "se_encode se cd"
    show ?thesis
    proof (cases "NewInfo (decode_info ?env) (sha1 ?env) ?b")
      case (Inl e)
      then show ?thesis using k cd by (intro exI [of _ "Inl (ErrInfo e)"] exI [of _ s] exI [of _ ts]) (simp add: CreateFile_def Let_def)
    next
      case i: (Inr i)
      let ?tid = "EncodeToString (Hash i)"
      have ib: "Bytes i = ?b" "Hash i = sha1 ?env ?b"
        using i by (auto simp: NewInfo_def Let_def split: option.splits if_splits)
      then have h: "length (Hash i) = 20" using sha by simp
      obtain bf where bf: "set_bits (u32_upto (NumPieces i)) (New (NumPieces i)) = Some bf" "bf_ok bf" "bf_length bf = NumPieces i"
        using set_bits_all by blast
      have o: "?b \<noteq> []" "length ?b < 2147483647" "entry_ok (Name i) time parent" "NumPieces i \<le> MaxPieces ?env" "0 < NumPieces i"
        using ok cd i by simp_all
      show ?thesis
      proof (cases "existTorrent ?tid s")
        case (Some t)
        then show ?thesis using k cd i bf
          by (intro exI [of _ "Inr (?tid, False)"] exI [of _ s] exI [of _ ts]) (simp add: CreateFile_def Let_def)
      next
        case None
        then have new: "?tid \<notin> fst ` set ts" using T by (simp add: existTorrent_def map_of_eq_None_iff)
        obtain t where t: "make_torrent se (Hash i) (Name i) (Some i) (Some bf) (0, 0, 0) False time parent = Some t"
          using h make_torrent_hash [of se "Hash i"] by fastforce
        let ?sp = "\<lparr>sp_InfoHash = Hash i, sp_Name = Name i, sp_FixedPeers = None, sp_Info = Bytes i, sp_Bitfield = bytes bf,
           sp_AddedAt = time, sp_BytesDownloaded = 0, sp_BytesUploaded = 0, sp_BytesWasted = 0, sp_SeededFor = 0,
           sp_Started = False, sp_StopAfterDownload = False, sp_DataDir = parent\<rparr>"
        have "length (bytes bf) < 2147483647"
          using bf(2) unat_u32_less [of "bf_length bf"] by (simp add: bf_ok_def NumBytes_eq)
        then have "spec_ok ?sp" using o h ib by (simp add: spec_ok_def entry_ok_def json_Marshal_def)
        moreover have "load_spec se (saved ?sp) = Inr (forget t, False)"
        proof -
          have "parseInfo (decode_info ?env) (sha1 ?env) (MaxPieces ?env) ?b = Inr i" using i o(4) by (simp add: parseInfo_def)
          moreover have "NewBytes (bytes bf) (NumPieces i) = Inr bf" using NewBytes_bytes [OF bf(2)] bf(3) by simp
          moreover have "bytes bf \<noteq> []"
            using bf(2,3) o(5) by (auto simp: bf_ok_def NumBytes_eq word_less_nat_alt)
          ultimately show ?thesis using make_torrent_forget [OF t] o h ib by (auto simp: load_spec_def saved_def entry_ok_def)
        qed
        moreover have "id_ok ?tid" using h by (simp add: id_ok_def hex_id)
        ultimately obtain db s' where w: "tr_Write bo (se_time se) (se_User se) ''torrents'' ?tid ?sp (ses_db s) = Some (None, db)"
          "insertTorrent bo se ch ?tid t (s\<lparr>ses_db := db\<rparr>) = Some s'" "kept bo se s' (AList.update ?tid t ts) S key"
          using kept_insert [OF bo tf k n _ _ new, of ?sp t ch] by blast
        have "CreateFile bo se pa parent time ch s = Some (Inr (?tid, True), s')"
          using None cd i bf t w(1,2) by (simp add: CreateFile_def Let_def)
        moreover have "existTorrent ?tid s' \<noteq> None"
          using w(3) by (simp add: kept_def running_def existTorrent_def update_conv')
        moreover have "length (AList.update ?tid t ts) \<le> Suc (length ts)" by (induction ts) auto
        ultimately show ?thesis using w(3) by (intro exI conjI) auto
      qed
    qed
  qed
qed

lemma field_keep: "field g k p d f = Inr y \<Longrightarrow> g' k = g k \<Longrightarrow> (\<And>x. f x = Inr y \<Longrightarrow> f' x = Inr y') \<Longrightarrow> field g' k p d f' = Inr y'"
  by (auto simp: field_def split: option.splits)

lemma field_put:
  "field g k p d f = Inr y \<Longrightarrow> g' k = Some v \<Longrightarrow> p v = Some z \<Longrightarrow> (\<And>x. f x = Inr y \<Longrightarrow> f' z = Inr y') \<Longrightarrow> field g' k p d f' = Inr y'"
  by (auto simp: field_def split: option.splits)

lemma read_spec_started:
  assumes "read_spec tf g = Inr sp"
  shows "read_spec tf (g(''started'' \<mapsto> to_bytes (FormatBool b))) = Inr (sp\<lparr>sp_Started := b\<rparr>)"
proof -
  obtain ih where ih: "g ''info_hash'' = Some ih" using assms by (auto simp: read_spec_def split: option.splits)
  then have ih': "(g(''started'' \<mapsto> to_bytes (FormatBool b))) ''info_hash'' = Some ih" by simp
  note a = assms [unfolded read_spec_def ih option.case]
  show ?thesis unfolding read_spec_def ih' option.case
    by (insert a, erule field_keep, simp, erule field_keep, simp, erule field_keep, simp, erule field_keep, simp, erule field_keep, simp,
        erule field_keep, simp, erule field_keep, simp, erule field_keep, simp, erule field_keep, simp, erule field_put, simp, simp add: ParseBool_FormatBool, erule field_keep, simp, auto)
qed

lemma load_spec_started: "load_spec se sp = Inr (t, st) \<Longrightarrow> load_spec se (sp\<lparr>sp_Started := b\<rparr>) = Inr (t, b)"
  by (auto simp: load_spec_def split: sum.splits option.splits if_splits)

lemma start_torrent_kept:
  assumes bo: "bolt_ok bo" and k: "kept bo se s ts S key" and i: "existTorrent tid s \<noteq> None"
  shows "\<exists>s'. start_torrent bo se tid (s, S) = Some (s', insert tid S) \<and> kept bo se s' ts (insert tid S) key"
proof -
  let ?u = "se_User se"
  note r = k [unfolded kept_def running_def buckets_def tidy_def]
  have b: "bucket_of bo ?u ''torrents'' (ses_db s) = Some [?u, ''torrents'']" using r by (simp add: bucket_of_def)
  obtain t where t: "(tid, t) \<in> set ts" using i r by (auto simp: existTorrent_def dest: map_of_SomeD)
  have rd: "read_torrent bo se (ses_db s) tid = Inr (forget t, tid \<in> S)" using r t by auto
  then have has: "bo_has bo (ses_db s) [?u, ''torrents'', tid]"
    by (auto simp: read_torrent_def tr_Read_def b split: if_splits)
  obtain db where db: "tr_write_key bo ?u ''torrents'' tid ''started'' (to_bytes (FormatBool True)) (ses_db s) = Some db"
    "bo_get bo db [?u, ''torrents'', tid] = (bo_get bo (ses_db s) [?u, ''torrents'', tid])(''started'' \<mapsto> to_bytes (FormatBool True))"
    "\<And>q. bo_has bo db q = bo_has bo (ses_db s) q"
    "\<And>q. q \<noteq> [?u, ''torrents'', tid] \<Longrightarrow> bo_get bo db q = bo_get bo (ses_db s) q"
    using write_key_Read [OF bo b has, of "''started''" "to_bytes (FormatBool True)"] by (auto simp: FormatBool_def)
  have b': "bucket_of bo ?u ''torrents'' db = Some [?u, ''torrents'']" using b db(3) by (simp add: bucket_of_def)
  obtain sp where sp: "read_spec (se_time se) (bo_get bo (ses_db s) [?u, ''torrents'', tid]) = Inr sp" "load_spec se sp = Inr (forget t, tid \<in> S)"
    using rd has by (auto simp: read_torrent_def tr_Read_def b split: sum.splits)
  have new: "read_torrent bo se db tid = Inr (forget t, True)"
    using read_spec_started [OF sp(1), of True] load_spec_started [OF sp(2), of True] has db(2,3)
    by (simp add: read_torrent_def tr_Read_def b')
  have old: "read_torrent bo se db j = read_torrent bo se (ses_db s) j" if "j \<noteq> tid" for j
    using that db(3,4) by (simp add: read_torrent_def tr_Read_def b b')
  have rs: "read_torrent bo se db j = Inr (forget t', j \<in> insert tid S)" if jt: "(j, t') \<in> set ts" for j t'
  proof (cases "j = tid")
    case True
    then have "t' = t" using jt t r by (meson eq_key_imp_eq_value)
    then show ?thesis using new True by simp
  next
    case False
    then show ?thesis using old [OF False] jt r by auto
  qed
  have g: "bo_get bo db [?u, ''session''] = bo_get bo (ses_db s) [?u, ''session'']" using db(4) by simp
  have sv: "saved_ids bo se db = saved_ids bo se (ses_db s)" unfolding saved_ids_def sr_Read_def db(3) g by (rule refl)
  have "tidy bo se db" "running bo se (s\<lparr>ses_db := db\<rparr>) ts"
    using r db(3,4) by (simp_all add: tidy_def running_def buckets_def)
  moreover have "tid \<in> fst ` set ts" using t by force
  ultimately have "kept bo se (s\<lparr>ses_db := db\<rparr>) ts (insert tid S) key"
    using r g sv rs by (auto simp: kept_def)
  then show ?thesis using db(1) by (simp add: start_torrent_def WriteStarted_def)
qed

lemma performs_kept:
  assumes bo: "bolt_ok bo" and tf: "time_ok (se_time se)" and sha: "\<forall>b. length (sha1 (se_env se) b) = 20"
  shows "\<forall>op\<in>set ops. op_ok se op \<Longrightarrow> length ts + length ops \<le> 1000000 \<Longrightarrow> kept bo se s ts S key \<Longrightarrow>
    \<exists>s' S' ts'. performs bo se ops (s, S) = Some (s', S') \<and> kept bo se s' ts' S' key \<and> length ts' \<le> length ts + length ops"
proof (induction ops arbitrary: s S ts)
  case (Cons op ops)
  have n: "length ts < 1000000" using Cons.prems(2) by simp
  have aft: "\<exists>s' S'. after bo se S (Some (r, s1)) = Some (s', S') \<and> kept bo se s' ts1 S' key"
    if "kept bo se s1 ts1 S key" "case r of Inr (tid, True) \<Rightarrow> existTorrent tid s1 \<noteq> None | _ \<Rightarrow> True" for r s1 ts1
    using that start_torrent_kept [OF bo that(1)] by (fastforce simp: after_def split: sum.splits bool.splits prod.splits)
  have "\<exists>s1 S1 ts1. perform bo se op (s, S) = Some (s1, S1) \<and> kept bo se s1 ts1 S1 key \<and> length ts1 \<le> Suc (length ts)"
  proof (cases op)
    case (Adding uri opt time ch)
    then have "op_ok se (Adding uri opt time ch)" using Cons.prems(1) by (simp del: op_ok.simps)
    then obtain r s1 ts1 where "AddFileId bo se uri opt time ch s = Some (r, s1)" "kept bo se s1 ts1 S key" "length ts1 \<le> Suc (length ts)"
      "case r of Inr (tid, True) \<Rightarrow> existTorrent tid s1 \<noteq> None | _ \<Rightarrow> True"
      using Adding_kept [OF bo tf Cons.prems(3) n] by blast
    then show ?thesis using aft [of s1 ts1 r] Adding by (auto simp del: op_ok.simps)
  next
    case (Creating pa parent time ch)
    then have "op_ok se (Creating pa parent time ch)" using Cons.prems(1) by (simp del: op_ok.simps)
    then obtain r s1 ts1 where "CreateFile bo se pa parent time ch s = Some (r, s1)" "kept bo se s1 ts1 S key" "length ts1 \<le> Suc (length ts)"
      "case r of Inr (tid, True) \<Rightarrow> existTorrent tid s1 \<noteq> None | _ \<Rightarrow> True"
      using Creating_kept [OF bo tf sha Cons.prems(3) n] by blast
    then show ?thesis using aft [of s1 ts1 r] Creating by (auto simp del: op_ok.simps)
  next
    case (Starting tid)
    then show ?thesis using start_torrent_kept [OF bo Cons.prems(3), of tid] Cons.prems(3)
      by (cases "existTorrent tid s = None") force+
  qed
  then obtain s1 S1 ts1 where p: "perform bo se op (s, S) = Some (s1, S1)" "kept bo se s1 ts1 S1 key" "length ts1 \<le> Suc (length ts)" by blast
  then show ?case using Cons.IH [OF _ _ p(2)] Cons.prems(1,2) by fastforce
qed force

text \<open>A session is started on a new database, and on the database of an earlier session.\<close>

definition user_ok :: "string \<Rightarrow> bool" where
  "user_ok user \<longleftrightarrow> user \<noteq> [] \<and> length user \<le> 32768"

lemma NewTorrentResumer_ok:
  assumes bo: "bolt_ok bo" and u: "user_ok user" "bucket \<noteq> []" "length bucket \<le> 32768"
    and g: "bo_get bo db [] user = None" "bo_get bo db [user] bucket = None"
  shows "\<exists>db'. NewTorrentResumer bo bucket user db = Inr db' \<and>
    (\<forall>q. bo_has bo db' q \<longleftrightarrow> q = [user] \<or> q = [user, bucket] \<or> bo_has bo db q) \<and> (\<forall>q k. bo_get bo db' q k = bo_get bo db q k)"
proof -
  obtain db1 where db1: "bo_create bo [user] db = Some db1" using bolt_create(1) [OF bo, of "[]" db user] u g by (auto simp: user_ok_def)
  note c1 = bolt_create(2,3) [OF bo db1]
  obtain db2 where db2: "bo_create bo [user, bucket] db1 = Some db2"
    using bolt_create(1) [OF bo, of "[user]" db1 bucket] u g c1 by auto
  show ?thesis using db1 db2 c1 bolt_create(2,3) [OF bo db2] by (auto simp: NewTorrentResumer_def)
qed

lemma NewSession_resumers:
  assumes bo: "bolt_ok bo" and u: "user_ok (se_User se)" and t: "tidy bo se db"
  shows "\<exists>db1 db2. NewTorrentResumer bo ''session'' (se_User se) db = Inr db1 \<and>
    NewTorrentResumer bo ''torrents'' (se_User se) db1 = Inr db2 \<and> buckets bo se db2 \<and>
    (\<forall>q. bo_has bo db q \<longrightarrow> bo_has bo db2 q) \<and> (\<forall>q k. bo_get bo db2 q k = bo_get bo db q k) \<and>
    (\<forall>q. bo_has bo db2 q \<longrightarrow> bo_has bo db q \<or> q \<in> {[se_User se], [se_User se, ''session''], [se_User se, ''torrents'']})"
proof -
  note t' = t [unfolded tidy_def]
  obtain db1 where db1: "NewTorrentResumer bo ''session'' (se_User se) db = Inr db1"
    "\<forall>q. bo_has bo db1 q \<longleftrightarrow> q = [se_User se] \<or> q = [se_User se, ''session''] \<or> bo_has bo db q" "\<forall>q k. bo_get bo db1 q k = bo_get bo db q k"
    using NewTorrentResumer_ok [OF bo u, of "''session''" db] t' by auto
  obtain db2 where db2: "NewTorrentResumer bo ''torrents'' (se_User se) db1 = Inr db2"
    "\<forall>q. bo_has bo db2 q \<longleftrightarrow> q = [se_User se] \<or> q = [se_User se, ''torrents''] \<or> bo_has bo db1 q" "\<forall>q k. bo_get bo db2 q k = bo_get bo db1 q k"
    using NewTorrentResumer_ok [OF bo u, of "''torrents''" db1] t' db1(3) by auto
  show ?thesis using db1 db2 by (auto simp: buckets_def)
qed

lemma fresh_session:
  assumes bo: "bolt_ok bo" and u: "user_ok (se_User se)" and db: "\<forall>q. \<not> bo_has bo db q"
    and key: "key \<noteq> []" "length key < 2147483647"
  shows "\<exists>s. NewSession bo se key chs db = Some (Inr ([], s)) \<and> kept bo se s [] {} key"
proof -
  let ?u = "se_User se" and ?p = "[se_User se, ''session'']"
  have none: "bo_get bo db q k = None" for q k using bolt_none [OF bo] db by blast
  then have t: "tidy bo se db" by (simp add: tidy_def)
  obtain db1 db2 where r: "NewTorrentResumer bo ''session'' ?u db = Inr db1" "NewTorrentResumer bo ''torrents'' ?u db1 = Inr db2"
    "buckets bo se db2" "\<forall>q k. bo_get bo db2 q k = bo_get bo db q k"
    using NewSession_resumers [OF bo u t] by (elim exE conjE) (rule that)
  let ?sp = "\<lparr>ss_UserPrivk = None, ss_TorrentIds = []\<rparr>"
  have rd: "sr_Read bo ?u ''session'' db2 = Some (?sp, Some (ErrNoKey ''user_privk''))"
    using r(3,4) none by (simp add: sr_Read_def buckets_def)
  let ?ids = "to_bytes (json_Marshal (Some []))"
  let ?db3 = "bo_put bo ?p ''torrentIds'' ?ids (bo_put bo ?p ''user_privk'' key db2)"
  let ?s = "\<lparr>ses_torrents = Some [], ses_spec = ?sp\<lparr>ss_UserPrivk := Some key\<rparr>, ses_db = ?db3\<rparr>"
  have h: "bo_has bo ?db3 q = bo_has bo db2 q" for q by (simp add: bolt_put(4) [OF bo])
  have "bo_get bo (bo_put bo ?p ''user_privk'' key db2) ?p ''user_privk'' = Some key"
    using bolt_put(1) [OF bo] r(3) key(2) by (simp add: buckets_def)
  then have gk: "bo_get bo ?db3 ?p ''user_privk'' = Some key" using bolt_put(3) [OF bo] by simp
  have gi: "bo_get bo ?db3 ?p ''torrentIds'' = Some ?ids"
    using bolt_put(1) [OF bo] bolt_put(4) [OF bo] r(3) by (simp add: buckets_def json_Marshal_def)
  have go: "bo_get bo ?db3 q k = None" if "q \<noteq> ?p" for q k using that bolt_put(2) [OF bo] r(4) none by simp
  have j: "json_Unmarshal (json_Marshal (Some [])) = Some (Some [])" by (intro json_roundtrip) simp
  have "saved_ids bo se ?db3 = []" using gk gi j h r(3) by (simp add: saved_ids_def sr_Read_def buckets_def Let_def)
  then have "kept bo se ?s [] {} key" using r(3) h gk go key by (auto simp: kept_def running_def buckets_def tidy_def)
  moreover have "NewSession bo se key chs db = Some (Inr ([], ?s))"
    using u r(1-3) rd
    by (simp add: NewSession_def getCurrentUserKey_def Let_def sr_Write_def bucket_of_def buckets_def loadExistingTorrents_def user_ok_def)
  ultimately show ?thesis by blast
qed

lemma restarted_session:
  assumes bo: "bolt_ok bo" and u: "user_ok (se_User se)" and k: "kept bo se s ts S key" and n: "length ts \<le> 1000000"
  shows "\<exists>started s'. NewSession bo se key' chs (ses_db s) = Some (Inr (started, s')) \<and>
    (\<forall>i. existTorrent i s' = map_option forget (existTorrent i s)) \<and>
    set started = (if se_ResumeOnStartup se then S else {})"
proof -
  let ?u = "se_User se"
  note r = k [unfolded kept_def running_def]
  have td: "tidy bo se (ses_db s)" using r by simp
  let ?ids = "saved_ids bo se (ses_db s)"
  have ids: "set ?ids = fst ` set ts" "length ?ids = length ts"
    using r mset_eq_setD [of ?ids "map fst ts"] mset_eq_length [of ?ids "map fst ts"] by simp_all
  obtain db1 db2 where db: "NewTorrentResumer bo ''session'' ?u (ses_db s) = Inr db1" "NewTorrentResumer bo ''torrents'' ?u db1 = Inr db2"
    "buckets bo se db2" "\<forall>q. bo_has bo (ses_db s) q \<longrightarrow> bo_has bo db2 q" "\<forall>q k. bo_get bo db2 q k = bo_get bo (ses_db s) q k"
    "\<forall>q. bo_has bo db2 q \<longrightarrow> bo_has bo (ses_db s) q \<or> q \<in> {[se_User se], [se_User se, ''session''], [se_User se, ''torrents'']}"
    using NewSession_resumers [OF bo u td] by (elim exE conjE) (rule that)
  have same: "same_torrents bo se (ses_db s) db2" using db(4-6) r by (auto simp: same_torrents_def buckets_def)
  have g: "bo_get bo db2 [?u, ''session''] = bo_get bo (ses_db s) [?u, ''session'']" using db(5) by (simp add: fun_eq_iff)
  have "sr_Read bo ?u ''session'' db2 = sr_Read bo ?u ''session'' (ses_db s)"
    using r db(3) unfolding sr_Read_def g by (simp add: buckets_def)
  moreover obtain sp e where rd: "sr_Read bo ?u ''session'' (ses_db s) = Some (sp, e)" "ss_UserPrivk sp = Some key" "ss_TorrentIds sp = ?ids"
    using r by (auto simp: saved_ids_def sr_Read_def buckets_def Let_def split: option.splits)
  ultimately have rd2: "sr_Read bo ?u ''session'' db2 = Some (sp, e)" by simp
  let ?s0 = "\<lparr>ses_torrents = Some [], ses_spec = sp, ses_db = db2\<rparr>"
  have key: "getCurrentUserKey bo se key' ?s0 = Some ?s0" using rd(2) r by (cases key) (simp_all add: getCurrentUserKey_def)
  have run: "running bo se ?s0 []" using db(3) g r by (simp add: running_def)
  have "\<forall>i\<in>set ?ids. id_ok i" "length [] + length ?ids \<le> 1000000" using r ids n by simp_all
  from load_loop_spec [OF bo run this, of chs "[]"] obtain s' ts' where
    l: "load_loop bo se chs ?ids ?s0 [] = Some (filter (was_started bo se db2) ?ids, s')" "running bo se s' ts'"
      "\<forall>i. map_of ts' i = (case read_torrent bo se db2 i of Inl _ \<Rightarrow> map_of [] i | Inr (t, _) \<Rightarrow> if i \<in> set ?ids then Some t else map_of [] i)"
    by auto
  have rt: "read_torrent bo se db2 = read_torrent bo se (ses_db s)" using same_torrents_read [OF same] by (simp add: fun_eq_iff)
  have ex: "existTorrent i s' = map_option forget (existTorrent i s)" for i
  proof (cases "map_of ts i")
    case None
    then have "i \<notin> set ?ids" using ids by (simp add: map_of_eq_None_iff)
    then show ?thesis using None l(2,3) r by (auto simp: existTorrent_def running_def split: sum.splits)
  next
    case (Some t)
    then have "(i, t) \<in> set ts" by (rule map_of_SomeD)
    moreover from this have "read_torrent bo se (ses_db s) i = Inr (forget t, i \<in> S)" using r by auto
    moreover have "i \<in> set ?ids" using ids calculation(1) by force
    ultimately show ?thesis using Some l(2,3) r by (simp add: existTorrent_def running_def rt)
  qed
  have ws: "was_started bo se db2 i \<longleftrightarrow> i \<in> S" if "i \<in> set ?ids" for i
    using that r unfolding ids(1) by (auto simp: was_started_def rt)
  have "S \<subseteq> set ?ids" using r ids by simp
  then have "set (filter (was_started bo se db2) ?ids) = S" using ws by auto
  then show ?thesis using u db(1,2) rd2 rd(3) key l(1) ex
    by (simp add: NewSession_def loadExistingTorrents_def user_ok_def)
qed

section \<open>Properties\<close>

text \<open>
  C8: A session survives its end.  Started on an empty database, a session performs any list of additions of magnet
  links, creations from files and starts; afterwards \<open>NewSession\<close> on the database it leaves restores
  exactly its torrents, each with its hash, name, directory, info and bitfield, and starts again those that were ever
  started.  Only the part of a second of the time of adding and the flag to stop after the download are lost.  The condition
  \<open>op_ok\<close> bounds the lengths of names and asks that a torrent created from a file has at most \<open>MaxPieces\<close> pieces, which \<open>CreateFile\<close>
  does not check: a larger one is saved, and the next session refuses it.
\<close>

theorem session_restart:
  assumes "bolt_ok bo" and "time_ok (se_time se)" and "user_ok (se_User se)" and "\<forall>b. length (sha1 (se_env se) b) = 20"
    and "\<forall>q. \<not> bo_has bo db q" and "key \<noteq> []" and "length key < 2147483647"
    and "\<forall>op\<in>set ops. op_ok se op" and "length ops \<le> 1000000"
  shows "\<exists>s0 s S. NewSession bo se key chs db = Some (Inr ([], s0)) \<and> performs bo se ops (s0, {}) = Some (s, S) \<and>
    (\<exists>started s'. NewSession bo se key' chs' (ses_db s) = Some (Inr (started, s')) \<and>
      (\<forall>i. existTorrent i s' = map_option (\<lambda>t. t\<lparr>st_torrent := (st_torrent t)\<lparr>stopAfterDownload := False\<rparr>,
         st_addedAt := to_second (st_addedAt t)\<rparr>) (existTorrent i s)) \<and>
      set started = (if se_ResumeOnStartup se then S else {}))"
proof -
  obtain s0 where s0: "NewSession bo se key chs db = Some (Inr ([], s0))" "kept bo se s0 [] {} key"
    using fresh_session [OF assms(1,3,5-7)] by blast
  obtain s S ts where s: "performs bo se ops (s0, {}) = Some (s, S)" "kept bo se s ts S key" "length ts \<le> 1000000"
    using performs_kept [OF assms(1,2,4,8) _ s0(2)] assms(9) by auto
  show ?thesis using s0(1) s(1) restarted_session [OF assms(1,3) s(2,3)] unfolding forget_def by blast
qed

definition sample_session_env :: "item list session_env" where
  "sample_session_env = \<lparr>se_env = sample_env, se_encode = (\<lambda>_. []), se_time = number_time, se_User = ''me'', se_DataDir = ''home'',
     se_ResumeOnStartup = True, se_maxAddrs = 10, se_host = sample_addr ''me'' 9, se_unchoked = 2, se_optimistic = 1, se_externalIP = '''',
     se_hier_ok = (\<lambda>_. True), se_multihash = (\<lambda>_. None)\<rparr>"

definition sample_link :: string where
  "sample_link = MagnetString \<lparr>ma_InfoHash = replicate 20 7, ma_Name = ''d'', ma_Trackers = [], ma_Peers = []\<rparr>"

lemma sample_link:
  "NewMagnet (se_hier_ok sample_session_env) (se_multihash sample_session_env) ch (filterOutControlChars sample_link) =
     Inr \<lparr>ma_InfoHash = replicate 20 7, ma_Name = ''d'', ma_Trackers = [], ma_Peers = []\<rparr>"
proof -
  let ?m = "\<lparr>ma_InfoHash = replicate 20 7, ma_Name = ''d'', ma_Trackers = [], ma_Peers = []\<rparr>"
  have p: "peers_plain (ma_Peers ?m)" by (simp add: peers_plain_def)
  then have "filterOutControlChars sample_link = sample_link"
    using MagnetString_chars [OF p] by (simp add: filterOutControlChars_def sample_link_def)
  then show ?thesis using NewMagnet_String [OF _ p, of "se_hier_ok sample_session_env" "se_multihash sample_session_env" ch]
    by (simp add: sample_link_def)
qed

definition sample_ops :: "session_op list" where
  "sample_ops = [Adding sample_link \<lparr>ao_Stopped = False, ao_StopAfterDownload = True, ao_DataDir = []\<rparr> 1234567890123 []]"

theorem session_restart_witness:
  "\<exists>s0 s S. NewSession list_bolt sample_session_env [1] [] ([], []) = Some (Inr ([], s0)) \<and>
    performs list_bolt sample_session_env sample_ops (s0, {}) = Some (s, S) \<and>
    (\<exists>started s'. NewSession list_bolt sample_session_env [2] [] (ses_db s) = Some (Inr (started, s')) \<and> set started = S)"
proof -
  have "\<forall>op\<in>set sample_ops. op_ok sample_session_env op"
    using sample_link by (simp add: sample_ops_def entry_ok_def) (simp add: sample_session_env_def)
  moreover have "\<forall>q. \<not> bo_has list_bolt ([], []) q" by (simp add: list_bolt_def)
  ultimately show ?thesis
    using session_restart [of list_bolt sample_session_env "([], [])" "[1]" sample_ops "[]" "[2]" "[]"] list_bolt_ok number_time_ok
    by (fastforce simp: sample_session_env_def user_ok_def sample_env_def sample_ops_def)
qed

text \<open>
  C19: A torrent that does not load is forgotten.  Every insertion during loading overwrites the saved list of identities with
  those loaded so far, so after a restart in which at least one torrent loads, the list has exactly the torrents that loaded;
  an identity whose record could not be read, or whose info the configuration now refuses, is lost even when its
  record would load again later.
\<close>

theorem unreadable_torrent_is_forgotten:
  assumes "bolt_ok bo" and "running bo se s []" and "distinct ids" and "\<forall>i\<in>set ids. id_ok i" and "length ids \<le> 1000000"
    and "\<exists>i\<in>set ids. loads bo se (ses_db s) i"
  shows "\<exists>started s'. loadExistingTorrents bo se chs ids s = Some (started, s') \<and>
    set (saved_ids bo se (ses_db s')) = {i \<in> set ids. loads bo se (ses_db s) i} \<and>
    distinct (saved_ids bo se (ses_db s')) \<and>
    (\<forall>i. read_torrent bo se (ses_db s') i = read_torrent bo se (ses_db s) i)"
proof -
  from load_loop_spec [OF assms(1,2,4), of chs "[]"] assms(5) obtain s' ts' where
    l: "load_loop bo se chs ids s [] = Some (filter (was_started bo se (ses_db s)) ids, s')" "running bo se s' ts'"
      "same_torrents bo se (ses_db s) (ses_db s')"
      "\<forall>i. map_of ts' i = (case read_torrent bo se (ses_db s) i of Inl _ \<Rightarrow> map_of [] i | Inr (t, _) \<Rightarrow> if i \<in> set ids then Some t else map_of [] i)"
      "if filter (loads bo se (ses_db s)) ids = [] then saved_ids bo se (ses_db s') = saved_ids bo se (ses_db s)
       else mset (saved_ids bo se (ses_db s')) = mset (map fst ts')"
    by auto
  have m: "mset (saved_ids bo se (ses_db s')) = mset (map fst ts')" using l(5) assms(6) by (auto simp: filter_empty_conv split: if_splits)
  have "i \<in> fst ` set ts' \<longleftrightarrow> i \<in> set ids \<and> loads bo se (ses_db s) i" for i
  proof -
    have "i \<in> fst ` set ts' \<longleftrightarrow> map_of ts' i \<noteq> None" by (simp add: map_of_eq_None_iff)
    then show ?thesis using l(4) by (auto simp: loads_def split: sum.splits)
  qed
  then have "set (saved_ids bo se (ses_db s')) = {i \<in> set ids. loads bo se (ses_db s) i}"
    using mset_eq_setD [OF m] by auto
  moreover have "distinct (saved_ids bo se (ses_db s'))"
    using l(2) mset_eq_imp_distinct_iff [OF m] by (simp add: running_def)
  ultimately show ?thesis using l(1) same_torrents_read [OF l(3)] by (auto simp: loadExistingTorrents_def)
qed

definition sample_half_db :: "string list list \<times> ((string list \<times> string) \<times> byte list) list" where
  "sample_half_db = ([[''me''], [''me'', ''torrents''], [''me'', ''session''], [''me'', ''torrents'', EncodeToString (replicate 20 7)]],
     [(([''me'', ''session''], ''user_privk''), [1]),
      (([''me'', ''torrents'', EncodeToString (replicate 20 7)], ''info_hash''), replicate 20 7),
      (([''me'', ''torrents'', EncodeToString (replicate 20 7)], ''data_dir''), [65])])"

lemma sample_half_db_read:
  "loads list_bolt sample_session_env sample_half_db (EncodeToString (replicate 20 7))"
  "\<not> loads list_bolt sample_session_env sample_half_db (EncodeToString (replicate 20 8))"
proof -
  have "EncodeToString (replicate 20 7) \<noteq> EncodeToString (replicate 20 8)" by code_simp
  then show "loads list_bolt sample_session_env sample_half_db (EncodeToString (replicate 20 7))"
    "\<not> loads list_bolt sample_session_env sample_half_db (EncodeToString (replicate 20 8))"
    by (simp_all add: loads_def read_torrent_def tr_Read_def bucket_of_def list_bolt_def sample_half_db_def sample_session_env_def
        read_spec_def field_def load_spec_def make_torrent_def newTorrent2_def of_bytes_def)
qed

theorem unreadable_torrent_is_forgotten_witness:
  "\<exists>started s'. loadExistingTorrents list_bolt sample_session_env [] [EncodeToString (replicate 20 7), EncodeToString (replicate 20 8)]
      \<lparr>ses_torrents = Some [], ses_spec = \<lparr>ss_UserPrivk = None, ss_TorrentIds = []\<rparr>, ses_db = sample_half_db\<rparr> = Some (started, s') \<and>
    set (saved_ids list_bolt sample_session_env (ses_db s')) = {EncodeToString (replicate 20 7)}"
proof -
  let ?a = "EncodeToString (replicate 20 7)" and ?b = "EncodeToString (replicate 20 8)"
  let ?s = "\<lparr>ses_torrents = Some [], ses_spec = \<lparr>ss_UserPrivk = None, ss_TorrentIds = []\<rparr>, ses_db = sample_half_db\<rparr>"
  have "running list_bolt sample_session_env ?s []"
    by (simp add: running_def buckets_def list_bolt_def sample_half_db_def sample_session_env_def)
  moreover have "?a \<noteq> ?b" using sample_half_db_read by metis
  moreover have "id_ok ?a" "id_ok ?b" by (simp_all add: id_ok_def hex_id)
  moreover have "{i \<in> set [?a, ?b]. loads list_bolt sample_session_env sample_half_db i} = {?a}" using sample_half_db_read by auto
  ultimately show ?thesis
    using unreadable_torrent_is_forgotten [OF list_bolt_ok, of sample_session_env ?s "[?a, ?b]" "[]"] sample_half_db_read by auto
qed

text \<open>
  C20: After \<open>RemoveData\<close> the session cannot add.  \<open>RemoveData\<close> deletes the two buckets that only
  \<open>NewSession\<close> creates, so the next addition of a link, and the next creation of a torrent that is readable, uses a nil bucket and panics.
\<close>

theorem add_after_remove_panics:
  assumes "bolt_ok bo" and "buckets bo se (ses_db s)" 
    and "NewMagnet (se_hier_ok se) (se_multihash se) ch (filterOutControlChars uri) = Inr ma"
  shows "\<exists>s'. RemoveData bo se s = Some s' \<and> ses_torrents s' = Some [] \<and>
    (\<forall>opt time. AddFileId bo se uri opt time ch s' = None)"
proof -
  let ?u = "se_User se"
  have h: "bo_has bo (ses_db s) [?u]" "bo_has bo (ses_db s) [?u, ''session'']" "bo_has bo (ses_db s) [?u, ''torrents'']"
    using assms(2) by (simp_all add: buckets_def)
  obtain db1 where db1: "bo_delete bo [?u, ''session''] (ses_db s) = Some db1" using bolt_delete(1) [OF assms(1) h(2)] by blast
  have h1: "bo_has bo db1 [?u]" "bo_has bo db1 [?u, ''torrents'']"
    using bolt_delete(2) [OF assms(1) db1] h by (auto simp: below_def)
  obtain db2 where db2: "bo_delete bo [?u, ''torrents''] db1 = Some db2" using bolt_delete(1) [OF assms(1) h1(2)] by blast
  have h2: "\<not> bo_has bo db2 [?u, ''torrents'']" using bolt_delete(2) [OF assms(1) db2] by (simp add: below_def)
  let ?s = "s\<lparr>ses_torrents := Some [], ses_db := db2\<rparr>"
  have "RemoveData bo se s = Some ?s" using h h1 db1 db2 by (simp add: RemoveData_def CloseSession_def tr_Del_def)
  moreover have "AddFileId bo se uri opt time ch ?s = None" for opt time
    using assms(3) NewMagnet_hash [OF assms(3)] h2
    by (simp add: AddFileId_def addFileId_def addMagnet_def Let_def existTorrent_def make_torrent_def newTorrent2_def tr_Write_def bucket_of_def)
  ultimately show ?thesis by (intro exI [of _ ?s]) simp
qed

theorem add_after_remove_panics_witness:
  "\<exists>s'. RemoveData list_bolt sample_session_env \<lparr>ses_torrents = Some [], ses_spec = \<lparr>ss_UserPrivk = None, ss_TorrentIds = []\<rparr>, ses_db = sample_db\<rparr>
      = Some s' \<and>
    AddFileId list_bolt sample_session_env sample_link
      \<lparr>ao_Stopped = False, ao_StopAfterDownload = True, ao_DataDir = []\<rparr> 5 [] s' = None"
proof -
  have "buckets list_bolt sample_session_env sample_db"
    by (simp add: buckets_def list_bolt_def sample_db_def sample_session_env_def)
  then show ?thesis
    using add_after_remove_panics [OF list_bolt_ok _ sample_link, of "\<lparr>ses_torrents = Some [], ses_spec = \<lparr>ss_UserPrivk = None, ss_TorrentIds = []\<rparr>, ses_db = sample_db\<rparr>" "[]"]
    by auto
qed

end
