(* ===== verification/Spec2Isabelle.thy ===== *)
theory Spec2Isabelle
  imports Go_Prelude Bitfield Metainfo Piece PeerProtocol SliceSet PeerState PiecePicker Webseed PieceDownloader
    Unchoker InfoDownloader AddrList PieceCache CacheReaders ResourceManager Workers Verification Torrent TorrentHandlers PeerConn TorrentProps TorrentStats
    Blocklist Trackers Encoding Magnet Resumer Session
begin

text \<open>
  go-file is a peer-to-peer file client in Go, derived from a BitTorrent client: torrents are
  described by an info dictionary, peers speak the BitTorrent wire protocol with the fast extension over libp2p streams,
  and a session keeps its torrents in a bbolt database.  This development models the code that decides what the program
  does: parsing and validation, the data structures, the event loop of a torrent with everything it calls, the workers that
  touch the disk, and the session that saves and loads torrents.  Paths below are relative to the repository.

  \<^bold>\<open>How Go is modelled.\<close>  \<open>Go_Prelude\<close> fixes the conventions.  A function that may panic (index out of range, nil pointer,
  closed channel, explicit \<open>panic\<close>) returns an option and \<open>None\<close> is the panic; a Go \<open>error\<close> is the left side of a
  sum or a field of the result.  \<open>uint32\<close> and friends are words; \<open>int\<close> and \<open>int64\<close> are integers with \<open>wrap64\<close> where an
  overflow is possible.  The order in which a map is iterated, the order that an unstable sort leaves, and random draws are taken from an
  explicit list of \<open>choices\<close>, so that a theorem for all choices holds for every schedule.  Structs are records;
  pointers that are shared are numbers into a heap (\<open>ptr\<close>).  Goroutines that a component starts are events of its loop:
  what a goroutine sends is delivered by an event that may come at any later step.  Loops are structural functions, functions with a
  measure, or \<open>partial_function (option)\<close> where they need not end; for these, returning is a theorem (\<open>NewPieces_tiles_files\<close>,
  \<open>dialling_ends\<close>, \<open>info_is_assembled\<close>).

  \<^bold>\<open>The theories.\<close>  Data and formats:
  \<^item> \<open>Bitfield\<close>: \<open>internal/bitfield\<close>.  The operations implement a set of indices (locale \<open>bitmap\<close>).
  \<^item> \<open>Metainfo\<close>: \<open>internal/metainfo/info.go\<close> and \<open>Session.parseInfo\<close>.  What an accepted dictionary guarantees; a created one is accepted.
  \<^item> \<open>Piece\<close>: \<open>internal/piece\<close>, \<open>internal/filesection\<close>.  Pieces tile the files, blocks tile a piece, written pieces read back.
  \<^item> \<open>PeerProtocol\<close>: \<open>external/peerprotocol\<close>, \<open>external/peerconn/peerreader\<close>, \<open>peerwriter\<close>.  Frames round trip, sizes and queues are bounded;
    an \<open>AllowedFastMessage\<close> has the id of the \<open>HaveMessage\<close> it embeds and arrives as one.
  \<^item> \<open>Encoding\<close>, \<open>Magnet\<close>: the text encodings of the standard library that the program uses, with their round trips, and \<open>internal/magnet\<close>.
  \<^item> \<open>Trackers\<close>: the formats of \<open>internal/tracker\<close>, the lists of \<open>external/pexlist\<close> and the fast set of \<open>internal/fast\<close>.
  \<^item> \<open>Blocklist\<close>: \<open>internal/blocklist\<close> and its segment tree, equivalent to a linear search of the rules.

  Components with a state of their own:
  \<^item> \<open>SliceSet\<close>: \<open>external/peerset\<close>, \<open>internal/pieceset\<close> (locale \<open>slice_set\<close>, interpreted on both).
  \<^item> \<open>PeerState\<close>: the fields and methods of \<open>external/peer\<close> that the torrent uses.
  \<^item> \<open>PeerConn\<close>: \<open>external/peerconn\<close>, the goroutines of one connection as interleaved steps over its channels.  The torrent may call \<open>Peer.Close\<close>
    again; that is the only panic.
  \<^item> \<open>PiecePicker\<close>: \<open>external/piecepicker\<close>; the steps \<open>picker_step\<close> keep an invariant and pick only permitted pieces.
  \<^item> \<open>Webseed\<close>: \<open>internal/urldownloader\<close>, \<open>internal/webseedsource\<close> and the reservations for them in the picker.  Nothing under \<open>src/\<close> uses
    them.  \<open>URLDownloader.Run\<close> takes two steps for each piece, before and after it sends the result, so that the end of its range may change in between.
  \<^item> \<open>PieceDownloader\<close>, \<open>InfoDownloader\<close>: \<open>internal/piecedownloader\<close>, \<open>internal/infodownloader\<close>; runs in any order of arrival assemble the data.
  \<^item> \<open>Unchoker\<close>: \<open>internal/unchoker\<close>, the rounds of choking.
  \<^item> \<open>AddrList\<close>: \<open>external/addrlist\<close>, \<open>external/peerpriority\<close>, \<open>internal/externalip\<close>.  Its B-tree (\<open>github.com/google/btree\<close>) is
    the parameter \<open>btree\<close> with the laws \<open>btree_ok\<close> of its documentation.
  \<^item> \<open>PieceCache\<close>: \<open>internal/piececache\<close>, \<open>internal/cachedpiece\<close>, one call after another; \<open>CacheReaders\<close>: any number of calls at a time.
  \<^item> \<open>ResourceManager\<close>: \<open>internal/resourcemanager\<close> as a state machine with bounded memory.
  \<^item> \<open>Workers\<close>: \<open>internal/allocator\<close>, \<open>internal/storage/filestorage\<close>, \<open>internal/verifier\<close>, \<open>internal/piecewriter\<close>, \<open>internal/semaphore\<close>;
    \<open>Verification\<close> composes them with \<open>Metainfo\<close> and \<open>Piece\<close>.

  The torrent (\<open>filechain/torrent*.go\<close>):
  \<^item> \<open>Torrent\<close>: the state and the operations, in the order of the files; \<open>TorrentHandlers\<close>: the handlers and \<open>run_step\<close>, one event of the loop.
  \<^item> \<open>TorrentInv\<close>, \<open>TorrentSafety\<close>, \<open>TorrentEvents\<close>, \<open>TorrentRuns\<close>: the invariant of the loop, first for the operations, then for every event.
  \<^item> \<open>TorrentProps\<close>: \<open>torrent_reachable\<close> and the properties of every reachable state; \<open>TorrentStats\<close>: \<open>filechain/torrent_stats.go\<close>.

  The session:
  \<^item> \<open>Resumer\<close>: \<open>external/resumer/boltdbresumer\<close>.  bbolt is the record \<open>bolt\<close> with the laws \<open>bolt_ok\<close> of its documentation,
    the formats of package \<open>time\<close> are the record \<open>time_format\<close> with \<open>time_ok\<close>; a database kept as lists satisfies the laws.
  \<^item> \<open>Session\<close>: \<open>filechain/session.go\<close>, \<open>session_add.go\<close>, \<open>session_load.go\<close>, \<open>session_user.go\<close>.

  \<^bold>\<open>How the parts meet.\<close>  A session adds or loads a torrent and saves it through the resumer.  The loop of a torrent takes peers from the
  address list, hands what their readers deliver (\<open>Run\<close> of \<open>PeerProtocol\<close>) to the handlers, asks the picker for pieces and the resource manager for memory,
  starts the workers, and answers through the writers.  \<open>port_message_panics\<close> below follows bytes from the wire into the loop;
  \<open>created_torrent_verifies\<close>, \<open>written_pieces_verify\<close> and \<open>session_restart\<close> follow data through metainfo, storage, verifier and database.

  \<^bold>\<open>Parameters.\<close>  Code that is not in the repository is an argument of the definitions that use it: SHA-1, the bencode codec,
  the B-tree, bbolt, the outcome of dialling, of finding providers and of requests to the operating system, and the multihash decoder.  Sizes that make
  the bounds of a theorem (a million torrents, keys below \<open>2 ^ 31 - 1\<close> bytes, times before the year 10000) are hypotheses of it.

  \<^bold>\<open>Not modelled.\<close>  Deadlines, rate limits, logging and metrics; the libp2p host, its DHT and \<open>external/p2p\<close>; the command line programs under \<open>cmd\<close>.
  The packages that no program of the repository reaches, kept from the client it was derived from: \<open>internal/console\<close>, \<open>internal/rpctypes\<close>, \<open>rainrpc\<close>,
  \<open>internal/jsonutil\<close>, the clients of \<open>internal/tracker\<close> with \<open>udptracker\<close> and \<open>httptracker\<close> but for their formats, \<open>internal/trackermanager\<close>, \<open>internal/announcer\<close>, \<open>internal/mse\<close>, \<open>internal/btconn\<close>,
  \<open>internal/acceptor\<close>, \<open>internal/handshaker\<close>, and the TCP versions under \<open>internal\<close> of the packages of \<open>external\<close> (\<open>peer\<close>, \<open>peerconn\<close>,
  \<open>peerprotocol\<close>, \<open>piecepicker\<close>, \<open>addrlist\<close>, \<open>resumer\<close>, \<open>pexlist\<close>).  The manifest gives the reason for each.
\<close>

section \<open>From the wire to the event loop\<close>

text \<open>
  C17: The reader accepts a port message and hands it on, but the event loop has no case for it: any peer can end the process
  with seven bytes, whatever the state of the torrent.
\<close>

theorem port_message_panics:
  "\<exists>ms e p. Run c ([0, 0, 0, 3, 9, hi, lo] @ rest) = (Port p # ms, e) \<and> p = be16 [hi, lo] \<and>
     run_step env (EvMessage pe (FromReader (Port p))) t = None"
proof -
  have "get_u32 0 0 0 3 = 3" by code_simp
  then have "read_message c ([0, 0, 0, 3, 9, hi, lo] @ rest) = RMsg (Port (be16 [hi, lo])) rest"
    by (simp add: read_message_def read_n_def read_body_def read_fixed_def be32_def Let_def)
  then have "Run c ([0, 0, 0, 3, 9, hi, lo] @ rest) = (Port (be16 [hi, lo]) # fst (Run c rest), snd (Run c rest))"
    by (subst Run.simps) (simp add: split_beta)
  moreover have "run_step env (EvMessage pe (FromReader (Port p))) t = None" for p
    by (simp add: handlePeerMessage_def)
  ultimately show ?thesis by blast
qed

end
